(* ===== verification/Prelude.thy ===== *)
theory Prelude
  imports Main "HOL-Library.Word"
begin

text \<open>
  Types and generic lemmas shared by every component.

  The program is C, so three things that C leaves implicit are values here.
  \<^item> A failure is a value of \<open>fault\<close>: an \<open>abort()\<close> or a failed \<open>assert\<close> is \<open>Aborted\<close>; a use of
    memory the standard gives no meaning to (null, out of range, never written, freed) is the fault
    with that name; a loop that never ends is \<open>Diverges\<close>. A computation that can fail has type
    \<open>'a res\<close>.
  \<^item> A machine integer is a word of its width: \<open>uint8_t\<close>, \<open>uint16_t\<close>, \<open>unsigned\<close>, \<open>size_t\<close>.
  \<^item> A C string is the list of its bytes before the terminating zero; a character array is a list
    of cells, each a byte or not yet written.
\<close>

section \<open>Bytes, words and characters\<close>

type_synonym byte = "8 word"
type_synonym u16 = "16 word"
type_synonym u32 = "32 word"
type_synonym u64 = "64 word"
type_synonym cstring = "byte list"
type_synonym cell = "byte option"

named_theorems res_simps "rules for computations that may fail"

definition str :: "string \<Rightarrow> cstring" where
  "str s = List.map of_char s"

abbreviation (input) CR :: byte where "CR \<equiv> 13"
abbreviation (input) LF :: byte where "LF \<equiv> 10"
abbreviation (input) SP :: byte where "SP \<equiv> 32"
abbreviation (input) DOT :: byte where "DOT \<equiv> 46"

definition crlf :: cstring where
  "crlf = [CR, LF]"

lemma length_str [simp]: "length (str s) = length s"
  by (simp add: str_def)

lemma str_Nil [simp]: "str [] = []"
  by (simp add: str_def)

lemma str_Cons [simp]: "str (c # s) = of_char c # str s"
  by (simp add: str_def)

lemma length_crlf [simp]: "length crlf = 2"
  by (simp add: crlf_def)

lemma unat_lt: "unat (w :: 'a::len word) < 2 ^ LENGTH('a)"
  by (rule unsigned_less)

section \<open>Computations that may fail\<close>

datatype fault = Aborted | NullDeref | OutOfBounds | UninitRead | UseAfterFree | Diverges

type_synonym 'a res = "fault + 'a"

definition rbind :: "'a res \<Rightarrow> ('a \<Rightarrow> 'b res) \<Rightarrow> 'b res" where
  "rbind m f = (case m of Inl e \<Rightarrow> Inl e | Inr x \<Rightarrow> f x)"

definition rassert :: "bool \<Rightarrow> fault \<Rightarrow> unit res" where
  "rassert b e = (if b then Inr () else Inl e)"

lemma rbind_Inl [simp, res_simps]: "rbind (Inl e) f = Inl e"
  by (simp add: rbind_def)

lemma rbind_Inr [simp, res_simps]: "rbind (Inr x) f = f x"
  by (simp add: rbind_def)

lemma rbind_eq_Inr [res_simps]: "rbind m f = Inr y \<longleftrightarrow> (\<exists>x. m = Inr x \<and> f x = Inr y)"
  by (cases m) auto

lemma rbind_eq_Inl [res_simps]:
  "rbind m f = Inl e \<longleftrightarrow> m = Inl e \<or> (\<exists>x. m = Inr x \<and> f x = Inl e)"
  by (cases m) auto

lemma rbind_assoc: "rbind (rbind m f) g = rbind m (\<lambda>x. rbind (f x) g)"
  by (cases m) auto

lemma rassert_True [simp]: "b \<Longrightarrow> rassert b e = Inr ()"
  by (simp add: rassert_def)

lemma rassert_eq_Inr [res_simps]: "rassert b e = Inr u \<longleftrightarrow> b"
  by (simp add: rassert_def)

lemma rassert_eq_Inl [res_simps]: "rassert b e = Inl e' \<longleftrightarrow> \<not> b \<and> e' = e"
  by (auto simp add: rassert_def)

lemma rassert_False [simp]: "\<not> b \<Longrightarrow> rassert b e = Inl e"
  by (simp add: rassert_def)

section \<open>C strings and character arrays\<close>

text \<open>The string a \<open>char *\<close> into an array denotes: the bytes up to the first zero.\<close>

fun c_string :: "cell list \<Rightarrow> cstring res" where
  "c_string [] = Inl OutOfBounds"
| "c_string (None # cs) = Inl UninitRead"
| "c_string (Some c # cs) = (if c = 0 then Inr [] else rbind (c_string cs) (\<lambda>s. Inr (c # s)))"

text \<open>The same read of memory whose every byte has been written.\<close>

fun mem_string :: "byte list \<Rightarrow> cstring res" where
  "mem_string [] = Inl OutOfBounds"
| "mem_string (c # cs) = (if c = 0 then Inr [] else rbind (mem_string cs) (\<lambda>s. Inr (c # s)))"

text \<open>\<open>strncpy\<close> fills the count with zeros, or cuts the string and leaves out the zero.\<close>

definition strncpy :: "byte list \<Rightarrow> cstring \<Rightarrow> nat \<Rightarrow> byte list" where
  "strncpy dst src n = take n (src @ replicate n 0) @ drop n dst"

text \<open>An array cell written through an index.\<close>

definition store_at :: "nat \<Rightarrow> 'a \<Rightarrow> 'a list \<Rightarrow> 'a list res" where
  "store_at i x xs = (if i < length xs then Inr (xs[i := x]) else Inl OutOfBounds)"

definition load_at :: "nat \<Rightarrow> 'a list \<Rightarrow> 'a res" where
  "load_at i xs = (if i < length xs then Inr (xs ! i) else Inl OutOfBounds)"

lemma store_at_ok [simp]: "i < length xs \<Longrightarrow> store_at i x xs = Inr (xs[i := x])"
  by (simp add: store_at_def)

lemma store_at_bad [simp]: "\<not> i < length xs \<Longrightarrow> store_at i x xs = Inl OutOfBounds"
  by (simp add: store_at_def)

lemma load_at_ok [simp]: "i < length xs \<Longrightarrow> load_at i xs = Inr (xs ! i)"
  by (simp add: load_at_def)

lemma load_at_bad [simp]: "\<not> i < length xs \<Longrightarrow> load_at i xs = Inl OutOfBounds"
  by (simp add: load_at_def)

lemma mem_string_append_zero:
  "0 \<notin> set s \<Longrightarrow> mem_string (s @ 0 # rest) = Inr s"
  by (induction s) auto

lemma c_string_append_zero:
  "c_string (List.map Some s @ Some 0 # rest) = Inr (takeWhile (\<lambda>c. c \<noteq> 0) s)"
  by (induction s) auto

section \<open>The counting loop of C\<close>

text \<open>
  \<^verbatim>\<open>for (unsigned i = i0; i <= m; i++) body\<close>: the counter is a 32-bit word, so with
  \<open>m = UINT_MAX\<close> the guard never fails and only a fault of the body ends the loop. \<open>c_for\<close> is the
  loop itself (\<open>None\<close> when it does not return) and \<open>for_le\<close> runs it from 0.
\<close>

partial_function (option) c_for ::
  "(u32 \<Rightarrow> 's \<Rightarrow> 's res) \<Rightarrow> u32 \<Rightarrow> u32 \<Rightarrow> 's \<Rightarrow> 's res option" where
  "c_for body m i s =
     (if i \<le> m then
        (case body i s of Inl e \<Rightarrow> Some (Inl e) | Inr s' \<Rightarrow> c_for body m (i + 1) s')
      else Some (Inr s))"

definition for_le :: "(u32 \<Rightarrow> 's \<Rightarrow> 's res) \<Rightarrow> u32 \<Rightarrow> 's \<Rightarrow> 's res" where
  "for_le body m s = (case c_for body m 0 s of None \<Rightarrow> Inl Diverges | Some r \<Rightarrow> r)"

text \<open>The same loop over natural numbers \<open>i\<close>, \<open>i + 1\<close>, \dots, for \<open>n\<close> rounds.\<close>

fun for_nat :: "(u32 \<Rightarrow> 's \<Rightarrow> 's res) \<Rightarrow> nat \<Rightarrow> nat \<Rightarrow> 's \<Rightarrow> 's res" where
  "for_nat body 0 i s = Inr s"
| "for_nat body (Suc n) i s = rbind (body (of_nat i) s) (for_nat body n (Suc i))"

lemma unat_of_nat_u32: "n < 2 ^ 32 \<Longrightarrow> unat (of_nat n :: u32) = n"
  by (simp add: unat_of_nat take_bit_nat_eq_self)

lemma c_for_nat:
  assumes "unat m < 2 ^ 32 - 1" "i + n = Suc (unat m)"
  shows "c_for body m (of_nat i) s = Some (for_nat body n i s)"
  using assms(2)
proof (induction n arbitrary: i s)
  case 0
  then have "unat (of_nat i :: u32) = i"
    using assms(1) by (intro unat_of_nat_u32) simp
  with 0 have "\<not> (of_nat i :: u32) \<le> m" by (simp add: word_le_nat_alt)
  then show ?case by (simp add: c_for.simps)
next
  case (Suc n)
  then have "unat (of_nat i :: u32) = i"
    using assms(1) by (intro unat_of_nat_u32) simp
  with Suc.prems have le: "(of_nat i :: u32) \<le> m" by (simp add: word_le_nat_alt)
  have succ: "(of_nat i :: u32) + 1 = of_nat (Suc i)" by simp
  from le Suc.IH [of "Suc i"] Suc.prems succ show ?case
    by (simp add: c_for.simps [of body m "of_nat i"] add.commute split: sum.splits)
qed

lemma for_le_nat:
  assumes "unat m < 2 ^ 32 - 1"
  shows "for_le body m s = for_nat body (Suc (unat m)) 0 s"
  using c_for_nat [OF assms, of 0 "Suc (unat m)" body s] by (simp add: for_le_def del: for_nat.simps)

text \<open>With the bound at \<open>UINT_MAX\<close> a body that never fails makes the loop run for ever.\<close>

lemma c_for_max:
  assumes total: "\<And>i s. \<exists>s'. body i s = Inr s'"
  shows "c_for body (- 1) i s = None"
proof (rule ccontr)
  assume "c_for body (- 1) i s \<noteq> None"
  then obtain r where ret: "c_for body (- 1) i s = Some r" by auto
  have "body = body \<longrightarrow> (- 1 :: u32) = - 1 \<longrightarrow> False"
  proof (rule c_for.raw_induct [where P = "\<lambda>b m i s r. b = body \<longrightarrow> m = - 1 \<longrightarrow> False", OF _ ret])
    fix f b m i s r
    assume IH: "\<And>b m i s r. f b m i s = Some r \<Longrightarrow> b = body \<longrightarrow> m = (- 1 :: u32) \<longrightarrow> False"
      and eq: "(if i \<le> m then case b i s of Inl e \<Rightarrow> Some (Inl e) | Inr s' \<Rightarrow> f b m (i + 1) s'
         else Some (Inr s)) = Some r"
    show "b = body \<longrightarrow> m = - 1 \<longrightarrow> False"
    proof (intro impI)
      assume b: "b = body" and m: "m = - 1"
      obtain s' where "body i s = Inr s'" using total by blast
      with eq b m have "f b m (i + 1) s' = Some r" by simp
      from IH [OF this] b m show False by simp
    qed
  qed
  then show False by simp
qed

lemma for_le_max:
  assumes "\<And>i s. \<exists>s'. body i s = Inr s'"
  shows "for_le body (- 1) s = Inl Diverges"
  by (simp add: for_le_def c_for_max [OF assms])

end
