(* ===== verification/Maildir.thy ===== *)
theory Maildir
  imports Prelude
begin

text \<open>
  The inbox of a session (\<^verbatim>\<open>src/server/email.c\<close>): the part of \<open>struct pop3\<close> that describes the
  loaded mails, and \<open>load_mails\<close>, which reads the user's directory again before most commands. What
  the operating system answers is the argument \<open>os\<close>: the names \<open>opendir\<close> and \<open>readdir\<close> give for a
  path, in their order, the size \<open>stat\<close> gives for a file and the descriptor \<open>open\<close> gives for it.
\<close>

section \<open>The mailbox part of a session\<close>

record mail_t =
  file_path :: cstring
  mail_size :: u64

text \<open>A cell of the array of pointers to mails.\<close>

datatype mail_slot = Uninit | Freed | Mail mail_t

record mailbox =
  cred_user :: "cstring option"
  cred_pass :: "cstring option"
  total_octates :: u64
  original_total_octates :: u64
  mail_qty :: u32
  max_index :: u32
  mails :: "mail_slot list option"
  dele_flags :: "byte list"

record os =
  opendir :: "cstring \<Rightarrow> cstring list option"
  stat_size :: "cstring \<Rightarrow> u64 option"
  open_mail :: "cstring \<Rightarrow> int"

definition MAX_MAILS :: nat where "MAX_MAILS = 30"
definition BLOCK :: nat where "BLOCK = 20"
definition CUR :: cstring where "CUR = str ''/cur/''"
definition INITIAL_PATH :: cstring where "INITIAL_PATH = str ''./directories/''"

text \<open>\<open>p3->mails[i]\<close>, followed to the mail.\<close>

definition mail_at :: "'a mailbox_scheme \<Rightarrow> nat \<Rightarrow> mail_t res" where
  "mail_at m i = (case mails m of None \<Rightarrow> Inl NullDeref | Some sl \<Rightarrow>
     rbind (load_at i sl) (\<lambda>s. case s of Uninit \<Rightarrow> Inl UninitRead | Freed \<Rightarrow> Inl UseAfterFree | Mail x \<Rightarrow> Inr x))"

section \<open>Opening and loading\<close>

text \<open>The new path is copied; the old copy is freed unless it equals the initial one.\<close>

definition change_maildir :: "cstring \<Rightarrow> cstring \<Rightarrow> int \<times> cstring" where
  "change_maildir path_to_maildir new_path = (0, new_path)"

definition open_maildir :: "os \<Rightarrow> 'a mailbox_scheme \<Rightarrow> cstring \<Rightarrow> cstring list option res" where
  "open_maildir os m path =
     (case cred_user m of None \<Rightarrow> Inl NullDeref | Some user \<Rightarrow> Inr (opendir os (path @ user @ CUR)))"

text \<open>Never called: the loop leaves the entry null, and its name is asked for. \<open>fgets(buf, 100, f)\<close> stops after a newline.\<close>

fun last_entry :: "cstring list \<Rightarrow> cstring option" where
  "last_entry [] = None"
| "last_entry (d # ds) = last_entry ds"

fun fgets :: "nat \<Rightarrow> byte list \<Rightarrow> cstring" where
  "fgets 0 bs = []"
| "fgets (Suc n) [] = []"
| "fgets (Suc n) (b # bs) = (if b = LF then [b] else b # fgets n bs)"

definition read_mail :: "(cstring \<Rightarrow> byte list option) \<Rightarrow> cstring list option \<Rightarrow> 'a mailbox_scheme \<Rightarrow> cstring \<Rightarrow> cstring res" where
  "read_mail file directory m path =
     (case directory of
       None \<Rightarrow> Inl NullDeref
     | Some entries \<Rightarrow>
         case cred_user m of
           None \<Rightarrow> Inl NullDeref
         | Some user \<Rightarrow>
             case last_entry entries of
               None \<Rightarrow> Inl NullDeref
             | Some name \<Rightarrow>
                 case file (path @ user @ CUR @ name) of None \<Rightarrow> Inl NullDeref | Some bs \<Rightarrow> Inr (fgets 99 bs))"

definition free_mails :: "'a mailbox_scheme \<Rightarrow> 'a mailbox_scheme res" where
  "free_mails m =
     (case mails m of
       None \<Rightarrow> Inr m
     | Some _ \<Rightarrow>
         for_le (\<lambda>i m. rbind (mail_at m (unat i)) (\<lambda>_.
           Inr (m\<lparr>mails := map_option (\<lambda>sl. sl[unat i := Freed]) (mails m)\<rparr>))) (max_index m) m)"

definition realloc_mails :: "nat \<Rightarrow> mail_slot list option \<Rightarrow> mail_slot list" where
  "realloc_mails n old =
     (let sl = (case old of None \<Rightarrow> [] | Some sl \<Rightarrow> sl) in take n sl @ replicate (n - length sl) Uninit)"

text \<open>
  The body of the loop for one entry. \<open>st\<close> is \<open>file_statistics.st_size\<close>: when \<open>stat\<close> fails it keeps
  the value of the entry before, or has none.
\<close>

definition load_one ::
  "os \<Rightarrow> cstring \<Rightarrow> cstring \<Rightarrow> nat \<times> u64 option \<times> 'a mailbox_scheme \<Rightarrow> (nat \<times> u64 option \<times> 'a mailbox_scheme) res" where
  "load_one os path name = (\<lambda>(i, st, m).
     if name \<noteq> str ''.'' \<and> name \<noteq> str ''..'' then
       (case cred_user m of None \<Rightarrow> Inl NullDeref | Some user \<Rightarrow>
         let fp = path @ user @ CUR @ name;
             st' = (case stat_size os fp of None \<Rightarrow> st | Some sz \<Rightarrow> Some sz)
         in case st' of None \<Rightarrow> Inl UninitRead | Some sz \<Rightarrow>
           let m1 = (if i mod BLOCK = 0 then m\<lparr>mails := Some (realloc_mails (BLOCK + i) (mails m))\<rparr> else m)
           in case mails m1 of None \<Rightarrow> Inl NullDeref | Some sl \<Rightarrow>
             rbind (store_at i (Mail \<lparr>file_path = fp, mail_size = sz\<rparr>) sl) (\<lambda>sl'.
             rbind (load_at i (dele_flags m1)) (\<lambda>flag.
             let m2 = m1\<lparr>mails := Some sl'\<rparr>;
                 m3 = (if flag = 0 then m2\<lparr>mail_qty := mail_qty m2 + 1, total_octates := total_octates m2 + sz\<rparr>
                       else m2)
             in Inr (Suc i, st', m3))))
     else Inr (i, st, m))"

fun load_loop ::
  "os \<Rightarrow> cstring \<Rightarrow> cstring list \<Rightarrow> nat \<times> u64 option \<times> 'a mailbox_scheme
    \<Rightarrow> (nat \<times> u64 option \<times> 'a mailbox_scheme) res" where
  "load_loop os path [] x = Inr x"
| "load_loop os path (d # ds) x =
     (if fst x < MAX_MAILS then rbind (load_one os path d x) (load_loop os path ds) else Inr x)"

text \<open>The function ends with an empty loop up to \<open>max_index\<close>, which has wrapped for no mails.\<close>

definition load_mails :: "os \<Rightarrow> cstring \<Rightarrow> 'a mailbox_scheme \<Rightarrow> 'a mailbox_scheme res" where
  "load_mails os path m =
     rbind (open_maildir os m path) (\<lambda>directory.
     case directory of None \<Rightarrow> Inl NullDeref | Some names \<Rightarrow>
       rbind (if max_index m \<noteq> 0 then free_mails m else Inr m) (\<lambda>m1.
       rbind (load_loop os path names
               (0, None, m1\<lparr>mail_qty := 0, max_index := 0, total_octates := 0\<rparr>)) (\<lambda>(i, _, m2).
       let m3 = m2\<lparr>max_index := of_nat i - 1\<rparr>;
           m4 = m3\<lparr>original_total_octates := total_octates m3\<rparr>
       in for_le (\<lambda>i s. Inr s) (max_index m4) m4)))"

section \<open>What loading gives\<close>

definition mail_files :: "cstring list \<Rightarrow> cstring list" where
  "mail_files names = List.filter (\<lambda>n. n \<noteq> str ''.'' \<and> n \<noteq> str ''..'') names"

definition mail_of :: "os \<Rightarrow> cstring \<Rightarrow> cstring \<Rightarrow> cstring \<Rightarrow> mail_t" where
  "mail_of os path user name =
     \<lparr>file_path = path @ user @ CUR @ name, mail_size = the (stat_size os (path @ user @ CUR @ name))\<rparr>"

definition unmarked :: "byte list \<Rightarrow> nat \<Rightarrow> mail_t list \<Rightarrow> mail_t list" where
  "unmarked flags i ms = List.map snd (List.filter (\<lambda>(k, _). flags ! k = 0) (enumerate i ms))"

definition octets :: "mail_t list \<Rightarrow> u64" where
  "octets ms = sum_list (List.map mail_size ms)"

text \<open>The array holds the mails \<open>ms\<close> from cell \<open>i\<close> on.\<close>

definition holds :: "'a mailbox_scheme \<Rightarrow> nat \<Rightarrow> mail_t list \<Rightarrow> bool" where
  "holds m i ms \<longleftrightarrow> (\<forall>k < length ms. mail_at m (i + k) = Inr (ms ! k))"

definition mailbox_inv :: "'a mailbox_scheme \<Rightarrow> bool" where
  "mailbox_inv m \<longleftrightarrow> length (dele_flags m) = MAX_MAILS \<and> unat (max_index m) < MAX_MAILS
     \<and> (mails m \<noteq> None \<longrightarrow> (\<forall>i \<le> unat (max_index m). \<exists>x. mail_at m i = Inr x))
     \<and> (mails m = None \<longrightarrow> max_index m = 0)"

lemma unmarked_Cons: "unmarked flags i (x # ms) = (if flags ! i = 0 then x # unmarked flags (Suc i) ms else unmarked flags (Suc i) ms)"
  by (simp add: unmarked_def)

lemma mail_at_cong: "mails m' = mails m \<Longrightarrow> mail_at m' i = mail_at m i"
  by (simp add: mail_at_def)

lemma mail_at_Some: "mails m = Some sl \<Longrightarrow> mail_at m i = Inr x \<longleftrightarrow> i < length sl \<and> sl ! i = Mail x"
  by (auto simp: mail_at_def load_at_def split: mail_slot.splits)

text \<open>Room in the array before entry \<open>i\<close> is stored: two blocks cover the thirty mails.\<close>

definition room_for :: "nat \<Rightarrow> 'a mailbox_scheme \<Rightarrow> bool" where
  "room_for i m \<longleftrightarrow> i = 0 \<or> (\<exists>sl. mails m = Some sl \<and> length sl = (if i \<le> 20 then 20 else 40))"

text \<open>Growing the array, when it is due, keeps the mails stored and makes room for the next one.\<close>

lemma grow_mails:
  assumes "i < MAX_MAILS" "room_for i m"
  obtains sl where "(if i mod BLOCK = 0 then Some (realloc_mails (BLOCK + i) (mails m)) else mails m) = Some sl"
    and "i < length sl" and "length sl = (if Suc i \<le> 20 then 20 else 40)"
    and "\<And>k. k < i \<Longrightarrow> load_at k sl = load_at k (the (mails m)) \<and> mails m \<noteq> None"
proof -
  consider "i = 0" | "0 < i \<and> i < 20" | "i = 20" | "20 < i \<and> i < 30"
    using assms(1) unfolding MAX_MAILS_def by (metis nat_neq_iff not_gr_zero)
  then show ?thesis
  proof cases
    case 1
    then show ?thesis
      by (intro that [of "realloc_mails BLOCK (mails m)"])
        (auto simp: realloc_mails_def BLOCK_def Let_def split: option.splits)
  next
    case 2
    with assms(2) obtain sl where "mails m = Some sl" "length sl = 20" by (auto simp: room_for_def)
    with 2 show ?thesis by (intro that [of sl]) (auto simp: BLOCK_def)
  next
    case 3
    with assms(2) obtain sl where sl: "mails m = Some sl" "length sl = 20" by (auto simp: room_for_def)
    with 3 show ?thesis
      by (intro that [of "realloc_mails 40 (Some sl)"])
        (auto simp: BLOCK_def realloc_mails_def Let_def nth_append)
  next
    case 4
    with assms(2) obtain sl where sl: "mails m = Some sl" "length sl = 40" by (auto simp: room_for_def)
    have "i mod BLOCK \<noteq> 0"
    proof -
      from 4 have "i = 20 + (i - 20)" "i - 20 < 20" "i - 20 \<noteq> 0" by auto
      then show ?thesis using mod_add_self1 [of 20 "i - 20"] by (simp add: BLOCK_def)
    qed
    with 4 sl show ?thesis by (intro that [of sl]) auto
  qed
qed

definition same_but_mails :: "'a mailbox_scheme \<Rightarrow> 'a mailbox_scheme \<Rightarrow> bool" where
  "same_but_mails m m' \<longleftrightarrow>
     m' = m\<lparr>mails := mails m', mail_qty := mail_qty m', total_octates := total_octates m'\<rparr>"

lemma same_but_mails_refl [simp]: "same_but_mails m m"
  by (simp add: same_but_mails_def)

lemma same_but_mails_trans: "same_but_mails m m1 \<Longrightarrow> same_but_mails m1 m2 \<Longrightarrow> same_but_mails m m2"
  by (cases m; cases m1; cases m2) (auto simp: same_but_mails_def)

lemma same_but_mails_simps:
  "same_but_mails m m' \<Longrightarrow> cred_user m' = cred_user m"
  "same_but_mails m m' \<Longrightarrow> dele_flags m' = dele_flags m"
  by (cases m; cases m'; auto simp: same_but_mails_def)+

lemma load_one_file:
  assumes "name \<noteq> str ''.''" "name \<noteq> str ''..''" "i < MAX_MAILS" "length (dele_flags m) = MAX_MAILS"
    and "cred_user m = Some user" "stat_size os (path @ user @ CUR @ name) = Some sz" "room_for i m"
  shows "\<exists>m'. load_one os path name (i, st, m) = Inr (Suc i, Some sz, m') \<and> room_for (Suc i) m'
    \<and> mail_at m' i = Inr (mail_of os path user name) \<and> (\<forall>k < i. mail_at m' k = mail_at m k)
    \<and> mail_qty m' = mail_qty m + (if dele_flags m ! i = 0 then 1 else 0)
    \<and> total_octates m' = total_octates m + (if dele_flags m ! i = 0 then sz else 0)
    \<and> same_but_mails m m'"
proof -
  obtain sl where sl: "(if i mod BLOCK = 0 then Some (realloc_mails (BLOCK + i) (mails m)) else mails m) = Some sl"
    "i < length sl" "length sl = (if Suc i \<le> 20 then 20 else 40)"
    "\<And>k. k < i \<Longrightarrow> load_at k sl = load_at k (the (mails m)) \<and> mails m \<noteq> None"
    using grow_mails [OF assms(3,7)] by blast
  let ?m1 = "if i mod BLOCK = 0 then m\<lparr>mails := Some (realloc_mails (BLOCK + i) (mails m))\<rparr> else m"
  let ?m = "m\<lparr>mails := Some (sl[i := Mail (mail_of os path user name)]),
     mail_qty := mail_qty m + (if dele_flags m ! i = 0 then 1 else 0),
     total_octates := total_octates m + (if dele_flags m ! i = 0 then sz else 0)\<rparr>"
  have m1: "mails ?m1 = Some sl" "dele_flags ?m1 = dele_flags m" using sl(1) by (auto split: if_splits)
  have run: "load_one os path name (i, st, m) = Inr (Suc i, Some sz, ?m)"
    using assms sl(1,2) m1 by (auto simp: load_one_def mail_of_def Let_def split: if_splits)
  have "mail_at ?m k = mail_at m k" if "k < i" for k
    using sl(4) [OF that] that by (auto simp: mail_at_def load_at_def split: option.splits)
  with run sl(2,3) show ?thesis
    by (intro exI [of _ ?m]) (auto simp: room_for_def mail_at_Some same_but_mails_def)
qed

lemma load_one_dot: "name = str ''.'' \<or> name = str ''..'' \<Longrightarrow> load_one os path name (i, st, m) = Inr (i, st, m)"
  by (auto simp: load_one_def)

definition inbox :: "os \<Rightarrow> cstring \<Rightarrow> cstring \<Rightarrow> cstring list \<Rightarrow> mail_t list" where
  "inbox os path user names = List.map (mail_of os path user) (take MAX_MAILS (mail_files names))"

definition stats_known :: "os \<Rightarrow> cstring \<Rightarrow> cstring \<Rightarrow> cstring list \<Rightarrow> bool" where
  "stats_known os path user names \<longleftrightarrow>
     (\<forall>n \<in> set (mail_files names). stat_size os (path @ user @ CUR @ n) \<noteq> None)"

lemma load_loop_ok:
  assumes "cred_user m = Some user" "length (dele_flags m) = MAX_MAILS" "i \<le> MAX_MAILS" "room_for i m"
    and "stats_known os path user names"
    and "ms = List.map (mail_of os path user) (take (MAX_MAILS - i) (mail_files names))"
  shows "\<exists>st' m'. load_loop os path names (i, st, m) = Inr (i + length ms, st', m')
    \<and> holds m' i ms \<and> (\<forall>k < i. mail_at m' k = mail_at m k)
    \<and> mail_qty m' = mail_qty m + of_nat (length (unmarked (dele_flags m) i ms))
    \<and> total_octates m' = total_octates m + octets (unmarked (dele_flags m) i ms)
    \<and> same_but_mails m m'"
  using assms
proof (induction names arbitrary: i st m ms)
  case Nil
  then show ?case by (simp add: mail_files_def holds_def unmarked_def octets_def)
next
  case (Cons n ns)
  have known: "stats_known os path user ns" using Cons.prems(5) by (simp add: stats_known_def mail_files_def)
  show ?case
  proof (cases "i < MAX_MAILS")
    case False
    with Cons.prems have "ms = []" by simp
    with False show ?thesis by (simp add: holds_def unmarked_def octets_def)
  next
    case True
    show ?thesis
    proof (cases "n = str ''.'' \<or> n = str ''..''")
      case True
      then have files: "mail_files (n # ns) = mail_files ns" by (auto simp: mail_files_def)
      from load_one_dot [OF True, of os path i st m] \<open>i < MAX_MAILS\<close>
        Cons.IH [OF Cons.prems(1-4) known, of ms st] Cons.prems(6)
      show ?thesis unfolding files by simp
    next
      case False
      then have files: "mail_files (n # ns) = n # mail_files ns" by (auto simp: mail_files_def)
      with Cons.prems(5) obtain sz where sz: "stat_size os (path @ user @ CUR @ n) = Some sz"
        by (auto simp: stats_known_def)
      let ?x = "mail_of os path user n"
      let ?ms = "List.map (mail_of os path user) (take (MAX_MAILS - Suc i) (mail_files ns))"
      have ms: "ms = ?x # ?ms"
        using Cons.prems(6) True files by (simp add: take_Suc [symmetric] Suc_diff_Suc [symmetric] del: take_Suc)
      have xs: "mail_size ?x = sz" using sz by (simp add: mail_of_def)
      from False True Cons.prems(2) obtain m1 where m1: "load_one os path n (i, st, m) = Inr (Suc i, Some sz, m1)"
        "room_for (Suc i) m1" "mail_at m1 i = Inr ?x" "\<forall>k < i. mail_at m1 k = mail_at m k"
        "mail_qty m1 = mail_qty m + (if dele_flags m ! i = 0 then 1 else 0)"
        "total_octates m1 = total_octates m + (if dele_flags m ! i = 0 then sz else 0)"
        "same_but_mails m m1"
        using load_one_file [of n i m user os path sz st] Cons.prems(1,4) sz by blast
      have same: "cred_user m1 = Some user" "length (dele_flags m1) = MAX_MAILS" "dele_flags m1 = dele_flags m"
        using same_but_mails_simps [OF m1(7)] Cons.prems(1,2) by simp_all
      from Cons.IH [OF same(1,2) _ m1(2) known refl, of "Some sz"] True
      obtain st2 m2 where m2: "load_loop os path ns (Suc i, Some sz, m1) = Inr (Suc i + length ?ms, st2, m2)"
        "holds m2 (Suc i) ?ms" "\<forall>k < Suc i. mail_at m2 k = mail_at m1 k"
        "mail_qty m2 = mail_qty m1 + of_nat (length (unmarked (dele_flags m) (Suc i) ?ms))"
        "total_octates m2 = total_octates m1 + octets (unmarked (dele_flags m) (Suc i) ?ms)"
        "same_but_mails m1 m2" by (auto simp: same(3))
      have "holds m2 i ms"
        unfolding holds_def
      proof (intro allI impI)
        fix k
        assume "k < length ms"
        then show "mail_at m2 (i + k) = Inr (ms ! k)"
          using m2(2,3) m1(3) ms by (cases k) (auto simp: holds_def)
      qed
      moreover have "load_loop os path (n # ns) (i, st, m) = Inr (i + length ms, st2, m2)"
        using m1(1) m2(1) True ms by simp
      moreover have "mail_qty m2 = mail_qty m + of_nat (length (unmarked (dele_flags m) i ms))"
        "total_octates m2 = total_octates m + octets (unmarked (dele_flags m) i ms)"
        unfolding ms using m1(5,6) m2(4,5) xs by (simp_all add: unmarked_Cons octets_def)
      moreover have "\<forall>k < i. mail_at m2 k = mail_at m k" using m1(4) m2(3) by simp
      moreover have "same_but_mails m m2" using m1(7) m2(6) by (rule same_but_mails_trans)
      ultimately show ?thesis by blast
    qed
  qed
qed

section \<open>Freeing and reloading\<close>

lemma for_nat_inv:
  assumes "\<And>k s. i \<le> k \<Longrightarrow> k < i + n \<Longrightarrow> P k s \<Longrightarrow> \<exists>s'. body (of_nat k) s = Inr s' \<and> P (Suc k) s'" "P i s"
  shows "\<exists>s'. for_nat body n i s = Inr s' \<and> P (i + n) s'"
  using assms
proof (induction n arbitrary: i s)
  case 0
  then show ?case by simp
next
  case (Suc n)
  from Suc.prems(1) [of i s] Suc.prems(2) obtain s1 where "body (of_nat i) s = Inr s1" "P (Suc i) s1" by auto
  with Suc.IH [of "Suc i" s1] Suc.prems(1) show ?case by fastforce
qed

lemma free_mails_ok:
  assumes "mailbox_inv m"
  shows "\<exists>sl. free_mails m = Inr (m\<lparr>mails := sl\<rparr>)"
proof (cases "mails m")
  case None
  then have "free_mails m = Inr (m\<lparr>mails := mails m\<rparr>)" by (simp add: free_mails_def)
  then show ?thesis by blast
next
  case (Some sl0)
  let ?n = "Suc (unat (max_index m))"
  let ?body = "\<lambda>(i :: u32) (m :: 'a mailbox_scheme). rbind (mail_at m (unat i)) (\<lambda>_.
      Inr (m\<lparr>mails := map_option (\<lambda>sl. sl[unat i := Freed]) (mails m)\<rparr>))"
  let ?P = "\<lambda>k m'. \<exists>sl. m' = m\<lparr>mails := Some sl\<rparr> \<and> (\<forall>j. k \<le> j \<longrightarrow> j < ?n \<longrightarrow> (\<exists>x. mail_at m' j = Inr x))"
  from assms have max: "unat (max_index m) < 30" by (simp add: mailbox_inv_def MAX_MAILS_def)
  have "\<exists>m'. for_nat ?body ?n 0 m = Inr m' \<and> ?P (0 + ?n) m'"
  proof (rule for_nat_inv)
    show "?P 0 m" using assms Some by (auto simp: mailbox_inv_def less_Suc_eq_le intro!: exI [of _ sl0])
  next
    fix k m'
    assume k: "k < 0 + ?n" and P: "?P k m'"
    have uk: "unat (of_nat k :: u32) = k" using k max by (intro unat_of_nat_u32) simp
    from P obtain sl where sl: "m' = m\<lparr>mails := Some sl\<rparr>"
      "\<And>j. k \<le> j \<Longrightarrow> j < ?n \<Longrightarrow> \<exists>x. mail_at m' j = Inr x" by blast
    from sl(2) [of k] k obtain x where x: "mail_at m' k = Inr x" by auto
    let ?m = "m\<lparr>mails := Some (sl[k := Freed])\<rparr>"
    have "?body (of_nat k) m' = Inr ?m" using x uk sl(1) by simp
    moreover have "\<exists>x. mail_at ?m j = Inr x" if "Suc k \<le> j" "j < ?n" for j
      using sl(2) [of j] sl(1) that by (auto simp: mail_at_Some)
    ultimately show "\<exists>s'. ?body (of_nat k) m' = Inr s' \<and> ?P (Suc k) s'"
      by (intro exI [of _ ?m]) blast
  qed
  then obtain m' sl where m': "for_nat ?body ?n 0 m = Inr m'" "m' = m\<lparr>mails := Some sl\<rparr>" by blast
  have "free_mails m = for_nat ?body ?n 0 m"
    using Some max by (simp add: free_mails_def for_le_nat del: for_nat.simps)
  with m' show ?thesis by (intro exI [of _ "Some sl"]) simp
qed

lemma for_le_skip: "unat m < 2 ^ 32 - 1 \<Longrightarrow> for_le (\<lambda>i s. Inr s) m s = Inr s"
proof -
  have "for_nat (\<lambda>i s. Inr s) n i s = Inr s" for n i by (induction n arbitrary: i) auto
  then show "unat m < 2 ^ 32 - 1 \<Longrightarrow> ?thesis" by (simp add: for_le_nat del: for_nat.simps)
qed

text \<open>The session's mailbox after a reload: the mails \<open>ms\<close>, with the marked ones not counted.\<close>

definition loaded :: "'a mailbox_scheme \<Rightarrow> mail_t list \<Rightarrow> 'a mailbox_scheme \<Rightarrow> bool" where
  "loaded m ms m' \<longleftrightarrow> mailbox_inv m' \<and> holds m' 0 ms \<and> max_index m' = of_nat (length ms - 1)
    \<and> mail_qty m' = of_nat (length (unmarked (dele_flags m) 0 ms))
    \<and> total_octates m' = octets (unmarked (dele_flags m) 0 ms)
    \<and> original_total_octates m' = total_octates m'
    \<and> m' = m\<lparr>mails := mails m', mail_qty := mail_qty m', total_octates := total_octates m',
        original_total_octates := original_total_octates m', max_index := max_index m'\<rparr>"

lemma length_inbox: "length (inbox os path user names) \<le> MAX_MAILS"
  by (simp add: inbox_def)

lemma inbox_Nil_iff: "inbox os path user names = [] \<longleftrightarrow> mail_files names = []"
  by (simp add: inbox_def MAX_MAILS_def)

lemma load_mails_loop:
  fixes m :: "'a mailbox_scheme"
  assumes inv: "mailbox_inv m" and user: "cred_user m = Some user"
    and dir: "opendir os (path @ user @ CUR) = Some names" and known: "stats_known os path user names"
  obtains m2 :: "'a mailbox_scheme" where
    "load_mails os path m =
       (let m3 = m2\<lparr>max_index := of_nat (length (inbox os path user names)) - 1\<rparr>;
            m4 = m3\<lparr>original_total_octates := total_octates m3\<rparr>
        in for_le (\<lambda>i s. Inr s) (max_index m4) m4)"
    and "holds m2 0 (inbox os path user names)"
    and "mail_qty m2 = of_nat (length (unmarked (dele_flags m) 0 (inbox os path user names)))"
    and "total_octates m2 = octets (unmarked (dele_flags m) 0 (inbox os path user names))"
    and "m2 = m\<lparr>mails := mails m2, mail_qty := mail_qty m2, total_octates := total_octates m2, max_index := 0\<rparr>"
proof -
  obtain sl where sl: "(if max_index m \<noteq> 0 then free_mails m else Inr m) = Inr (m\<lparr>mails := sl\<rparr>)"
  proof (cases "max_index m = 0")
    case True
    then have "(if max_index m \<noteq> 0 then free_mails m else Inr m) = Inr (m\<lparr>mails := mails m\<rparr>)" by simp
    then show ?thesis by (rule that)
  next
    case False
    with free_mails_ok [OF inv] that show ?thesis by auto
  qed
  let ?m = "m\<lparr>mails := sl, mail_qty := 0, max_index := 0, total_octates := 0\<rparr>"
  let ?ms = "inbox os path user names"
  have len: "length (dele_flags m) = MAX_MAILS" using inv by (simp add: mailbox_inv_def)
  obtain st m2 where m2: "load_loop os path names (0, None, ?m) = Inr (length ?ms, st, m2)" "holds m2 0 ?ms"
    "mail_qty m2 = of_nat (length (unmarked (dele_flags m) 0 ?ms))"
    "total_octates m2 = octets (unmarked (dele_flags m) 0 ?ms)" "same_but_mails ?m m2"
    using load_loop_ok [of ?m user 0 os path names ?ms None] user len known
    by (auto simp: room_for_def inbox_def)
  have "m2 = m\<lparr>mails := mails m2, mail_qty := mail_qty m2, total_octates := total_octates m2, max_index := 0\<rparr>"
    using m2(5) by (cases m; cases m2) (auto simp: same_but_mails_def)
  moreover have "load_mails os path m =
       (let m3 = m2\<lparr>max_index := of_nat (length ?ms) - 1\<rparr>;
            m4 = m3\<lparr>original_total_octates := total_octates m3\<rparr>
        in for_le (\<lambda>i s. Inr s) (max_index m4) m4)"
    using user dir m2(1) by (simp add: load_mails_def open_maildir_def sl)
  ultimately show ?thesis using m2 that by blast
qed

lemma load_mails_ok:
  assumes "mailbox_inv m" "cred_user m = Some user" "opendir os (path @ user @ CUR) = Some names"
    and "stats_known os path user names" and files: "mail_files names \<noteq> []"
  shows "\<exists>m'. load_mails os path m = Inr m' \<and> loaded m (inbox os path user names) m'"
proof -
  let ?ms = "inbox os path user names"
  obtain m2 where run: "load_mails os path m =
       (let m3 = m2\<lparr>max_index := of_nat (length ?ms) - 1\<rparr>;
            m4 = m3\<lparr>original_total_octates := total_octates m3\<rparr>
        in for_le (\<lambda>i s. Inr s) (max_index m4) m4)"
    and m2: "holds m2 0 ?ms" "mail_qty m2 = of_nat (length (unmarked (dele_flags m) 0 ?ms))"
    "total_octates m2 = octets (unmarked (dele_flags m) 0 ?ms)"
    "m2 = m\<lparr>mails := mails m2, mail_qty := mail_qty m2, total_octates := total_octates m2, max_index := 0\<rparr>"
    using load_mails_loop [OF assms(1-4)] by blast
  have pos: "?ms \<noteq> []" using files by (simp add: inbox_Nil_iff)
  have le: "length ?ms \<le> 30" using length_inbox by (simp add: MAX_MAILS_def)
  have max: "of_nat (length ?ms) - 1 = (of_nat (length ?ms - 1) :: u32)"
    using pos by (cases ?ms) auto
  have umax: "unat (of_nat (length ?ms - 1) :: u32) = length ?ms - 1"
    using le by (intro unat_of_nat_u32) simp
  let ?m = "m2\<lparr>max_index := of_nat (length ?ms - 1), original_total_octates := total_octates m2\<rparr>"
  have "load_mails os path m = Inr ?m"
    unfolding run using le umax by (simp add: max for_le_skip)
  moreover have "loaded m ?ms ?m"
  proof -
    have h: "holds ?m 0 ?ms" using m2(1) by (simp add: holds_def mail_at_def)
    have "\<exists>sl. mails m2 = Some sl"
      using m2(1) pos by (cases ?ms) (auto simp: holds_def mail_at_def split: option.splits)
    moreover have "length (dele_flags m2) = MAX_MAILS"
      using m2(4) assms(1) by (cases m; cases m2) (auto simp: mailbox_inv_def)
    ultimately have "mailbox_inv ?m"
      using h pos le umax by (cases ?ms) (auto simp: mailbox_inv_def MAX_MAILS_def holds_def)
    with h m2 show ?thesis
      unfolding loaded_def by (cases m; cases m2) auto
  qed
  ultimately show ?thesis by blast
qed

text \<open>With no mail in the directory the index of the last mail wraps and the last loop never ends.\<close>

lemma load_mails_empty:
  assumes "mailbox_inv m" "cred_user m = Some user" "opendir os (path @ user @ CUR) = Some names"
    and files: "mail_files names = []"
  shows "load_mails os path m = Inl Diverges"
proof -
  have "stats_known os path user names" using files by (simp add: stats_known_def)
  then obtain m2 where "load_mails os path m =
       (let m3 = m2\<lparr>max_index := of_nat (length (inbox os path user names)) - 1\<rparr>;
            m4 = m3\<lparr>original_total_octates := total_octates m3\<rparr>
        in for_le (\<lambda>i s. Inr s) (max_index m4) m4)"
    using load_mails_loop [OF assms(1-3)] by blast
  moreover have "inbox os path user names = []" using files by (simp add: inbox_Nil_iff)
  ultimately show ?thesis by (simp add: for_le_max)
qed

lemma load_mails_no_directory:
  "cred_user m = Some user \<Longrightarrow> opendir os (path @ user @ CUR) = None \<Longrightarrow> load_mails os path m = Inl NullDeref"
  by (simp add: load_mails_def open_maildir_def)

text \<open>\<open>read_mail\<close> faults on every directory.\<close>

lemma last_entry_None: "last_entry ds = None"
  by (induction ds) simp_all

lemma read_mail_faults: "read_mail file directory m path = Inl NullDeref"
  by (simp add: read_mail_def last_entry_None split: option.split)

section \<open>Properties\<close>

text \<open>An inbox with two mails of 120 octets, the second one marked for deletion.\<close>

definition example_os :: os where
  "example_os = \<lparr>
     opendir = (\<lambda>p. if p = str ''./directories/foo/cur/'' then Some [str ''.'', str ''a'', str ''..'', str ''b''] else None),
     stat_size = (\<lambda>p. Some 120), open_mail = (\<lambda>p. 9)\<rparr>"

definition example_mailbox :: mailbox where
  "example_mailbox = \<lparr>cred_user = Some (str ''foo''), cred_pass = Some (str ''bar''), total_octates = 0,
     original_total_octates = 0, mail_qty = 0, max_index = 0, mails = None,
     dele_flags = (replicate 30 0)[1 := 1]\<rparr>"

lemma example_paths: "INITIAL_PATH @ str ''foo'' @ CUR = str ''./directories/foo/cur/''"
  by (simp add: INITIAL_PATH_def CUR_def)

lemma example_dir:
  "opendir example_os (INITIAL_PATH @ str ''foo'' @ CUR) = Some [str ''.'', str ''a'', str ''..'', str ''b'']"
  unfolding example_paths by (simp add: example_os_def)

lemma example_files: "mail_files [str ''.'', str ''a'', str ''..'', str ''b''] = [str ''a'', str ''b'']"
  by (simp add: mail_files_def)

lemma example_stats: "stats_known example_os path user names"
  by (simp add: stats_known_def example_os_def)

lemma example_inv: "mailbox_inv example_mailbox"
  by (simp add: mailbox_inv_def example_mailbox_def MAX_MAILS_def)

text \<open>
  C20. When the user's directory can be opened, holds a mail and every file can be inspected, loading
  the inbox, for the first time or again, returns: the session then holds the first thirty mails in
  directory order, counts those not marked for deletion and their octets, and keeps its marks.
\<close>

theorem load_mails_loads_inbox:
  assumes "mailbox_inv m" "cred_user m = Some user" "opendir os (path @ user @ CUR) = Some names"
    and "stats_known os path user names" "mail_files names \<noteq> []"
  shows "\<exists>m'. load_mails os path m = Inr m' \<and> loaded m (inbox os path user names) m'"
  by (rule load_mails_ok [OF assms])

theorem load_mails_loads_inbox_witness:
  "\<exists>m'. load_mails example_os INITIAL_PATH example_mailbox = Inr m'
    \<and> loaded example_mailbox (inbox example_os INITIAL_PATH (str ''foo'') [str ''.'', str ''a'', str ''..'', str ''b'']) m'"
  by (rule load_mails_loads_inbox [OF example_inv _ example_dir example_stats])
    (simp add: example_mailbox_def, simp add: mail_files_def)

text \<open>
  C21. With an empty inbox the index of the last mail wraps round to the largest unsigned number and the
  loop at the end of the function never ends; when the directory cannot be opened, a null pointer is
  read.
\<close>

theorem load_mails_of_empty_inbox:
  assumes "mailbox_inv m" "cred_user m = Some user"
  shows "case opendir os (path @ user @ CUR) of
      None \<Rightarrow> load_mails os path m = Inl NullDeref
    | Some names \<Rightarrow> mail_files names = [] \<longrightarrow> load_mails os path m = Inl Diverges"
proof (cases "opendir os (path @ user @ CUR)")
  case None
  with load_mails_no_directory [of m user os path] assms(2) show ?thesis by simp
next
  case (Some names)
  with load_mails_empty [OF assms Some] show ?thesis by simp
qed

theorem load_mails_of_empty_inbox_witness:
  "load_mails (example_os\<lparr>opendir := \<lambda>p. Some [str ''.'', str ''..'']\<rparr>) INITIAL_PATH example_mailbox = Inl Diverges
    \<and> load_mails (example_os\<lparr>opendir := \<lambda>p. None\<rparr>) INITIAL_PATH example_mailbox = Inl NullDeref"
proof -
  have user: "cred_user example_mailbox = Some (str ''foo'')" by (simp add: example_mailbox_def)
  show ?thesis
    using load_mails_of_empty_inbox [OF example_inv user, of "example_os\<lparr>opendir := \<lambda>p. None\<rparr>" INITIAL_PATH]
      load_mails_of_empty_inbox [OF example_inv user, of "example_os\<lparr>opendir := \<lambda>p. Some [str ''.'', str ''..'']\<rparr>"
        INITIAL_PATH]
    by (simp add: mail_files_def)
qed

end
