(* ===== verification/Users.thy ===== *)
theory Users
  imports Prelude
begin

text \<open>
  The registered POP3 users, a linked list hanging from the global \<open>clients\<close>
  (\<^verbatim>\<open>src/server/pop3nio.c\<close>). The nodes live in an explicit store, because what the functions
  leave behind in memory matters: freeing the first node leaves \<open>clients\<close> pointing at it. An address
  is an index of the store and a freed cell is \<open>None\<close>; a new node takes a new address. The list walks
  get fuel for one step more than the cells of the store, enough for every list that ends.
\<close>

section \<open>Nodes and the store\<close>

record client_t =
  c_user :: cstring
  c_pass :: cstring
  c_next :: "nat option"

type_synonym store = "client_t option list"

record user_db =
  heap :: store
  clients :: "nat option"

definition no_users :: user_db where
  "no_users = \<lparr>heap = [], clients = None\<rparr>"

definition deref :: "store \<Rightarrow> nat \<Rightarrow> client_t res" where
  "deref h a = rbind (load_at a h) (\<lambda>c. case c of None \<Rightarrow> Inl UseAfterFree | Some n \<Rightarrow> Inr n)"

section \<open>Operations\<close>

text \<open>The result is the store, the pointer returned and the flag written (0 added, 1 known).\<close>

fun register_user_rec ::
  "nat \<Rightarrow> store \<Rightarrow> nat option \<Rightarrow> cstring \<Rightarrow> cstring \<Rightarrow> (store \<times> nat option \<times> int) res" where
  "register_user_rec 0 h c user pass = Inl Diverges"
| "register_user_rec (Suc fuel) h None user pass =
     Inr (h @ [Some \<lparr>c_user = user, c_pass = pass, c_next = None\<rparr>], Some (length h), 0)"
| "register_user_rec (Suc fuel) h (Some a) user pass =
     rbind (deref h a) (\<lambda>n.
     if c_user n = user then Inr (h, Some a, 1)
     else
       rbind (register_user_rec fuel h (c_next n) user pass) (\<lambda>(h', next, flag).
       rbind (deref h' a) (\<lambda>n'. Inr (h'[a := Some (n'\<lparr>c_next := next\<rparr>)], Some a, flag))))"

definition register_user :: "user_db \<Rightarrow> cstring option \<Rightarrow> cstring option \<Rightarrow> (int \<times> user_db) res" where
  "register_user db user pass =
     (case (user, pass) of
       (Some u, Some p) \<Rightarrow>
         rbind (register_user_rec (Suc (length (heap db))) (heap db) (clients db) u p) (\<lambda>(h, c, error).
         Inr (error, db\<lparr>heap := h, clients := c\<rparr>))
     | _ \<Rightarrow> Inr (1, db))"

fun unregister_user_rec :: "nat \<Rightarrow> store \<Rightarrow> nat option \<Rightarrow> cstring \<Rightarrow> int \<Rightarrow> (store \<times> nat option \<times> int) res" where
  "unregister_user_rec 0 h c user error = Inl Diverges"
| "unregister_user_rec (Suc fuel) h None user error = Inr (h, None, error)"
| "unregister_user_rec (Suc fuel) h (Some a) user error =
     rbind (deref h a) (\<lambda>n.
     if c_user n = user then Inr (h[a := None], c_next n, 0)
     else
       rbind (unregister_user_rec fuel h (c_next n) user error) (\<lambda>(h', next, error').
       rbind (deref h' a) (\<lambda>n'. Inr (h'[a := Some (n'\<lparr>c_next := next\<rparr>)], Some a, error'))))"

text \<open>The new head is assigned to the parameter only: \<open>clients\<close> keeps its value.\<close>

definition unregister_user :: "user_db \<Rightarrow> cstring option \<Rightarrow> (int \<times> user_db) res" where
  "unregister_user db user =
     (case (clients db, user) of
       (Some c, Some u) \<Rightarrow>
         rbind (unregister_user_rec (Suc (length (heap db))) (heap db) (Some c) u 1) (\<lambda>(h, _, error).
         Inr (error, db\<lparr>heap := h\<rparr>))
     | _ \<Rightarrow> Inr (1, db))"

fun validate_walk :: "nat \<Rightarrow> store \<Rightarrow> nat option \<Rightarrow> cstring \<Rightarrow> cstring \<Rightarrow> int res" where
  "validate_walk 0 h aux user pass = Inl Diverges"
| "validate_walk (Suc fuel) h None user pass = Inr 0"
| "validate_walk (Suc fuel) h (Some a) user pass =
     rbind (deref h a) (\<lambda>n.
     if c_user n = user \<and> c_pass n = pass then Inr 1
     else validate_walk fuel h (c_next n) user pass)"

definition validate_user :: "user_db \<Rightarrow> cstring \<Rightarrow> cstring \<Rightarrow> int res" where
  "validate_user db user pass = validate_walk (Suc (length (heap db))) (heap db) (clients db) user pass"

text \<open>At exit every node is freed.\<close>

fun unregister_clients_rec :: "nat \<Rightarrow> store \<Rightarrow> nat option \<Rightarrow> store res" where
  "unregister_clients_rec 0 h c = Inl Diverges"
| "unregister_clients_rec (Suc fuel) h None = Inr h"
| "unregister_clients_rec (Suc fuel) h (Some a) =
     rbind (deref h a) (\<lambda>n. unregister_clients_rec fuel (h[a := None]) (c_next n))"

definition unregister_clients :: "user_db \<Rightarrow> user_db res" where
  "unregister_clients db =
     rbind (unregister_clients_rec (Suc (length (heap db))) (heap db) (clients db)) (\<lambda>h. Inr (db\<lparr>heap := h\<rparr>))"

section \<open>Lists in the store\<close>

text \<open>\<open>chain h p as\<close>: from pointer \<open>p\<close> the list goes through the live addresses \<open>as\<close>, once each.\<close>

fun chain :: "store \<Rightarrow> nat option \<Rightarrow> nat list \<Rightarrow> bool" where
  "chain h p [] \<longleftrightarrow> p = None"
| "chain h p (a # as) \<longleftrightarrow>
     p = Some a \<and> a \<notin> set as \<and> (\<exists>n. a < length h \<and> h ! a = Some n \<and> chain h (c_next n) as)"

definition entry :: "store \<Rightarrow> nat \<Rightarrow> cstring \<times> cstring" where
  "entry h a = (case h ! a of None \<Rightarrow> ([], []) | Some n \<Rightarrow> (c_user n, c_pass n))"

definition users_are :: "user_db \<Rightarrow> (cstring \<times> cstring) list \<Rightarrow> bool" where
  "users_are db xs \<longleftrightarrow> (\<exists>as. chain (heap db) (clients db) as \<and> List.map (entry (heap db)) as = xs)"

lemma deref_live [simp]: "a < length h \<Longrightarrow> h ! a = Some n \<Longrightarrow> deref h a = Inr n"
  by (simp add: deref_def)

lemma chain_distinct: "chain h p as \<Longrightarrow> distinct as \<and> set as \<subseteq> {..<length h}"
  by (induction as arbitrary: p) auto

lemma chain_length: "chain h p as \<Longrightarrow> length as \<le> length h"
  using chain_distinct card_mono [of "{..<length h}" "set as"] by (fastforce simp: distinct_card)

lemma chain_cong:
  "chain h p as \<Longrightarrow> length h \<le> length h' \<Longrightarrow> (\<And>a. a \<in> set as \<Longrightarrow> h' ! a = h ! a) \<Longrightarrow> chain h' p as"
  by (induction as arbitrary: p) auto

lemma entry_cong: "(\<And>a. a \<in> set as \<Longrightarrow> h' ! a = h ! a) \<Longrightarrow> List.map (entry h') as = List.map (entry h) as"
  by (simp add: entry_def)

lemma chain_update: "chain h p as \<Longrightarrow> a \<notin> set as \<Longrightarrow> chain (h[a := x]) p as"
  by (erule chain_cong) (auto, metis nth_list_update_neq)

lemma entry_update: "a \<notin> set as \<Longrightarrow> List.map (entry (h[a := x])) as = List.map (entry h) as"
  by (intro entry_cong) (metis nth_list_update_neq)

text \<open>Relinking the node \<open>a\<close> in front of a chain that does not hold it.\<close>

lemma chain_relink:
  assumes "a < length h" "h ! a = Some n" "a \<notin> set as" "chain h p as"
  shows "chain (h[a := Some (n\<lparr>c_next := p\<rparr>)]) (Some a) (a # as)"
    and "List.map (entry (h[a := Some (n\<lparr>c_next := p\<rparr>)])) (a # as)
      = (c_user n, c_pass n) # List.map (entry h) as"
proof -
  have "chain (h[a := Some (n\<lparr>c_next := p\<rparr>)]) p as"
    using assms(3,4) by (intro chain_update)
  then show "chain (h[a := Some (n\<lparr>c_next := p\<rparr>)]) (Some a) (a # as)" using assms by simp
  have "List.map (entry (h[a := Some (n\<lparr>c_next := p\<rparr>)])) as = List.map (entry h) as"
    using assms(3) by (intro entry_update)
  then show "List.map (entry (h[a := Some (n\<lparr>c_next := p\<rparr>)])) (a # as)
      = (c_user n, c_pass n) # List.map (entry h) as"
    using assms(1) by (simp add: entry_def)
qed

text \<open>The whole list is freed when the server ends.\<close>

lemma unregister_chain:
  "chain h p as \<Longrightarrow> length as < fuel \<Longrightarrow> \<exists>h'. unregister_clients_rec fuel h p = Inr h'"
proof (induction as arbitrary: h p fuel)
  case Nil
  then show ?case by (cases fuel) auto
next
  case (Cons a as)
  then obtain n f where n: "p = Some a" "a < length h" "h ! a = Some n" "a \<notin> set as" "chain h (c_next n) as" "fuel = Suc f"
    by (cases fuel) auto
  from Cons.IH [OF chain_update [OF n(5,4), of None], of f] Cons.prems(2) n show ?case by simp
qed

lemma unregister_clients_ok:
  assumes "users_are db xs"
  shows "\<exists>db'. unregister_clients db = Inr db'"
proof -
  from assms obtain as where as: "chain (heap db) (clients db) as" by (auto simp: users_are_def)
  from unregister_chain [OF this, of "Suc (length (heap db))"] chain_length [OF as] show ?thesis
    by (auto simp: unregister_clients_def simp del: unregister_clients_rec.simps)
qed

section \<open>What the operations do to the list\<close>

lemma register_known:
  assumes "chain h p as" "length as < fuel" "user \<in> fst ` set (List.map (entry h) as)"
  shows "register_user_rec fuel h p user pass = Inr (h, p, 1)"
  using assms
proof (induction as arbitrary: p fuel)
  case Nil
  then show ?case by simp
next
  case (Cons a as)
  then obtain n f where n: "p = Some a" "a < length h" "h ! a = Some n" "chain h (c_next n) as" "fuel = Suc f"
    by (cases fuel) auto
  show ?case
  proof (cases "c_user n = user")
    case True
    with n show ?thesis by simp
  next
    case False
    with Cons n have "register_user_rec f h (c_next n) user pass = Inr (h, c_next n, 1)"
      by (auto simp: entry_def)
    with False n show ?thesis by (simp add: list_update_same_conv)
  qed
qed

lemma register_new:
  assumes "chain h p as" "length as < fuel" "user \<notin> fst ` set (List.map (entry h) as)"
  shows "\<exists>h' p'. register_user_rec fuel h p user pass = Inr (h', p', 0) \<and> chain h' p' (as @ [length h])
    \<and> List.map (entry h') (as @ [length h]) = List.map (entry h) as @ [(user, pass)]
    \<and> length h' = Suc (length h) \<and> (\<forall>b < length h. b \<notin> set as \<longrightarrow> h' ! b = h ! b)"
  using assms
proof (induction as arbitrary: p fuel)
  case Nil
  then show ?case by (cases fuel) (auto simp: entry_def nth_append)
next
  case (Cons a as)
  then obtain n f where n: "p = Some a" "a < length h" "a \<notin> set as" "h ! a = Some n"
    "chain h (c_next n) as" "fuel = Suc f" by (cases fuel) auto
  with Cons.prems have ne: "c_user n \<noteq> user" by (auto simp: entry_def)
  from Cons.IH [OF n(5), of f] Cons.prems n obtain h1 p1 where
    h1: "register_user_rec f h (c_next n) user pass = Inr (h1, p1, 0)" "chain h1 p1 (as @ [length h])"
      "List.map (entry h1) (as @ [length h]) = List.map (entry h) as @ [(user, pass)]"
      "length h1 = Suc (length h)" "\<forall>b < length h. b \<notin> set as \<longrightarrow> h1 ! b = h ! b" by auto
  from h1(5) n have ha: "h1 ! a = Some n" "a < length h1" using h1(4) by auto
  have "a \<notin> set (as @ [length h])" using n by auto
  from chain_relink [OF ha(2,1) this h1(2)] h1 n ha ne show ?case
    by (auto simp: nth_list_update_neq entry_def)
qed

lemma validate_chain:
  assumes "chain h p as" "length as < fuel"
  shows "validate_walk fuel h p user pass = Inr (if (user, pass) \<in> set (List.map (entry h) as) then 1 else 0)"
  using assms
proof (induction as arbitrary: p fuel)
  case Nil
  then show ?case by (cases fuel) auto
next
  case (Cons a as)
  then show ?case by (cases fuel) (auto simp: entry_def)
qed

lemma unregister_unknown:
  assumes "chain h p as" "length as < fuel" "user \<notin> fst ` set (List.map (entry h) as)"
  shows "unregister_user_rec fuel h p user e = Inr (h, p, e)"
  using assms
proof (induction as arbitrary: p fuel)
  case Nil
  then show ?case by (cases fuel) auto
next
  case (Cons a as)
  then obtain n f where n: "p = Some a" "a < length h" "h ! a = Some n" "chain h (c_next n) as" "fuel = Suc f"
    by (cases fuel) auto
  with Cons have "c_user n \<noteq> user" "unregister_user_rec f h (c_next n) user e = Inr (h, c_next n, e)"
    by (auto simp: entry_def)
  with n show ?case by (simp add: list_update_same_conv)
qed

text \<open>The node freed is the first with the name; the rest of the list is as it was.\<close>

lemma unregister_found:
  assumes "chain h p (as @ a # bs)" "length (as @ a # bs) < fuel"
    and "user \<notin> fst ` set (List.map (entry h) as)" "fst (entry h a) = user"
  shows "\<exists>h' p'. unregister_user_rec fuel h p user e = Inr (h', p', 0) \<and> chain h' p' (as @ bs)
    \<and> List.map (entry h') (as @ bs) = List.map (entry h) (as @ bs) \<and> (as \<noteq> [] \<longrightarrow> p' = p)
    \<and> length h' = length h \<and> h' ! a = None \<and> (\<forall>b. b \<notin> set (as @ [a]) \<longrightarrow> h' ! b = h ! b)"
  using assms
proof (induction as arbitrary: p fuel)
  case Nil
  then obtain n f where n: "p = Some a" "a < length h" "h ! a = Some n" "chain h (c_next n) bs" "a \<notin> set bs"
    "fuel = Suc f" by (cases fuel) auto
  have "chain (h[a := None]) (c_next n) bs" using n(4,5) by (intro chain_update)
  moreover have "List.map (entry (h[a := None])) bs = List.map (entry h) bs"
    using n(5) by (intro entry_update)
  ultimately show ?case using n Nil by (simp add: entry_def nth_list_update_neq)
next
  case (Cons c as)
  then obtain n f where n: "p = Some c" "c < length h" "c \<notin> set (as @ a # bs)" "h ! c = Some n"
    "chain h (c_next n) (as @ a # bs)" "fuel = Suc f" by (cases fuel) auto
  with Cons.prems have ne: "c_user n \<noteq> user" by (auto simp: entry_def)
  from Cons.IH [OF n(5), of f] Cons.prems n obtain h1 p1 where
    h1: "unregister_user_rec f h (c_next n) user e = Inr (h1, p1, 0)" "chain h1 p1 (as @ bs)"
      "List.map (entry h1) (as @ bs) = List.map (entry h) (as @ bs)"
      "length h1 = length h" "h1 ! a = None" "\<forall>b. b \<notin> set (as @ [a]) \<longrightarrow> h1 ! b = h ! b" by auto
  from n h1(6) have hc: "h1 ! c = Some n" "c < length h1" using h1(4) by auto
  have "c \<notin> set (as @ bs)" using n by auto
  from chain_relink [OF hc(2,1) this h1(2)] h1 n hc ne show ?case
    by (auto simp: nth_list_update_neq entry_def)
qed

section \<open>The store as an association list\<close>

lemma users_are_empty: "users_are no_users []"
  by (auto simp: users_are_def no_users_def intro: exI [of _ "[]"])

lemma register_user_refines:
  assumes "users_are db xs"
  shows "\<exists>db'. register_user db (Some u) (Some p) = Inr (if u \<in> fst ` set xs then 1 else 0, db')
    \<and> users_are db' (if u \<in> fst ` set xs then xs else xs @ [(u, p)])"
proof -
  from assms obtain as where as: "chain (heap db) (clients db) as" "List.map (entry (heap db)) as = xs"
    by (auto simp: users_are_def)
  then have fuel: "length as < Suc (length (heap db))" using chain_length [OF as(1)] by simp
  show ?thesis
  proof (cases "u \<in> fst ` set xs")
    case True
    with register_known [OF as(1) fuel, of u p] as assms show ?thesis
      by (simp add: register_user_def del: register_user_rec.simps)
  next
    case False
    with register_new [OF as(1) fuel, of u p] as obtain h' p' where
      "register_user_rec (Suc (length (heap db))) (heap db) (clients db) u p = Inr (h', p', 0)"
      "chain h' p' (as @ [length (heap db)])" "List.map (entry h') (as @ [length (heap db)]) = xs @ [(u, p)]"
      by auto
    with False show ?thesis
      by (auto simp: register_user_def users_are_def simp del: register_user_rec.simps
          intro!: exI [of _ "as @ [length (heap db)]"])
  qed
qed

lemma validate_user_refines:
  assumes "users_are db xs"
  shows "validate_user db u p = Inr (if (u, p) \<in> set xs then 1 else 0)"
proof -
  from assms obtain as where as: "chain (heap db) (clients db) as" "List.map (entry (heap db)) as = xs"
    by (auto simp: users_are_def)
  then have "length as < Suc (length (heap db))" using chain_length [OF as(1)] by simp
  from validate_chain [OF as(1) this, of u p] as(2) show ?thesis by (simp add: validate_user_def del: validate_walk.simps)
qed

lemma unregister_user_unknown:
  assumes "users_are db xs" "u \<notin> fst ` set xs"
  shows "unregister_user db (Some u) = Inr (1, db)"
proof -
  from assms obtain as where as: "chain (heap db) (clients db) as" "List.map (entry (heap db)) as = xs"
    by (auto simp: users_are_def)
  then have "length as < Suc (length (heap db))" using chain_length [OF as(1)] by simp
  from unregister_unknown [OF as(1) this, of u 1] as(2) assms(2) show ?thesis
    by (auto simp: unregister_user_def simp del: unregister_user_rec.simps split: option.splits)
qed

text \<open>Removing a user who is not the first of the list works as it should.\<close>

lemma unregister_user_inner:
  assumes "users_are db (xs @ (u, p) # ys)" "xs \<noteq> []" "u \<notin> fst ` set xs"
  shows "\<exists>db'. unregister_user db (Some u) = Inr (0, db') \<and> users_are db' (xs @ ys)"
proof -
  from assms(1) obtain cs where cs: "chain (heap db) (clients db) cs"
    "List.map (entry (heap db)) cs = xs @ (u, p) # ys" by (auto simp: users_are_def)
  from cs(2) obtain as a bs where split: "cs = as @ a # bs" "List.map (entry (heap db)) as = xs"
    "entry (heap db) a = (u, p)" "List.map (entry (heap db)) bs = ys"
    by (auto simp: map_eq_append_conv map_eq_Cons_conv)
  from cs(1) split assms(2) obtain c where c: "clients db = Some c" by (cases as) auto
  have "length (as @ a # bs) < Suc (length (heap db))" using chain_length [OF cs(1)] split(1) by simp
  from unregister_found [OF cs(1) [unfolded split(1)] this, of u 1] split assms obtain h' p' where
    "unregister_user_rec (Suc (length (heap db))) (heap db) (clients db) u 1 = Inr (h', p', 0)"
    "chain h' p' (as @ bs)" "List.map (entry h') (as @ bs) = xs @ ys" "p' = clients db"
    by auto
  with c show ?thesis
    by (auto simp: unregister_user_def users_are_def simp del: unregister_user_rec.simps
        intro!: exI [of _ "as @ bs"])
qed

text \<open>
  Removing the first user frees its node and leaves \<open>clients\<close> on it: from then on every login
  attempt, registration and removal reads freed memory.
\<close>

definition dangling :: "user_db \<Rightarrow> bool" where
  "dangling db \<longleftrightarrow> (\<exists>a. clients db = Some a \<and> a < length (heap db) \<and> heap db ! a = None)"

lemma unregister_user_first:
  assumes "users_are db ((u, p) # ys)"
  shows "\<exists>db'. unregister_user db (Some u) = Inr (0, db') \<and> dangling db'"
proof -
  from assms obtain a bs where cs: "chain (heap db) (clients db) ([] @ a # bs)"
    "entry (heap db) a = (u, p)" by (auto simp: users_are_def map_eq_Cons_conv)
  then have a: "clients db = Some a" "a < length (heap db)" by auto
  have "length ([] @ a # bs) < Suc (length (heap db))" using chain_length [OF cs(1)] by simp
  from unregister_found [OF cs(1) this, of u 1] cs(2) obtain h' p' where
    "unregister_user_rec (Suc (length (heap db))) (heap db) (clients db) u 1 = Inr (h', p', 0)"
    "length h' = length (heap db)" "h' ! a = None" by auto
  with a show ?thesis
    by (auto simp: unregister_user_def dangling_def simp del: unregister_user_rec.simps)
qed

lemma dangling_deref: "dangling db \<Longrightarrow> \<exists>a. clients db = Some a \<and> deref (heap db) a = Inl UseAfterFree"
  by (auto simp: dangling_def deref_def)

lemma dangling_validate: "dangling db \<Longrightarrow> validate_user db u p = Inl UseAfterFree"
  using dangling_deref by (fastforce simp: validate_user_def)

lemma dangling_register: "dangling db \<Longrightarrow> register_user db (Some u) (Some p) = Inl UseAfterFree"
  using dangling_deref by (fastforce simp: register_user_def)

lemma dangling_unregister: "dangling db \<Longrightarrow> unregister_user db (Some u) = Inl UseAfterFree"
  using dangling_deref by (fastforce simp: unregister_user_def)

section \<open>The interface the sessions rely on\<close>

text \<open>
  A store of users as the login code and the monitor see it. \<open>rep db xs\<close>: the store holds the users
  \<open>xs\<close> in order. Removal is promised for every user but the first.
\<close>

locale user_store =
  fixes add :: "'db \<Rightarrow> cstring \<Rightarrow> cstring \<Rightarrow> (int \<times> 'db) res"
    and remove :: "'db \<Rightarrow> cstring \<Rightarrow> (int \<times> 'db) res"
    and check :: "'db \<Rightarrow> cstring \<Rightarrow> cstring \<Rightarrow> int res"
    and rep :: "'db \<Rightarrow> (cstring \<times> cstring) list \<Rightarrow> bool"
  assumes check_rep: "rep db xs \<Longrightarrow> check db u p = Inr (if (u, p) \<in> set xs then 1 else 0)"
    and add_rep: "rep db xs \<Longrightarrow> \<exists>db'. add db u p = Inr (if u \<in> fst ` set xs then 1 else 0, db')
      \<and> rep db' (if u \<in> fst ` set xs then xs else xs @ [(u, p)])"
    and remove_rep: "rep db (xs @ (u, p) # ys) \<Longrightarrow> xs \<noteq> [] \<Longrightarrow> u \<notin> fst ` set xs \<Longrightarrow>
      \<exists>db'. remove db u = Inr (0, db') \<and> rep db' (xs @ ys)"
begin

definition well_formed :: "'db \<Rightarrow> (cstring \<times> cstring) list \<Rightarrow> bool" where
  "well_formed db xs \<longleftrightarrow> rep db xs \<and> distinct (List.map fst xs)"

lemma add_well_formed:
  assumes "well_formed db xs" "add db u p = Inr (e, db')"
  shows "well_formed db' (if u \<in> fst ` set xs then xs else xs @ [(u, p)])"
  using assms add_rep [of db xs u p] by (auto simp: well_formed_def split: if_splits)

text \<open>A new user gets in with the password given and with no other.\<close>

lemma add_then_check:
  assumes "well_formed db xs" "u \<notin> fst ` set xs"
  shows "\<exists>db'. add db u p = Inr (0, db') \<and> (\<forall>q. check db' u q = Inr (if q = p then 1 else 0))"
proof -
  from assms obtain db' where db': "add db u p = Inr (0, db')" "rep db' (xs @ [(u, p)])"
    using add_rep [of db xs u p] by (auto simp: well_formed_def)
  from assms(2) have "(u, q) \<in> set (xs @ [(u, p)]) \<longleftrightarrow> q = p" for q by force
  with db' show ?thesis using check_rep [OF db'(2)] by auto
qed

text \<open>Registering a name again changes nothing: nobody can replace a password that way.\<close>

lemma add_twice:
  assumes "well_formed db xs" "u \<in> fst ` set xs"
  shows "\<exists>db'. add db u p = Inr (1, db') \<and> (\<forall>v q. check db' v q = check db v q)"
proof -
  from assms obtain db' where db': "add db u p = Inr (1, db')" "rep db' xs"
    using add_rep [of db xs u p] by (auto simp: well_formed_def)
  with assms(1) show ?thesis using check_rep by (auto simp: well_formed_def)
qed

lemma remove_then_check:
  assumes "well_formed db (x # xs)" "u \<in> fst ` set xs"
  shows "\<exists>db'. remove db u = Inr (0, db') \<and> (\<forall>q. check db' u q = Inr 0)
    \<and> (\<forall>v q. v \<noteq> u \<longrightarrow> check db' v q = check db v q)"
proof -
  from assms(2) obtain p where "(u, p) \<in> set xs" by force
  then obtain as bs where xs: "xs = as @ (u, p) # bs" by (meson split_list)
  with assms(1) have dist: "u \<notin> fst ` set (x # as)" "u \<notin> fst ` set bs" by (auto simp: well_formed_def)
  with assms(1) xs obtain db' where db': "remove db u = Inr (0, db')" "rep db' ((x # as) @ bs)"
    using remove_rep [of db "x # as" u p bs] by (auto simp: well_formed_def)
  have "(u, q) \<notin> set ((x # as) @ bs)" for q using dist by force
  moreover have "rep db (x # xs)" using assms(1) by (simp add: well_formed_def)
  ultimately show ?thesis
    using db' xs check_rep [OF db'(2)] check_rep [OF \<open>rep db (x # xs)\<close>] by auto
qed

end

interpretation us: user_store "\<lambda>db u p. register_user db (Some u) (Some p)" "\<lambda>db u. unregister_user db (Some u)"
  validate_user users_are
  by unfold_locales (simp_all add: validate_user_refines register_user_refines unregister_user_inner)

text \<open>Freeing the list at exit leaves no node of it live.\<close>

lemma unregister_clients_chain:
  assumes "chain h p as" "length as < fuel"
  shows "\<exists>h'. unregister_clients_rec fuel h p = Inr h' \<and> (\<forall>a \<in> set as. h' ! a = None)
    \<and> (\<forall>a. a \<notin> set as \<longrightarrow> h' ! a = h ! a)"
  using assms
proof (induction as arbitrary: h p fuel)
  case Nil
  then show ?case by (cases fuel) auto
next
  case (Cons a as)
  then obtain n f where n: "p = Some a" "a < length h" "h ! a = Some n" "a \<notin> set as" "chain h (c_next n) as"
    "fuel = Suc f" by (cases fuel) auto
  from chain_update [OF n(5,4)] Cons n obtain h1 where
    "unregister_clients_rec f (h[a := None]) (c_next n) = Inr h1" "\<forall>b \<in> set as. h1 ! b = None"
    "\<forall>b. b \<notin> set as \<longrightarrow> h1 ! b = h[a := None] ! b" by fastforce
  with n show ?case by (auto simp: nth_list_update)
qed

section \<open>Properties\<close>

text \<open>
  C14. Registering a name nobody has succeeds, and afterwards that name gets in with the password it
  was registered with and with no other.
\<close>

theorem register_then_validate:
  assumes "users_are db xs" "distinct (List.map fst xs)" "u \<notin> fst ` set xs"
  shows "\<exists>db'. register_user db (Some u) (Some p) = Inr (0, db')
    \<and> (\<forall>q. validate_user db' u q = Inr (if q = p then 1 else 0))"
  by (rule us.add_then_check [of db xs, unfolded us.well_formed_def, OF conjI [OF assms(1,2)] assms(3)])

theorem register_then_validate_witness:
  "\<exists>db'. register_user no_users (Some (str ''foo'')) (Some (str ''bar'')) = Inr (0, db')
    \<and> (\<forall>q. validate_user db' (str ''foo'') q = Inr (if q = str ''bar'' then 1 else 0))"
  by (rule register_then_validate [OF users_are_empty]) simp_all

text \<open>
  C15. Removing any user but the first of the list succeeds, closes the door to that name with every
  password, and changes nothing for the others.
\<close>

theorem unregister_then_validate:
  assumes "users_are db (x # xs)" "distinct (List.map fst (x # xs))" "u \<in> fst ` set xs"
  shows "\<exists>db'. unregister_user db (Some u) = Inr (0, db') \<and> (\<forall>q. validate_user db' u q = Inr 0)
    \<and> (\<forall>v q. v \<noteq> u \<longrightarrow> validate_user db' v q = validate_user db v q)"
  by (rule us.remove_then_check [of db x xs, unfolded us.well_formed_def, OF conjI [OF assms(1,2)] assms(3)])

lemma two_users: "\<exists>db. users_are db [(str ''foo'', str ''bar''), (str ''ana'', str ''x'')]"
  using register_user_refines [OF users_are_empty, of "str ''foo''" "str ''bar''"]
    register_user_refines [of _ "[(str ''foo'', str ''bar'')]" "str ''ana''" "str ''x''"]
  by fastforce

theorem unregister_then_validate_witness:
  "\<exists>db db'. unregister_user db (Some (str ''ana'')) = Inr (0, db') \<and> (\<forall>q. validate_user db' (str ''ana'') q = Inr 0)
    \<and> (\<forall>v q. v \<noteq> str ''ana'' \<longrightarrow> validate_user db' v q = validate_user db v q)"
proof -
  obtain db where "users_are db [(str ''foo'', str ''bar''), (str ''ana'', str ''x'')]" using two_users by blast
  from unregister_then_validate [OF this, of "str ''ana''"] show ?thesis by auto
qed

text \<open>
  C16. Removing the first user of the list reports success but leaves the list pointing at the freed
  node: the next login, registration or removal reads freed memory.
\<close>

theorem unregister_first_dangles:
  assumes "users_are db ((u, p) # ys)"
  shows "\<exists>db'. unregister_user db (Some u) = Inr (0, db') \<and> validate_user db' v q = Inl UseAfterFree
    \<and> register_user db' (Some v) (Some q) = Inl UseAfterFree \<and> unregister_user db' (Some v) = Inl UseAfterFree"
  using unregister_user_first [OF assms] dangling_validate dangling_register dangling_unregister by blast

theorem unregister_first_dangles_witness:
  "\<exists>db db'. unregister_user db (Some (str ''foo'')) = Inr (0, db') \<and> validate_user db' [] [] = Inl UseAfterFree
    \<and> register_user db' (Some []) (Some []) = Inl UseAfterFree \<and> unregister_user db' (Some []) = Inl UseAfterFree"
proof -
  obtain db where "users_are db [(str ''foo'', str ''bar''), (str ''ana'', str ''x'')]" using two_users by blast
  from unregister_first_dangles [OF this, of "[]" "[]"] show ?thesis by blast
qed

end
