(* ===== verification/Buffer.thy ===== *)
theory Buffer
  imports Prelude
begin

text \<open>
  The byte buffer of \<^verbatim>\<open>src/server/buffer.c\<close>: one array with a read and a write pointer.
  The pointers are offsets from \<open>data\<close>. The theory has the operations one by one, the invariant
  \<open>read <= write <= limit\<close> the header states and that they keep, the first-in first-out queue the
  buffer implements (its readable bytes \<open>content\<close>), and the locale \<open>byte_source\<close>: what the
  consuming loops of the server (\<open>while (buffer_can_read(b)) { c = buffer_read(b); ... }\<close>) rely on.
\<close>

section \<open>The structure and its operations\<close>

record buffer =
  b_data :: "byte list"
  b_limit :: nat
  b_read :: nat
  b_write :: nat

definition buffer_reset :: "buffer \<Rightarrow> buffer" where
  "buffer_reset b = b\<lparr>b_read := 0, b_write := 0\<rparr>"

definition buffer_init :: "nat \<Rightarrow> byte list \<Rightarrow> buffer" where
  "buffer_init n data = \<lparr>b_data = data, b_limit = n, b_read = 0, b_write = 0\<rparr>"

definition buffer_can_write :: "buffer \<Rightarrow> bool" where
  "buffer_can_write b \<longleftrightarrow> b_limit b - b_write b > 0"

text \<open>The number of bytes the returned pointer gives room for; the pointer is \<open>b_write\<close>.\<close>

definition buffer_write_ptr :: "buffer \<Rightarrow> nat res" where
  "buffer_write_ptr b =
     rbind (rassert (b_write b \<le> b_limit b) Aborted) (\<lambda>_. Inr (b_limit b - b_write b))"

definition buffer_can_read :: "buffer \<Rightarrow> bool" where
  "buffer_can_read b \<longleftrightarrow> b_write b - b_read b > 0"

text \<open>The bytes the returned pointer and count denote.\<close>

definition buffer_read_ptr :: "buffer \<Rightarrow> byte list res" where
  "buffer_read_ptr b =
     rbind (rassert (b_read b \<le> b_write b) Aborted)
       (\<lambda>_. Inr (take (b_write b - b_read b) (drop (b_read b) (b_data b))))"

definition buffer_write_adv :: "buffer \<Rightarrow> int \<Rightarrow> buffer res" where
  "buffer_write_adv b bytes =
     (if bytes > - 1 then
        let b' = b\<lparr>b_write := b_write b + nat bytes\<rparr>
        in rbind (rassert (b_write b' \<le> b_limit b') Aborted) (\<lambda>_. Inr b')
      else Inr b)"

definition buffer_compact :: "buffer \<Rightarrow> buffer" where
  "buffer_compact b =
     (if b_read b = 0 then b
      else if b_read b = b_write b then b\<lparr>b_read := 0, b_write := 0\<rparr>
      else let n = b_write b - b_read b
           in b\<lparr>b_data := take n (drop (b_read b) (b_data b)) @ drop n (b_data b),
                b_read := 0, b_write := n\<rparr>)"

definition buffer_read_adv :: "buffer \<Rightarrow> int \<Rightarrow> buffer res" where
  "buffer_read_adv b bytes =
     (if bytes > - 1 then
        let b' = b\<lparr>b_read := b_read b + nat bytes\<rparr>
        in rbind (rassert (b_read b' \<le> b_write b') Aborted)
             (\<lambda>_. Inr (if b_read b' = b_write b' then buffer_compact b' else b'))
      else Inr b)"

definition buffer_read :: "buffer \<Rightarrow> (byte \<times> buffer) res" where
  "buffer_read b =
     (if buffer_can_read b then
        rbind (load_at (b_read b) (b_data b)) (\<lambda>ret.
        rbind (buffer_read_adv b 1) (\<lambda>b'. Inr (ret, b')))
      else Inr (0, b))"

definition buffer_write :: "buffer \<Rightarrow> byte \<Rightarrow> buffer res" where
  "buffer_write b c =
     (if buffer_can_write b then
        rbind (store_at (b_write b) c (b_data b)) (\<lambda>data. buffer_write_adv (b\<lparr>b_data := data\<rparr>) 1)
      else Inr b)"

text \<open>A write pointer moved before the array is out of bounds.\<close>

definition delete_n_from_buffer :: "buffer \<Rightarrow> nat \<Rightarrow> buffer res" where
  "delete_n_from_buffer b n =
     (if n \<le> b_write b then Inr (b\<lparr>b_write := b_write b - n\<rparr>) else Inl OutOfBounds)"

text \<open>Bytes stored through the pointer of \<open>buffer_write_ptr\<close> (by \<open>memcpy\<close>, \<open>recv\<close>, \<open>read\<close>).\<close>

definition buffer_fill :: "buffer \<Rightarrow> byte list \<Rightarrow> buffer res" where
  "buffer_fill b bs =
     (if b_write b + length bs \<le> length (b_data b) then
        Inr (b\<lparr>b_data := take (b_write b) (b_data b) @ bs @ drop (b_write b + length bs) (b_data b)\<rparr>)
      else Inl OutOfBounds)"

section \<open>The invariant\<close>

definition buffer_inv :: "buffer \<Rightarrow> bool" where
  "buffer_inv b \<longleftrightarrow> b_read b \<le> b_write b \<and> b_write b \<le> b_limit b \<and> b_limit b \<le> length (b_data b)"

text \<open>What can be read, and what can still be written before the limit.\<close>

definition content :: "buffer \<Rightarrow> byte list" where
  "content b = take (b_write b - b_read b) (drop (b_read b) (b_data b))"

definition room :: "buffer \<Rightarrow> nat" where
  "room b = b_limit b - b_write b"

lemma buffer_inv_init [simp, intro]: "n \<le> length data \<Longrightarrow> buffer_inv (buffer_init n data)"
  by (simp add: buffer_inv_def buffer_init_def)

lemma buffer_inv_reset [simp, intro]: "buffer_inv b \<Longrightarrow> buffer_inv (buffer_reset b)"
  by (simp add: buffer_inv_def buffer_reset_def)

lemma content_init [simp]: "content (buffer_init n data) = []"
  by (simp add: content_def buffer_init_def)

lemma content_reset [simp]: "content (buffer_reset b) = []"
  by (simp add: content_def buffer_reset_def)

lemma room_reset [simp]: "room (buffer_reset b) = b_limit b"
  by (simp add: room_def buffer_reset_def)

lemma length_content [simp]: "buffer_inv b \<Longrightarrow> length (content b) = b_write b - b_read b"
  by (auto simp: content_def buffer_inv_def)

lemma can_read_content: "buffer_inv b \<Longrightarrow> buffer_can_read b \<longleftrightarrow> content b \<noteq> []"
  by (auto simp: content_def buffer_inv_def buffer_can_read_def)

lemma can_write_room: "buffer_can_write b \<longleftrightarrow> room b > 0"
  by (simp add: buffer_can_write_def room_def)

lemma write_ptr_ok [simp]: "buffer_inv b \<Longrightarrow> buffer_write_ptr b = Inr (room b)"
  by (simp add: buffer_write_ptr_def buffer_inv_def room_def)

lemma read_ptr_ok [simp]: "buffer_inv b \<Longrightarrow> buffer_read_ptr b = Inr (content b)"
  by (simp add: buffer_read_ptr_def buffer_inv_def content_def)

lemma content_length_le: "buffer_inv b \<Longrightarrow> length (content b) + room b \<le> b_limit b"
  by (auto simp: content_def buffer_inv_def room_def)

section \<open>Compaction and reading\<close>

lemma buffer_compact_inv [simp, intro]: "buffer_inv b \<Longrightarrow> buffer_inv (buffer_compact b)"
  by (auto simp: buffer_compact_def buffer_inv_def Let_def min_def)

lemma buffer_compact_content [simp]: "buffer_inv b \<Longrightarrow> content (buffer_compact b) = content b"
  by (auto simp: buffer_compact_def buffer_inv_def content_def Let_def)

lemma buffer_compact_room: "buffer_inv b \<Longrightarrow> room b \<le> room (buffer_compact b)"
  by (auto simp: buffer_compact_def buffer_inv_def room_def Let_def)

lemma buffer_compact_limit [simp]: "b_limit (buffer_compact b) = b_limit b"
  by (auto simp: buffer_compact_def Let_def)

lemma buffer_read_adv_ok:
  assumes "buffer_inv b" "k \<le> length (content b)"
  shows "\<exists>b'. buffer_read_adv b (int k) = Inr b' \<and> buffer_inv b' \<and> content b' = drop k (content b)
    \<and> room b \<le> room b' \<and> b_limit b' = b_limit b"
proof -
  let ?b = "b\<lparr>b_read := b_read b + k\<rparr>"
  from assms have k: "b_read b + k \<le> b_write b" by (auto simp: buffer_inv_def)
  from assms k have inv: "buffer_inv ?b" by (auto simp: buffer_inv_def)
  have c: "content ?b = drop k (content b)"
    by (simp add: content_def drop_take add.commute)
  have r: "room ?b = room b" by (simp add: room_def)
  show ?thesis
    using inv c r buffer_compact_room [OF inv] k
    by (auto simp: buffer_read_adv_def Let_def)
qed

lemma buffer_read_ok:
  assumes "buffer_inv b" "content b = c # cs"
  shows "\<exists>b'. buffer_read b = Inr (c, b') \<and> buffer_inv b' \<and> content b' = cs
    \<and> room b \<le> room b' \<and> b_limit b' = b_limit b"
proof -
  from assms have can: "buffer_can_read b" by (simp add: can_read_content)
  then have lt: "b_read b < length (b_data b)"
    using assms(1) by (auto simp: buffer_can_read_def buffer_inv_def)
  have "content b ! 0 = b_data b ! b_read b"
    using can lt by (simp add: content_def buffer_can_read_def)
  with assms(2) have hd: "b_data b ! b_read b = c" by simp
  from buffer_read_adv_ok [OF assms(1), of 1] assms(2)
  obtain b' where "buffer_read_adv b 1 = Inr b'" "buffer_inv b'" "content b' = cs"
    "room b \<le> room b'" "b_limit b' = b_limit b" by auto
  with can lt hd show ?thesis by (simp add: buffer_read_def)
qed

lemma buffer_read_empty: "buffer_inv b \<Longrightarrow> content b = [] \<Longrightarrow> buffer_read b = Inr (0, b)"
  by (simp add: buffer_read_def can_read_content)

text \<open>A buffer that has just been drained is back at its start: all of it can be written.\<close>

lemma buffer_read_adv_drained:
  assumes "buffer_inv b"
  shows "\<exists>b'. buffer_read_adv b (int (length (content b))) = Inr b' \<and> buffer_inv b' \<and> content b' = []
    \<and> room b' = b_limit b \<and> b_limit b' = b_limit b"
  using assms by (auto simp: buffer_read_adv_def buffer_compact_def Let_def buffer_inv_def content_def room_def)

section \<open>Writing\<close>

lemma buffer_write_ok:
  assumes "buffer_inv b" "room b > 0"
  shows "\<exists>b'. buffer_write b c = Inr b' \<and> buffer_inv b' \<and> content b' = content b @ [c]
    \<and> room b' = room b - 1 \<and> b_limit b' = b_limit b \<and> b_read b' = b_read b \<and> b_write b' = Suc (b_write b)"
proof -
  let ?d = "(b_data b)[b_write b := c]"
  from assms have lt: "b_write b < b_limit b" "b_limit b \<le> length (b_data b)" "b_read b \<le> b_write b"
    by (auto simp: room_def buffer_inv_def)
  have "take (Suc (b_write b) - b_read b) (drop (b_read b) ?d)
      = take (b_write b - b_read b) (drop (b_read b) (b_data b)) @ [c]"
    using lt by (simp add: Suc_diff_le take_Suc_conv_app_nth drop_update_swap)
  then show ?thesis
    using lt assms
    by (auto simp: buffer_write_def buffer_write_adv_def can_write_room Let_def content_def room_def
        buffer_inv_def)
qed

lemma buffer_write_full: "room b = 0 \<Longrightarrow> buffer_write b c = Inr b"
  by (simp add: buffer_write_def can_write_room)

lemma buffer_fill_ok:
  assumes "buffer_inv b" "length bs \<le> room b"
  shows "\<exists>b1 b'. buffer_fill b bs = Inr b1 \<and> buffer_write_adv b1 (int (length bs)) = Inr b'
    \<and> buffer_inv b' \<and> content b' = content b @ bs \<and> room b' = room b - length bs
    \<and> b_limit b' = b_limit b \<and> b_read b' = b_read b \<and> b_write b' = b_write b + length bs"
proof -
  from assms have le: "b_write b + length bs \<le> b_limit b" "b_limit b \<le> length (b_data b)" "b_read b \<le> b_write b"
    by (auto simp: room_def buffer_inv_def)
  let ?d = "take (b_write b) (b_data b) @ bs @ drop (b_write b + length bs) (b_data b)"
  have "take (b_write b + length bs - b_read b) (drop (b_read b) ?d)
      = take (b_write b - b_read b) (drop (b_read b) (b_data b)) @ bs"
    using le by (simp add: drop_take)
  then show ?thesis
    using le assms
    by (auto simp: buffer_fill_def buffer_write_adv_def Let_def content_def room_def buffer_inv_def)
qed

text \<open>Moving the write pointer back takes the last bytes away, while it stays behind the read pointer.\<close>

lemma delete_n_ok:
  assumes "buffer_inv b" "n \<le> length (content b)"
  shows "\<exists>b'. delete_n_from_buffer b n = Inr b' \<and> buffer_inv b'
    \<and> content b' = take (length (content b) - n) (content b) \<and> room b' = room b + n
    \<and> b_limit b' = b_limit b"
  using assms by (auto simp: delete_n_from_buffer_def buffer_inv_def content_def room_def take_take
      diff_right_commute add.commute)

section \<open>Consuming loops\<close>

text \<open>
  The loop \<^verbatim>\<open>while (can_read(b)) { c = next(b); body; if (stop) break; }\<close> over any byte
  source: the server runs it in \<^verbatim>\<open>client_read\<close>, \<^verbatim>\<open>filesystem_read\<close> and
  \<^verbatim>\<open>monitor_consume\<close>. \<open>step\<close> is the body on the state it updates; its second result says
  whether it breaks. A round takes one byte, so the bytes in the source are enough fuel.
\<close>

fun consume ::
  "('b \<Rightarrow> bool) \<Rightarrow> ('b \<Rightarrow> (byte \<times> 'b) res) \<Rightarrow> (byte \<Rightarrow> 's \<Rightarrow> ('s \<times> bool) res) \<Rightarrow> nat \<Rightarrow> 'b \<Rightarrow> 's
    \<Rightarrow> ('s \<times> 'b) res" where
  "consume can_read next step 0 b s = (if can_read b then Inl Diverges else Inr (s, b))"
| "consume can_read next step (Suc fuel) b s =
     (if can_read b then
        rbind (next b) (\<lambda>(c, b').
        rbind (step c s) (\<lambda>(s', stop).
          if stop then Inr (s', b') else consume can_read next step fuel b' s'))
      else Inr (s, b))"

text \<open>The same loop over a list of bytes: the state reached and the bytes not consumed.\<close>

fun feed_until :: "(byte \<Rightarrow> 's \<Rightarrow> ('s \<times> bool) res) \<Rightarrow> byte list \<Rightarrow> 's \<Rightarrow> ('s \<times> byte list) res" where
  "feed_until step [] s = Inr (s, [])"
| "feed_until step (c # cs) s =
     rbind (step c s) (\<lambda>(s', stop). if stop then Inr (s', cs) else feed_until step cs s')"

fun put_all :: "('b \<Rightarrow> byte \<Rightarrow> 'b res) \<Rightarrow> byte list \<Rightarrow> 'b \<Rightarrow> 'b res" where
  "put_all put [] b = Inr b"
| "put_all put (c # cs) b = rbind (put b c) (put_all put cs)"

locale byte_source =
  fixes can_read :: "'b \<Rightarrow> bool"
    and next_byte :: "'b \<Rightarrow> (byte \<times> 'b) res"
    and bytes :: "'b \<Rightarrow> byte list"
    and inv :: "'b \<Rightarrow> bool"
  assumes can_read_bytes: "inv b \<Longrightarrow> can_read b \<longleftrightarrow> bytes b \<noteq> []"
    and next_byte_head:
      "inv b \<Longrightarrow> bytes b = c # cs \<Longrightarrow> \<exists>b'. next_byte b = Inr (c, b') \<and> inv b' \<and> bytes b' = cs"
begin

text \<open>The loop over the source is the loop over its bytes: it returns, in order, and leaves the rest.\<close>

lemma consume_feeds:
  assumes "inv b" "length (bytes b) \<le> fuel"
  shows "\<exists>b'. consume can_read next_byte step fuel b s
      = rbind (feed_until step (bytes b) s) (\<lambda>(s', rest). Inr (s', b'))
    \<and> inv b' \<and> (\<forall>s' rest. feed_until step (bytes b) s = Inr (s', rest) \<longrightarrow> bytes b' = rest)"
  using assms
proof (induction fuel arbitrary: b s)
  case 0
  then show ?case by (auto simp: can_read_bytes intro!: exI [of _ b])
next
  case (Suc fuel)
  show ?case
  proof (cases "bytes b")
    case Nil
    with Suc.prems show ?thesis by (auto simp: can_read_bytes intro!: exI [of _ b])
  next
    case (Cons c cs)
    with Suc.prems(1) obtain b1 where b1: "next_byte b = Inr (c, b1)" "inv b1" "bytes b1 = cs"
      using next_byte_head by blast
    have can: "can_read b" using Suc.prems(1) Cons by (simp add: can_read_bytes)
    show ?thesis
    proof (cases "step c s")
      case (Inl e)
      with b1 can Cons show ?thesis by (auto intro!: exI [of _ b1])
    next
      case (Inr r)
      obtain s1 stop where r: "r = (s1, stop)" by (cases r)
      show ?thesis
      proof (cases stop)
        case True
        with b1 can Cons Inr r show ?thesis by (auto intro!: exI [of _ b1])
      next
        case False
        from Suc.IH [OF b1(2), of s1] b1(3) Suc.prems(2) Cons obtain b2 where
          "consume can_read next_byte step fuel b1 s1
             = rbind (feed_until step cs s1) (\<lambda>(s', rest). Inr (s', b2))"
          "inv b2" "\<forall>s' rest. feed_until step cs s1 = Inr (s', rest) \<longrightarrow> bytes b2 = rest" by auto
        with b1 can Cons Inr r False show ?thesis by (auto intro!: exI [of _ b2])
      qed
    qed
  qed
qed

end

text \<open>A source that can also be written to: a bounded first-in first-out queue.\<close>

locale byte_queue = byte_source can_read next_byte bytes inv
  for can_read :: "'b \<Rightarrow> bool" and next_byte :: "'b \<Rightarrow> (byte \<times> 'b) res"
    and bytes :: "'b \<Rightarrow> byte list" and inv :: "'b \<Rightarrow> bool" +
  fixes put :: "'b \<Rightarrow> byte \<Rightarrow> 'b res"
    and space :: "'b \<Rightarrow> nat"
  assumes put_room: "inv b \<Longrightarrow> space b > 0 \<Longrightarrow>
      \<exists>b'. put b c = Inr b' \<and> inv b' \<and> bytes b' = bytes b @ [c] \<and> space b' = space b - 1"
    and put_full: "inv b \<Longrightarrow> space b = 0 \<Longrightarrow> put b c = Inr b"
begin

lemma put_all_room:
  assumes "inv b" "length cs \<le> space b"
  shows "\<exists>b'. put_all put cs b = Inr b' \<and> inv b' \<and> bytes b' = bytes b @ cs \<and> space b' = space b - length cs"
  using assms
proof (induction cs arbitrary: b)
  case Nil
  then show ?case by simp
next
  case (Cons c cs)
  then obtain b1 where b1: "put b c = Inr b1" "inv b1" "bytes b1 = bytes b @ [c]" "space b1 = space b - 1"
    using put_room [of b c] by auto
  with Cons.IH [of b1] Cons.prems show ?case by auto
qed

text \<open>Writing never fails: what does not fit is dropped at the end.\<close>

lemma put_all_total:
  assumes "inv b"
  shows "\<exists>b'. put_all put cs b = Inr b' \<and> inv b' \<and> bytes b' = bytes b @ take (space b) cs
    \<and> space b' = space b - length cs"
  using assms
proof (induction cs arbitrary: b)
  case Nil
  then show ?case by simp
next
  case (Cons c cs)
  show ?case
  proof (cases "space b")
    case 0
    with Cons.IH [OF Cons.prems] put_full [OF Cons.prems, of c] show ?thesis by auto
  next
    case (Suc k)
    then obtain b1 where b1: "put b c = Inr b1" "inv b1" "bytes b1 = bytes b @ [c]" "space b1 = k"
      using put_room [OF Cons.prems, of c] by auto
    with Cons.IH [of b1] Suc show ?thesis by auto
  qed
qed

end

interpretation bq: byte_queue buffer_can_read buffer_read content buffer_inv buffer_write room
proof unfold_locales
  fix b c cs
  assume inv: "buffer_inv b"
  show "buffer_can_read b \<longleftrightarrow> content b \<noteq> []" using inv by (rule can_read_content)
  show "\<exists>b'. buffer_read b = Inr (c, b') \<and> buffer_inv b' \<and> content b' = cs" if "content b = c # cs"
    using buffer_read_ok [OF inv that] by auto
  show "\<exists>b'. buffer_write b c = Inr b' \<and> buffer_inv b' \<and> content b' = content b @ [c] \<and> room b' = room b - 1"
    if "room b > 0"
    using buffer_write_ok [OF inv that, of c] by auto
  show "buffer_write b c = Inr b" if "room b = 0" using that by (rule buffer_write_full)
qed

definition consume_buffer :: "(byte \<Rightarrow> 's \<Rightarrow> ('s \<times> bool) res) \<Rightarrow> buffer \<Rightarrow> 's \<Rightarrow> ('s \<times> buffer) res" where
  "consume_buffer step b s = consume buffer_can_read buffer_read step (b_write b - b_read b) b s"

lemma consume_buffer_feeds:
  assumes "buffer_inv b"
  shows "\<exists>b'. consume_buffer step b s
      = rbind (feed_until step (content b) s) (\<lambda>(s', rest). Inr (s', b'))
    \<and> buffer_inv b' \<and> (\<forall>s' rest. feed_until step (content b) s = Inr (s', rest) \<longrightarrow> content b' = rest)"
  using bq.consume_feeds [OF assms, of "b_write b - b_read b" step s] assms
  by (simp add: consume_buffer_def)

lemma buffer_write_limit: "buffer_write b c = Inr b' \<Longrightarrow> b_limit b' = b_limit b"
  by (auto simp: buffer_write_def buffer_write_adv_def Let_def rbind_eq_Inr store_at_def split: if_splits)

lemma put_all_limit: "put_all buffer_write cs b = Inr b' \<Longrightarrow> b_limit b' = b_limit b"
  by (induction cs arbitrary: b) (auto simp: rbind_eq_Inr dest: buffer_write_limit)

lemma consume_buffer_Inr:
  assumes "consume_buffer step b s = Inr (s', b')" "buffer_inv b"
  shows "feed_until step (content b) s = Inr (s', content b') \<and> buffer_inv b'"
proof -
  from consume_buffer_feeds [OF assms(2), of step s] obtain b1 where
    b1: "consume_buffer step b s = rbind (feed_until step (content b) s) (\<lambda>(s', rest). Inr (s', b1))" "buffer_inv b1"
      "\<And>s' rest. feed_until step (content b) s = Inr (s', rest) \<Longrightarrow> content b1 = rest" by blast
  then show ?thesis using assms(1) by (cases "feed_until step (content b) s") auto
qed

lemma feed_until_keeps:
  assumes "feed_until step cs s = Inr (s', rest)" "P s"
    and "\<And>c s s' stop. step c s = Inr (s', stop) \<Longrightarrow> P s \<Longrightarrow> P s'"
  shows "P s'"
  using assms(1,2)
proof (induction cs arbitrary: s)
  case Nil
  then show ?case by simp
next
  case (Cons c cs)
  from Cons.prems(1) obtain s1 stop where
    s1: "step c s = Inr (s1, stop)" "(if stop then Inr (s1, cs) else feed_until step cs s1) = Inr (s', rest)"
    by (auto simp: rbind_eq_Inr)
  from assms(3) [OF s1(1) Cons.prems(2)] Cons.IH [of s1] s1(2) show ?case by (cases stop) auto
qed

section \<open>Runs of operations\<close>

text \<open>
  Any sequence of operations: the bytes read out come first, those still in the buffer after them,
  and together they are the bytes that were there and the bytes accepted, in order.
\<close>

datatype buffer_op = Put byte | Get | Compact

fun buffer_step :: "buffer_op \<Rightarrow> buffer \<Rightarrow> (byte list \<times> byte list \<times> buffer) res" where
  "buffer_step (Put c) b =
     rbind (buffer_write b c) (\<lambda>b'. Inr (if buffer_can_write b then [c] else [], [], b'))"
| "buffer_step Get b =
     rbind (buffer_read b) (\<lambda>(c, b'). Inr ([], if buffer_can_read b then [c] else [], b'))"
| "buffer_step Compact b = Inr ([], [], buffer_compact b)"

fun buffer_run :: "buffer_op list \<Rightarrow> buffer \<Rightarrow> (byte list \<times> byte list \<times> buffer) res" where
  "buffer_run [] b = Inr ([], [], b)"
| "buffer_run (x # xs) b =
     rbind (buffer_step x b) (\<lambda>(w, r, b').
     rbind (buffer_run xs b') (\<lambda>(ws, rs, b''). Inr (w @ ws, r @ rs, b'')))"

lemma buffer_step_fifo:
  assumes "buffer_inv b"
  shows "\<exists>w r b'. buffer_step x b = Inr (w, r, b') \<and> buffer_inv b' \<and> r @ content b' = content b @ w"
proof (cases x)
  case (Put c)
  show ?thesis
  proof (cases "room b > 0")
    case True
    with buffer_write_ok [OF assms True, of c] Put show ?thesis by (auto simp: can_write_room)
  next
    case False
    with Put assms show ?thesis by (auto simp: can_write_room buffer_write_full)
  qed
next
  case Get
  show ?thesis
  proof (cases "content b")
    case Nil
    with Get assms show ?thesis by (auto simp: buffer_read_empty can_read_content)
  next
    case (Cons c cs)
    with buffer_read_ok [OF assms Cons] Get assms show ?thesis by (auto simp: can_read_content)
  qed
next
  case Compact
  with assms show ?thesis by auto
qed

lemma buffer_run_fifo_aux:
  assumes "buffer_inv b"
  shows "\<exists>ws rs b'. buffer_run xs b = Inr (ws, rs, b') \<and> buffer_inv b' \<and> rs @ content b' = content b @ ws"
  using assms
proof (induction xs arbitrary: b)
  case Nil
  then show ?case by simp
next
  case (Cons x xs)
  from buffer_step_fifo [OF Cons.prems, of x] obtain w r b1 where
    b1: "buffer_step x b = Inr (w, r, b1)" "buffer_inv b1" "r @ content b1 = content b @ w" by blast
  from Cons.IH [OF b1(2)] obtain ws rs b2 where
    b2: "buffer_run xs b1 = Inr (ws, rs, b2)" "buffer_inv b2" "rs @ content b2 = content b1 @ ws" by blast
  have "(r @ rs) @ content b2 = content b @ w @ ws"
    using b1(3) b2(3) by (metis append.assoc)
  with b1 b2 show ?case by auto
qed

section \<open>Properties\<close>

text \<open>
  C1. Whatever sequence of writes, reads and compactions a buffer sees, none of them fails, the
  pointers keep \<open>read <= write <= limit\<close>, and the bytes that come out, followed by those still inside,
  are the bytes that were inside followed by the bytes accepted, in their order.
\<close>

theorem buffer_is_fifo:
  assumes "buffer_inv b"
  shows "\<exists>ws rs b'. buffer_run xs b = Inr (ws, rs, b') \<and> buffer_inv b' \<and> rs @ content b' = content b @ ws"
  by (rule buffer_run_fifo_aux [OF assms])

theorem buffer_is_fifo_witness:
  "\<exists>ws rs b'. buffer_run [Put 7, Get, Put 8, Compact, Get] (buffer_init 2 [0, 0]) = Inr (ws, rs, b')
    \<and> buffer_inv b' \<and> rs @ content b' = content (buffer_init 2 [0, 0]) @ ws"
  by (rule buffer_is_fifo) simp

text \<open>
  Writing bytes one at a time never fails: the bytes that fit behind the write pointer are added in
  order, and those that do not are dropped.
\<close>

lemma buffer_write_drops_the_rest:
  assumes "buffer_inv b"
  shows "\<exists>b'. put_all buffer_write cs b = Inr b' \<and> buffer_inv b' \<and> content b' = content b @ take (room b) cs
    \<and> room b' = room b - length cs"
  by (rule bq.put_all_total [OF assms])

lemma buffer_write_drops_the_rest_example:
  "\<exists>b'. put_all buffer_write [1, 2, 3] (buffer_init 2 [0, 0]) = Inr b' \<and> buffer_inv b'
    \<and> content b' = content (buffer_init 2 [0, 0]) @ take (room (buffer_init 2 [0, 0])) [1, 2, 3]
    \<and> room b' = room (buffer_init 2 [0, 0]) - length [1 :: byte, 2, 3]"
  by (rule buffer_write_drops_the_rest) simp

end
