(* ===== verification/Parser.thy ===== *)
theory Parser
  imports Prelude
begin

text \<open>
  The table-driven lexer engine of \<^verbatim>\<open>src/server/parser.c\<close>: states with transition lists, each
  transition a condition, a destination and an action on the event the parser returns. An action is
  a C function pointer, here an optional function. The locale \<open>transition_table\<close> is the contract
  the engine needs of a table (\<open>parser_feed\<close> reads \<open>states[state]\<close> without a check).
\<close>

section \<open>Events and tables\<close>

text \<open>
  \<open>commands\<close> are three pointers to character arrays (\<open>None\<close> is \<open>NULL\<close>). The list \<open>next\<close> of
  further events is always empty: \<open>parser_feed\<close> clears it and nothing else writes it.
\<close>

record parser_event =
  commands :: "cell list option list"
  pe_index :: nat
  pe_complete :: bool

record transition =
  t_when :: nat
  t_dest :: nat
  t_act1 :: "(parser_event \<Rightarrow> byte \<Rightarrow> parser_event res) option"

record parser_definition =
  states_count :: nat
  d_states :: "transition list list"
  start_state :: nat

record parser =
  p_def :: parser_definition
  p_state :: nat
  e1 :: parser_event

definition ANY :: nat where
  "ANY = 2 ^ 9"

definition empty_event :: parser_event where
  "empty_event = \<lparr>commands = [None, None, None], pe_index = 0, pe_complete = False\<rparr>"

definition parser_init :: "parser_definition \<Rightarrow> parser" where
  "parser_init def = \<lparr>p_def = def, p_state = start_state def, e1 = empty_event\<rparr>"

definition parser_reset :: "parser \<Rightarrow> parser" where
  "parser_reset p = p\<lparr>p_state := start_state (p_def p)\<rparr>"

section \<open>Feeding a byte\<close>

definition matches :: "transition \<Rightarrow> byte \<Rightarrow> bool" where
  "matches t c =
     (if t_when t \<le> 0xFF then unat c = t_when t
      else if t_when t = ANY then True
      else False)"

text \<open>The loop over the transitions of one state: the first match acts and moves, then it breaks.\<close>

fun try_transitions :: "transition list \<Rightarrow> byte \<Rightarrow> nat \<Rightarrow> parser_event \<Rightarrow> (nat \<times> parser_event) res" where
  "try_transitions [] c st e = Inr (st, e)"
| "try_transitions (t # ts) c st e =
     (if matches t c then
        (case t_act1 t of
          None \<Rightarrow> Inr (t_dest t, e)
        | Some act \<Rightarrow> rbind (act e c) (\<lambda>e'. Inr (t_dest t, e')))
      else try_transitions ts c st e)"

definition parser_feed :: "parser \<Rightarrow> byte \<Rightarrow> parser res" where
  "parser_feed p c =
     rbind (load_at (p_state p) (d_states (p_def p))) (\<lambda>ts.
     rbind (try_transitions ts c (p_state p) (e1 p)) (\<lambda>(st, e).
       Inr (p\<lparr>p_state := st, e1 := e\<rparr>)))"

definition get_last_event :: "parser \<Rightarrow> parser_event" where
  "get_last_event p = e1 p"

fun feed_all :: "parser \<Rightarrow> byte list \<Rightarrow> parser res" where
  "feed_all p [] = Inr p"
| "feed_all p (c # cs) = rbind (parser_feed p c) (\<lambda>p'. feed_all p' cs)"

lemma feed_all_append: "feed_all p (xs @ ys) = rbind (feed_all p xs) (\<lambda>p'. feed_all p' ys)"
  by (induction xs arbitrary: p) (auto simp: rbind_assoc)

lemma matches_any [simp]: "t_when t = ANY \<Longrightarrow> matches t c"
  by (simp add: matches_def ANY_def)

text \<open>
  A client that looks at the event after every byte and restarts the lexer when it is complete, as
  \<^verbatim>\<open>client_read\<close> does; the completed events are collected.
\<close>

fun feed_restart ::
  "(parser_event \<Rightarrow> parser_event) \<Rightarrow> parser \<Rightarrow> byte list \<Rightarrow> (parser_event list \<times> parser) res" where
  "feed_restart restart p [] = Inr ([], p)"
| "feed_restart restart p (c # cs) =
     rbind (parser_feed p c) (\<lambda>p'.
       if pe_complete (get_last_event p') then
         rbind (feed_restart restart (p'\<lparr>e1 := restart (e1 p')\<rparr>) cs)
           (\<lambda>(es, p''). Inr (get_last_event p' # es, p''))
       else feed_restart restart p' cs)"

section \<open>Well-formed tables\<close>

text \<open>
  What the engine needs: the start state and every destination exist, and every existing state has a
  transition that matches anything. \<open>ok\<close> is what the actions need of an event that is not complete and
  keep; \<open>fin\<close> is what a complete event has, and \<open>restart\<close> brings it back to \<open>ok\<close>.
\<close>

locale transition_table =
  fixes def :: parser_definition
    and ok :: "nat \<Rightarrow> parser_event \<Rightarrow> bool"
    and fin :: "nat \<Rightarrow> parser_event \<Rightarrow> bool"
    and restart :: "parser_event \<Rightarrow> parser_event"
  assumes start_ok: "start_state def < length (d_states def)" "ok (start_state def) empty_event"
    and any_ok: "ts \<in> set (d_states def) \<Longrightarrow> \<exists>t \<in> set ts. t_when t = ANY"
    and dest_ok: "ts \<in> set (d_states def) \<Longrightarrow> t \<in> set ts \<Longrightarrow> t_dest t < length (d_states def)"
    and try_ok: "st < length (d_states def) \<Longrightarrow> ok st e \<Longrightarrow>
      \<exists>st' e'. try_transitions (d_states def ! st) c st e = Inr (st', e')
        \<and> (if pe_complete e' then fin st' e' else ok st' e')"
    and restart_ok: "fin st e \<Longrightarrow> ok st (restart e)"
begin

definition good :: "parser \<Rightarrow> bool" where
  "good p \<longleftrightarrow> p_def p = def \<and> p_state p < length (d_states def) \<and> ok (p_state p) (e1 p)"

lemma good_init: "good (parser_init def)"
  by (simp add: good_def parser_init_def start_ok)

lemma try_transitions_dest:
  assumes "\<exists>t \<in> set ts. matches t c" "\<forall>t \<in> set ts. t_dest t < n"
    and "try_transitions ts c st e = Inr (st', e')"
  shows "st' < n"
  using assms by (induction ts) (auto split: if_splits option.splits simp: res_simps)

lemma try_state:
  assumes "st < length (d_states def)" "try_transitions (d_states def ! st) c st e = Inr (st', e')"
  shows "st' < length (d_states def)"
proof (rule try_transitions_dest [OF _ _ assms(2)])
  from assms(1) have mem: "d_states def ! st \<in> set (d_states def)" by simp
  from any_ok [OF mem] show "\<exists>t \<in> set (d_states def ! st). matches t c" using matches_any by blast
  from dest_ok [OF mem] show "\<forall>t \<in> set (d_states def ! st). t_dest t < length (d_states def)" by blast
qed

text \<open>Feeding never fails, and keeps the parser good or completes the event.\<close>

lemma parser_feed_good:
  assumes "good p"
  shows "\<exists>p'. parser_feed p c = Inr p' \<and> p_def p' = def \<and> p_state p' < length (d_states def)
    \<and> (if pe_complete (e1 p') then fin (p_state p') (e1 p') else ok (p_state p') (e1 p'))"
proof -
  from assms have st: "p_state p < length (d_states def)" and ok: "ok (p_state p) (e1 p)"
    by (auto simp: good_def)
  from try_ok [OF st ok, of c] obtain st' e' where
    t: "try_transitions (d_states def ! p_state p) c (p_state p) (e1 p) = Inr (st', e')"
      "if pe_complete e' then fin st' e' else ok st' e'" by blast
  from t(1) have "st' < length (d_states def)" by (rule try_state [OF st])
  with t st assms show ?thesis by (auto simp: parser_feed_def good_def)
qed

text \<open>So a client that restarts complete events can feed any bytes: every completed event is final.\<close>

lemma feed_restart_good:
  assumes "good p"
  shows "\<exists>es p'. feed_restart restart p cs = Inr (es, p') \<and> good p' \<and> (\<forall>e \<in> set es. \<exists>st. fin st e)"
  using assms
proof (induction cs arbitrary: p)
  case Nil
  then show ?case by simp
next
  case (Cons c cs)
  from parser_feed_good [OF Cons.prems, of c] obtain p1 where
    p1: "parser_feed p c = Inr p1" "p_def p1 = def" "p_state p1 < length (d_states def)"
      "if pe_complete (e1 p1) then fin (p_state p1) (e1 p1) else ok (p_state p1) (e1 p1)" by blast
  show ?case
  proof (cases "pe_complete (e1 p1)")
    case True
    with p1 have fin: "fin (p_state p1) (e1 p1)" by simp
    with p1 have "good (p1\<lparr>e1 := restart (e1 p1)\<rparr>)" by (simp add: good_def restart_ok)
    from Cons.IH [OF this] p1(1) True fin show ?thesis by (fastforce simp: get_last_event_def)
  next
    case False
    with p1 have "good p1" by (simp add: good_def)
    from Cons.IH [OF this] p1(1) False show ?thesis by (fastforce simp: get_last_event_def)
  qed
qed

end

end
