(* ===== verification/Tokenizer.thy ===== *)
theory Tokenizer
  imports Parser
begin

text \<open>
  The command lexer of \<^verbatim>\<open>src/server/tokenizer.c\<close>: the transition table \<open>create_parser\<close> builds
  and the actions it names. The theory interprets the contract of the engine on it, so that lexing
  never touches memory it should not, refines the lexer to one over plain strings (\<open>tok\<close>), and
  derives what a whole line is split into.
\<close>

section \<open>Actions\<close>

text \<open>\<open>malloc\<close> gives memory that has not been written, \<open>calloc\<close> zeros.\<close>

definition malloc_chars :: "nat \<Rightarrow> cell list" where
  "malloc_chars n = replicate n None"

definition completed :: "parser_event \<Rightarrow> byte \<Rightarrow> parser_event res" where
  "completed e c =
     rbind (load_at 0 (commands e)) (\<lambda>p.
     Inr (e\<lparr>commands := (if p = None then (commands e)[0 := Some [Some 0]] else commands e),
            pe_complete := True, pe_index := 0\<rparr>))"

definition restart_index :: "parser_event \<Rightarrow> byte \<Rightarrow> parser_event res" where
  "restart_index e c = Inr (e\<lparr>pe_index := 0\<rparr>)"

text \<open>
  The three store actions differ in the slot, the size allocated and the bound on the index; each
  writes the byte and a terminating zero after it.
\<close>

definition store_slot :: "nat \<Rightarrow> nat \<Rightarrow> nat \<Rightarrow> parser_event \<Rightarrow> byte \<Rightarrow> parser_event res" where
  "store_slot i cap bound e c =
     rbind (load_at i (commands e)) (\<lambda>p.
     let arr = (case p of None \<Rightarrow> malloc_chars cap | Some arr \<Rightarrow> arr) in
     if pe_index e < bound then
       rbind (store_at (pe_index e) (Some c) arr) (\<lambda>arr1.
       rbind (store_at (Suc (pe_index e)) (Some 0) arr1) (\<lambda>arr2.
       Inr (e\<lparr>commands := (commands e)[i := Some arr2], pe_index := Suc (pe_index e)\<rparr>)))
     else Inr (e\<lparr>commands := (commands e)[i := Some arr]\<rparr>))"

definition store_command :: "parser_event \<Rightarrow> byte \<Rightarrow> parser_event res" where
  "store_command = store_slot 0 5 4"

definition store_first_arg :: "parser_event \<Rightarrow> byte \<Rightarrow> parser_event res" where
  "store_first_arg = store_slot 1 41 40"

definition store_second_arg :: "parser_event \<Rightarrow> byte \<Rightarrow> parser_event res" where
  "store_second_arg = store_slot 2 41 40"

definition free_commands_array :: "parser_event \<Rightarrow> parser_event" where
  "free_commands_array pe = pe\<lparr>commands := [None, None, None]\<rparr>"

definition restart_tokenizer :: "parser_event \<Rightarrow> parser_event" where
  "restart_tokenizer pe = free_commands_array (pe\<lparr>pe_complete := False\<rparr>)"

section \<open>The table\<close>

abbreviation (input) COMMAND_STATE :: nat where "COMMAND_STATE \<equiv> 0"
abbreviation (input) FIRST_ARG_STATE :: nat where "FIRST_ARG_STATE \<equiv> 1"
abbreviation (input) SECOND_ARG_STATE :: nat where "SECOND_ARG_STATE \<equiv> 2"
abbreviation (input) FINAL_STATE :: nat where "FINAL_STATE \<equiv> 3"
abbreviation (input) ERR0R_STATE :: nat where "ERR0R_STATE \<equiv> 4"

definition create_parser_definition :: parser_definition where
  "create_parser_definition =
   \<lparr>states_count = 5,
    d_states =
     [[\<lparr>t_when = 32, t_dest = FIRST_ARG_STATE, t_act1 = Some restart_index\<rparr>,
       \<lparr>t_when = 13, t_dest = FINAL_STATE, t_act1 = None\<rparr>,
       \<lparr>t_when = ANY, t_dest = COMMAND_STATE, t_act1 = Some store_command\<rparr>],
      [\<lparr>t_when = 32, t_dest = SECOND_ARG_STATE, t_act1 = Some restart_index\<rparr>,
       \<lparr>t_when = 13, t_dest = FINAL_STATE, t_act1 = None\<rparr>,
       \<lparr>t_when = ANY, t_dest = FIRST_ARG_STATE, t_act1 = Some store_first_arg\<rparr>],
      [\<lparr>t_when = 32, t_dest = ERR0R_STATE, t_act1 = None\<rparr>,
       \<lparr>t_when = 13, t_dest = FINAL_STATE, t_act1 = None\<rparr>,
       \<lparr>t_when = ANY, t_dest = SECOND_ARG_STATE, t_act1 = Some store_second_arg\<rparr>],
      [\<lparr>t_when = 10, t_dest = COMMAND_STATE, t_act1 = Some completed\<rparr>,
       \<lparr>t_when = 13, t_dest = FINAL_STATE, t_act1 = None\<rparr>,
       \<lparr>t_when = ANY, t_dest = ERR0R_STATE, t_act1 = None\<rparr>],
      [\<lparr>t_when = 13, t_dest = FINAL_STATE, t_act1 = None\<rparr>,
       \<lparr>t_when = ANY, t_dest = ERR0R_STATE, t_act1 = None\<rparr>]],
    start_state = COMMAND_STATE\<rparr>"

definition create_parser :: parser where
  "create_parser = parser_init create_parser_definition"

section \<open>The lexer over strings\<close>

text \<open>
  The state of the lexer with each array as the string written into it: \<open>None\<close> is the null pointer.
\<close>

record tok =
  k_state :: nat
  k_cmd :: "cstring option"
  k_arg1 :: "cstring option"
  k_arg2 :: "cstring option"
  k_index :: nat
  k_done :: bool

text \<open>The array of \<open>cap\<close> cells after \<open>s\<close> and the terminating zero have been written.\<close>

fun slot :: "nat \<Rightarrow> cstring option \<Rightarrow> cell list option" where
  "slot cap None = None"
| "slot cap (Some s) = Some (List.map Some s @ Some 0 # replicate (cap - Suc (length s)) None)"

text \<open>A completed event without a command has the one-byte array of \<open>completed\<close>.\<close>

definition event_of :: "tok \<Rightarrow> parser_event" where
  "event_of k =
   \<lparr>commands =
      [if k_done k \<and> k_cmd k = Some [] then Some [Some 0] else slot 5 (k_cmd k),
       slot 41 (k_arg1 k), slot 41 (k_arg2 k)],
    pe_index = k_index k, pe_complete = k_done k\<rparr>"

definition parser_of :: "tok \<Rightarrow> parser" where
  "parser_of k = \<lparr>p_def = create_parser_definition, p_state = k_state k, e1 = event_of k\<rparr>"

definition push :: "nat \<Rightarrow> cstring option \<Rightarrow> byte \<Rightarrow> cstring option" where
  "push bound s c =
     (case s of None \<Rightarrow> Some [c] | Some s \<Rightarrow> Some (if length s < bound then s @ [c] else s))"

fun tok_step :: "tok \<Rightarrow> byte \<Rightarrow> tok" where
  "tok_step k c =
     (if k_state k = COMMAND_STATE then
        (if c = SP then k\<lparr>k_state := FIRST_ARG_STATE, k_index := 0\<rparr>
         else if c = CR then k\<lparr>k_state := FINAL_STATE\<rparr>
         else k\<lparr>k_cmd := push 4 (k_cmd k) c, k_index := min 4 (Suc (k_index k))\<rparr>)
      else if k_state k = FIRST_ARG_STATE then
        (if c = SP then k\<lparr>k_state := SECOND_ARG_STATE, k_index := 0\<rparr>
         else if c = CR then k\<lparr>k_state := FINAL_STATE\<rparr>
         else k\<lparr>k_arg1 := push 40 (k_arg1 k) c, k_index := min 40 (Suc (k_index k))\<rparr>)
      else if k_state k = SECOND_ARG_STATE then
        (if c = SP then k\<lparr>k_state := ERR0R_STATE\<rparr>
         else if c = CR then k\<lparr>k_state := FINAL_STATE\<rparr>
         else k\<lparr>k_arg2 := push 40 (k_arg2 k) c, k_index := min 40 (Suc (k_index k))\<rparr>)
      else if k_state k = FINAL_STATE then
        (if c = LF then
           k\<lparr>k_state := COMMAND_STATE, k_cmd := Some (case k_cmd k of None \<Rightarrow> [] | Some s \<Rightarrow> s),
             k_index := 0, k_done := True\<rparr>
         else if c = CR then k
         else k\<lparr>k_state := ERR0R_STATE\<rparr>)
      else (if c = CR then k\<lparr>k_state := FINAL_STATE\<rparr> else k))"

declare tok_step.simps [simp del]

definition written :: "nat \<Rightarrow> cstring option \<Rightarrow> bool" where
  "written bound s \<longleftrightarrow> (case s of None \<Rightarrow> True | Some s \<Rightarrow> s \<noteq> [] \<and> length s \<le> bound)"

definition opt_length :: "cstring option \<Rightarrow> nat" where
  "opt_length s = (case s of None \<Rightarrow> 0 | Some s \<Rightarrow> length s)"

definition tok_inv :: "tok \<Rightarrow> bool" where
  "tok_inv k \<longleftrightarrow> \<not> k_done k \<and> k_state k \<le> 4
     \<and> written 4 (k_cmd k) \<and> written 40 (k_arg1 k) \<and> written 40 (k_arg2 k)
     \<and> (k_state k = COMMAND_STATE \<longrightarrow> k_index k = opt_length (k_cmd k) \<and> k_arg1 k = None \<and> k_arg2 k = None)
     \<and> (k_state k = FIRST_ARG_STATE \<longrightarrow> k_index k = opt_length (k_arg1 k) \<and> k_arg2 k = None)
     \<and> (k_state k = SECOND_ARG_STATE \<longrightarrow> k_index k = opt_length (k_arg2 k))"

definition tok_done :: "tok \<Rightarrow> bool" where
  "tok_done k \<longleftrightarrow> k_done k \<and> k_state k = COMMAND_STATE \<and> k_index k = 0
     \<and> (\<exists>s. k_cmd k = Some s \<and> length s \<le> 4) \<and> written 40 (k_arg1 k) \<and> written 40 (k_arg2 k)"

definition tok_init :: tok where
  "tok_init = \<lparr>k_state = COMMAND_STATE, k_cmd = None, k_arg1 = None, k_arg2 = None, k_index = 0,
     k_done = False\<rparr>"

lemma tok_inv_init [simp]: "tok_inv tok_init"
  by (simp add: tok_inv_def tok_init_def written_def opt_length_def)

lemma parser_of_sel [simp]: "e1 (parser_of k) = event_of k" "p_state (parser_of k) = k_state k"
    "p_def (parser_of k) = create_parser_definition"
  by (simp_all add: parser_of_def)

lemma parser_of_init: "parser_of tok_init = create_parser"
  by (simp add: parser_of_def tok_init_def create_parser_def parser_init_def event_of_def
      empty_event_def create_parser_definition_def)

lemma event_of_init: "event_of tok_init = empty_event"
  by (simp add: tok_init_def event_of_def empty_event_def)

lemma state_init: "k_state tok_init = COMMAND_STATE"
  by (simp add: tok_init_def)

lemma tok_step_inv:
  assumes "tok_inv k"
  shows "if k_done (tok_step k c) then tok_done (tok_step k c) else tok_inv (tok_step k c)"
  using assms
  by (auto simp: tok_step.simps tok_inv_def tok_done_def written_def opt_length_def push_def split: option.splits)


section \<open>The lexer refines the one over strings\<close>

text \<open>Storing a byte into the array of a slot whose string has the index as its length.\<close>

lemma store_slot_push:
  assumes i: "i < length (commands e)" and cell: "commands e ! i = slot (Suc bound) s"
    and idx: "pe_index e = opt_length s" and le: "opt_length s \<le> bound" and pos: "0 < bound"
  shows "store_slot i (Suc bound) bound e c =
    Inr (e\<lparr>commands := (commands e)[i := slot (Suc bound) (push bound s c)],
           pe_index := min bound (Suc (pe_index e))\<rparr>)"
proof (cases s)
  case None
  with assms show ?thesis
    by (cases bound) (auto simp: store_slot_def opt_length_def malloc_chars_def push_def Let_def)
next
  case (Some t)
  show ?thesis
  proof (cases "length t < bound")
    case True
    then obtain n where "bound = Suc (length t + n)" by (auto simp: less_iff_Suc_add)
    with assms Some show ?thesis
      by (auto simp: store_slot_def opt_length_def push_def Let_def list_update_append)
  next
    case False
    with assms Some have "length t = bound" by (simp add: opt_length_def)
    with assms Some False show ?thesis
      by (auto simp: store_slot_def opt_length_def push_def Let_def)
  qed
qed

lemma store_command_push:
  assumes "commands e = [slot 5 s, x, y]" "pe_index e = opt_length s" "opt_length s \<le> 4"
  shows "store_command e c = Inr (e\<lparr>commands := [slot 5 (push 4 s c), x, y], pe_index := min 4 (Suc (pe_index e))\<rparr>)"
  using store_slot_push [of 0 e 4 s c] assms by (simp add: store_command_def)

lemma store_first_arg_push:
  assumes "commands e = [x, slot 41 s, y]" "pe_index e = opt_length s" "opt_length s \<le> 40"
  shows "store_first_arg e c = Inr (e\<lparr>commands := [x, slot 41 (push 40 s c), y], pe_index := min 40 (Suc (pe_index e))\<rparr>)"
  using store_slot_push [of 1 e 40 s c] assms by (simp add: store_first_arg_def)

lemma store_second_arg_push:
  assumes "commands e = [x, y, slot 41 s]" "pe_index e = opt_length s" "opt_length s \<le> 40"
  shows "store_second_arg e c = Inr (e\<lparr>commands := [x, y, slot 41 (push 40 s c)], pe_index := min 40 (Suc (pe_index e))\<rparr>)"
  using store_slot_push [of 2 e 40 s c] assms by (simp add: store_second_arg_def numeral_2_eq_2)

lemma written_opt_length: "written n s \<Longrightarrow> opt_length s \<le> n"
  by (cases s) (auto simp: written_def opt_length_def)

lemma matches_byte: "n \<le> 255 \<Longrightarrow> matches \<lparr>t_when = n, t_dest = d, t_act1 = a\<rparr> c \<longleftrightarrow> c = of_nat n"
proof -
  assume "n \<le> 255"
  then have "unat (of_nat n :: byte) = n" by (simp add: unat_of_nat take_bit_nat_eq_self)
  with \<open>n \<le> 255\<close> show ?thesis by (auto simp: matches_def)
qed

lemmas matches_rules = matches_byte [of 32, simplified] matches_byte [of 13, simplified]
  matches_byte [of 10, simplified]

lemma not_done_event: "tok_inv k \<Longrightarrow>
    event_of k = \<lparr>commands = [slot 5 (k_cmd k), slot 41 (k_arg1 k), slot 41 (k_arg2 k)],
      pe_index = k_index k, pe_complete = False\<rparr>"
  by (simp add: event_of_def tok_inv_def)

lemma slot_eq_None [simp]: "slot n s = None \<longleftrightarrow> s = None"
  by (cases s) auto

lemma parser_feed_tok:
  assumes inv: "tok_inv k"
  shows "parser_feed (parser_of k) c = Inr (parser_of (tok_step k c))"
proof -
  from inv have le: "opt_length (k_cmd k) \<le> 4" "opt_length (k_arg1 k) \<le> 40" "opt_length (k_arg2 k) \<le> 40"
    by (auto simp: tok_inv_def intro: written_opt_length)
  from inv have "k_state k \<in> {0, 1, 2, 3, 4}" and nd: "\<not> k_done k" by (auto simp: tok_inv_def)
  then consider "k_state k = 0" | "k_state k = 1" | "k_state k = 2" | "k_state k = 3" | "k_state k = 4"
    by auto
  then show ?thesis
  proof cases
    case 1
    with inv have "k_index k = opt_length (k_cmd k)" by (simp add: tok_inv_def)
    with 1 le nd show ?thesis
      by (simp add: tok_step.simps parser_feed_def parser_of_def not_done_event [OF inv] create_parser_definition_def
          matches_rules restart_index_def store_command_push event_of_def)
  next
    case 2
    with inv have "k_index k = opt_length (k_arg1 k)" by (simp add: tok_inv_def)
    with 2 le nd show ?thesis
      by (simp add: tok_step.simps parser_feed_def parser_of_def not_done_event [OF inv] create_parser_definition_def
          matches_rules restart_index_def store_first_arg_push event_of_def)
  next
    case 3
    with inv have "k_index k = opt_length (k_arg2 k)" by (simp add: tok_inv_def)
    with 3 le nd show ?thesis
      by (simp add: tok_step.simps parser_feed_def parser_of_def not_done_event [OF inv] create_parser_definition_def
          matches_rules store_second_arg_push event_of_def)
  next
    case 4
    from inv have "k_cmd k \<noteq> Some []" by (auto simp: tok_inv_def written_def)
    with 4 nd show ?thesis
      by (auto simp add: tok_step.simps parser_feed_def parser_of_def not_done_event [OF inv] create_parser_definition_def
          matches_rules completed_def event_of_def split: option.splits)
  next
    case 5
    with nd show ?thesis
      by (simp add: tok_step.simps parser_feed_def parser_of_def not_done_event [OF inv] create_parser_definition_def
          matches_rules event_of_def)
  qed
qed

section \<open>The contract of the engine\<close>

definition event_ok :: "nat \<Rightarrow> parser_event \<Rightarrow> bool" where
  "event_ok st e \<longleftrightarrow> (\<exists>k. tok_inv k \<and> k_state k = st \<and> event_of k = e)"

definition event_final :: "nat \<Rightarrow> parser_event \<Rightarrow> bool" where
  "event_final st e \<longleftrightarrow> (\<exists>k. tok_done k \<and> k_state k = st \<and> event_of k = e)"

lemma event_okI: "tok_inv k \<Longrightarrow> event_ok (k_state k) (event_of k)"
  unfolding event_ok_def by (intro exI conjI) (assumption, rule refl, rule refl)

lemma event_finalI: "tok_done k \<Longrightarrow> event_final (k_state k) (event_of k)"
  unfolding event_final_def by (intro exI conjI) (assumption, rule refl, rule refl)

lemma parser_of_split: "parser_feed (parser_of k) c = Inr (parser_of k') \<Longrightarrow> tok_inv k \<Longrightarrow>
    try_transitions (d_states create_parser_definition ! k_state k) c (k_state k) (event_of k)
      = Inr (k_state k', event_of k')"
proof -
  assume feed: "parser_feed (parser_of k) c = Inr (parser_of k')" and inv: "tok_inv k"
  from inv have "k_state k < length (d_states create_parser_definition)"
    by (simp add: tok_inv_def create_parser_definition_def)
  with feed show ?thesis
    by (auto simp: parser_feed_def parser_of_def res_simps)
qed

lemma restart_final: "tok_done k \<Longrightarrow> restart_tokenizer (event_of k) = event_of tok_init"
  by (simp add: restart_tokenizer_def free_commands_array_def event_of_def tok_done_def tok_init_def)

lemma event_ok_step:
  assumes "event_ok st e"
  shows "\<exists>st' e'. try_transitions (d_states create_parser_definition ! st) c st e = Inr (st', e')
    \<and> (if pe_complete e' then event_final st' e' else event_ok st' e')"
proof -
  from assms obtain k where k: "tok_inv k" "k_state k = st" "event_of k = e" by (auto simp: event_ok_def)
  let ?k = "tok_step k c"
  have tr: "try_transitions (d_states create_parser_definition ! st) c st e = Inr (k_state ?k, event_of ?k)"
    using parser_of_split [OF parser_feed_tok [OF k(1), of c] k(1)] k(2,3) by (simp only:)
  have "pe_complete (event_of ?k) = k_done ?k" by (simp add: event_of_def)
  moreover have "if k_done ?k then event_final (k_state ?k) (event_of ?k) else event_ok (k_state ?k) (event_of ?k)"
    using tok_step_inv [OF k(1), of c] event_finalI event_okI by (cases "k_done ?k") simp_all
  ultimately show ?thesis using tr by (intro exI conjI) (assumption, simp only:)
qed

lemma event_ok_restart: "event_final st e \<Longrightarrow> event_ok st (restart_tokenizer e)"
proof -
  assume "event_final st e"
  then obtain k where k: "tok_done k" "k_state k = st" "event_of k = e" unfolding event_final_def by blast
  have "restart_tokenizer e = event_of tok_init" using restart_final [OF k(1)] k(3) by (simp only:)
  moreover have "st = k_state tok_init" using k(1,2) by (simp add: tok_done_def state_init)
  ultimately show ?thesis using event_okI [OF tok_inv_init] by (simp only:)
qed

lemma event_ok_start: "event_ok (start_state create_parser_definition) empty_event"
proof -
  have "start_state create_parser_definition = COMMAND_STATE" by (simp add: create_parser_definition_def)
  then show ?thesis unfolding event_ok_def by (metis event_of_init tok_inv_init state_init)
qed

lemma table_shape:
  "ts \<in> set (d_states create_parser_definition) \<Longrightarrow> (\<exists>t \<in> set ts. t_when t = ANY) \<and> (\<forall>t \<in> set ts. t_dest t < 5)"
  by (auto simp: create_parser_definition_def)

interpretation tk: transition_table create_parser_definition event_ok event_final restart_tokenizer
proof unfold_locales
  have len: "length (d_states create_parser_definition) = 5" by (simp add: create_parser_definition_def)
  show "start_state create_parser_definition < length (d_states create_parser_definition)"
    by (simp add: create_parser_definition_def)
  show "event_ok (start_state create_parser_definition) empty_event" by (rule event_ok_start)
  fix ts t st e c
  show "\<exists>t \<in> set ts. t_when t = ANY" if "ts \<in> set (d_states create_parser_definition)"
    using table_shape [OF that] ..
  show "t_dest t < length (d_states create_parser_definition)"
    if "ts \<in> set (d_states create_parser_definition)" "t \<in> set ts"
    using table_shape [OF that(1)] that(2) len by simp
  show "\<exists>st' e'. try_transitions (d_states create_parser_definition ! st) c st e = Inr (st', e')
        \<and> (if pe_complete e' then event_final st' e' else event_ok st' e')" if "event_ok st e"
    using that by (rule event_ok_step)
  show "event_ok st (restart_tokenizer e)" if "event_final st e"
    using that by (rule event_ok_restart)
qed

section \<open>Lines\<close>

text \<open>
  What a line (without its line end) is split into: the word before the first space, cut to four
  bytes; the next two words, cut to forty, absent when empty; the rest is dropped.
\<close>

definition word1 :: "byte list \<Rightarrow> byte list" where
  "word1 l = takeWhile (\<lambda>c. c \<noteq> SP) l"

definition after1 :: "byte list \<Rightarrow> byte list" where
  "after1 l = tl (dropWhile (\<lambda>c. c \<noteq> SP) l)"

definition nonempty :: "cstring \<Rightarrow> cstring option" where
  "nonempty s = (if s = [] then None else Some s)"

definition line_command :: "byte list \<Rightarrow> cstring" where
  "line_command l = take 4 (word1 l)"

definition line_arg1 :: "byte list \<Rightarrow> cstring option" where
  "line_arg1 l = nonempty (take 40 (word1 (after1 l)))"

definition line_arg2 :: "byte list \<Rightarrow> cstring option" where
  "line_arg2 l = nonempty (take 40 (word1 (after1 (after1 l))))"

definition line_event :: "byte list \<Rightarrow> parser_event" where
  "line_event l = event_of \<lparr>k_state = COMMAND_STATE, k_cmd = Some (line_command l), k_arg1 = line_arg1 l,
     k_arg2 = line_arg2 l, k_index = 0, k_done = True\<rparr>"

fun tok_run :: "tok \<Rightarrow> byte list \<Rightarrow> tok" where
  "tok_run k [] = k"
| "tok_run k (c # cs) = tok_run (tok_step k c) cs"

lemma tok_run_append: "tok_run k (xs @ ys) = tok_run (tok_run k xs) ys"
  by (induction xs arbitrary: k) auto

lemma push_nonempty: "0 < n \<Longrightarrow> push n (nonempty (take n s)) c = nonempty (take n (s @ [c]))"
  by (auto simp: push_def nonempty_def)

lemma min_Suc_min: "min n (Suc (min n m)) = min n (Suc m)" for n m :: nat
  by simp

text \<open>The three phases of a line: a run of bytes that are neither a space nor a return.\<close>

lemma tok_run_command:
  assumes "\<forall>c \<in> set w. c \<noteq> SP \<and> c \<noteq> CR"
  shows "tok_run \<lparr>k_state = COMMAND_STATE, k_cmd = nonempty (take 4 s), k_arg1 = a, k_arg2 = b,
      k_index = min 4 (length s), k_done = d\<rparr> w
    = \<lparr>k_state = COMMAND_STATE, k_cmd = nonempty (take 4 (s @ w)), k_arg1 = a, k_arg2 = b,
      k_index = min 4 (length (s @ w)), k_done = d\<rparr>"
  using assms
proof (induction w arbitrary: s)
  case Nil
  then show ?case by simp
next
  case (Cons c w)
  then show ?case using Cons.IH [of "s @ [c]"] by (simp add: tok_step.simps push_nonempty min_Suc_min)
qed

lemma tok_run_first_arg:
  assumes "\<forall>c \<in> set w. c \<noteq> SP \<and> c \<noteq> CR"
  shows "tok_run \<lparr>k_state = FIRST_ARG_STATE, k_cmd = a, k_arg1 = nonempty (take 40 s), k_arg2 = b,
      k_index = min 40 (length s), k_done = d\<rparr> w
    = \<lparr>k_state = FIRST_ARG_STATE, k_cmd = a, k_arg1 = nonempty (take 40 (s @ w)), k_arg2 = b,
      k_index = min 40 (length (s @ w)), k_done = d\<rparr>"
  using assms
proof (induction w arbitrary: s)
  case Nil
  then show ?case by simp
next
  case (Cons c w)
  then show ?case using Cons.IH [of "s @ [c]"] by (simp add: tok_step.simps push_nonempty min_Suc_min)
qed

lemma tok_run_second_arg:
  assumes "\<forall>c \<in> set w. c \<noteq> SP \<and> c \<noteq> CR"
  shows "tok_run \<lparr>k_state = SECOND_ARG_STATE, k_cmd = a, k_arg1 = b, k_arg2 = nonempty (take 40 s),
      k_index = min 40 (length s), k_done = d\<rparr> w
    = \<lparr>k_state = SECOND_ARG_STATE, k_cmd = a, k_arg1 = b, k_arg2 = nonempty (take 40 (s @ w)),
      k_index = min 40 (length (s @ w)), k_done = d\<rparr>"
  using assms
proof (induction w arbitrary: s)
  case Nil
  then show ?case by simp
next
  case (Cons c w)
  then show ?case using Cons.IH [of "s @ [c]"] by (simp add: tok_step.simps push_nonempty min_Suc_min)
qed

lemma tok_run_error: "\<forall>c \<in> set w. c \<noteq> CR \<Longrightarrow> k_state k = ERR0R_STATE \<Longrightarrow> tok_run k w = k"
  by (induction w) (auto simp: tok_step.simps)

text \<open>A whole line, up to its return.\<close>

lemma split_word:
  obtains "l = word1 l" "after1 l = []" | "l = word1 l @ SP # after1 l"
proof (cases "dropWhile (\<lambda>c. c \<noteq> SP) l")
  case Nil
  then have "after1 l = []" by (simp only: after1_def list.sel)
  moreover have "l = word1 l"
    using Nil takeWhile_dropWhile_id [of "\<lambda>c. c \<noteq> SP" l] by (simp only: word1_def append_Nil2)
  ultimately show ?thesis using that(1) by blast
next
  case (Cons c r)
  then have "c = SP" using hd_dropWhile [of "\<lambda>c. c \<noteq> SP" l] by auto
  with Cons have "l = word1 l @ SP # after1 l"
    using takeWhile_dropWhile_id [of "\<lambda>c. c \<noteq> SP" l] by (simp add: word1_def after1_def)
  with that(2) show ?thesis by blast
qed

lemma word1_bytes: "c \<in> set (word1 l) \<Longrightarrow> c \<noteq> SP \<and> c \<in> set l"
  by (auto simp: word1_def dest: set_takeWhileD)

lemma after1_bytes: "c \<in> set (after1 l) \<Longrightarrow> c \<in> set l"
  unfolding after1_def by (metis list.set_sel(2) set_dropWhileD tl_Nil)

lemma word1_clean: "CR \<notin> set l \<Longrightarrow> \<forall>c \<in> set (word1 l). c \<noteq> SP \<and> c \<noteq> CR"
  using word1_bytes by blast

definition phase :: "nat \<Rightarrow> cstring option \<Rightarrow> cstring option \<Rightarrow> cstring option \<Rightarrow> tok \<Rightarrow> bool" where
  "phase st c a b k \<longleftrightarrow> k_state k = st \<and> k_cmd k = c \<and> k_arg1 k = a \<and> k_arg2 k = b \<and> \<not> k_done k"

lemma tok_line2:
  assumes "CR \<notin> set l"
  shows "\<exists>st \<in> {SECOND_ARG_STATE, ERR0R_STATE}. phase st c a (nonempty (take 40 (word1 l)))
    (tok_run \<lparr>k_state = SECOND_ARG_STATE, k_cmd = c, k_arg1 = a, k_arg2 = None, k_index = 0, k_done = False\<rparr> l)"
proof -
  let ?k = "\<lparr>k_state = SECOND_ARG_STATE, k_cmd = c, k_arg1 = a, k_arg2 = None, k_index = 0, k_done = False\<rparr>"
  have w: "tok_run ?k (word1 l) = \<lparr>k_state = SECOND_ARG_STATE, k_cmd = c, k_arg1 = a,
      k_arg2 = nonempty (take 40 (word1 l)), k_index = min 40 (length (word1 l)), k_done = False\<rparr>"
    using tok_run_second_arg [OF word1_clean [OF assms], of c a "[]" False]
    by (simp add: nonempty_def)
  show ?thesis
  proof (cases l rule: split_word)
    case 1
    with w show ?thesis by (auto simp: phase_def)
  next
    case 2
    have "CR \<notin> set (after1 l)" using assms after1_bytes by blast
    then have "tok_run (tok_step (tok_run ?k (word1 l)) SP) (after1 l) = tok_step (tok_run ?k (word1 l)) SP"
      by (intro tok_run_error) (auto simp: w tok_step.simps)
    then have "tok_run ?k (word1 l @ SP # after1 l) = tok_step (tok_run ?k (word1 l)) SP"
      by (simp only: tok_run_append tok_run.simps)
    with 2 w show ?thesis by (auto simp: phase_def tok_step.simps)
  qed
qed

lemma tok_line1:
  assumes "CR \<notin> set l"
  shows "\<exists>st \<in> {FIRST_ARG_STATE, SECOND_ARG_STATE, ERR0R_STATE}.
    phase st c (nonempty (take 40 (word1 l))) (nonempty (take 40 (word1 (after1 l))))
    (tok_run \<lparr>k_state = FIRST_ARG_STATE, k_cmd = c, k_arg1 = None, k_arg2 = None, k_index = 0, k_done = False\<rparr> l)"
proof -
  let ?k = "\<lparr>k_state = FIRST_ARG_STATE, k_cmd = c, k_arg1 = None, k_arg2 = None, k_index = 0, k_done = False\<rparr>"
  have w: "tok_run ?k (word1 l) = \<lparr>k_state = FIRST_ARG_STATE, k_cmd = c,
      k_arg1 = nonempty (take 40 (word1 l)), k_arg2 = None, k_index = min 40 (length (word1 l)), k_done = False\<rparr>"
    using tok_run_first_arg [OF word1_clean [OF assms], of c "[]" None False]
    by (simp add: nonempty_def)
  show ?thesis
  proof (cases l rule: split_word)
    case 1
    then have "word1 (after1 l) = []" by (simp add: word1_def)
    with 1 w show ?thesis by (auto simp: phase_def nonempty_def)
  next
    case 2
    have "CR \<notin> set (after1 l)" using assms after1_bytes by blast
    from tok_line2 [OF this, of c "nonempty (take 40 (word1 l))"] w
    have "\<exists>st \<in> {SECOND_ARG_STATE, ERR0R_STATE}. phase st c (nonempty (take 40 (word1 l)))
        (nonempty (take 40 (word1 (after1 l)))) (tok_run ?k (word1 l @ SP # after1 l))"
      by (simp add: tok_run_append tok_step.simps)
    with 2 show ?thesis by auto
  qed
qed

lemma tok_line:
  assumes "CR \<notin> set l"
  shows "\<exists>st. st \<noteq> FINAL_STATE \<and> phase st (nonempty (line_command l)) (line_arg1 l) (line_arg2 l) (tok_run tok_init l)"
proof -
  have w: "tok_run tok_init (word1 l) = \<lparr>k_state = COMMAND_STATE, k_cmd = nonempty (line_command l),
      k_arg1 = None, k_arg2 = None, k_index = min 4 (length (word1 l)), k_done = False\<rparr>"
    using tok_run_command [OF word1_clean [OF assms], of "[]" None None False]
    by (simp add: nonempty_def line_command_def tok_init_def)
  show ?thesis
  proof (cases l rule: split_word)
    case 1
    then have "line_arg1 l = None" "line_arg2 l = None"
      by (auto simp: line_arg1_def line_arg2_def word1_def after1_def nonempty_def)
    with 1 w show ?thesis by (auto simp: phase_def)
  next
    case 2
    have "CR \<notin> set (after1 l)" using assms after1_bytes by blast
    from tok_line1 [OF this, of "nonempty (line_command l)"] w obtain st where
      "st \<in> {FIRST_ARG_STATE, SECOND_ARG_STATE, ERR0R_STATE}"
      and st: "phase st (nonempty (line_command l)) (line_arg1 l) (line_arg2 l)
        (tok_run tok_init (word1 l @ SP # after1 l))"
      by (auto simp add: tok_run_append tok_step.simps line_arg1_def line_arg2_def)
    then have "st \<noteq> FINAL_STATE" by auto
    with st have "\<exists>st. st \<noteq> FINAL_STATE \<and> phase st (nonempty (line_command l)) (line_arg1 l) (line_arg2 l)
        (tok_run tok_init (word1 l @ SP # after1 l))" by blast
    with 2 show ?thesis by auto
  qed
qed

lemma tok_line_crlf:
  assumes "CR \<notin> set l"
  shows "event_of (tok_run tok_init (l @ crlf)) = line_event l"
    and "k_state (tok_run tok_init (l @ crlf)) = COMMAND_STATE"
proof -
  from tok_line [OF assms] obtain st where
    "phase st (nonempty (line_command l)) (line_arg1 l) (line_arg2 l) (tok_run tok_init l)" "st \<noteq> FINAL_STATE"
    by blast
  then obtain i where k: "tok_run tok_init l = \<lparr>k_state = st, k_cmd = nonempty (line_command l),
      k_arg1 = line_arg1 l, k_arg2 = line_arg2 l, k_index = i, k_done = False\<rparr>" "st \<noteq> FINAL_STATE"
    by (cases "tok_run tok_init l") (auto simp: phase_def)
  have "tok_run tok_init (l @ crlf) = \<lparr>k_state = COMMAND_STATE, k_cmd = Some (line_command l),
      k_arg1 = line_arg1 l, k_arg2 = line_arg2 l, k_index = 0, k_done = True\<rparr>"
    using k by (auto simp: tok_run_append tok_step.simps crlf_def nonempty_def)
  then show "event_of (tok_run tok_init (l @ crlf)) = line_event l"
    and "k_state (tok_run tok_init (l @ crlf)) = COMMAND_STATE" by (simp_all add: line_event_def)
qed

section \<open>A stream of lines\<close>

lemma tok_run_done:
  assumes "tok_inv k" "k_done (tok_run k cs)" "\<forall>n < length cs. \<not> k_done (tok_run k (take n cs))"
  shows "feed_restart restart_tokenizer (parser_of k) cs = Inr ([event_of (tok_run k cs)], create_parser)"
  using assms
proof (induction cs arbitrary: k)
  case Nil
  then show ?case by (simp add: tok_inv_def)
next
  case (Cons c cs)
  let ?k = "tok_step k c"
  have d: "pe_complete (event_of k') = k_done k'" for k' by (simp add: event_of_def)
  show ?case
  proof (cases cs)
    case Nil
    with Cons.prems have kd: "k_done ?k" by simp
    then have "tok_done ?k" using tok_step_inv [OF Cons.prems(1), of c] by simp
    then have "(parser_of ?k)\<lparr>e1 := restart_tokenizer (e1 (parser_of ?k))\<rparr> = create_parser"
      by (simp add: parser_of_def restart_final parser_of_init [symmetric] state_init tok_done_def)
    with Nil kd show ?thesis
      by (simp add: parser_feed_tok [OF Cons.prems(1)] get_last_event_def d)
  next
    case (Cons c' cs')
    have nd: "\<not> k_done ?k" using Cons.prems(3) [rule_format, of 1] Cons by simp
    then have "tok_inv ?k" using tok_step_inv [OF Cons.prems(1), of c] by simp
    moreover have "\<forall>n < length cs. \<not> k_done (tok_run ?k (take n cs))"
      using Cons.prems(3) by (auto dest: spec [of _ "Suc _"])
    ultimately have "feed_restart restart_tokenizer (parser_of ?k) cs = Inr ([event_of (tok_run ?k cs)], create_parser)"
      using Cons.IH Cons.prems(2) by simp
    with nd show ?thesis
      by (simp add: parser_feed_tok [OF Cons.prems(1)] get_last_event_def d)
  qed
qed

lemma tok_run_not_done: "tok_inv k \<Longrightarrow> \<forall>c \<in> set cs. c \<noteq> CR \<Longrightarrow> k_state k \<noteq> FINAL_STATE \<Longrightarrow>
    \<not> k_done (tok_run k cs)"
proof (induction cs arbitrary: k)
  case Nil
  then show ?case by (simp add: tok_inv_def)
next
  case (Cons c cs)
  then have nd: "\<not> k_done (tok_step k c)" and st: "k_state (tok_step k c) \<noteq> FINAL_STATE"
    by (auto simp: tok_step.simps tok_inv_def)
  from nd have "tok_inv (tok_step k c)" using tok_step_inv [OF Cons.prems(1), of c] by simp
  with Cons st show ?case by simp
qed

lemma line_prefix_not_done:
  assumes "CR \<notin> set l" "n < length (l @ crlf)"
  shows "\<not> k_done (tok_run tok_init (take n (l @ crlf)))"
proof (cases "n \<le> length l")
  case True
  have "CR \<notin> set (take n l)" using assms(1) by (auto dest: in_set_takeD)
  with True show ?thesis
    using tok_run_not_done [OF tok_inv_init, of "take n l"] by (auto simp: state_init)
next
  case False
  with assms(2) have "n = Suc (length l)" by (simp add: crlf_def)
  then have "take n (l @ crlf) = l @ [CR]" by (simp add: crlf_def)
  moreover from tok_line [OF assms(1)] have "\<not> k_done (tok_run tok_init l)" by (auto simp: phase_def)
  ultimately show ?thesis by (auto simp: tok_run_append tok_step.simps)
qed

lemma feed_restart_append:
  "feed_restart r p (xs @ ys) =
     rbind (feed_restart r p xs) (\<lambda>(es, p'). rbind (feed_restart r p' ys) (\<lambda>(fs, p''). Inr (es @ fs, p'')))"
proof (induction xs arbitrary: p)
  case Nil
  then show ?case by (simp add: rbind_def split: sum.split)
next
  case (Cons x xs)
  show ?case
    by (simp add: Cons.IH rbind_def split: sum.split prod.split)
qed

lemma feed_line:
  assumes "CR \<notin> set l"
  shows "feed_restart restart_tokenizer create_parser (l @ crlf) = Inr ([line_event l], create_parser)"
proof -
  let ?k = "tok_run tok_init (l @ crlf)"
  have "k_done ?k"
  proof -
    have "pe_complete (event_of ?k)" using tok_line_crlf(1) [OF assms] by (simp add: line_event_def event_of_def)
    then show ?thesis by (simp add: event_of_def)
  qed
  with tok_run_done [OF tok_inv_init, of "l @ crlf"] line_prefix_not_done [OF assms]
  show ?thesis by (simp add: parser_of_init tok_line_crlf(1) [OF assms])
qed

text \<open>
  Any stream of lines is cut at its line ends, wherever the reads cut the stream: one event for each
  line, in order, and the lexer ends where it began.
\<close>

lemma feed_lines:
  assumes "\<forall>l \<in> set ls. CR \<notin> set l"
  shows "feed_restart restart_tokenizer create_parser (concat (List.map (\<lambda>l. l @ crlf) ls))
    = Inr (List.map line_event ls, create_parser)"
  using assms
proof (induction ls)
  case Nil
  then show ?case by simp
next
  case (Cons l ls)
  then show ?case
    using feed_restart_append [of restart_tokenizer create_parser "l @ crlf"] feed_line [of l] by simp
qed

text \<open>The strings the handlers read out of a completed event.\<close>

definition event_string :: "nat \<Rightarrow> parser_event \<Rightarrow> cstring option res" where
  "event_string i e =
     (case commands e ! i of None \<Rightarrow> Inr None | Some arr \<Rightarrow> rbind (c_string arr) (\<lambda>s. Inr (Some s)))"

definition cut_zero :: "cstring \<Rightarrow> cstring" where
  "cut_zero s = takeWhile (\<lambda>c. c \<noteq> 0) s"

lemma slot_string:
  "(case slot n s of None \<Rightarrow> Inr None | Some arr \<Rightarrow> rbind (c_string arr) (\<lambda>s. Inr (Some s)))
    = Inr (map_option cut_zero s)"
  by (cases s) (simp_all add: c_string_append_zero cut_zero_def)

lemma event_string_done:
  assumes "k_done k" "k_cmd k = Some s"
  shows "event_string 0 (event_of k) = Inr (Some (cut_zero s))"
    and "event_string 1 (event_of k) = Inr (map_option cut_zero (k_arg1 k))"
    and "event_string 2 (event_of k) = Inr (map_option cut_zero (k_arg2 k))"
  using assms slot_string [of 5 "k_cmd k"] slot_string [of 41 "k_arg1 k"] slot_string [of 41 "k_arg2 k"]
  by (simp_all add: event_string_def event_of_def cut_zero_def numeral_2_eq_2)

lemma event_string_final:
  "event_final st e \<Longrightarrow> \<exists>c a b. event_string 0 e = Inr (Some c) \<and> event_string 1 e = Inr a \<and> event_string 2 e = Inr b"
  unfolding event_final_def tok_done_def using event_string_done by blast

lemma line_event_strings:
  "event_string 0 (line_event l) = Inr (Some (cut_zero (line_command l)))"
  "event_string 1 (line_event l) = Inr (map_option cut_zero (line_arg1 l))"
  "event_string 2 (line_event l) = Inr (map_option cut_zero (line_arg2 l))"
  by (simp_all add: line_event_def event_string_done [unfolded One_nat_def])

section \<open>Properties\<close>

text \<open>
  C11. The lexer never fails: on any bytes at all, however malformed, it touches only its own three
  arrays, inside their bounds, and every event it completes holds terminated strings, at least a
  command.
\<close>

theorem lexer_total:
  "\<exists>es p. feed_restart restart_tokenizer create_parser cs = Inr (es, p)
    \<and> (\<forall>e \<in> set es. \<exists>c a b. event_string 0 e = Inr (Some c) \<and> event_string 1 e = Inr a \<and> event_string 2 e = Inr b)"
proof -
  from tk.feed_restart_good [OF tk.good_init, of cs] obtain es p where
    "feed_restart restart_tokenizer create_parser cs = Inr (es, p)" "\<forall>e \<in> set es. \<exists>st. event_final st e"
    unfolding create_parser_def by blast
  then show ?thesis using event_string_final by blast
qed

theorem lexer_total_witness:
  "\<exists>es p. feed_restart restart_tokenizer create_parser [0, 13, 10, 255, 32, 32, 32, 32, 13, 13, 10] = Inr (es, p)
    \<and> (\<forall>e \<in> set es. \<exists>c a b. event_string 0 e = Inr (Some c) \<and> event_string 1 e = Inr a \<and> event_string 2 e = Inr b)"
  by (rule lexer_total)

text \<open>
  C13. A stream of command lines gives one event for each line, in order, whatever the reads cut it
  into: the command is the first word cut to four bytes, the arguments are the next two words cut to
  forty, further words are dropped, and the lexer ends in its initial state.
\<close>

theorem lexer_splits_lines:
  assumes "\<forall>l \<in> set ls. CR \<notin> set l"
  shows "feed_restart restart_tokenizer create_parser (concat (List.map (\<lambda>l. l @ crlf) ls))
    = Inr (List.map line_event ls, create_parser)"
  by (rule feed_lines [OF assms])

theorem lexer_splits_lines_witness:
  "feed_restart restart_tokenizer create_parser (concat (List.map (\<lambda>l. l @ crlf) [str ''USER foo'', str ''NOOP'']))
    = Inr (List.map line_event [str ''USER foo'', str ''NOOP''], create_parser)"
  by (rule lexer_splits_lines) simp

end
