(* ===== verification/Commands.thy ===== *)
theory Commands
  imports Maildir Users Buffer Tokenizer
begin

text \<open>
  The commands of the protocol (\<^verbatim>\<open>src/server/comparator.c\<close> with the replies of
  \<^verbatim>\<open>src/include/server_messages.h\<close>): numbers read and printed, the write into the client's
  buffer, one function per handler, and the tables \<open>comparator\<close> looks a command up in. A handler
  returns the number of the next state and the session it changed. \<open>cur\<close> is
  \<^verbatim>\<open>p3->stm.current->state\<close>, which the machine does not change while a handler runs.
\<close>

section \<open>The session\<close>

abbreviation (input) AUTH :: nat where "AUTH \<equiv> 0"
abbreviation (input) TRANSACTION :: nat where "TRANSACTION \<equiv> Suc 0"
abbreviation (input) READING_MAIL :: nat where "READING_MAIL \<equiv> 2"
abbreviation (input) WRITING_MAIL :: nat where "WRITING_MAIL \<equiv> 3"
abbreviation (input) UPDATE :: nat where "UPDATE \<equiv> 4"
abbreviation (input) DONE :: nat where "DONE \<equiv> 5"
abbreviation (input) ERROR :: nat where "ERROR \<equiv> 6"

text \<open>
  The union \<^verbatim>\<open>client\<close>. Its two members begin with the same buffer pointers; then the parser
  pointer of \<open>state\<close> shares its bytes with the two descriptors of \<open>mail\<close>, so the tag says which was
  written last. The last two fields of \<open>mail\<close> lie behind \<open>state\<close> and are fields of the session.
\<close>

datatype client_union = Untouched | State_st | Mail_st int int

record pop3 = mailbox +
  p_stm :: "nat option"
  client_fd :: int
  read_buffer :: buffer
  write_buffer :: buffer
  selected_mail :: u32
  selected_mail_fd :: int
  p_parser :: parser
  client :: client_union
  byte_stuffing_st :: int
  mail_done :: byte

text \<open>
  \<open>p_stm\<close> is the current state of the session's machine, as an index into the table every session
  shares (null before the first event).
\<close>

text \<open>What the handlers read of the rest of the program.\<close>

record command_env =
  ce_os :: os
  ce_users :: user_db
  ce_maildir :: cstring

section \<open>Numbers\<close>

definition isspace :: "byte \<Rightarrow> bool" where
  "isspace c \<longleftrightarrow> c = SP \<or> (9 \<le> c \<and> c \<le> 13)"

definition isdigit :: "byte \<Rightarrow> bool" where
  "isdigit c \<longleftrightarrow> 48 \<le> c \<and> c \<le> 57"

fun digits_value :: "nat \<Rightarrow> cstring \<Rightarrow> nat" where
  "digits_value n [] = n"
| "digits_value n (c # cs) = (if isdigit c then digits_value (10 * n + (unat c - 48)) cs else n)"

text \<open>
  \<open>atoi\<close> as \<open>(int) strtol(s, NULL, 10)\<close>: spaces, a sign, digits, saturated at the bounds of \<open>long\<close>
  and cut to 32 bits. The handlers store it in an \<open>unsigned\<close>.
\<close>

definition strtol10 :: "cstring \<Rightarrow> int" where
  "strtol10 s =
     (case dropWhile isspace s of
       [] \<Rightarrow> 0
     | c # cs \<Rightarrow>
         if c = 45 then max (- (2 ^ 63)) (- int (digits_value 0 cs))
         else if c = 43 then min (2 ^ 63 - 1) (int (digits_value 0 cs))
         else min (2 ^ 63 - 1) (int (digits_value 0 (c # cs))))"

definition atoi :: "cstring \<Rightarrow> u32" where
  "atoi s = word_of_int (strtol10 s)"

fun dec :: "nat \<Rightarrow> cstring" where
  "dec n = (if n < 10 then [48 + of_nat n] else dec (n div 10) @ [48 + of_nat (n mod 10)])"

declare dec.simps [simp del]

definition fmt_u :: "u32 \<Rightarrow> cstring" where
  "fmt_u w = dec (unat w)"

definition fmt_ld :: "u64 \<Rightarrow> cstring" where
  "fmt_ld w = (if sint w < 0 then 45 # dec (nat (- sint w)) else dec (nat (sint w)))"

text \<open>\<open>sprintf\<close> into \<open>char[40]\<close>: the text and its terminating zero have to fit.\<close>

definition sprintf40 :: "cstring \<Rightarrow> cstring res" where
  "sprintf40 s = (if length s < 40 then Inr s else Inl OutOfBounds)"

section \<open>Replies\<close>

definition AUTH_CAPA_MSG :: cstring where
  "AUTH_CAPA_MSG = str ''+OK'' @ crlf @ str ''CAPA'' @ crlf @ str ''USER'' @ crlf @ str ''PIPELINING'' @ crlf
     @ str ''.'' @ crlf"
definition TRANS_CAPA_MSG :: cstring where
  "TRANS_CAPA_MSG = str ''+OK'' @ crlf @ str ''CAPA'' @ crlf @ str ''USER'' @ crlf @ str ''PIPELINING'' @ crlf
     @ str ''STAT'' @ crlf @ str ''LIST'' @ crlf @ str ''RETR'' @ crlf @ str ''DELE'' @ crlf @ str ''RSET'' @ crlf
     @ str ''NOOP'' @ crlf @ str ''.'' @ crlf"
definition INVALID_COMMAND_MSG :: cstring where "INVALID_COMMAND_MSG = str ''-ERR Unknown command'' @ crlf"
definition PASS_NOUSER_MSG :: cstring where "PASS_NOUSER_MSG = str ''-ERR No username given'' @ crlf"
definition AUTH_ERROR_MSG :: cstring where "AUTH_ERROR_MSG = str ''-ERR [AUTH] Authentication failed'' @ crlf"
definition INVALID_INDEX_MSG :: cstring where "INVALID_INDEX_MSG = str ''-ERR Invalid message number'' @ crlf"
definition NO_MSG_MSG :: cstring where "NO_MSG_MSG = str ''-ERR No such message'' @ crlf"
definition LIST_FMT :: "u32 \<Rightarrow> u64 \<Rightarrow> cstring" where
  "LIST_FMT n oct = str ''+OK '' @ fmt_u n @ str '' messages ('' @ fmt_ld oct @ str '' octets)'' @ crlf"
definition LOGIN_MSG :: cstring where "LOGIN_MSG = str ''+OK Logged in'' @ crlf"
definition STAT_FMT :: "u32 \<Rightarrow> u64 \<Rightarrow> cstring" where
  "STAT_FMT n oct = str ''+OK '' @ fmt_u n @ str '' '' @ fmt_ld oct @ crlf"
definition DELE_MSG :: cstring where "DELE_MSG = str ''+OK message deleted'' @ crlf"
definition AUTH_QUIT_MSG :: cstring where "AUTH_QUIT_MSG = str ''+OK closing connection'' @ crlf"
definition ALREADY_DELE_MSG :: cstring where "ALREADY_DELE_MSG = str ''-ERR message already deleted'' @ crlf"
definition POSITIVE_MSG :: cstring where "POSITIVE_MSG = str ''+OK'' @ crlf"
definition NEGATIVE_MSG :: cstring where "NEGATIVE_MSG = str ''-ERR'' @ crlf"

text \<open>A line of the listing, with the bare newline of the format.\<close>

definition SCAN_LINE :: "u32 \<Rightarrow> u64 \<Rightarrow> cstring" where
  "SCAN_LINE n oct = fmt_u n @ str '' '' @ fmt_ld oct @ [LF]"

definition write_to_buffer :: "cstring \<Rightarrow> buffer \<Rightarrow> (nat \<times> buffer) res" where
  "write_to_buffer s b =
     rbind (buffer_write_ptr b) (\<lambda>count.
     if count < length s then Inr (2, b)
     else rbind (buffer_fill b s) (\<lambda>b1.
          rbind (buffer_write_adv b1 (int (length s))) (\<lambda>b2. Inr (0, b2))))"

text \<open>A reply whose return value the handler ignores.\<close>

definition reply :: "cstring \<Rightarrow> 'a pop3_scheme \<Rightarrow> 'a pop3_scheme res" where
  "reply s p = rbind (write_to_buffer s (write_buffer p)) (\<lambda>(_, b). Inr (p\<lparr>write_buffer := b\<rparr>))"

section \<open>Handlers\<close>

definition auth_quit_handler :: "'a pop3_scheme \<Rightarrow> (nat \<times> 'a pop3_scheme) res" where
  "auth_quit_handler p = rbind (reply AUTH_QUIT_MSG p) (\<lambda>p. Inr (DONE, p))"

definition trans_quit_handler :: "'a pop3_scheme \<Rightarrow> (nat \<times> 'a pop3_scheme) res" where
  "trans_quit_handler p = rbind (reply POSITIVE_MSG p) (\<lambda>p. Inr (UPDATE, p))"

definition noop :: "nat \<Rightarrow> 'a pop3_scheme \<Rightarrow> (nat \<times> 'a pop3_scheme) res" where
  "noop cur p = rbind (reply POSITIVE_MSG p) (\<lambda>p. Inr (cur, p))"

definition retr_handler ::
  "command_env \<Rightarrow> nat \<Rightarrow> cstring option \<Rightarrow> 'a pop3_scheme \<Rightarrow> (nat \<times> 'a pop3_scheme) res" where
  "retr_handler env cur arg1 p =
     rbind (load_mails (ce_os env) (ce_maildir env) p) (\<lambda>p.
     case arg1 of
       None \<Rightarrow> rbind (reply INVALID_INDEX_MSG p) (\<lambda>p. Inr (cur, p))
     | Some arg \<Rightarrow>
         let index = atoi arg in
         if index = 0 then rbind (reply INVALID_INDEX_MSG p) (\<lambda>p. Inr (TRANSACTION, p))
         else if index - 1 > max_index p then rbind (reply NO_MSG_MSG p) (\<lambda>p. Inr (TRANSACTION, p))
         else
           rbind (load_at (unat (index - 1)) (dele_flags p)) (\<lambda>flag.
           if flag \<noteq> 0 then rbind (reply ALREADY_DELE_MSG p) (\<lambda>p. Inr (TRANSACTION, p))
           else
             rbind (reply POSITIVE_MSG (p\<lparr>selected_mail := index - 1\<rparr>)) (\<lambda>p.
             rbind (mail_at p (unat (selected_mail p))) (\<lambda>mail.
             let fd = open_mail (ce_os env) (file_path mail) in
             if fd < 0 then Inr (ERROR, p)
             else Inr (READING_MAIL, p\<lparr>selected_mail_fd := fd\<rparr>)))))"

definition dele_handler ::
  "command_env \<Rightarrow> nat \<Rightarrow> cstring option \<Rightarrow> 'a pop3_scheme \<Rightarrow> (nat \<times> 'a pop3_scheme) res" where
  "dele_handler env cur arg1 p =
     rbind (load_mails (ce_os env) (ce_maildir env) p) (\<lambda>p.
     case arg1 of
       None \<Rightarrow> rbind (reply INVALID_INDEX_MSG p) (\<lambda>p. Inr (cur, p))
     | Some arg \<Rightarrow>
         let index = atoi arg in
         if index = 0 then rbind (reply INVALID_INDEX_MSG p) (\<lambda>p. Inr (TRANSACTION, p))
         else if index - 1 > max_index p then rbind (reply NO_MSG_MSG p) (\<lambda>p. Inr (TRANSACTION, p))
         else
           rbind (load_at (unat (index - 1)) (dele_flags p)) (\<lambda>flag.
           if flag \<noteq> 0 then rbind (reply ALREADY_DELE_MSG p) (\<lambda>p. Inr (TRANSACTION, p))
           else
             rbind (store_at (unat (index - 1)) 1 (dele_flags p)) (\<lambda>flags.
             rbind (reply DELE_MSG (p\<lparr>dele_flags := flags\<rparr>)) (\<lambda>p. Inr (cur, p)))))"

definition rset_handler :: "nat \<Rightarrow> 'a pop3_scheme \<Rightarrow> (nat \<times> 'a pop3_scheme) res" where
  "rset_handler cur p =
     rbind (for_le (\<lambda>i p. rbind (store_at (unat i) 0 (dele_flags p)) (\<lambda>flags. Inr (p\<lparr>dele_flags := flags\<rparr>)))
             (max_index p) p) (\<lambda>p.
     let p = p\<lparr>mail_qty := max_index p + 1, total_octates := original_total_octates p\<rparr> in
     rbind (sprintf40 (LIST_FMT (mail_qty p) (total_octates p))) (\<lambda>list_msg.
     rbind (reply list_msg p) (\<lambda>p. Inr (cur, p))))"

definition list_one :: "u32 \<Rightarrow> 'a pop3_scheme \<Rightarrow> 'a pop3_scheme res" where
  "list_one i p =
     rbind (load_at (unat i) (dele_flags p)) (\<lambda>flag.
     if flag = 0 then
       rbind (mail_at p (unat i)) (\<lambda>mail.
       rbind (sprintf40 (SCAN_LINE (i + 1) (mail_size mail))) (\<lambda>list_msg. reply list_msg p))
     else Inr p)"

definition list_handler ::
  "command_env \<Rightarrow> cstring option \<Rightarrow> 'a pop3_scheme \<Rightarrow> (nat \<times> 'a pop3_scheme) res" where
  "list_handler env arg1 p =
     rbind (load_mails (ce_os env) (ce_maildir env) p) (\<lambda>p.
     case arg1 of
       Some arg \<Rightarrow>
         let index = atoi arg in
         if index = 0 then rbind (reply INVALID_INDEX_MSG p) (\<lambda>p. Inr (TRANSACTION, p))
         else
           rbind (load_at (unat (index - 1)) (dele_flags p)) (\<lambda>flag.
           rbind (if flag = 0 then
                    rbind (mail_at p (unat (index - 1))) (\<lambda>mail.
                    rbind (sprintf40 (STAT_FMT index (mail_size mail))) (\<lambda>list_msg. reply list_msg p))
                  else reply NO_MSG_MSG p) (\<lambda>p.
           rbind (if index - 1 > max_index p then reply NO_MSG_MSG p else Inr p) (\<lambda>p. Inr (TRANSACTION, p))))
     | None \<Rightarrow>
         rbind (sprintf40 (LIST_FMT (mail_qty p) (total_octates p))) (\<lambda>list_msg.
         rbind (reply list_msg p) (\<lambda>p.
         rbind (for_le list_one (max_index p) p) (\<lambda>p.
         rbind (reply (str ''.'' @ [LF]) p) (\<lambda>p. Inr (TRANSACTION, p))))))"

definition stat_handler :: "command_env \<Rightarrow> 'a pop3_scheme \<Rightarrow> (nat \<times> 'a pop3_scheme) res" where
  "stat_handler env p =
     rbind (load_mails (ce_os env) (ce_maildir env) p) (\<lambda>p.
     rbind (sprintf40 (STAT_FMT (mail_qty p) (total_octates p))) (\<lambda>stat_msg.
     rbind (reply stat_msg p) (\<lambda>p. Inr (TRANSACTION, p))))"

definition auth_capa_handler :: "'a pop3_scheme \<Rightarrow> (nat \<times> 'a pop3_scheme) res" where
  "auth_capa_handler p = rbind (reply AUTH_CAPA_MSG p) (\<lambda>p. Inr (AUTH, p))"

definition trans_capa_handler :: "'a pop3_scheme \<Rightarrow> (nat \<times> 'a pop3_scheme) res" where
  "trans_capa_handler p = rbind (reply TRANS_CAPA_MSG p) (\<lambda>p. Inr (TRANSACTION, p))"

definition invalid_command_handler :: "nat \<Rightarrow> 'a pop3_scheme \<Rightarrow> (nat \<times> 'a pop3_scheme) res" where
  "invalid_command_handler cur p = rbind (reply INVALID_COMMAND_MSG p) (\<lambda>p. Inr (cur, p))"

definition user_handler :: "cstring option \<Rightarrow> 'a pop3_scheme \<Rightarrow> (nat \<times> 'a pop3_scheme) res" where
  "user_handler arg1 p =
     (let p1 = (case arg1 of None \<Rightarrow> p | Some a \<Rightarrow> p\<lparr>cred_user := Some a\<rparr>)
      in rbind (reply POSITIVE_MSG p1) (\<lambda>p. Inr (AUTH, p)))"

text \<open>A test against the default user that nothing calls.\<close>

definition validate_credentials :: "'a pop3_scheme \<Rightarrow> cstring \<Rightarrow> bool res" where
  "validate_credentials p pass =
     (case cred_user p of None \<Rightarrow> Inl NullDeref | Some user \<Rightarrow> Inr (user = str ''foo'' \<and> pass = str ''bar''))"

text \<open>Without a user name the answer of \<open>write_to_buffer\<close> is returned as the next state.\<close>

definition pass_handler ::
  "command_env \<Rightarrow> cstring option \<Rightarrow> 'a pop3_scheme \<Rightarrow> (nat \<times> 'a pop3_scheme) res" where
  "pass_handler env arg1 p =
     (case arg1 of
       None \<Rightarrow> rbind (reply AUTH_ERROR_MSG p) (\<lambda>p. Inr (AUTH, p))
     | Some pass \<Rightarrow>
         (case cred_user p of
           None \<Rightarrow> rbind (write_to_buffer PASS_NOUSER_MSG (write_buffer p)) (\<lambda>(r, b).
                     Inr (r, p\<lparr>write_buffer := b\<rparr>))
         | Some user \<Rightarrow>
             rbind (validate_user (ce_users env) user pass) (\<lambda>v.
             if v \<noteq> 0 then
               rbind (reply LOGIN_MSG (p\<lparr>cred_pass := Some pass\<rparr>)) (\<lambda>p. Inr (TRANSACTION, p))
             else rbind (reply AUTH_ERROR_MSG p) (\<lambda>p. Inr (AUTH, p)))))"

section \<open>Dispatch\<close>

datatype fn_type =
  Auth_capa | User | Pass | Auth_quit
  | Noop | Stat | List | Retr | Dele | Rset | Trans_capa | Trans_quit | Invalid

definition auth_commands :: "(cstring \<times> fn_type) list" where
  "auth_commands = [(str ''CAPA'', Auth_capa), (str ''USER'', User), (str ''PASS'', Pass), (str ''QUIT'', Auth_quit)]"

definition transaction_commands :: "(cstring \<times> fn_type) list" where
  "transaction_commands =
     [(str ''NOOP'', Noop), (str ''STAT'', Stat), (str ''LIST'', List), (str ''RETR'', Retr),
      (str ''DELE'', Dele), (str ''RSET'', Rset), (str ''CAPA'', Trans_capa), (str ''QUIT'', Trans_quit)]"

definition commands_per_state :: "(cstring \<times> fn_type) list list" where
  "commands_per_state = [auth_commands, transaction_commands]"

fun find_command :: "cstring \<Rightarrow> (cstring \<times> fn_type) list \<Rightarrow> fn_type" where
  "find_command c [] = Invalid"
| "find_command c ((k, h) # rest) = (if k = c then h else find_command c rest)"

definition comparator :: "parser_event \<Rightarrow> nat \<Rightarrow> fn_type res" where
  "comparator pe curr_state =
     rbind (load_at curr_state commands_per_state) (\<lambda>command_list.
     rbind (event_string 0 pe) (\<lambda>command.
     case command of None \<Rightarrow> Inl NullDeref | Some c \<Rightarrow> Inr (find_command c command_list)))"

fun command_handler ::
  "fn_type \<Rightarrow> command_env \<Rightarrow> nat \<Rightarrow> cstring option \<Rightarrow> cstring option \<Rightarrow> 'a pop3_scheme
    \<Rightarrow> (nat \<times> 'a pop3_scheme) res" where
  "command_handler Auth_capa env cur arg1 arg2 p = auth_capa_handler p"
| "command_handler User env cur arg1 arg2 p = user_handler arg1 p"
| "command_handler Pass env cur arg1 arg2 p = pass_handler env arg1 p"
| "command_handler Auth_quit env cur arg1 arg2 p = auth_quit_handler p"
| "command_handler Noop env cur arg1 arg2 p = noop cur p"
| "command_handler Stat env cur arg1 arg2 p = stat_handler env p"
| "command_handler List env cur arg1 arg2 p = list_handler env arg1 p"
| "command_handler Retr env cur arg1 arg2 p = retr_handler env cur arg1 p"
| "command_handler Dele env cur arg1 arg2 p = dele_handler env cur arg1 p"
| "command_handler Rset env cur arg1 arg2 p = rset_handler cur p"
| "command_handler Trans_capa env cur arg1 arg2 p = trans_capa_handler p"
| "command_handler Trans_quit env cur arg1 arg2 p = trans_quit_handler p"
| "command_handler Invalid env cur arg1 arg2 p = invalid_command_handler cur p"

section \<open>Numbers read back\<close>

lemma isdigit_of_nat: "d < 10 \<Longrightarrow> isdigit (48 + of_nat d) \<and> unat (48 + of_nat d :: byte) = 48 + d"
proof -
  assume d: "d < 10"
  then have "d \<in> {0, 1, 2, 3, 4, 5, 6, 7, 8, 9}" by auto
  then show ?thesis by (auto simp: isdigit_def)
qed

lemma dec_digits: "c \<in> set (dec n) \<Longrightarrow> isdigit c"
proof (induction n rule: dec.induct)
  case (1 n)
  then show ?case
    using isdigit_of_nat [of n] isdigit_of_nat [of "n mod 10"]
    by (subst (asm) (2) dec.simps) (auto split: if_splits)
qed

lemma digits_value_snoc:
  "\<forall>c \<in> set xs. isdigit c \<Longrightarrow> isdigit d \<Longrightarrow> digits_value n (xs @ [d]) = 10 * digits_value n xs + (unat d - 48)"
  by (induction xs arbitrary: n) auto

lemma digits_value_dec: "digits_value 0 (dec n) = n"
proof (induction n rule: dec.induct)
  case (1 n)
  show ?case
  proof (cases "n < 10")
    case True
    with isdigit_of_nat [OF True] show ?thesis by (subst dec.simps) simp
  next
    case False
    have "n mod 10 < 10" by simp
    from isdigit_of_nat [OF this] False 1 show ?thesis
      by (subst dec.simps) (simp add: digits_value_snoc dec_digits)
  qed
qed

lemma dec_not_Nil [simp]: "dec n \<noteq> []"
  by (subst dec.simps) simp

lemma isdigit_not: "isdigit c \<Longrightarrow> \<not> isspace c \<and> c \<noteq> 45 \<and> c \<noteq> 43"
  by (auto simp: isdigit_def isspace_def word_le_nat_alt unat_word_ariths)

lemma strtol10_dec: "n < 2 ^ 63 \<Longrightarrow> strtol10 (dec n) = int n"
proof -
  assume n: "n < 2 ^ 63"
  obtain c cs where d: "dec n = c # cs" by (cases "dec n") auto
  then have "isdigit c" using dec_digits [of c n] by simp
  from isdigit_not [OF this] have "dropWhile isspace (dec n) = c # cs" "c \<noteq> 45" "c \<noteq> 43" by (simp_all add: d)
  then show ?thesis using n digits_value_dec [of n] by (simp add: strtol10_def d)
qed

lemma atoi_fmt_u_aux: "atoi (fmt_u w) = w"
proof -
  have "unat w < 2 ^ 32" using unat_lt [of w] by simp
  then show ?thesis by (simp add: atoi_def fmt_u_def strtol10_dec)
qed

lemma length_dec: "n < 10 ^ k \<Longrightarrow> 0 < k \<Longrightarrow> length (dec n) \<le> k"
proof (induction k arbitrary: n)
  case 0
  then show ?case by simp
next
  case (Suc k)
  show ?case
  proof (cases "n < 10")
    case True
    then show ?thesis by (subst dec.simps) simp
  next
    case False
    with Suc.prems have "0 < k" by (cases k) auto
    with Suc.IH [of "n div 10"] Suc.prems False show ?thesis
      by (subst dec.simps) (simp add: less_mult_imp_div_less mult.commute)
  qed
qed

lemma length_fmt_u: "unat w < 10 ^ k \<Longrightarrow> 0 < k \<Longrightarrow> length (fmt_u w) \<le> k"
  by (simp add: fmt_u_def length_dec)

lemma length_fmt_u_le: "length (fmt_u w) \<le> 10"
  using unat_lt [of w] by (intro length_fmt_u) auto

lemma length_fmt_ld_le: "length (fmt_ld w) \<le> 20"
proof -
  have "sint w < 2 ^ 63" "- (2 ^ 63) \<le> sint w" using sint_lt [of w] sint_ge [of w] by simp_all
  then have "length (dec (nat (- sint w))) \<le> 19" "length (dec (nat (sint w))) \<le> 19"
    by (intro length_dec; simp add: nat_less_iff)+
  then show ?thesis by (simp add: fmt_ld_def)
qed

lemma sint_small: "unat w < 2 ^ 63 \<Longrightarrow> sint (w :: u64) = int (unat w)"
proof -
  assume "unat w < 2 ^ 63"
  then have "int (unat w) < 2 ^ 63" by (simp only: of_nat_less_numeral_power_cancel_iff)
  then have "uint w < 2 ^ 63" by simp
  moreover have "0 \<le> uint w" by simp
  ultimately have "signed_take_bit 63 (uint w) = uint w"
    by (intro signed_take_bit_int_eq_self) linarith+
  then show ?thesis by (simp add: sint_uint)
qed

lemma fmt_ld_small: "unat w < 2 ^ 63 \<Longrightarrow> fmt_ld w = dec (unat w)"
  by (simp add: fmt_ld_def sint_small del: of_nat_unat)

text \<open>The single-message formats always fit their array; the listing header does up to twelve digits.\<close>

lemma STAT_FMT_fits: "sprintf40 (STAT_FMT n oct) = Inr (STAT_FMT n oct)"
  using length_fmt_u_le [of n] length_fmt_ld_le [of oct] by (simp add: sprintf40_def STAT_FMT_def)

lemma SCAN_LINE_fits: "sprintf40 (SCAN_LINE n oct) = Inr (SCAN_LINE n oct)"
  using length_fmt_u_le [of n] length_fmt_ld_le [of oct] by (simp add: sprintf40_def SCAN_LINE_def)

lemma LIST_FMT_fits:
  assumes "unat n < 100" "unat oct < 10 ^ 12"
  shows "sprintf40 (LIST_FMT n oct) = Inr (LIST_FMT n oct)"
proof -
  have "length (fmt_u n) \<le> 2" using assms(1) by (intro length_fmt_u) auto
  moreover have "length (fmt_ld oct) \<le> 12"
    using assms(2) by (subst fmt_ld_small) (auto intro!: length_dec)
  ultimately show ?thesis by (simp add: sprintf40_def LIST_FMT_def)
qed

section \<open>Replies and the buffer\<close>

definition said :: "cstring \<Rightarrow> buffer \<Rightarrow> buffer \<Rightarrow> bool" where
  "said s b b' \<longleftrightarrow> buffer_inv b' \<and> b_limit b' = b_limit b \<and>
     (if length s \<le> room b then content b' = content b @ s \<and> room b' = room b - length s else b' = b)"

lemma write_to_buffer_ok:
  assumes "buffer_inv b"
  shows "\<exists>b'. write_to_buffer s b = Inr (if length s \<le> room b then 0 else 2, b') \<and> said s b b'"
proof (cases "length s \<le> room b")
  case True
  from buffer_fill_ok [OF assms True] assms True show ?thesis
    by (auto simp: write_to_buffer_def buffer_write_ptr_def buffer_inv_def said_def room_def)
next
  case False
  with assms show ?thesis
    by (auto simp: write_to_buffer_def buffer_write_ptr_def buffer_inv_def said_def room_def)
qed

lemma reply_ok:
  assumes "buffer_inv (write_buffer p)"
  shows "\<exists>b'. reply s p = Inr (p\<lparr>write_buffer := b'\<rparr>) \<and> said s (write_buffer p) b'"
  using write_to_buffer_ok [OF assms, of s] by (auto simp: reply_def)

lemma said_inv: "said s b b' \<Longrightarrow> buffer_inv b'"
  by (simp add: said_def)

section \<open>The handlers on a maildrop that can be loaded\<close>

text \<open>
  \<open>ms\<close> are the mails the handler will load: the directory of the session's user can be opened, has a
  mail, and every file can be inspected.
\<close>

definition loadable :: "command_env \<Rightarrow> pop3 \<Rightarrow> mail_t list \<Rightarrow> bool" where
  "loadable env p ms \<longleftrightarrow> mailbox_inv p \<and> buffer_inv (write_buffer p) \<and>
     (\<exists>user names. cred_user p = Some user
       \<and> opendir (ce_os env) (ce_maildir env @ user @ CUR) = Some names
       \<and> stats_known (ce_os env) (ce_maildir env) user names \<and> mail_files names \<noteq> []
       \<and> ms = inbox (ce_os env) (ce_maildir env) user names)"

lemma loadable_load:
  "loadable env p ms \<Longrightarrow> \<exists>p1. load_mails (ce_os env) (ce_maildir env) p = Inr p1 \<and> loaded p ms p1"
  using load_mails_ok unfolding loadable_def by blast

lemma loadable_length:
  assumes "loadable env p ms"
  shows "0 < length ms \<and> length ms \<le> 30"
proof -
  from assms obtain user names where
    ms: "ms = inbox (ce_os env) (ce_maildir env) user names" "mail_files names \<noteq> []"
    unfolding loadable_def by blast
  then show ?thesis
    using length_inbox [of "ce_os env" "ce_maildir env" user names] inbox_Nil_iff [of _ _ _ names]
    by (auto simp: MAX_MAILS_def)
qed

lemma loadable_inv:
  "loadable env p ms \<Longrightarrow> mailbox_inv p \<and> buffer_inv (write_buffer p) \<and> length (dele_flags p) = 30"
  by (simp add: loadable_def mailbox_inv_def MAX_MAILS_def)

lemma loaded_sel:
  fixes p :: pop3
  assumes "loaded p ms p1"
  shows "write_buffer p1 = write_buffer p" "dele_flags p1 = dele_flags p" "max_index p1 = of_nat (length ms - 1)"
    "mail_qty p1 = of_nat (length (unmarked (dele_flags p) 0 ms))"
    "total_octates p1 = octets (unmarked (dele_flags p) 0 ms)"
    "\<And>i. i < length ms \<Longrightarrow> mail_at p1 i = Inr (ms ! i)"
  using assms unfolding loaded_def holds_def by (cases p; cases p1; auto)+

lemma mail_at_upd [simp]:
  "mail_at (p\<lparr>write_buffer := b\<rparr>) i = mail_at p i"
  "mail_at (p\<lparr>selected_mail := n\<rparr>) i = mail_at p i"
  "mail_at (p\<lparr>dele_flags := d\<rparr>) i = mail_at p i"
  by (simp_all add: mail_at_def)

text \<open>Which message an argument names, with \<open>n\<close> messages loaded.\<close>

datatype msg_ref = Missing | Zero | No_such | Deleted | Message nat

definition msg_ref :: "byte list \<Rightarrow> nat \<Rightarrow> cstring option \<Rightarrow> msg_ref" where
  "msg_ref flags n arg1 =
     (case arg1 of None \<Rightarrow> Missing
      | Some a \<Rightarrow>
          let i = unat (atoi a) in
          if i = 0 then Zero else if i > n then No_such
          else if flags ! (i - 1) \<noteq> 0 then Deleted else Message (i - 1))"

fun refusal :: "msg_ref \<Rightarrow> cstring" where
  "refusal No_such = NO_MSG_MSG"
| "refusal Deleted = ALREADY_DELE_MSG"
| "refusal r = INVALID_INDEX_MSG"

lemma msg_ref_Message:
  assumes "msg_ref flags n arg1 = Message i"
  shows "i < n \<and> flags ! i = 0 \<and> (\<exists>a. arg1 = Some a \<and> unat (atoi a) = Suc i)"
  using assms by (auto simp: msg_ref_def Let_def split: option.splits if_splits)

text \<open>The tests the handlers make on the 32-bit index are those on the number.\<close>

lemma index_tests:
  assumes "0 < n" "n \<le> 30" "index \<noteq> (0 :: u32)"
  shows "index - 1 > of_nat (n - 1) \<longleftrightarrow> unat index > n" "unat (index - 1) = unat index - 1"
proof -
  have nz: "unat index \<noteq> 0" using assms(3) by (simp add: unat_eq_zero)
  then show u: "unat (index - 1) = unat index - 1"
    by (metis One_nat_def assms(3) unat_minus_one)
  have "unat (of_nat (n - 1) :: u32) = n - 1" using assms(2) by (intro unat_of_nat_u32) simp
  with u nz assms(1) show "index - 1 > of_nat (n - 1) \<longleftrightarrow> unat index > n"
    by (auto simp: word_less_nat_alt)
qed

text \<open>A session of a user with that inbox.\<close>

definition example_env :: command_env where
  "example_env = \<lparr>ce_os = example_os, ce_users = no_users, ce_maildir = INITIAL_PATH\<rparr>"

definition example_session :: pop3 where
  "example_session = mailbox.extend example_mailbox
     \<lparr>p_stm = Some 1, client_fd = 8, read_buffer = buffer_init 500 (replicate 500 0),
      write_buffer = buffer_init 500 (replicate 500 0), selected_mail = 0, selected_mail_fd = 0,
      p_parser = create_parser, client = State_st, byte_stuffing_st = 0, mail_done = 0\<rparr>"

definition example_mails :: "mail_t list" where
  "example_mails = List.map (mail_of example_os INITIAL_PATH (str ''foo'')) [str ''a'', str ''b'']"

lemma example_fields:
  "cred_user example_session = Some (str ''foo'')" "dele_flags example_session = (replicate 30 0)[1 := 1]"
  "write_buffer example_session = buffer_init 500 (replicate 500 0)" "max_index example_session = 0"
  "original_total_octates example_session = 0" "mails example_session = None"
  by (simp_all add: example_session_def mailbox.defs example_mailbox_def)

lemma example_loadable: "loadable example_env example_session example_mails"
proof -
  have "mailbox_inv example_session"
    by (simp add: mailbox_inv_def example_fields MAX_MAILS_def)
  moreover have "example_mails = inbox example_os INITIAL_PATH (str ''foo'') [str ''.'', str ''a'', str ''..'', str ''b'']"
    unfolding example_mails_def inbox_def example_files MAX_MAILS_def by simp
  moreover have "mail_files [str ''.'', str ''a'', str ''..'', str ''b''] \<noteq> []" unfolding example_files by simp
  moreover have "buffer_inv (write_buffer example_session)" by (simp add: example_fields)
  moreover have "ce_os example_env = example_os" "ce_maildir example_env = INITIAL_PATH"
    by (simp_all add: example_env_def)
  ultimately show ?thesis
    unfolding loadable_def using example_dir example_stats example_fields(1) by metis
qed

lemma example_numbers: "atoi (str ''1'') = 1" "atoi (str ''2'') = 2" "atoi (str ''99'') = 99"
  by (simp_all add: atoi_def strtol10_def isspace_def isdigit_def)

text \<open>The checks RETR and DELE share, as one case split.\<close>

lemma choose_message:
  assumes "0 < n" "n \<le> 30" "length flags = 30"
  shows "(case arg1 of None \<Rightarrow> x0 | Some arg \<Rightarrow>
       let index = atoi arg in
       if index = 0 then x1
       else if index - 1 > of_nat (n - 1) then x2
       else rbind (load_at (unat (index - 1)) flags) (\<lambda>flag. if flag \<noteq> 0 then x3 else f index))
    = (case msg_ref flags n arg1 of
        Missing \<Rightarrow> x0 | Zero \<Rightarrow> x1 | No_such \<Rightarrow> x2 | Deleted \<Rightarrow> x3 | Message i \<Rightarrow> f (of_nat (Suc i)))"
proof (cases arg1)
  case None
  then show ?thesis by (simp add: msg_ref_def)
next
  case (Some a)
  show ?thesis
  proof (cases "atoi a = 0")
    case True
    with Some show ?thesis by (simp add: msg_ref_def)
  next
    case False
    note tests = index_tests [OF assms(1,2) False]
    have nz: "unat (atoi a) \<noteq> 0" using False by (simp add: unat_eq_zero)
    show ?thesis
    proof (cases "unat (atoi a) > n")
      case True
      with Some False nz tests show ?thesis by (simp add: msg_ref_def)
    next
      case le: False
      with assms(2,3) have lt: "unat (atoi a) - 1 < length flags" by linarith
      have "of_nat (Suc (unat (atoi a) - 1)) = atoi a" using nz by simp
      with le lt Some False nz tests show ?thesis by (simp add: msg_ref_def Let_def del: of_nat_Suc)
    qed
  qed
qed

lemma reply_loaded:
  assumes "loadable env p ms" "loaded p ms p1"
  shows "\<exists>b'. reply s p1 = Inr (p1\<lparr>write_buffer := b'\<rparr>) \<and> said s (write_buffer p) b'"
    and "\<exists>b'. reply s (p1\<lparr>dele_flags := d\<rparr>) = Inr (p1\<lparr>dele_flags := d, write_buffer := b'\<rparr>)
      \<and> said s (write_buffer p) b'"
    and "\<exists>b'. reply s (p1\<lparr>selected_mail := n\<rparr>) = Inr (p1\<lparr>selected_mail := n, write_buffer := b'\<rparr>)
      \<and> said s (write_buffer p) b'"
  using loaded_sel(1) [OF assms(2)] loadable_inv [OF assms(1)]
    reply_ok [of p1 s] reply_ok [of "p1\<lparr>dele_flags := d\<rparr>" s] reply_ok [of "p1\<lparr>selected_mail := n\<rparr>" s]
  by auto

lemma dele_outcome:
  assumes "loadable env p ms"
  shows "\<exists>p1 b'. loaded p ms p1 \<and>
    (case msg_ref (dele_flags p) (length ms) arg1 of
      Message i \<Rightarrow> said DELE_MSG (write_buffer p) b'
        \<and> dele_handler env cur arg1 p = Inr (cur, p1\<lparr>dele_flags := (dele_flags p)[i := 1], write_buffer := b'\<rparr>)
    | r \<Rightarrow> said (refusal r) (write_buffer p) b'
        \<and> dele_handler env cur arg1 p = Inr (if r = Missing then cur else TRANSACTION, p1\<lparr>write_buffer := b'\<rparr>))"
proof -
  from loadable_load [OF assms] obtain p1 where
    p1: "load_mails (ce_os env) (ce_maildir env) p = Inr p1" "loaded p ms p1" by blast
  note sel = loaded_sel [OF p1(2)]
  from loadable_length [OF assms] loadable_inv [OF assms]
  have len: "0 < length ms" "length ms \<le> 30" "length (dele_flags p) = 30" by simp_all
  note rep = reply_loaded [OF assms p1(2)]
  let ?r = "msg_ref (dele_flags p) (length ms) arg1"
  have idx: "unat (of_nat (Suc i) - 1 :: u32) = i \<and> i < 30" if "?r = Message i" for i
    using msg_ref_Message [OF that] len(2) unat_of_nat_u32 [of i] by simp
  have run: "dele_handler env cur arg1 p = (case ?r of
      No_such \<Rightarrow> rbind (reply NO_MSG_MSG p1) (\<lambda>p. Inr (TRANSACTION, p))
    | Deleted \<Rightarrow> rbind (reply ALREADY_DELE_MSG p1) (\<lambda>p. Inr (TRANSACTION, p))
    | Zero \<Rightarrow> rbind (reply INVALID_INDEX_MSG p1) (\<lambda>p. Inr (TRANSACTION, p))
    | Missing \<Rightarrow> rbind (reply INVALID_INDEX_MSG p1) (\<lambda>p. Inr (cur, p))
    | Message i \<Rightarrow>
        rbind (reply DELE_MSG (p1\<lparr>dele_flags := (dele_flags p)[i := 1]\<rparr>)) (\<lambda>p. Inr (cur, p)))"
    using idx len(3)
    unfolding dele_handler_def p1(1) rbind_Inr sel(2,3) choose_message [OF len]
    by (simp split: msg_ref.split)
  show ?thesis
  proof (cases ?r)
    case (Message i)
    with run rep(2) [of DELE_MSG "(dele_flags p)[i := 1]"] p1(2) show ?thesis
      by (auto intro!: exI [of _ p1])
  qed (use run rep(1) [of "refusal ?r"] p1(2) in \<open>auto intro!: exI [of _ p1]\<close>)
qed

text \<open>
  C22. DELE with the number of a loaded message that is not marked marks exactly that message and says
  so; with no number, zero, a number beyond the last message or a marked message it marks nothing and
  the reply says why. The inbox is loaded again either way.
\<close>

theorem dele_marks_message:
  assumes "loadable env p ms"
  shows "\<exists>p1 b'. loaded p ms p1 \<and>
    (case msg_ref (dele_flags p) (length ms) arg1 of
      Message i \<Rightarrow> said DELE_MSG (write_buffer p) b'
        \<and> dele_handler env cur arg1 p = Inr (cur, p1\<lparr>dele_flags := (dele_flags p)[i := 1], write_buffer := b'\<rparr>)
    | r \<Rightarrow> said (refusal r) (write_buffer p) b'
        \<and> dele_handler env cur arg1 p = Inr (if r = Missing then cur else TRANSACTION, p1\<lparr>write_buffer := b'\<rparr>))"
  by (rule dele_outcome [OF assms])

theorem dele_marks_message_witness:
  "\<exists>p1 b'. loaded example_session example_mails p1 \<and>
    (case msg_ref (dele_flags example_session) (length example_mails) (Some (str ''1'')) of
      Message i \<Rightarrow> said DELE_MSG (write_buffer example_session) b'
        \<and> dele_handler example_env 1 (Some (str ''1'')) example_session
          = Inr (1, p1\<lparr>dele_flags := (dele_flags example_session)[i := 1], write_buffer := b'\<rparr>)
    | r \<Rightarrow> said (refusal r) (write_buffer example_session) b'
        \<and> dele_handler example_env 1 (Some (str ''1'')) example_session
          = Inr (if r = Missing then 1 else TRANSACTION, p1\<lparr>write_buffer := b'\<rparr>))"
  by (rule dele_marks_message [OF example_loadable])

lemma retr_outcome:
  assumes "loadable env p ms"
  shows "\<exists>p1 b'. loaded p ms p1 \<and>
    (case msg_ref (dele_flags p) (length ms) arg1 of
      Message i \<Rightarrow> said POSITIVE_MSG (write_buffer p) b' \<and>
        (let fd = open_mail (ce_os env) (file_path (ms ! i));
             p2 = p1\<lparr>selected_mail := of_nat i, write_buffer := b'\<rparr>
         in retr_handler env cur arg1 p
          = Inr (if fd < 0 then (ERROR, p2) else (READING_MAIL, p2\<lparr>selected_mail_fd := fd\<rparr>)))
    | r \<Rightarrow> said (refusal r) (write_buffer p) b'
        \<and> retr_handler env cur arg1 p = Inr (if r = Missing then cur else TRANSACTION, p1\<lparr>write_buffer := b'\<rparr>))"
proof -
  from loadable_load [OF assms] obtain p1 where
    p1: "load_mails (ce_os env) (ce_maildir env) p = Inr p1" "loaded p ms p1" by blast
  note sel = loaded_sel [OF p1(2)]
  from loadable_length [OF assms] loadable_inv [OF assms]
  have len: "0 < length ms" "length ms \<le> 30" "length (dele_flags p) = 30" by simp_all
  note rep = reply_loaded [OF assms p1(2)]
  let ?r = "msg_ref (dele_flags p) (length ms) arg1"
  have run: "retr_handler env cur arg1 p = (case ?r of
      No_such \<Rightarrow> rbind (reply NO_MSG_MSG p1) (\<lambda>p. Inr (TRANSACTION, p))
    | Deleted \<Rightarrow> rbind (reply ALREADY_DELE_MSG p1) (\<lambda>p. Inr (TRANSACTION, p))
    | Zero \<Rightarrow> rbind (reply INVALID_INDEX_MSG p1) (\<lambda>p. Inr (TRANSACTION, p))
    | Missing \<Rightarrow> rbind (reply INVALID_INDEX_MSG p1) (\<lambda>p. Inr (cur, p))
    | Message i \<Rightarrow>
        rbind (reply POSITIVE_MSG (p1\<lparr>selected_mail := of_nat i\<rparr>)) (\<lambda>p.
        rbind (mail_at p (unat (selected_mail p))) (\<lambda>mail.
        let fd = open_mail (ce_os env) (file_path mail) in
        if fd < 0 then Inr (ERROR, p)
        else Inr (READING_MAIL, p\<lparr>selected_mail_fd := fd\<rparr>))))"
    unfolding retr_handler_def p1(1) rbind_Inr sel(2,3) choose_message [OF len]
    by (simp split: msg_ref.split)
  show ?thesis
  proof (cases ?r)
    case (Message i)
    from msg_ref_Message [OF Message] len(2) have "i < length ms" "unat (of_nat i :: u32) = i"
      using unat_of_nat_u32 [of i] by simp_all
    with Message run rep(3) [of POSITIVE_MSG "of_nat i"] p1(2) sel(6) [of i] show ?thesis
      by (auto simp: Let_def intro!: exI [of _ p1])
  qed (use run rep(1) [of "refusal ?r"] p1(2) in \<open>auto intro!: exI [of _ p1]\<close>)
qed

text \<open>
  C23. RETR with the number of a loaded message that is not marked opens that message's file and goes on
  to read it, or fails the session when the file cannot be opened; every other argument is refused as
  by DELE.
\<close>

theorem retr_opens_message:
  assumes "loadable env p ms"
  shows "\<exists>p1 b'. loaded p ms p1 \<and>
    (case msg_ref (dele_flags p) (length ms) arg1 of
      Message i \<Rightarrow> said POSITIVE_MSG (write_buffer p) b' \<and>
        (let fd = open_mail (ce_os env) (file_path (ms ! i));
             p2 = p1\<lparr>selected_mail := of_nat i, write_buffer := b'\<rparr>
         in retr_handler env cur arg1 p
          = Inr (if fd < 0 then (ERROR, p2) else (READING_MAIL, p2\<lparr>selected_mail_fd := fd\<rparr>)))
    | r \<Rightarrow> said (refusal r) (write_buffer p) b'
        \<and> retr_handler env cur arg1 p = Inr (if r = Missing then cur else TRANSACTION, p1\<lparr>write_buffer := b'\<rparr>))"
  by (rule retr_outcome [OF assms])

theorem retr_opens_message_witness:
  "\<exists>p1 b'. loaded example_session example_mails p1 \<and>
    (case msg_ref (dele_flags example_session) (length example_mails) (Some (str ''1'')) of
      Message i \<Rightarrow> said POSITIVE_MSG (write_buffer example_session) b' \<and>
        (let fd = open_mail (ce_os example_env) (file_path (example_mails ! i));
             p2 = p1\<lparr>selected_mail := of_nat i, write_buffer := b'\<rparr>
         in retr_handler example_env 1 (Some (str ''1'')) example_session
          = Inr (if fd < 0 then (ERROR, p2) else (READING_MAIL, p2\<lparr>selected_mail_fd := fd\<rparr>)))
    | r \<Rightarrow> said (refusal r) (write_buffer example_session) b'
        \<and> retr_handler example_env 1 (Some (str ''1'')) example_session
          = Inr (if r = Missing then 1 else TRANSACTION, p1\<lparr>write_buffer := b'\<rparr>))"
  by (rule retr_opens_message [OF example_loadable])

text \<open>
  C24. STAT answers with the number of loaded messages that are not marked and the sum of their sizes,
  and the text always fits the array it is formatted in.
\<close>

theorem stat_counts_unmarked:
  assumes "loadable env p ms"
  shows "\<exists>p1 b'. loaded p ms p1
    \<and> said (STAT_FMT (of_nat (length (unmarked (dele_flags p) 0 ms))) (octets (unmarked (dele_flags p) 0 ms)))
        (write_buffer p) b'
    \<and> stat_handler env p = Inr (TRANSACTION, p1\<lparr>write_buffer := b'\<rparr>)"
proof -
  from loadable_load [OF assms] obtain p1 where
    p1: "load_mails (ce_os env) (ce_maildir env) p = Inr p1" "loaded p ms p1" by blast
  from reply_loaded(1) [OF assms p1(2)] p1 loaded_sel(4,5) [OF p1(2)] show ?thesis
    by (force simp: stat_handler_def STAT_FMT_fits)
qed

theorem stat_counts_unmarked_witness:
  "\<exists>p1 b'. loaded example_session example_mails p1
    \<and> said (STAT_FMT (of_nat (length (unmarked (dele_flags example_session) 0 example_mails)))
        (octets (unmarked (dele_flags example_session) 0 example_mails))) (write_buffer example_session) b'
    \<and> stat_handler example_env example_session = Inr (TRANSACTION, p1\<lparr>write_buffer := b'\<rparr>)"
  by (rule stat_counts_unmarked [OF example_loadable])

subsection \<open>Listing\<close>

text \<open>The lines of the listing for the mails \<open>ms\<close> at the numbers from \<open>i + 1\<close>.\<close>

fun scan_listing :: "byte list \<Rightarrow> nat \<Rightarrow> mail_t list \<Rightarrow> cstring" where
  "scan_listing flags i [] = []"
| "scan_listing flags i (x # ms) =
     (if flags ! i = 0 then SCAN_LINE (of_nat (Suc i)) (mail_size x) else []) @ scan_listing flags (Suc i) ms"

lemma said_room:
  "said s b b' \<Longrightarrow> length s \<le> room b \<Longrightarrow> buffer_inv b' \<and> content b' = content b @ s \<and> room b' = room b - length s"
  by (simp add: said_def)

lemma list_loop:
  fixes p :: pop3
  assumes "buffer_inv (write_buffer p)" "length (dele_flags p) = 30" "i + length ms \<le> 30"
    and "\<And>k. k < length ms \<Longrightarrow> mail_at p (i + k) = Inr (ms ! k)"
    and "length (scan_listing (dele_flags p) i ms) \<le> room (write_buffer p)"
  shows "\<exists>b'. for_nat list_one (length ms) i p = Inr (p\<lparr>write_buffer := b'\<rparr>) \<and> buffer_inv b'
    \<and> content b' = content (write_buffer p) @ scan_listing (dele_flags p) i ms
    \<and> room b' = room (write_buffer p) - length (scan_listing (dele_flags p) i ms)"
  using assms
proof (induction ms arbitrary: i p)
  case Nil
  have "p = p\<lparr>write_buffer := write_buffer p\<rparr>" by simp
  with Nil show ?case by (intro exI [of _ "write_buffer p"]) simp
next
  case (Cons x ms)
  have i: "unat (of_nat i :: u32) = i" using Cons.prems(3) by (intro unat_of_nat_u32) simp
  have x: "mail_at p i = Inr x" using Cons.prems(4) [of 0] by simp
  let ?line = "if dele_flags p ! i = 0 then SCAN_LINE (of_nat (Suc i)) (mail_size x) else []"
  have "\<exists>b1. list_one (of_nat i) p = Inr (p\<lparr>write_buffer := b1\<rparr>) \<and> buffer_inv b1
    \<and> content b1 = content (write_buffer p) @ ?line \<and> room b1 = room (write_buffer p) - length ?line"
  proof (cases "dele_flags p ! i = 0")
    case True
    from reply_ok [OF Cons.prems(1), of ?line] obtain b1 where
      b1: "reply ?line p = Inr (p\<lparr>write_buffer := b1\<rparr>)" "said ?line (write_buffer p) b1" by blast
    have "list_one (of_nat i) p = Inr (p\<lparr>write_buffer := b1\<rparr>)"
      using True i x b1(1) Cons.prems(2,3) by (simp add: list_one_def SCAN_LINE_fits add.commute)
    with said_room [OF b1(2)] Cons.prems(5) show ?thesis by (intro exI [of _ b1]) (simp del: of_nat_Suc)
  next
    case False
    have "p = p\<lparr>write_buffer := write_buffer p\<rparr>" by simp
    with False i Cons.prems(1-3) show ?thesis
      by (intro exI [of _ "write_buffer p"]) (simp add: list_one_def)
  qed
  then obtain b1 where b1: "list_one (of_nat i) p = Inr (p\<lparr>write_buffer := b1\<rparr>)" "buffer_inv b1"
    "content b1 = content (write_buffer p) @ ?line" "room b1 = room (write_buffer p) - length ?line" by blast
  have "mail_at p (Suc i + k) = Inr (ms ! k)" if "k < length ms" for k
    using Cons.prems(4) [of "Suc k"] that by simp
  moreover have "length (scan_listing (dele_flags p) (Suc i) ms) \<le> room b1"
    using b1(4) Cons.prems(5) by simp
  ultimately obtain b2 where "for_nat list_one (length ms) (Suc i) (p\<lparr>write_buffer := b1\<rparr>) = Inr (p\<lparr>write_buffer := b2\<rparr>)"
    "buffer_inv b2" "content b2 = content b1 @ scan_listing (dele_flags p) (Suc i) ms"
    "room b2 = room b1 - length (scan_listing (dele_flags p) (Suc i) ms)"
    using Cons.IH [of "p\<lparr>write_buffer := b1\<rparr>" "Suc i"] b1(2) Cons.prems(2,3) by auto
  with b1 show ?case by (intro exI [of _ b2]) simp
qed

text \<open>
  C25. LIST without an argument writes the header with the count and the total, one line with the
  number and the size of each unmarked message, in order and under the number RETR and DELE take, and
  the final dot, while the totals stay below twelve digits and the write buffer has room. Only the header
  ends with CRLF: the lines and the final dot end with a bare LF, against the RFC 1939 the README names.
\<close>

theorem list_lists_unmarked:
  assumes "loadable env p ms" "um = unmarked (dele_flags p) 0 ms" "unat (octets um) < 10 ^ 12"
    and "listing = LIST_FMT (of_nat (length um)) (octets um) @ scan_listing (dele_flags p) 0 ms @ str ''.'' @ [LF]"
    and "length listing \<le> room (write_buffer p)"
  shows "\<exists>p1 b'. loaded p ms p1 \<and> buffer_inv b' \<and> content b' = content (write_buffer p) @ listing
    \<and> list_handler env None p = Inr (TRANSACTION, p1\<lparr>write_buffer := b'\<rparr>)"
proof -
  from loadable_load [OF assms(1)] obtain p1 where
    p1: "load_mails (ce_os env) (ce_maildir env) p = Inr p1" "loaded p ms p1" by blast
  note sel = loaded_sel [OF p1(2)]
  from loadable_length [OF assms(1)] loadable_inv [OF assms(1)]
  have len: "0 < length ms" "length ms \<le> 30" "length (dele_flags p) = 30" by simp_all
  let ?head = "LIST_FMT (of_nat (length um)) (octets um)"
  have "length um \<le> length ms" unfolding assms(2) unmarked_def
    by (metis (no_types, lifting) length_enumerate length_filter_le length_map)
  with len(2) have "unat (of_nat (length um) :: u32) < 100"
    using unat_of_nat_u32 [of "length um"] by simp
  then have head: "sprintf40 ?head = Inr ?head" using assms(3) by (rule LIST_FMT_fits)
  from reply_loaded(1) [OF assms(1) p1(2), of ?head] obtain b1 where
    b1: "reply ?head p1 = Inr (p1\<lparr>write_buffer := b1\<rparr>)" "said ?head (write_buffer p) b1" by blast
  from said_room [OF b1(2)] assms(4,5) have b1': "buffer_inv b1" "content b1 = content (write_buffer p) @ ?head"
    "room b1 = room (write_buffer p) - length ?head" by simp_all
  have fits: "length (scan_listing (dele_flags p) 0 ms) \<le> room b1" using b1'(3) assms(4,5) by simp
  obtain b2 where b2: "for_nat list_one (length ms) 0 (p1\<lparr>write_buffer := b1\<rparr>) = Inr (p1\<lparr>write_buffer := b2\<rparr>)"
    "buffer_inv b2" "content b2 = content b1 @ scan_listing (dele_flags p) 0 ms"
    "room b2 = room b1 - length (scan_listing (dele_flags p) 0 ms)"
    using list_loop [of "p1\<lparr>write_buffer := b1\<rparr>" 0 ms] b1'(1) sel len fits by auto
  have umax: "unat (max_index p1) = length ms - 1"
    unfolding sel(3) using len by (intro unat_of_nat_u32) simp
  have "for_le list_one (max_index p1) (p1\<lparr>write_buffer := b1\<rparr>)
      = for_nat list_one (Suc (unat (max_index p1))) 0 (p1\<lparr>write_buffer := b1\<rparr>)"
    using len umax by (intro for_le_nat) simp
  moreover have "Suc (unat (max_index p1)) = length ms" using umax len(1) by simp
  ultimately have loop: "for_le list_one (max_index p1) (p1\<lparr>write_buffer := b1\<rparr>) = Inr (p1\<lparr>write_buffer := b2\<rparr>)"
    using b2(1) by simp
  from reply_ok [of "p1\<lparr>write_buffer := b2\<rparr>" "str ''.'' @ [LF]"] b2(2) obtain b3 where
    b3: "reply (str ''.'' @ [LF]) (p1\<lparr>write_buffer := b2\<rparr>) = Inr (p1\<lparr>write_buffer := b3\<rparr>)"
    "said (str ''.'' @ [LF]) b2 b3" by auto
  from said_room [OF b3(2)] b2(4) b1'(3) assms(4,5) have "buffer_inv b3" "content b3 = content b2 @ str ''.'' @ [LF]"
    by simp_all
  moreover have "list_handler env None p = Inr (TRANSACTION, p1\<lparr>write_buffer := b3\<rparr>)"
    using head b1(1) loop b3(1) by (simp add: list_handler_def p1(1) sel(4,5) assms(2))
  ultimately show ?thesis using p1(2) b2(3) b1'(2) assms(4) by (intro exI [of _ p1] exI [of _ b3]) simp
qed

theorem list_lists_unmarked_witness:
  "\<exists>p1 b'. loaded example_session example_mails p1 \<and> buffer_inv b'
    \<and> content b' = content (write_buffer example_session) @ LIST_FMT (of_nat 1) 120 @ SCAN_LINE 1 120 @ [DOT, LF]
    \<and> list_handler example_env None example_session = Inr (TRANSACTION, p1\<lparr>write_buffer := b'\<rparr>)"
proof -
  let ?um = "unmarked (dele_flags example_session) 0 example_mails"
  have um: "?um = [mail_of example_os INITIAL_PATH (str ''foo'') (str ''a'')]"
    by (simp add: example_mails_def example_fields unmarked_def)
  have o: "octets ?um = 120" by (simp add: um octets_def mail_of_def example_os_def)
  have sc: "scan_listing (dele_flags example_session) 0 example_mails = SCAN_LINE 1 120"
    by (simp add: example_mails_def example_fields mail_of_def example_os_def)
  have r: "room (write_buffer example_session) = 500"
    by (simp add: example_fields buffer_init_def room_def)
  let ?l = "LIST_FMT (of_nat (length ?um)) (octets ?um) @ scan_listing (dele_flags example_session) 0 example_mails
    @ str ''.'' @ [LF]"
  have "length (LIST_FMT n w) \<le> 55" "length (SCAN_LINE n w) \<le> 32" for n w
    using length_fmt_u_le [of n] length_fmt_ld_le [of w] by (simp_all add: LIST_FMT_def SCAN_LINE_def)
  from this(1) [of "of_nat (length ?um)" "octets ?um"] this(2) [of 1 120]
  have fits: "length ?l \<le> room (write_buffer example_session)"
    by (simp add: r sc)
  have small: "unat (octets ?um) < 10 ^ 12" by (simp add: o)
  from list_lists_unmarked [OF example_loadable refl small refl fits, unfolded o sc] show ?thesis by (simp add: um)
qed

text \<open>
  LIST with the number of a loaded message answers with its size, or that there is no such message
  when it is marked.
\<close>

lemma list_of_one_message:
  assumes "loadable env p ms" "unat (atoi a) = Suc i" "i < length ms"
  shows "\<exists>p1 b'. loaded p ms p1
    \<and> said (if dele_flags p ! i = 0 then STAT_FMT (of_nat (Suc i)) (mail_size (ms ! i)) else NO_MSG_MSG) (write_buffer p) b'
    \<and> list_handler env (Some a) p = Inr (TRANSACTION, p1\<lparr>write_buffer := b'\<rparr>)"
proof -
  from loadable_load [OF assms(1)] obtain p1 where
    p1: "load_mails (ce_os env) (ce_maildir env) p = Inr p1" "loaded p ms p1" by blast
  note sel = loaded_sel [OF p1(2)]
  from loadable_length [OF assms(1)] loadable_inv [OF assms(1)]
  have len: "0 < length ms" "length ms \<le> 30" "length (dele_flags p) = 30" by simp_all
  have nz: "atoi a \<noteq> 0" using assms(2) by auto
  note tests = index_tests [OF len(1,2) nz]
  have a: "atoi a = of_nat (Suc i)" by (simp flip: assms(2))
  let ?msg = "if dele_flags p ! i = 0 then STAT_FMT (of_nat (Suc i)) (mail_size (ms ! i)) else NO_MSG_MSG"
  from reply_loaded(1) [OF assms(1) p1(2), of ?msg] obtain b' where
    b': "reply ?msg p1 = Inr (p1\<lparr>write_buffer := b'\<rparr>)" "said ?msg (write_buffer p) b'" by blast
  have "list_handler env (Some a) p = Inr (TRANSACTION, p1\<lparr>write_buffer := b'\<rparr>)"
    using b'(1) nz tests assms(2,3) len sel a
    by (auto simp: list_handler_def p1(1) Let_def STAT_FMT_fits simp del: of_nat_Suc split: if_splits)
  with b'(2) p1(2) show ?thesis by blast
qed

lemma list_of_one_message_example:
  "\<exists>p1 b'. loaded example_session example_mails p1 \<and> said (STAT_FMT 1 120) (write_buffer example_session) b'
    \<and> list_handler example_env (Some (str ''1'')) example_session = Inr (TRANSACTION, p1\<lparr>write_buffer := b'\<rparr>)"
  using list_of_one_message [OF example_loadable, of "str ''1''" 0]
  by (simp add: example_numbers example_fields example_mails_def mail_of_def example_os_def del: str_Cons)

text \<open>A number beyond the thirty flags is used as an index before it is compared with the last one.\<close>

text \<open>
  C26. LIST with a number above thirty reads the deletion flags outside their array: the number is
  compared with the last message only after it has been used as an index.
\<close>

theorem list_beyond_thirty_faults:
  assumes "loadable env p ms" "30 < unat (atoi a)"
  shows "list_handler env (Some a) p = Inl OutOfBounds"
proof -
  from loadable_load [OF assms(1)] obtain p1 where
    p1: "load_mails (ce_os env) (ce_maildir env) p = Inr p1" "loaded p ms p1" by blast
  have nz: "atoi a \<noteq> 0" using assms(2) by auto
  have "unat (atoi a - 1) = unat (atoi a) - 1" using nz by (metis unat_minus_one)
  with p1 nz assms(2) loaded_sel(2) [OF p1(2)] loadable_inv [OF assms(1)] show ?thesis
    by (simp add: list_handler_def Let_def)
qed

theorem list_beyond_thirty_faults_witness:
  "list_handler example_env (Some (str ''99'')) example_session = Inl OutOfBounds"
  by (rule list_beyond_thirty_faults [OF example_loadable]) (simp add: example_numbers del: str_Cons)

subsection \<open>RSET\<close>

lemma rset_loop:
  fixes p :: pop3
  assumes "i + n \<le> length (dele_flags p)" "length (dele_flags p) = 30"
  shows "for_nat (\<lambda>i p. rbind (store_at (unat i) 0 (dele_flags p)) (\<lambda>flags. Inr (p\<lparr>dele_flags := flags\<rparr>))) n i p
    = Inr (p\<lparr>dele_flags := take i (dele_flags p) @ replicate n 0 @ drop (i + n) (dele_flags p)\<rparr>)"
  using assms
proof (induction n arbitrary: i p)
  case 0
  then show ?case by simp
next
  case (Suc n)
  have i: "unat (of_nat i :: u32) = i" using Suc.prems by (intro unat_of_nat_u32) simp
  have "take (Suc i) ((dele_flags p)[i := 0]) = take i (dele_flags p) @ [0]"
    using Suc.prems by (simp add: take_Suc_conv_app_nth)
  with i Suc.prems Suc.IH [of "Suc i" "p\<lparr>dele_flags := (dele_flags p)[i := 0]\<rparr>"] show ?case by simp
qed

text \<open>
  RSET clears the mark of every loaded message, counts them all again and takes back the octets
  of the last load.
\<close>

lemma rset_unmarks:
  fixes p :: pop3
  assumes "mailbox_inv p" "buffer_inv (write_buffer p)" "unat (original_total_octates p) < 10 ^ 12"
    and "n = Suc (unat (max_index p))"
  shows "\<exists>b'. said (LIST_FMT (of_nat n) (original_total_octates p)) (write_buffer p) b'
    \<and> rset_handler cur p = Inr (cur, p\<lparr>dele_flags := replicate n 0 @ drop n (dele_flags p), mail_qty := of_nat n,
        total_octates := original_total_octates p, write_buffer := b'\<rparr>)"
proof -
  have len: "length (dele_flags p) = 30" "unat (max_index p) < 30"
    using assms(1) by (simp_all add: mailbox_inv_def MAX_MAILS_def)
  have q: "max_index p + 1 = of_nat n" by (simp add: assms(4))
  have "unat (of_nat n :: u32) = n" using len assms(4) by (intro unat_of_nat_u32) simp
  then have n: "unat (of_nat n :: u32) < 100" using len assms(4) by simp
  let ?p = "p\<lparr>dele_flags := replicate n 0 @ drop n (dele_flags p), mail_qty := of_nat n,
        total_octates := original_total_octates p\<rparr>"
  let ?msg = "LIST_FMT (of_nat n) (original_total_octates p)"
  from reply_ok [of ?p ?msg] assms(2) obtain b' where
    b': "reply ?msg ?p = Inr (?p\<lparr>write_buffer := b'\<rparr>)" "said ?msg (write_buffer p) b'" by auto
  have loop: "for_le (\<lambda>i p. rbind (store_at (unat i) 0 (dele_flags p)) (\<lambda>flags. Inr (p\<lparr>dele_flags := flags\<rparr>)))
       (max_index p) p = Inr (p\<lparr>dele_flags := replicate n 0 @ drop n (dele_flags p)\<rparr>)"
    using len rset_loop [of 0 n p] assms(4) by (simp add: for_le_nat del: for_nat.simps)
  have "rset_handler cur p = Inr (cur, ?p\<lparr>write_buffer := b'\<rparr>)"
    using b'(1) LIST_FMT_fits [OF n assms(3)] by (simp add: rset_handler_def loop q Let_def)
  with b'(2) show ?thesis by auto
qed

lemma rset_unmarks_example:
  "\<exists>b'. said (LIST_FMT (of_nat 1) 0) (write_buffer example_session) b'
    \<and> rset_handler 1 example_session = Inr (1, example_session\<lparr>dele_flags := 0 # drop 1 (dele_flags example_session),
        mail_qty := of_nat 1, total_octates := 0, write_buffer := b'\<rparr>)"
proof -
  have inv: "mailbox_inv example_session" "buffer_inv (write_buffer example_session)"
    using example_loadable by (simp_all add: loadable_def)
  have "unat (original_total_octates example_session) < 10 ^ 12"
    "1 = Suc (unat (max_index example_session))" by (simp_all add: example_fields)
  from rset_unmarks [OF inv this, of 1] show ?thesis by (simp add: example_fields)
qed

subsection \<open>Logging in\<close>

lemma user_refines:
  assumes "buffer_inv (write_buffer p)"
  shows "\<exists>b'. said POSITIVE_MSG (write_buffer p) b' \<and> user_handler (Some u) p
    = Inr (AUTH, p\<lparr>cred_user := Some u, write_buffer := b'\<rparr>)"
  using reply_ok [of "p\<lparr>cred_user := Some u\<rparr>" POSITIVE_MSG] assms by (auto simp: user_handler_def)

text \<open>
  C27. PASS after USER lets the client in exactly when the user list holds that name with that
  password, which the session then keeps; otherwise the session stays where it was and says that
  authentication failed.
\<close>

theorem pass_checks_credentials:
  assumes "buffer_inv (write_buffer p)" "users_are (ce_users env) xs" "cred_user p = Some u"
  shows "\<exists>b'. if (u, pw) \<in> set xs
    then said LOGIN_MSG (write_buffer p) b'
      \<and> pass_handler env (Some pw) p = Inr (TRANSACTION, p\<lparr>cred_pass := Some pw, write_buffer := b'\<rparr>)
    else said AUTH_ERROR_MSG (write_buffer p) b'
      \<and> pass_handler env (Some pw) p = Inr (AUTH, p\<lparr>write_buffer := b'\<rparr>)"
  using validate_user_refines [OF assms(2), of u pw] reply_ok [of "p\<lparr>cred_pass := Some pw\<rparr>" LOGIN_MSG]
    reply_ok [of p AUTH_ERROR_MSG] assms(1,3)
  by (cases "(u, pw) \<in> set xs") (auto simp: pass_handler_def)

theorem pass_checks_credentials_witness:
  "\<exists>b'. said AUTH_ERROR_MSG (write_buffer example_session) b'
    \<and> pass_handler example_env (Some (str ''baz'')) example_session = Inr (AUTH, example_session\<lparr>write_buffer := b'\<rparr>)"
  using pass_checks_credentials [of example_session example_env "[]" "str ''foo''" "str ''baz''"] users_are_empty
  by (simp add: example_fields example_env_def)

lemma pass_logs_in:
  assumes "cred_user p = Some u" "buffer_inv (write_buffer p)" "users_are (ce_users env) xs" "(u, pw) \<in> set xs"
  shows "\<exists>b'. pass_handler env (Some pw) p = Inr (TRANSACTION, p\<lparr>cred_pass := Some pw, write_buffer := b'\<rparr>)"
  using validate_user_refines [OF assms(3), of u pw] reply_ok [of "p\<lparr>cred_pass := Some pw\<rparr>" LOGIN_MSG] assms(1,2,4)
  by (auto simp: pass_handler_def)

section \<open>Dispatch\<close>

text \<open>A table is searched in order, and what is not in it is an unknown command.\<close>

lemma find_command_map: "find_command c tbl = (case map_of tbl c of None \<Rightarrow> Invalid | Some h \<Rightarrow> h)"
  by (induction tbl) auto

lemma comparator_line:
  assumes "st < 2"
  shows "comparator (line_event l) st = Inr (find_command (cut_zero (line_command l)) (commands_per_state ! st))"
  using assms by (simp add: comparator_def commands_per_state_def line_event_strings)

lemma comparator_outside: "2 \<le> st \<Longrightarrow> comparator pe st = Inl OutOfBounds"
  by (simp add: comparator_def commands_per_state_def)

text \<open>The next state a reply-only handler names, and what none of them touches.\<close>

lemma write_to_buffer_return: "write_to_buffer s b = Inr (r, b') \<Longrightarrow> r = 0 \<or> r = 2 \<and> room b < length s"
  by (auto simp: write_to_buffer_def buffer_write_ptr_def room_def res_simps split: if_splits)

lemma auth_next_state:
  assumes "h \<in> {Auth_capa, User, Pass, Auth_quit, Invalid}" "command_handler h env AUTH a1 a2 p = Inr (st, p')"
  shows "st = AUTH \<or> st = DONE \<and> h = Auth_quit
    \<or> st = TRANSACTION \<and> h = Pass \<and> (\<exists>u pw v. cred_user p = Some u \<and> a1 = Some pw
        \<and> validate_user (ce_users env) u pw = Inr v \<and> v \<noteq> 0 \<and> cred_user p' = Some u \<and> cred_pass p' = Some pw)
    \<or> st = READING_MAIL \<and> h = Pass \<and> cred_user p = None \<and> room (write_buffer p) < length PASS_NOUSER_MSG"
  using assms
  by (auto simp: auth_capa_handler_def user_handler_def pass_handler_def auth_quit_handler_def reply_def
      invalid_command_handler_def res_simps dest!: write_to_buffer_return split: option.splits if_splits)

lemma find_auth: "find_command c auth_commands \<in> {Auth_capa, User, Pass, Auth_quit, Invalid}"
  by (simp add: auth_commands_def)

lemma find_transaction:
  "find_command c transaction_commands \<in> {Noop, Stat, List, Retr, Dele, Rset, Trans_capa, Trans_quit, Invalid}"
  by (simp add: transaction_commands_def)

section \<open>Properties of numbers and of the next state\<close>

text \<open>
  The number a listing prints for a message is the number \<open>atoi\<close> reads when the client sends it
  back, for every 32-bit number.
\<close>

lemma number_round_trip: "atoi (fmt_u w) = w"
  by (rule atoi_fmt_u_aux)

text \<open>
  A command sent before logging in leaves the session waiting for a login, ends it (QUIT), or logs it
  in, and it logs in only by a PASS whose name and password the user list holds; but for PASS without a
  name when the write buffer has no room for the refusal.
\<close>

lemma login_only_by_pass:
  assumes "comparator pe AUTH = Inr h" "command_handler h env AUTH a1 a2 p = Inr (st, p')"
    and "users_are (ce_users env) xs"
  shows "st = AUTH \<or> st = DONE \<and> h = Auth_quit
    \<or> st = TRANSACTION \<and> h = Pass \<and> (\<exists>u pw. cred_user p = Some u \<and> a1 = Some pw \<and> (u, pw) \<in> set xs
        \<and> cred_user p' = Some u \<and> cred_pass p' = Some pw)
    \<or> st = READING_MAIL \<and> h = Pass \<and> cred_user p = None \<and> room (write_buffer p) < length PASS_NOUSER_MSG"
proof -
  from assms(1) find_auth have "h \<in> {Auth_capa, User, Pass, Auth_quit, Invalid}"
    by (auto simp: comparator_def commands_per_state_def res_simps split: option.splits)
  from auth_next_state [OF this assms(2)] validate_user_refines [OF assms(3)] show ?thesis
    by (auto split: if_splits)
qed

end
