(* ===== verification/Monitor.thy ===== *)
theory Monitor
  imports Buffer
begin

text \<open>
  The monitor protocol (\<^verbatim>\<open>src/server/monitor.c\<close>): the parser of a request, one function per
  parsing state, and the two functions that write a response.

  \<open>union data\<close> is kept as its 255 bytes, so that its members overlap as in C: the name begins at 0,
  the token or password of a new user at 5. A write outside the union is \<open>OutOfBounds\<close>; a write past
  one member inside the union is the write it is in memory. The two \<open>static\<close> variables of the file,
  shared by all connections, are the record \<open>monitor_globals\<close>.
\<close>

section \<open>States, codes and the request\<close>

datatype monitor_state =
  monitor_version | monitor_token | monitor_method | monitor_target | monitor_dlen | monitor_data
  | monitor_finish
  | monitor_unknown_error | monitor_unsuported_ver | monitor_invalid_token | monitor_no_such_method
  | monitor_error_no_such_target | monitor_invalid_data

definition TOKEN_SIZE :: nat where "TOKEN_SIZE = 16"
definition MAX_NAME :: nat where "MAX_NAME = 5"
definition MAX_PATH :: nat where "MAX_PATH = 255"

abbreviation (input) monitor_type_data :: byte where "monitor_type_data \<equiv> 0"
abbreviation (input) monitor_type_config :: byte where "monitor_type_config \<equiv> 1"

abbreviation (input) monitor_data_historic :: byte where "monitor_data_historic \<equiv> 0"
abbreviation (input) monitor_data_current :: byte where "monitor_data_current \<equiv> 1"
abbreviation (input) monitor_data_tranfer_bytes :: byte where "monitor_data_tranfer_bytes \<equiv> 2"

abbreviation (input) monitor_config_maildir :: byte where "monitor_config_maildir \<equiv> 0"
abbreviation (input) monitor_config_buf_size :: byte where "monitor_config_buf_size \<equiv> 1"
abbreviation (input) monitor_config_add_admin :: byte where "monitor_config_add_admin \<equiv> 2"
abbreviation (input) monitor_config_remove_admin :: byte where "monitor_config_remove_admin \<equiv> 3"
abbreviation (input) monitor_config_add_pop3 :: byte where "monitor_config_add_pop3 \<equiv> 4"
abbreviation (input) monitor_config_remove_pop3 :: byte where "monitor_config_remove_pop3 \<equiv> 5"

abbreviation (input) monitor_status_success :: byte where "monitor_status_success \<equiv> 0"
abbreviation (input) monitor_status_unsuported_ver :: byte where "monitor_status_unsuported_ver \<equiv> 1"
abbreviation (input) monitor_status_no_such_method :: byte where "monitor_status_no_such_method \<equiv> 2"
abbreviation (input) monitor_status_no_such_target :: byte where "monitor_status_no_such_target \<equiv> 3"
abbreviation (input) monitor_status_invalid_data :: byte where "monitor_status_invalid_data \<equiv> 4"
abbreviation (input) monitor_status_invalid_auth :: byte where "monitor_status_invalid_auth \<equiv> 5"
abbreviation (input) monitor_status_unknown_error :: byte where "monitor_status_unknown_error \<equiv> 6"

text \<open>\<open>m_type\<close> is the union of the two enumerations of targets.\<close>

record monitor =
  m_token :: "byte list"
  m_req_type :: byte
  m_type :: byte
  m_dlen :: u16
  m_data :: "byte list"

record monitor_parser =
  mp_monitor :: monitor
  mp_state :: monitor_state
  mp_len :: nat
  mp_read :: nat
  mp_finish_user :: bool

record monitor_globals =
  combinedlen :: "byte list"
  username_len :: nat

definition monitor_globals_init :: monitor_globals where
  "monitor_globals_init = \<lparr>combinedlen = [0, 0], username_len = 0\<rparr>"

definition IS_ALNUM :: "byte \<Rightarrow> bool" where
  "IS_ALNUM x \<longleftrightarrow> 97 \<le> x \<and> x \<le> 122 \<or> 65 \<le> x \<and> x \<le> 90 \<or> 48 \<le> x \<and> x \<le> 57"

definition IS_NUM :: "byte \<Rightarrow> bool" where
  "IS_NUM x \<longleftrightarrow> 48 \<le> x \<and> x \<le> 57"

text \<open>A zeroed structure, with the state set by \<open>monitor_init_parser\<close>.\<close>

definition monitor_zero :: monitor where
  "monitor_zero = \<lparr>m_token = replicate TOKEN_SIZE 0, m_req_type = 0, m_type = 0, m_dlen = 0,
     m_data = replicate MAX_PATH 0\<rparr>"

definition monitor_init_parser :: "monitor_parser \<Rightarrow> monitor_parser" where
  "monitor_init_parser p = p\<lparr>mp_state := monitor_version, mp_monitor := monitor_zero\<rparr>"

definition monitor_has_finish :: "monitor_state \<Rightarrow> bool" where
  "monitor_has_finish st \<longleftrightarrow>
     st \<notin> {monitor_version, monitor_token, monitor_method, monitor_target, monitor_dlen, monitor_data}"

section \<open>One byte\<close>

definition parse_version :: "monitor_parser \<Rightarrow> byte \<Rightarrow> monitor_state \<times> monitor_parser" where
  "parse_version p c =
     (if c = 1 then (monitor_token, p\<lparr>mp_read := 0, mp_len := TOKEN_SIZE\<rparr>)
      else (monitor_unsuported_ver, p))"

definition parse_token :: "monitor_parser \<Rightarrow> byte \<Rightarrow> (monitor_state \<times> monitor_parser) res" where
  "parse_token p c =
     rbind (store_at (mp_read p) c (m_token (mp_monitor p))) (\<lambda>tk.
     let p1 = p\<lparr>mp_monitor := (mp_monitor p)\<lparr>m_token := tk\<rparr>, mp_read := Suc (mp_read p)\<rparr>
     in Inr (if mp_read p1 = TOKEN_SIZE then monitor_method else monitor_token, p1))"

definition parse_type :: "monitor_parser \<Rightarrow> byte \<Rightarrow> monitor_state \<times> monitor_parser" where
  "parse_type p c =
     (let p1 = p\<lparr>mp_monitor := (mp_monitor p)\<lparr>m_req_type := c\<rparr>\<rparr>
      in if c = monitor_type_data \<or> c = monitor_type_config then (monitor_target, p1)
         else (monitor_no_such_method, p1))"

text \<open>With neither request type the result is never written.\<close>

definition parser_target :: "monitor_parser \<Rightarrow> byte \<Rightarrow> (monitor_state \<times> monitor_parser) res" where
  "parser_target p c =
     (if m_req_type (mp_monitor p) = monitor_type_data then
        (if c \<in> {monitor_data_current, monitor_data_historic, monitor_data_tranfer_bytes} then
           Inr (monitor_finish, p\<lparr>mp_monitor := (mp_monitor p)\<lparr>m_type := c\<rparr>\<rparr>)
         else Inr (monitor_error_no_such_target, p))
      else if m_req_type (mp_monitor p) = monitor_type_config then
        (if c \<in> {monitor_config_maildir, monitor_config_buf_size, monitor_config_add_admin,
               monitor_config_remove_admin, monitor_config_add_pop3, monitor_config_remove_pop3} then
           Inr (monitor_dlen, p\<lparr>mp_monitor := (mp_monitor p)\<lparr>m_type := c\<rparr>, mp_read := 0, mp_len := 2\<rparr>)
         else Inr (monitor_error_no_such_target, p))
      else Inl UninitRead)"

definition reset_len :: "monitor_parser \<Rightarrow> u16 \<Rightarrow> monitor_parser" where
  "reset_len p len = p\<lparr>mp_read := 0, mp_len := unat len\<rparr>"

text \<open>\<open>ntohs\<close> of the two bytes in memory order.\<close>

definition ntohs :: "byte list \<Rightarrow> u16" where
  "ntohs bs = of_nat (256 * unat (bs ! 0) + unat (bs ! 1))"

definition parse_dlen ::
  "monitor_globals \<Rightarrow> monitor_parser \<Rightarrow> byte \<Rightarrow> (monitor_state \<times> monitor_globals \<times> monitor_parser) res" where
  "parse_dlen g p c =
     rbind (store_at (mp_read p) c (combinedlen g)) (\<lambda>cl.
     let g1 = g\<lparr>combinedlen := cl\<rparr>; p1 = p\<lparr>mp_read := Suc (mp_read p)\<rparr> in
     if mp_read p1 \<ge> mp_len p1 then
       let p2 = p1\<lparr>mp_monitor := (mp_monitor p1)\<lparr>m_dlen := ntohs cl\<rparr>\<rparr>
       in if m_type (mp_monitor p2) \<in> {monitor_config_maildir, monitor_config_add_admin, monitor_config_buf_size,
               monitor_config_remove_admin, monitor_config_remove_pop3, monitor_config_add_pop3} then
            Inr (monitor_data, g1, reset_len p2 (m_dlen (mp_monitor p2)))
          else Inr (monitor_unknown_error, g1, p2)
     else Inr (monitor_dlen, g1, p1))"

text \<open>\<open>data\<close> at an offset, which the arithmetic of the code may make negative.\<close>

definition put_data :: "int \<Rightarrow> byte \<Rightarrow> monitor_parser \<Rightarrow> monitor_parser res" where
  "put_data i c p =
     (if i < 0 then Inl OutOfBounds
      else rbind (store_at (nat i) c (m_data (mp_monitor p))) (\<lambda>d.
           Inr (p\<lparr>mp_monitor := (mp_monitor p)\<lparr>m_data := d\<rparr>\<rparr>)))"

definition next_read :: "monitor_parser \<Rightarrow> monitor_parser" where
  "next_read p = p\<lparr>mp_read := Suc (mp_read p)\<rparr>"

text \<open>\<open>add_admin\<close> and \<open>add_pop3\<close> have the same code: a name, a zero, a token or password.\<close>

definition parse_new_user ::
  "monitor_globals \<Rightarrow> monitor_parser \<Rightarrow> byte \<Rightarrow> (monitor_state \<times> monitor_globals \<times> monitor_parser) res" where
  "parse_new_user g p c =
     (if mp_read p = 0 \<and> c = 0 then Inr (monitor_invalid_data, g, p)
      else
        rbind
          (if IS_ALNUM c then
             rbind (if \<not> mp_finish_user p then put_data (int (mp_read p)) c p
                    else put_data (int MAX_NAME + int (mp_read p) - int (username_len g)) c p)
               (\<lambda>p1. Inr (monitor_data, g, next_read p1))
           else if c = 0 \<and> \<not> mp_finish_user p then
             rbind (put_data (int (mp_read p)) c p) (\<lambda>p1.
             let p2 = (next_read p1)\<lparr>mp_finish_user := True\<rparr>
             in Inr (monitor_data, g\<lparr>username_len := mp_read p2\<rparr>, p2))
           else Inr (monitor_invalid_data, g, p)) (\<lambda>(ret, g1, p1).
        if ret = monitor_invalid_data then Inr (ret, g1, p1)
        else if mp_read p1 \<ge> mp_len p1 then
          rbind (put_data (int MAX_NAME + int (mp_read p1)) 0 p1) (\<lambda>p2.
          Inr (monitor_finish, g1, p2\<lparr>mp_finish_user := False\<rparr>))
        else Inr (ret, g1, p1)))"

text \<open>The other requests carry one string, accepted byte by byte.\<close>

definition parse_string :: "(byte \<Rightarrow> bool) \<Rightarrow> monitor_parser \<Rightarrow> byte \<Rightarrow> (monitor_state \<times> monitor_parser) res" where
  "parse_string ok p c =
     (if ok c then
        rbind (put_data (int (mp_read p)) c p) (\<lambda>p1.
        let p2 = next_read p1 in
        if mp_read p2 \<ge> mp_len p2 then
          rbind (put_data (int (mp_read p2)) 0 p2) (\<lambda>p3. Inr (monitor_finish, p3))
        else Inr (monitor_data, p2))
      else Inr (monitor_invalid_data, p))"

text \<open>The size has no early exit: a wrong byte past the length still finishes the request.\<close>

definition parse_size :: "monitor_parser \<Rightarrow> byte \<Rightarrow> (monitor_state \<times> monitor_parser) res" where
  "parse_size p c =
     rbind (if IS_NUM c then rbind (put_data (int (mp_read p)) c p) (\<lambda>p1. Inr (monitor_data, next_read p1))
            else Inr (monitor_invalid_data, p)) (\<lambda>(ret, p1).
     if mp_read p1 \<ge> mp_len p1 then
       rbind (put_data (int (mp_read p1)) 0 p1) (\<lambda>p2. Inr (monitor_finish, p2))
     else Inr (ret, p1))"

definition parse_data ::
  "monitor_globals \<Rightarrow> monitor_parser \<Rightarrow> byte \<Rightarrow> (monitor_state \<times> monitor_globals \<times> monitor_parser) res" where
  "parse_data g p c =
     (let t = m_type (mp_monitor p) in
      if t = monitor_config_add_admin \<or> t = monitor_config_add_pop3 then parse_new_user g p c
      else rbind (if t = monitor_config_remove_admin \<or> t = monitor_config_remove_pop3 then parse_string IS_ALNUM p c
                  else if t = monitor_config_maildir then parse_string (\<lambda>c. IS_ALNUM c \<or> c = 47) p c
                  else if t = monitor_config_buf_size then parse_size p c
                  else Inl UninitRead) (\<lambda>(ret, p1). Inr (ret, g, p1)))"

definition monitor_parser_feed ::
  "monitor_globals \<Rightarrow> monitor_parser \<Rightarrow> byte \<Rightarrow> (monitor_globals \<times> monitor_parser) res" where
  "monitor_parser_feed g p c =
     rbind
       (case mp_state p of
         monitor_version \<Rightarrow> (let (ret, p1) = parse_version p c in Inr (ret, g, p1))
       | monitor_token \<Rightarrow> rbind (parse_token p c) (\<lambda>(ret, p1). Inr (ret, g, p1))
       | monitor_method \<Rightarrow> (let (ret, p1) = parse_type p c in Inr (ret, g, p1))
       | monitor_target \<Rightarrow> rbind (parser_target p c) (\<lambda>(ret, p1). Inr (ret, g, p1))
       | monitor_dlen \<Rightarrow> parse_dlen g p c
       | monitor_data \<Rightarrow> parse_data g p c
       | st \<Rightarrow> Inr (st, g, p)) (\<lambda>(ret, g1, p1).
     Inr (g1, p1\<lparr>mp_state := ret\<rparr>))"

text \<open>The loop over the buffer stops after the byte that finishes the request.\<close>

definition monitor_consume ::
  "monitor_globals \<Rightarrow> buffer \<Rightarrow> monitor_parser \<Rightarrow> (monitor_state \<times> monitor_globals \<times> monitor_parser \<times> buffer) res" where
  "monitor_consume g b p =
     rbind (consume_buffer (\<lambda>c (g, p). rbind (monitor_parser_feed g p c) (\<lambda>(g1, p1).
              Inr ((g1, p1), monitor_has_finish (mp_state p1)))) b (g, p)) (\<lambda>((g1, p1), b1).
     Inr (mp_state p1, g1, p1, b1))"

section \<open>Responses\<close>

definition error_status :: "monitor_state \<Rightarrow> byte" where
  "error_status st =
     (case st of
       monitor_unsuported_ver \<Rightarrow> monitor_status_unsuported_ver
     | monitor_invalid_token \<Rightarrow> monitor_status_invalid_auth
     | monitor_no_such_method \<Rightarrow> monitor_status_no_such_method
     | monitor_error_no_such_target \<Rightarrow> monitor_status_no_such_target
     | monitor_invalid_data \<Rightarrow> monitor_status_invalid_data
     | _ \<Rightarrow> monitor_status_unknown_error)"

text \<open>\<open>htons\<close> and \<open>htonl\<close>: the bytes of a number from the most significant one.\<close>

definition htons :: "u16 \<Rightarrow> byte list" where
  "htons w = [of_nat (unat w div 256), of_nat (unat w mod 256)]"

definition htonl :: "u32 \<Rightarrow> byte list" where
  "htonl w = [of_nat (unat w div 2 ^ 24), of_nat (unat w div 2 ^ 16 mod 256), of_nat (unat w div 2 ^ 8 mod 256),
     of_nat (unat w mod 256)]"

definition monitor_error_handler :: "monitor_parser \<Rightarrow> buffer \<Rightarrow> (int \<times> buffer) res" where
  "monitor_error_handler p b =
     rbind (buffer_write_ptr b) (\<lambda>n.
     if n < 4 then Inr (- 1, b)
     else rbind (put_all buffer_write (error_status (mp_state p) # htons 1 @ [0]) b) (\<lambda>b1. Inr (4, b1)))"

text \<open>The data of a response: none, a number (\<open>is_number\<close>), or bytes of length \<open>dlen\<close>.\<close>

datatype response_data = No_data | Number u32 | Bytes "byte list"

definition response_bytes :: "u16 \<Rightarrow> response_data \<Rightarrow> byte list" where
  "response_bytes dlen data =
     (case data of No_data \<Rightarrow> [0] | Number n \<Rightarrow> htonl n | Bytes bs \<Rightarrow> take (unat dlen) bs)"

definition monitor_response_handler ::
  "buffer \<Rightarrow> byte \<Rightarrow> u16 \<Rightarrow> response_data \<Rightarrow> (int \<times> buffer) res" where
  "monitor_response_handler b status dlen data =
     rbind (buffer_write_ptr b) (\<lambda>n.
     if n < unat dlen + 3 then Inr (- 1, b)
     else rbind (put_all buffer_write (status # htons dlen @ response_bytes dlen data) b) (\<lambda>b1.
          Inr (int (unat dlen) + 3, b1)))"

section \<open>Feeding a request\<close>

fun monitor_feed_all ::
  "monitor_globals \<Rightarrow> monitor_parser \<Rightarrow> byte list \<Rightarrow> (monitor_globals \<times> monitor_parser) res" where
  "monitor_feed_all g p [] = Inr (g, p)"
| "monitor_feed_all g p (c # cs) = rbind (monitor_parser_feed g p c) (\<lambda>(g1, p1). monitor_feed_all g1 p1 cs)"

lemma monitor_feed_all_append:
  "monitor_feed_all g p (xs @ ys) = rbind (monitor_feed_all g p xs) (\<lambda>(g1, p1). monitor_feed_all g1 p1 ys)"
  by (induction xs arbitrary: g p) (auto simp: rbind_def split: sum.split)

lemma has_finish_simps [simp]:
  "\<not> monitor_has_finish monitor_version" "\<not> monitor_has_finish monitor_token" "\<not> monitor_has_finish monitor_method"
  "\<not> monitor_has_finish monitor_target" "\<not> monitor_has_finish monitor_dlen" "\<not> monitor_has_finish monitor_data"
  "monitor_has_finish monitor_finish"
  by (simp_all add: monitor_has_finish_def)

text \<open>A finished parser ignores what follows, so the loop that stops gives what feeding everything gives.\<close>

lemma feed_finished: "monitor_has_finish (mp_state p) \<Longrightarrow> monitor_parser_feed g p c = Inr (g, p)"
  by (cases p; cases "mp_state p") (auto simp: monitor_parser_feed_def)

lemma feed_all_finished: "monitor_has_finish (mp_state p) \<Longrightarrow> monitor_feed_all g p cs = Inr (g, p)"
  by (induction cs) (simp_all add: feed_finished)

lemma feed_until_all:
  "rbind (feed_until (\<lambda>c (g, p). rbind (monitor_parser_feed g p c) (\<lambda>(g1, p1).
      Inr ((g1, p1), monitor_has_finish (mp_state p1)))) cs (g, p)) (\<lambda>(s, rest). Inr s) = monitor_feed_all g p cs"
proof (induction cs arbitrary: g p)
  case Nil
  then show ?case by simp
next
  case (Cons c cs)
  show ?case
  proof (cases "monitor_parser_feed g p c")
    case (Inl e)
    then show ?thesis by simp
  next
    case (Inr r)
    obtain g1 p1 where r: "r = (g1, p1)" by (cases r)
    show ?thesis
    proof (cases "monitor_has_finish (mp_state p1)")
      case True
      with Inr r show ?thesis by (simp add: feed_all_finished)
    next
      case False
      with Inr r Cons.IH [of g1 p1] show ?thesis by simp
    qed
  qed
qed

lemma monitor_consume_feeds:
  assumes "buffer_inv b" "monitor_feed_all g p (content b) = Inr (g', p')"
  shows "\<exists>b'. monitor_consume g b p = Inr (mp_state p', g', p', b') \<and> buffer_inv b'"
proof -
  let ?step = "\<lambda>c (g, p). rbind (monitor_parser_feed g p c) (\<lambda>(g1, p1).
      Inr ((g1, p1), monitor_has_finish (mp_state p1)))"
  from assms(2) feed_until_all [of "content b" g p] obtain rest where
    rest: "feed_until ?step (content b) (g, p) = Inr ((g', p'), rest)" by (auto simp: res_simps)
  from consume_buffer_feeds [OF assms(1), of ?step "(g, p)"] rest obtain b' where
    "consume_buffer ?step b (g, p) = Inr ((g', p'), b')" "buffer_inv b'" by auto
  then show ?thesis by (simp add: monitor_consume_def)
qed

text \<open>Bytes stored one after the other.\<close>

definition overwrite :: "nat \<Rightarrow> 'a list \<Rightarrow> 'a list \<Rightarrow> 'a list" where
  "overwrite i xs d = take i d @ xs @ drop (i + length xs) d"

lemma overwrite_Nil [simp]: "overwrite i [] d = d"
  by (simp add: overwrite_def)

lemma overwrite_Cons: "i < length d \<Longrightarrow> overwrite i (x # xs) d = overwrite (Suc i) xs (d[i := x])"
  by (simp add: overwrite_def take_Suc_conv_app_nth)

lemma length_overwrite [simp]: "i + length xs \<le> length d \<Longrightarrow> length (overwrite i xs d) = length d"
  by (simp add: overwrite_def)

lemma nth_overwrite:
  "i + length xs \<le> length d \<Longrightarrow> k < length d \<Longrightarrow>
    overwrite i xs d ! k = (if i \<le> k \<and> k < i + length xs then xs ! (k - i) else d ! k)"
  by (auto simp: overwrite_def nth_append)

lemma feed_token:
  assumes "mp_state p = monitor_token" "mp_read p + length xs = 16" "xs \<noteq> []"
    and "length (m_token (mp_monitor p)) = 16"
  shows "monitor_feed_all g p xs = Inr (g, p\<lparr>mp_state := monitor_method, mp_read := 16,
    mp_monitor := (mp_monitor p)\<lparr>m_token := overwrite (mp_read p) xs (m_token (mp_monitor p))\<rparr>\<rparr>)"
  using assms
proof (induction xs arbitrary: p)
  case Nil
  then show ?case by simp
next
  case (Cons x xs)
  let ?p = "p\<lparr>mp_monitor := (mp_monitor p)\<lparr>m_token := (m_token (mp_monitor p))[mp_read p := x]\<rparr>,
    mp_read := Suc (mp_read p)\<rparr>"
  have lt: "mp_read p < 16" using Cons.prems(2) by simp
  show ?case
  proof (cases "xs = []")
    case True
    with Cons.prems lt show ?thesis
      by (auto simp: monitor_parser_feed_def parse_token_def TOKEN_SIZE_def overwrite_Cons)
  next
    case False
    then have "Suc (mp_read p) \<noteq> 16" using Cons.prems(2) by (cases xs) auto
    then have "monitor_parser_feed g p x = Inr (g, ?p\<lparr>mp_state := monitor_token\<rparr>)"
      using Cons.prems lt by (simp add: monitor_parser_feed_def parse_token_def TOKEN_SIZE_def)
    with Cons.IH [of "?p\<lparr>mp_state := monitor_token\<rparr>"] Cons.prems lt False show ?thesis
      by (simp add: overwrite_Cons)
  qed
qed

text \<open>A parser as a new connection has it.\<close>

definition fresh_parser :: monitor_parser where
  "fresh_parser = \<lparr>mp_monitor = monitor_zero, mp_state = monitor_version, mp_len = 0, mp_read = 0, mp_finish_user = False\<rparr>"

lemma feed_header:
  assumes "length tk = 16"
  shows "monitor_feed_all g fresh_parser (1 # tk) = Inr (g, fresh_parser\<lparr>mp_state := monitor_method, mp_len := 16,
    mp_read := 16, mp_monitor := monitor_zero\<lparr>m_token := tk\<rparr>\<rparr>)"
proof -
  let ?p = "fresh_parser\<lparr>mp_state := monitor_token, mp_len := 16\<rparr>"
  have "monitor_parser_feed g fresh_parser 1 = Inr (g, ?p)"
    by (simp add: monitor_parser_feed_def parse_version_def fresh_parser_def TOKEN_SIZE_def)
  moreover have "overwrite 0 tk (replicate 16 0) = tk" using assms by (simp add: overwrite_def)
  moreover have "tk \<noteq> []" using assms by auto
  ultimately show ?thesis
    using feed_token [of ?p tk g] assms by (simp add: fresh_parser_def monitor_zero_def TOKEN_SIZE_def)
qed

text \<open>A query ends at its target.\<close>

lemma feed_query:
  assumes "length tk = 16" "t \<in> {0, 1, 2}"
  shows "monitor_feed_all g fresh_parser (1 # tk @ [0, t]) = Inr (g, fresh_parser\<lparr>mp_state := monitor_finish,
    mp_len := 16, mp_read := 16, mp_monitor := monitor_zero\<lparr>m_token := tk, m_req_type := 0, m_type := t\<rparr>\<rparr>)"
proof -
  let ?p = "fresh_parser\<lparr>mp_state := monitor_method, mp_len := 16, mp_read := 16,
    mp_monitor := monitor_zero\<lparr>m_token := tk\<rparr>\<rparr>"
  have "monitor_feed_all g ?p [0, t] = Inr (g, fresh_parser\<lparr>mp_state := monitor_finish,
    mp_len := 16, mp_read := 16, mp_monitor := monitor_zero\<lparr>m_token := tk, m_req_type := 0, m_type := t\<rparr>\<rparr>)"
    using assms(2) by (auto simp: monitor_parser_feed_def parse_type_def parser_target_def)
  with feed_header [OF assms(1), of g] monitor_feed_all_append [of g fresh_parser "1 # tk" "[0, t]"]
  show ?thesis by (simp del: monitor_feed_all.simps)
qed

lemma ntohs_htons: "ntohs (htons w) = w"
proof -
  have "unat w < 65536" using unat_lt [of w] by simp
  then have "unat w div 256 < 256" by (simp add: less_mult_imp_div_less)
  then have "unat (of_nat (unat w div 256) :: byte) = unat w div 256"
    by (simp add: unat_of_nat take_bit_nat_eq_self)
  moreover have "unat (of_nat (unat w mod 256) :: byte) = unat w mod 256"
    by (simp add: unat_of_nat take_bit_nat_eq_self)
  ultimately have "256 * unat (of_nat (unat w div 256) :: byte) + unat (of_nat (unat w mod 256) :: byte) = unat w"
    by simp
  then show ?thesis by (simp add: ntohs_def htons_def)
qed

definition config_header :: "byte list \<Rightarrow> byte \<Rightarrow> u16 \<Rightarrow> byte list" where
  "config_header tk t dlen = 1 # tk @ [1, t] @ htons dlen"

lemma feed_config:
  assumes "length tk = 16" "t \<in> {0, 1, 2, 3, 4, 5}" "length (combinedlen g) = 2"
  shows "monitor_feed_all g fresh_parser (config_header tk t dlen) = Inr (g\<lparr>combinedlen := htons dlen\<rparr>,
    fresh_parser\<lparr>mp_state := monitor_data, mp_len := unat dlen, mp_read := 0,
      mp_monitor := monitor_zero\<lparr>m_token := tk, m_req_type := 1, m_type := t, m_dlen := dlen\<rparr>\<rparr>)"
proof -
  let ?p = "fresh_parser\<lparr>mp_state := monitor_dlen, mp_len := 2, mp_read := 0,
      mp_monitor := monitor_zero\<lparr>m_token := tk, m_req_type := 1, m_type := t\<rparr>\<rparr>"
  let ?q = "fresh_parser\<lparr>mp_state := monitor_data, mp_len := unat dlen, mp_read := 0,
      mp_monitor := monitor_zero\<lparr>m_token := tk, m_req_type := 1, m_type := t, m_dlen := dlen\<rparr>\<rparr>"
  obtain h l where hl: "htons dlen = [h, l]" by (simp add: htons_def)
  have "monitor_feed_all g (fresh_parser\<lparr>mp_state := monitor_method, mp_len := 16, mp_read := 16,
    mp_monitor := monitor_zero\<lparr>m_token := tk\<rparr>\<rparr>) [1, t] = Inr (g, ?p)"
    using assms(2) by (auto simp: monitor_parser_feed_def parse_type_def parser_target_def)
  moreover have "monitor_feed_all g ?p [h, l] = Inr (g\<lparr>combinedlen := [h, l]\<rparr>, ?q)"
  proof -
    obtain x y where "combinedlen g = [x, y]"
      using assms(3) by (auto simp: numeral_2_eq_2 length_Suc_conv)
    then show ?thesis
      using assms(2) ntohs_htons [of dlen] hl
      by (auto simp: monitor_parser_feed_def parse_dlen_def reset_len_def Let_def)
  qed
  ultimately show ?thesis
    using feed_header [OF assms(1), of g] monitor_feed_all_append [of g fresh_parser "1 # tk" "[1, t] @ [h, l]"]
      monitor_feed_all_append [of g _ "[1, t]" "[h, l]"]
    by (simp add: config_header_def hl del: monitor_feed_all.simps)
qed

section \<open>The data of a request\<close>

text \<open>\<open>data\<close> written through its members.\<close>

abbreviation data_of :: "monitor_parser \<Rightarrow> byte list" where
  "data_of p \<equiv> m_data (mp_monitor p)"

definition with_data :: "byte list \<Rightarrow> monitor_parser \<Rightarrow> monitor_parser" where
  "with_data d p = p\<lparr>mp_monitor := (mp_monitor p)\<lparr>m_data := d\<rparr>\<rparr>"

lemma with_data_sel [simp]:
  "m_data (mp_monitor (with_data d p)) = d" "mp_read (with_data d p) = mp_read p" "mp_len (with_data d p) = mp_len p"
  "mp_state (with_data d p) = mp_state p" "mp_finish_user (with_data d p) = mp_finish_user p"
  "m_type (mp_monitor (with_data d p)) = m_type (mp_monitor p)"
  "with_data d (with_data e p) = with_data d p" "with_data (data_of p) p = p"
  by (simp_all add: with_data_def)

lemma with_data_upd [simp]:
  "with_data d (p\<lparr>mp_read := n\<rparr>) = (with_data d p)\<lparr>mp_read := n\<rparr>"
  "with_data d (p\<lparr>mp_state := st\<rparr>) = (with_data d p)\<lparr>mp_state := st\<rparr>"
  "with_data d (p\<lparr>mp_finish_user := f\<rparr>) = (with_data d p)\<lparr>mp_finish_user := f\<rparr>"
  by (simp_all add: with_data_def)

lemma put_data_ok: "0 \<le> i \<Longrightarrow> i < int (length (data_of p)) \<Longrightarrow>
    put_data i c p = Inr (with_data ((data_of p)[nat i := c]) p)"
  by (simp add: put_data_def with_data_def nat_less_iff)

lemma put_data_nat: "i < length (data_of p) \<Longrightarrow> put_data (int i) c p = Inr (with_data ((data_of p)[i := c]) p)"
  by (simp add: put_data_ok)

text \<open>One string, up to and with its terminating zero.\<close>

lemma parse_string_loop:
  fixes p :: monitor_parser
  assumes "mp_state p = monitor_data" "xs \<noteq> []" "mp_len p = mp_read p + length xs" "mp_len p < length (data_of p)"
    and "\<forall>c \<in> set xs. ok c"
    and step: "\<And>g q c. mp_state q = monitor_data \<Longrightarrow> m_type (mp_monitor q) = m_type (mp_monitor p) \<Longrightarrow>
      monitor_parser_feed g q c = rbind (parse_string ok q c) (\<lambda>(ret, q1). Inr (g, q1\<lparr>mp_state := ret\<rparr>))"
  shows "monitor_feed_all g p xs = Inr (g, with_data (overwrite (mp_read p) (xs @ [0]) (data_of p)) p
    \<lparr>mp_read := mp_len p, mp_state := monitor_finish\<rparr>)"
  using assms
proof (induction xs arbitrary: p)
  case Nil
  then show ?case by simp
next
  case (Cons x xs)
  let ?d = "(data_of p)[mp_read p := x]"
  let ?p = "with_data ?d p\<lparr>mp_read := Suc (mp_read p)\<rparr>"
  have lt: "mp_read p < length (data_of p)" using Cons.prems(3,4) by simp
  note step = Cons.prems(6) [OF Cons.prems(1) refl, of g x]
  show ?case
  proof (cases "xs = []")
    case True
    with Cons.prems lt step show ?thesis
      by (simp add: parse_string_def put_data_nat next_read_def put_data_nat [of "Suc (mp_read p)", simplified] overwrite_Cons)
  next
    case False
    then have "\<not> Suc (mp_read p) \<ge> mp_len p" using Cons.prems(3) by (cases xs) auto
    then have "monitor_parser_feed g p x = Inr (g, ?p)"
      using Cons.prems lt step by (simp add: parse_string_def put_data_nat next_read_def)
    moreover have "monitor_feed_all g ?p xs = Inr (g, with_data (overwrite (mp_read ?p) (xs @ [0]) (data_of ?p)) ?p
      \<lparr>mp_read := mp_len ?p, mp_state := monitor_finish\<rparr>)"
      using Cons.prems False by (intro Cons.IH) auto
    ultimately show ?thesis using lt by (simp add: overwrite_Cons)
  qed
qed

lemma name_loop:
  fixes p :: monitor_parser
  assumes "mp_state p = monitor_data" "m_type (mp_monitor p) \<in> {2, 4}" "\<not> mp_finish_user p"
    and "mp_read p + length xs < mp_len p" "mp_len p \<le> length (data_of p)" "\<forall>c \<in> set xs. IS_ALNUM c"
  shows "monitor_feed_all g p xs = Inr (g, with_data (overwrite (mp_read p) xs (data_of p)) p
    \<lparr>mp_read := mp_read p + length xs\<rparr>)"
  using assms
proof (induction xs arbitrary: p)
  case Nil
  then show ?case by simp
next
  case (Cons x xs)
  let ?p = "with_data ((data_of p)[mp_read p := x]) p\<lparr>mp_read := Suc (mp_read p)\<rparr>"
  have lt: "mp_read p < length (data_of p)" using Cons.prems(4,5) by simp
  have x: "IS_ALNUM x" "x \<noteq> 0" using Cons.prems(6) by (auto simp: IS_ALNUM_def)
  have "monitor_parser_feed g p x = Inr (g, ?p)"
    using Cons.prems lt x
    by (auto simp: monitor_parser_feed_def parse_data_def parse_new_user_def put_data_nat next_read_def Let_def)
  moreover have "monitor_feed_all g ?p xs = Inr (g, with_data (overwrite (mp_read ?p) xs (data_of ?p)) ?p
    \<lparr>mp_read := mp_read ?p + length xs\<rparr>)"
    using Cons.prems by (intro Cons.IH) auto
  ultimately show ?case using lt by (simp add: overwrite_Cons)
qed

lemma name_end:
  fixes p :: monitor_parser
  assumes "mp_state p = monitor_data" "m_type (mp_monitor p) \<in> {2, 4}" "\<not> mp_finish_user p"
    and "0 < mp_read p" "Suc (mp_read p) < mp_len p" "mp_len p \<le> length (data_of p)"
  shows "monitor_parser_feed g p 0 = Inr (g\<lparr>username_len := Suc (mp_read p)\<rparr>,
    with_data ((data_of p)[mp_read p := 0]) p\<lparr>mp_read := Suc (mp_read p), mp_finish_user := True\<rparr>)"
  using assms
  by (auto simp: monitor_parser_feed_def parse_data_def parse_new_user_def put_data_nat next_read_def Let_def IS_ALNUM_def)

lemma pass_loop:
  fixes p :: monitor_parser
  assumes "mp_state p = monitor_data" "m_type (mp_monitor p) \<in> {2, 4}" "mp_finish_user p" "xs \<noteq> []"
    and "mp_len p = mp_read p + length xs" "5 + mp_len p < length (data_of p)" "\<forall>c \<in> set xs. IS_ALNUM c"
    and "0 < mp_read p" "username_len g \<le> 5 + mp_read p"
  shows "monitor_feed_all g p xs = Inr (g, with_data ((overwrite (5 + mp_read p - username_len g) xs (data_of p))
    [5 + mp_len p := 0]) p\<lparr>mp_read := mp_len p, mp_finish_user := False, mp_state := monitor_finish\<rparr>)"
  using assms
proof (induction xs arbitrary: p)
  case Nil
  then show ?case by simp
next
  case (Cons x xs)
  let ?i = "5 + mp_read p - username_len g"
  let ?p = "with_data ((data_of p)[?i := x]) p\<lparr>mp_read := Suc (mp_read p)\<rparr>"
  have i: "int MAX_NAME + int (mp_read p) - int (username_len g) = int ?i"
    using Cons.prems(9) by (simp add: MAX_NAME_def)
  have lt: "?i < length (data_of p)" using Cons.prems(5,6,9) by simp
  have rd: "0 < mp_read p" using Cons.prems(8) .
  have x: "IS_ALNUM x" "x \<noteq> 0" using Cons.prems(7) by (auto simp: IS_ALNUM_def)
  have put: "put_data (int MAX_NAME + int (mp_read p) - int (username_len g)) x p
      = Inr (with_data ((data_of p)[?i := x]) p)"
    unfolding i using lt by (rule put_data_nat)
  note step = monitor_parser_feed_def parse_data_def parse_new_user_def next_read_def Let_def put
  show ?case
  proof (cases "xs = []")
    case True
    have e: "put_data (int MAX_NAME + int (Suc (mp_read p))) 0 ?p
        = Inr (with_data (((data_of p)[?i := x])[5 + mp_len p := 0]) ?p)"
      using Cons.prems(5,6) True put_data_nat [of "5 + mp_len p" ?p 0] by (simp add: MAX_NAME_def add.commute)
    from True Cons.prems rd x lt e show ?thesis
      by (auto simp: step overwrite_Cons)
  next
    case False
    then have more: "\<not> Suc (mp_read p) \<ge> mp_len p" using Cons.prems(5) by (cases xs) auto
    then have "monitor_parser_feed g p x = Inr (g, ?p)"
      using Cons.prems(1-3) rd x by (auto simp: step)
    moreover have "monitor_feed_all g ?p xs = Inr (g, with_data ((overwrite (5 + mp_read ?p - username_len g) xs (data_of ?p))
      [5 + mp_len ?p := 0]) ?p\<lparr>mp_read := mp_len ?p, mp_finish_user := False, mp_state := monitor_finish\<rparr>)"
      using Cons.prems False by (intro Cons.IH) auto
    moreover have "5 + Suc (mp_read p) - username_len g = Suc ?i" using Cons.prems(9) by simp
    ultimately show ?thesis using lt by (simp add: overwrite_Cons)
  qed
qed

section \<open>Whole requests\<close>

definition data_parser :: "byte list \<Rightarrow> byte \<Rightarrow> u16 \<Rightarrow> monitor_parser" where
  "data_parser tk t dlen = fresh_parser\<lparr>mp_state := monitor_data, mp_len := unat dlen, mp_read := 0,
     mp_monitor := monitor_zero\<lparr>m_token := tk, m_req_type := 1, m_type := t, m_dlen := dlen\<rparr>\<rparr>"

lemma data_parser_sel [simp]:
  "mp_state (data_parser tk t dlen) = monitor_data" "mp_len (data_parser tk t dlen) = unat dlen"
  "mp_read (data_parser tk t dlen) = 0" "\<not> mp_finish_user (data_parser tk t dlen)"
  "m_type (mp_monitor (data_parser tk t dlen)) = t"
  "m_data (mp_monitor (data_parser tk t dlen)) = replicate 255 0"
  by (simp_all add: data_parser_def fresh_parser_def monitor_zero_def MAX_PATH_def)

text \<open>A request that carries one string.\<close>

lemma feed_string_request:
  assumes "length tk = 16" "t \<in> {0, 3, 5}" "length (combinedlen g) = 2" "xs \<noteq> []" "length xs < 255"
    and "\<forall>c \<in> set xs. IS_ALNUM c \<or> t = 0 \<and> c = 47"
  shows "monitor_feed_all g fresh_parser (config_header tk t (of_nat (length xs)) @ xs)
    = Inr (g\<lparr>combinedlen := htons (of_nat (length xs))\<rparr>,
        with_data (xs @ replicate (255 - length xs) 0) (data_parser tk t (of_nat (length xs)))
          \<lparr>mp_read := length xs, mp_state := monitor_finish\<rparr>)"
proof -
  let ?w = "of_nat (length xs) :: u16"
  have w: "unat ?w = length xs" using assms(5) by (simp add: unat_of_nat take_bit_nat_eq_self)
  have h: "monitor_feed_all g fresh_parser (config_header tk t ?w)
      = Inr (g\<lparr>combinedlen := htons ?w\<rparr>, data_parser tk t ?w)"
    using assms(2) by (subst feed_config [OF assms(1) _ assms(3)]) (auto simp: data_parser_def)
  let ?ok = "\<lambda>c. IS_ALNUM c \<or> t = 0 \<and> c = 47"
  have step: "monitor_parser_feed g q c = rbind (parse_string ?ok q c) (\<lambda>(ret, q1). Inr (g, q1\<lparr>mp_state := ret\<rparr>))"
    if "mp_state q = monitor_data" "m_type (mp_monitor q) = t" for g q c
    using that assms(2)
    by (auto simp: monitor_parser_feed_def parse_data_def Let_def rbind_assoc rbind_def split: sum.split prod.split)
  have z: "overwrite 0 (xs @ [0]) (replicate 255 0) = xs @ replicate (255 - length xs) (0 :: byte)"
    using assms(5) by (simp add: overwrite_def Suc_diff_Suc flip: replicate_Suc)
  from parse_string_loop [of "data_parser tk t ?w" xs ?ok "g\<lparr>combinedlen := htons ?w\<rparr>"] assms(4-6) w step z
  have "monitor_feed_all (g\<lparr>combinedlen := htons ?w\<rparr>) (data_parser tk t ?w) xs
    = Inr (g\<lparr>combinedlen := htons ?w\<rparr>, with_data (xs @ replicate (255 - length xs) 0) (data_parser tk t ?w)
        \<lparr>mp_read := length xs, mp_state := monitor_finish\<rparr>)" by simp
  with h show ?thesis by (simp add: monitor_feed_all_append del: of_nat_diff)
qed

text \<open>A request that carries a name, a zero and a token or password.\<close>

definition new_user_data :: "cstring \<Rightarrow> cstring \<Rightarrow> byte list" where
  "new_user_data u pw = overwrite 5 pw (u @ replicate (255 - length u) 0)"

lemma feed_new_user_name:
  assumes "length tk = 16" "t \<in> {2, 4}" "length (combinedlen g) = 2" "u \<noteq> []"
    and "\<forall>c \<in> set u. IS_ALNUM c" "Suc (length u) < n" "n < 250"
  shows "monitor_feed_all g fresh_parser (config_header tk t (of_nat n) @ u @ [0])
    = Inr (g\<lparr>combinedlen := htons (of_nat n), username_len := Suc (length u)\<rparr>,
        with_data (u @ replicate (255 - length u) 0) (data_parser tk t (of_nat n))\<lparr>mp_read := Suc (length u), mp_finish_user := True\<rparr>)"
proof -
  let ?w = "of_nat n :: u16" and ?k = "length u"
  have w: "unat ?w = n" using assms(7) by (simp add: unat_of_nat take_bit_nat_eq_self)
  let ?g = "g\<lparr>combinedlen := htons ?w\<rparr>" and ?p = "data_parser tk t ?w"
  have h: "monitor_feed_all g fresh_parser (config_header tk t ?w) = Inr (?g, ?p)"
    using assms(2) by (subst feed_config [OF assms(1) _ assms(3)]) (auto simp: data_parser_def)
  have z: "overwrite 0 u (replicate 255 0) = u @ replicate (255 - ?k) (0 :: byte)"
    by (simp add: overwrite_def)
  let ?d = "u @ replicate (255 - ?k) (0 :: byte)"
  have zk: "?d[?k := 0] = ?d" using assms(6,7) by (simp add: list_update_append)
      (metis diff_Suc_eq_diff_pred list_update_id nth_replicate replicate_empty zero_less_diff length_replicate
        list_update_beyond not_less)
  have name: "monitor_feed_all ?g ?p u = Inr (?g, with_data ?d ?p\<lparr>mp_read := ?k\<rparr>)"
    using name_loop [of ?p u ?g] assms(2,5-7) w z by auto
  have "monitor_parser_feed ?g (with_data ?d ?p\<lparr>mp_read := ?k\<rparr>) 0
      = Inr (?g\<lparr>username_len := Suc ?k\<rparr>, with_data ?d ?p\<lparr>mp_read := Suc ?k, mp_finish_user := True\<rparr>)"
    using name_end [of "with_data ?d ?p\<lparr>mp_read := ?k\<rparr>" ?g] assms(2,4,6,7) w zk by auto
  with h name show ?thesis by (simp add: monitor_feed_all_append)
qed

lemma feed_new_user_request:
  assumes "length tk = 16" "t \<in> {2, 4}" "length (combinedlen g) = 2" "u \<noteq> []" "pw \<noteq> []"
    and "\<forall>c \<in> set (u @ pw). IS_ALNUM c" "n = Suc (length u + length pw)" "n < 250"
  shows "monitor_feed_all g fresh_parser (config_header tk t (of_nat n) @ u @ 0 # pw)
    = Inr (g\<lparr>combinedlen := htons (of_nat n), username_len := Suc (length u)\<rparr>,
        with_data ((new_user_data u pw)[5 + n := 0]) (data_parser tk t (of_nat n))
          \<lparr>mp_read := n, mp_finish_user := False, mp_state := monitor_finish\<rparr>)"
proof -
  let ?w = "of_nat n :: u16"
  have w: "unat ?w = n" using assms(8) by (simp add: unat_of_nat take_bit_nat_eq_self)
  let ?g2 = "g\<lparr>combinedlen := htons ?w, username_len := Suc (length u)\<rparr>" and ?p = "data_parser tk t ?w"
  let ?q = "with_data (u @ replicate (255 - length u) 0) ?p\<lparr>mp_read := Suc (length u), mp_finish_user := True\<rparr>"
  have n: "Suc (length u) < n" "\<forall>c \<in> set u. IS_ALNUM c" using assms(5-7) by auto
  have "monitor_feed_all ?g2 ?q pw = Inr (?g2, with_data ((new_user_data u pw)[5 + n := 0]) ?p
      \<lparr>mp_read := n, mp_finish_user := False, mp_state := monitor_finish\<rparr>)"
    using pass_loop [of ?q pw ?g2] assms(2,5-8) w by (auto simp: new_user_data_def)
  with feed_new_user_name [OF assms(1-4) n(2,1) assms(8)]
    monitor_feed_all_append [of g fresh_parser "config_header tk t ?w @ u @ [0]" pw] show ?thesis by simp
qed

text \<open>The two strings the server reads from such a request, at offsets 0 and 5.\<close>

lemma new_user_data_eq:
  assumes "length u \<le> 5" "length pw < 245"
  shows "new_user_data u pw = u @ replicate (5 - length u) 0 @ pw @ replicate (250 - length pw) 0"
proof -
  have "take 5 (u @ replicate (255 - length u) (0 :: byte)) = u @ replicate (5 - length u) 0"
    using assms(1) by (simp add: min_def)
  moreover have "drop (5 + length pw) (u @ replicate (255 - length u) (0 :: byte)) = replicate (250 - length pw) 0"
    using assms by simp
  ultimately show ?thesis by (simp add: new_user_data_def overwrite_def)
qed

lemma new_user_data_end:
  assumes "length u \<le> 5" "length pw < 245" "5 + length pw \<le> i" "i < 255"
  shows "(new_user_data u pw)[i := 0] = new_user_data u pw"
proof -
  have "drop (5 + length pw) (new_user_data u pw) = replicate (250 - length pw) 0"
    using assms(1,2) by (simp add: new_user_data_eq)
  moreover have "length (new_user_data u pw) = 255"
    using assms(1,2) by (simp add: new_user_data_eq)
  ultimately have "new_user_data u pw ! i = replicate (250 - length pw) 0 ! (i - (5 + length pw))"
    using assms(3,4) nth_drop [of "5 + length pw" "new_user_data u pw" "i - (5 + length pw)"] by simp
  then have "new_user_data u pw ! i = 0" using assms(3,4) by simp
  then show ?thesis by (metis list_update_id)
qed

lemma new_user_strings:
  assumes "length u \<le> 4" "length pw < 245" "0 \<notin> set u" "0 \<notin> set pw"
  shows "mem_string (new_user_data u pw) = Inr u" "mem_string (drop 5 (new_user_data u pw)) = Inr pw"
proof -
  have d: "new_user_data u pw = u @ replicate (5 - length u) 0 @ pw @ replicate (250 - length pw) 0"
    using assms(1,2) by (intro new_user_data_eq) auto
  obtain k where "5 - length u = Suc k" using assms(1) by (cases "5 - length u") auto
  with d mem_string_append_zero [OF assms(3)] show "mem_string (new_user_data u pw) = Inr u" by simp
  obtain j where "250 - length pw = Suc j" using assms(2) by (cases "250 - length pw") auto
  moreover have "drop 5 (new_user_data u pw) = pw @ replicate (250 - length pw) 0" using assms(1) d by simp
  ultimately show "mem_string (drop 5 (new_user_data u pw)) = Inr pw"
    using mem_string_append_zero [OF assms(4)] by simp
qed

text \<open>A name of five letters leaves no room for its zero: it is read together with what follows.\<close>

lemma new_user_strings_five:
  assumes "length u = 5" "length pw < 245" "0 \<notin> set u" "0 \<notin> set pw"
  shows "mem_string (new_user_data u pw) = Inr (u @ pw)" "mem_string (drop 5 (new_user_data u pw)) = Inr pw"
proof -
  have d: "new_user_data u pw = u @ pw @ replicate (250 - length pw) 0"
    using assms(1,2) new_user_data_eq [of u pw] by simp
  obtain j where j: "250 - length pw = Suc j" using assms(2) by (cases "250 - length pw") auto
  from d j mem_string_append_zero [of "u @ pw"] assms(3,4) show "mem_string (new_user_data u pw) = Inr (u @ pw)" by simp
  from d j assms(1) mem_string_append_zero [OF assms(4)] show "mem_string (drop 5 (new_user_data u pw)) = Inr pw" by simp
qed

lemma IS_ALNUM_0 [simp]: "\<not> IS_ALNUM 0"
  by (simp add: IS_ALNUM_def)

section \<open>Responses\<close>

lemma response_ok:
  assumes "buffer_inv b" "unat dlen + 3 \<le> room b" "length (response_bytes dlen data) \<le> unat dlen"
  shows "\<exists>b'. monitor_response_handler b status dlen data = Inr (int (unat dlen) + 3, b') \<and> buffer_inv b'
    \<and> content b' = content b @ status # htons dlen @ response_bytes dlen data"
proof -
  have len: "length (status # htons dlen @ response_bytes dlen data) \<le> room b"
    using assms(2,3) by (simp add: htons_def)
  from bq.put_all_room [OF assms(1) len] obtain b' where
    "put_all buffer_write (status # htons dlen @ response_bytes dlen data) b = Inr b'" "buffer_inv b'"
    "content b' = content b @ status # htons dlen @ response_bytes dlen data" by blast
  moreover have "buffer_write_ptr b = Inr (room b)"
    using assms(1) by (simp add: buffer_write_ptr_def buffer_inv_def room_def)
  ultimately show ?thesis using assms(2) by (simp add: monitor_response_handler_def)
qed

lemma response_no_room:
  assumes "buffer_inv b" "room b < unat dlen + 3"
  shows "monitor_response_handler b status dlen data = Inr (- 1, b)"
  using assms by (simp add: monitor_response_handler_def buffer_write_ptr_def buffer_inv_def room_def)

lemma error_response_ok:
  assumes "buffer_inv b" "4 \<le> room b"
  shows "\<exists>b'. monitor_error_handler p b = Inr (4, b') \<and> buffer_inv b'
    \<and> content b' = content b @ [error_status (mp_state p), 0, 1, 0]"
proof -
  have h: "htons 1 = [0, 1]" by (simp add: htons_def)
  have len: "length (error_status (mp_state p) # htons 1 @ [0]) \<le> room b" using assms(2) by (simp add: h)
  from bq.put_all_room [OF assms(1) len] assms show ?thesis
    by (auto simp: monitor_error_handler_def buffer_write_ptr_def buffer_inv_def room_def h)
qed

section \<open>Properties\<close>

lemma content_written: "length bs \<le> n \<Longrightarrow> content (buffer_init n (bs @ replicate k 0)\<lparr>b_write := length bs\<rparr>) = bs
    \<and> (n \<le> length bs + k \<longrightarrow> buffer_inv (buffer_init n (bs @ replicate k 0)\<lparr>b_write := length bs\<rparr>))"
  by (simp add: content_def buffer_init_def buffer_inv_def)

text \<open>
  C28. A request to add an administrator or a user whose name has at most four letters is accepted, in
  one read, with its token, its target, and exactly the name and the password sent, whatever other
  connections have done before.
\<close>

theorem monitor_reads_new_user:
  assumes "buffer_inv b" "content b = config_header tk t (of_nat n) @ u @ 0 # pw" "length tk = 16" "t \<in> {2, 4}"
    and "length (combinedlen g) = 2" "u \<noteq> []" "pw \<noteq> []" "\<forall>c \<in> set (u @ pw). IS_ALNUM c"
    and "n = Suc (length u + length pw)" "n < 240" "length u \<le> 4"
  shows "\<exists>g' p' b'. monitor_consume g b fresh_parser = Inr (monitor_finish, g', p', b') \<and> buffer_inv b'
    \<and> m_token (mp_monitor p') = tk \<and> m_req_type (mp_monitor p') = monitor_type_config \<and> m_type (mp_monitor p') = t
    \<and> mem_string (m_data (mp_monitor p')) = Inr u \<and> mem_string (drop 5 (m_data (mp_monitor p'))) = Inr pw"
proof -
  have n: "n < 250" using assms(10) by simp
  have len: "length pw < 245" using assms(9,10) by simp
  have z: "0 \<notin> set u" "0 \<notin> set pw" using assms(8) IS_ALNUM_0 by (metis Un_iff set_append)+
  have e: "(new_user_data u pw)[5 + n := 0] = new_user_data u pw"
    using assms(9-11) len by (intro new_user_data_end) auto
  from monitor_consume_feeds [OF assms(1) feed_new_user_request [OF assms(3-9) n, folded assms(2)]]
    new_user_strings [OF assms(11) len z] e
  show ?thesis by (auto simp: with_data_def data_parser_def)
qed

theorem monitor_reads_new_user_witness:
  "\<exists>g' p' b'. monitor_consume monitor_globals_init (buffer_init 512 ((config_header (replicate 16 49) 4 7
      @ str ''ana'' @ 0 # str ''pwd'') @ replicate 490 0)\<lparr>b_write := 28\<rparr>) fresh_parser
      = Inr (monitor_finish, g', p', b') \<and> buffer_inv b'
    \<and> m_token (mp_monitor p') = replicate 16 49 \<and> m_req_type (mp_monitor p') = monitor_type_config
    \<and> m_type (mp_monitor p') = 4
    \<and> mem_string (m_data (mp_monitor p')) = Inr (str ''ana'')
    \<and> mem_string (drop 5 (m_data (mp_monitor p'))) = Inr (str ''pwd'')"
proof -
  let ?bs = "config_header (replicate 16 49) 4 7 @ str ''ana'' @ 0 # str ''pwd''"
  have l: "length ?bs = 28" by (simp add: config_header_def htons_def)
  note c = content_written [of ?bs 512 490, unfolded l]
  show ?thesis
    by (rule monitor_reads_new_user [where n = 7])
      (use c in \<open>simp_all add: IS_ALNUM_def monitor_globals_init_def\<close>)
qed

text \<open>
  With a name of five letters, which the client program allows, the zero that ends the name is
  overwritten by the token or password: the name the server stores is the two together.
\<close>

lemma five_letter_name_runs_on:
  assumes "length tk = 16" "t \<in> {2, 4}" "length (combinedlen g) = 2" "length u = 5" "pw \<noteq> []"
    and "\<forall>c \<in> set (u @ pw). IS_ALNUM c" "n = Suc (length u + length pw)" "n < 240"
  shows "\<exists>g' p'. monitor_feed_all g fresh_parser (config_header tk t (of_nat n) @ u @ 0 # pw) = Inr (g', p')
    \<and> mp_state p' = monitor_finish \<and> mem_string (m_data (mp_monitor p')) = Inr (u @ pw)
    \<and> mem_string (drop 5 (m_data (mp_monitor p'))) = Inr pw"
proof -
  have u: "u \<noteq> []" and n: "n < 250" using assms(4,8) by auto
  have len: "length pw < 245" using assms(7,8) by simp
  have z: "0 \<notin> set u" "0 \<notin> set pw" using assms(6) IS_ALNUM_0 by (metis Un_iff set_append)+
  have e: "(new_user_data u pw)[5 + n := 0] = new_user_data u pw"
    using assms(4,7,8) len by (intro new_user_data_end) auto
  from feed_new_user_request [OF assms(1-3) u assms(5-7) n] new_user_strings_five [OF assms(4) len z] e
  show ?thesis by simp
qed

lemma five_letter_name_runs_on_example:
  "\<exists>g' p'. monitor_feed_all monitor_globals_init fresh_parser
      (config_header (replicate 16 49) 4 (of_nat 9) @ str ''admin'' @ 0 # str ''pwd'') = Inr (g', p')
    \<and> mp_state p' = monitor_finish \<and> mem_string (m_data (mp_monitor p')) = Inr (str ''admin'' @ str ''pwd'')
    \<and> mem_string (drop 5 (m_data (mp_monitor p'))) = Inr (str ''pwd'')"
  by (rule five_letter_name_runs_on) (simp_all add: IS_ALNUM_def monitor_globals_init_def)

text \<open>
  A request that carries one string (the new mail directory, or the name to remove) is accepted
  with exactly that string, up to 254 bytes of it.
\<close>

lemma monitor_reads_string:
  assumes "length tk = 16" "t \<in> {0, 3, 5}" "length (combinedlen g) = 2" "xs \<noteq> []" "length xs < 255"
    and "\<forall>c \<in> set xs. IS_ALNUM c \<or> t = 0 \<and> c = 47"
  shows "\<exists>g' p'. monitor_feed_all g fresh_parser (config_header tk t (of_nat (length xs)) @ xs) = Inr (g', p')
    \<and> mp_state p' = monitor_finish \<and> m_token (mp_monitor p') = tk \<and> m_type (mp_monitor p') = t
    \<and> mem_string (m_data (mp_monitor p')) = Inr xs"
proof -
  have z: "0 \<notin> set xs" using assms(6) by auto
  obtain j where "255 - length xs = Suc j" using assms(5) by (cases "255 - length xs") auto
  with mem_string_append_zero [OF z] have "mem_string (xs @ replicate (255 - length xs) 0) = Inr xs" by simp
  with feed_string_request [OF assms] show ?thesis
    by (simp add: with_data_def data_parser_def)
qed

lemma monitor_reads_string_example:
  "\<exists>g' p'. monitor_feed_all monitor_globals_init fresh_parser
      (config_header (replicate 16 49) 0 (of_nat (length (str ''/var/mail/''))) @ str ''/var/mail/'') = Inr (g', p')
    \<and> mp_state p' = monitor_finish \<and> m_token (mp_monitor p') = replicate 16 49 \<and> m_type (mp_monitor p') = 0
    \<and> mem_string (m_data (mp_monitor p')) = Inr (str ''/var/mail/'')"
  by (rule monitor_reads_string) (simp_all add: IS_ALNUM_def monitor_globals_init_def)

text \<open>
  The data when a password is stored while the length in force is that of another name, of \<open>l\<close> letters.
\<close>

lemma shifted_data:
  assumes "length u \<le> 4" "l \<le> 4" "length u + length pw < 239"
  shows "(overwrite (5 + length u - l) pw (u @ replicate (255 - length u) 0))[6 + length u + length pw := 0]
    = u @ replicate (5 - l) 0 @ pw @ replicate (250 + l - length u - length pw) (0 :: byte)"
proof -
  let ?d = "u @ replicate (5 - l) 0 @ pw @ replicate (250 + l - length u - length pw) (0 :: byte)"
  have "take (5 + length u - l) (u @ replicate (255 - length u) (0 :: byte)) = u @ replicate (5 - l) 0"
    using assms by (simp add: min_def)
  moreover have "drop (5 + length u - l + length pw) (u @ replicate (255 - length u) (0 :: byte))
      = replicate (250 + l - length u - length pw) 0" using assms by simp
  ultimately have "overwrite (5 + length u - l) pw (u @ replicate (255 - length u) 0) = ?d"
    by (simp add: overwrite_def)
  moreover have "?d ! (6 + length u + length pw) = 0" using assms by (auto simp: nth_append)
  ultimately show ?thesis by (metis list_update_id)
qed

lemma shifted_strings:
  assumes "length u \<le> 4" "l \<le> 4" "length u + length pw < 239" "0 \<notin> set u" "0 \<notin> set pw"
    and "d = u @ replicate (5 - l) 0 @ pw @ replicate (250 + l - length u - length pw) (0 :: byte)"
  shows "mem_string d = Inr u" "mem_string (drop 5 d) = Inr (if length u \<le> l then drop (l - length u) pw else [])"
proof -
  obtain k where "5 - l = Suc k" using assms(2) by (cases "5 - l") auto
  with mem_string_append_zero [OF assms(4)] show "mem_string d = Inr u" by (simp add: assms(6))
  show "mem_string (drop 5 d) = Inr (if length u \<le> l then drop (l - length u) pw else [])"
  proof (cases "length u \<le> l")
    case True
    have "drop 5 d = drop (l - length u) pw @ replicate (250 + l - length u - length pw - (l - length u - length pw)) 0"
      using True assms(2) by (simp add: assms(6))
    moreover obtain j where "250 + l - length u - length pw - (l - length u - length pw) = Suc j"
      using assms(1-3) by (cases "250 + l - length u - length pw - (l - length u - length pw)") auto
    moreover have "0 \<notin> set (drop (l - length u) pw)" using assms(5) by (meson in_set_dropD)
    ultimately show ?thesis using True mem_string_append_zero by simp
  next
    case False
    then have "drop 5 d = replicate (length u - l) 0 @ pw @ replicate (250 + l - length u - length pw) 0"
      using assms(1,2) by (simp add: assms(6))
    moreover obtain j where "length u - l = Suc j" using False by (cases "length u - l") auto
    ultimately show ?thesis using False mem_string_append_zero [of "[]"] by simp
  qed
qed

text \<open>
  C27. Two connections that add a user or an administrator at the same time spoil each other's request, whatever
  the requests are: the length of the name is one variable for all connections. When the name of the second, \<open>v\<close>,
  arrives between the name and the password of the first, the first is accepted with its name but with a
  password that has lost as many letters as \<open>v\<close> is longer than the first name, or with the empty password when
  \<open>v\<close> is shorter; only when both names have the same length it is what was sent.
\<close>

theorem interleaved_requests_corrupt:
  assumes "length tk = 16" "t \<in> {2, 4}" "u \<noteq> []" "length u \<le> 4" "pw \<noteq> []" "n = Suc (length u + length pw)" "n < 240"
    and "length tk' = 16" "t' \<in> {2, 4}" "v \<noteq> []" "length v \<le> 4" "Suc (length v) < n'" "n' < 250"
    and "\<forall>c \<in> set (u @ v @ pw). IS_ALNUM c" "length (combinedlen g) = 2"
  shows "\<exists>g1 p g2 p' g3 q. monitor_feed_all g fresh_parser (config_header tk t (of_nat n) @ u @ [0]) = Inr (g1, p)
    \<and> monitor_feed_all g1 fresh_parser (config_header tk' t' (of_nat n') @ v @ [0]) = Inr (g2, p')
    \<and> monitor_feed_all g2 p pw = Inr (g3, q) \<and> mp_state q = monitor_finish
    \<and> mem_string (m_data (mp_monitor q)) = Inr u
    \<and> mem_string (drop 5 (m_data (mp_monitor q))) = Inr (if length u \<le> length v then drop (length v - length u) pw else [])"
proof -
  let ?w = "of_nat n :: u16" and ?d = "u @ replicate (255 - length u) 0"
  have w: "unat ?w = n" using assms(7) by (simp add: unat_of_nat take_bit_nat_eq_self)
  let ?g1 = "g\<lparr>combinedlen := htons ?w, username_len := Suc (length u)\<rparr>"
  let ?p = "with_data ?d (data_parser tk t ?w)\<lparr>mp_read := Suc (length u), mp_finish_user := True\<rparr>"
  have n: "Suc (length u) < n" "n < 250" using assms(5-7) by auto
  have c: "\<forall>c \<in> set u. IS_ALNUM c" "\<forall>c \<in> set v. IS_ALNUM c" "\<forall>c \<in> set pw. IS_ALNUM c" using assms(14) by auto
  then have z: "0 \<notin> set u" "0 \<notin> set pw" using IS_ALNUM_0 by blast+
  have g1: "length (combinedlen ?g1) = 2" by (simp add: htons_def)
  let ?g2 = "?g1\<lparr>combinedlen := htons (of_nat n'), username_len := Suc (length v)\<rparr>"
  let ?e = "(overwrite (5 + Suc (length u) - Suc (length v)) pw ?d)[5 + n := 0]"
  let ?q = "with_data ?e (data_parser tk t ?w)\<lparr>mp_read := n, mp_finish_user := False, mp_state := monitor_finish\<rparr>"
  have "monitor_feed_all ?g2 ?p pw = Inr (?g2, ?q)"
    using pass_loop [of ?p pw ?g2] assms(2,5-7,11) c(3) w by simp
  moreover have e: "?e = u @ replicate (5 - length v) 0 @ pw @ replicate (250 + length v - length u - length pw) 0"
    using shifted_data [OF assms(4,11), of pw] assms(6,7) by (simp add: add.assoc)
  moreover have "length u + length pw < 239" using assms(6,7) by simp
  from shifted_strings [OF assms(4,11) this z e] have "mem_string ?e = Inr u"
    "mem_string (drop 5 ?e) = Inr (if length u \<le> length v then drop (length v - length u) pw else [])" .
  ultimately show ?thesis
    using feed_new_user_name [OF assms(1,2,15,3) c(1) n] feed_new_user_name [OF assms(8,9) g1 assms(10) c(2) assms(12,13)]
    by (intro exI [of _ ?g1] exI [of _ ?p] exI [of _ ?g2]
        exI [of _ "with_data (v @ replicate (255 - length v) 0) (data_parser tk' t' (of_nat n'))
          \<lparr>mp_read := Suc (length v), mp_finish_user := True\<rparr>"] exI [of _ ?g2] exI [of _ ?q]) simp
qed

theorem interleaved_requests_corrupt_witness:
  "\<exists>g1 p g2 p' g3 q. monitor_feed_all monitor_globals_init fresh_parser (config_header (replicate 16 49) 4 (of_nat 7) @ str ''ab'' @ [0])
      = Inr (g1, p)
    \<and> monitor_feed_all g1 fresh_parser (config_header (replicate 16 50) 4 (of_nat 10) @ str ''wxyz'' @ [0]) = Inr (g2, p')
    \<and> monitor_feed_all g2 p (str ''pass'') = Inr (g3, q) \<and> mem_string (m_data (mp_monitor q)) = Inr (str ''ab'')
    \<and> mem_string (drop 5 (m_data (mp_monitor q))) = Inr (str ''ss'')"
  using interleaved_requests_corrupt [of "replicate 16 49" 4 "str ''ab''" "str ''pass''" 7 "replicate 16 50" 4 "str ''wxyz''" 10
      monitor_globals_init]
  by (simp add: IS_ALNUM_def monitor_globals_init_def del: monitor_feed_all.simps) blast

text \<open>
  A response that fits the buffer is appended to it as the status, the length and the data, numbers
  from their most significant byte; one that does not fit writes nothing and reports it.
\<close>

lemma response_is_framed:
  assumes "buffer_inv b" "length (response_bytes dlen data) \<le> unat dlen"
  shows "if unat dlen + 3 \<le> room b
    then \<exists>b'. monitor_response_handler b status dlen data = Inr (int (unat dlen) + 3, b') \<and> buffer_inv b'
      \<and> content b' = content b @ status # htons dlen @ response_bytes dlen data
    else monitor_response_handler b status dlen data = Inr (- 1, b)"
  using response_ok [OF assms(1) _ assms(2)] response_no_room [OF assms(1)] by simp

lemma response_is_framed_example:
  "\<exists>b'. monitor_response_handler (buffer_init 8 (replicate 8 0)) 0 4 (Number 258) = Inr (7, b') \<and> buffer_inv b'
    \<and> content b' = [0, 0, 4, 0, 0, 1, 2]"
proof -
  have "room (buffer_init 8 (replicate 8 0)) = 8" by (simp add: buffer_init_def room_def)
  with response_is_framed [of "buffer_init 8 (replicate 8 0)" 4 "Number 258" 0] show ?thesis
    by (simp add: response_bytes_def htonl_def htons_def)
qed

end
