(* ===== verification/Selector.thy ===== *)
theory Selector
  imports Prelude
begin

unbundle bit_operations_syntax

text \<open>
  The I/O multiplexer of \<^verbatim>\<open>src/server/selector.c\<close>: a table indexed by file descriptor, the two
  descriptor sets given to \<open>pselect\<close>, the largest descriptor in use, and the queue of finished
  blocking jobs. A handler is a value of type \<open>'h\<close> whose callbacks are looked up where they are
  called; the data pointer of an item is \<open>'d option\<close>; \<open>'w\<close> is the rest of the program's state, which
  the callbacks update. What \<open>pselect\<close> answers and whether an allocation succeeds are arguments.
\<close>

section \<open>Status codes, interests, items\<close>

datatype selector_status =
  SELECTOR_SUCCESS | SELECTOR_ENOMEM | SELECTOR_MAXFD | SELECTOR_IARGS | SELECTOR_FDINUSE | SELECTOR_IO

type_synonym fd_interest = u32

definition OP_NOOP :: fd_interest where "OP_NOOP = 0"
definition OP_READ :: fd_interest where "OP_READ = push_bit 0 1"
definition OP_WRITE :: fd_interest where "OP_WRITE = push_bit 2 1"

definition wants :: "fd_interest \<Rightarrow> fd_interest \<Rightarrow> bool" where
  "wants op i \<longleftrightarrow> op AND i \<noteq> 0"

lemma wants_simps [simp]:
  "wants OP_READ OP_READ" "wants OP_WRITE OP_WRITE" "\<not> wants OP_READ OP_WRITE" "\<not> wants OP_WRITE OP_READ"
  "\<not> wants op OP_NOOP" "\<not> wants OP_NOOP op"
  by (simp_all add: wants_def OP_READ_def OP_WRITE_def OP_NOOP_def)

definition FD_UNUSED :: int where "FD_UNUSED = - 1"
definition ITEMS_MAX_SIZE :: nat where "ITEMS_MAX_SIZE = 1024"

record ('h, 'd) item =
  it_fd :: int
  it_interest :: fd_interest
  it_handler :: "'h option"
  it_data :: "'d option"

record ('h, 'd) fdselector =
  s_fds :: "('h, 'd) item list option"
  s_fd_size :: nat
  s_max_fd :: int
  master_r :: "int set"
  master_w :: "int set"
  resolution_jobs :: "int list"

definition ITEM_USED :: "('h, 'd) item \<Rightarrow> bool" where
  "ITEM_USED i \<longleftrightarrow> FD_UNUSED \<noteq> it_fd i"

definition INVALID_FD :: "int \<Rightarrow> bool" where
  "INVALID_FD fd \<longleftrightarrow> fd < 0 \<or> fd \<ge> int ITEMS_MAX_SIZE"

text \<open>A cleared cell (\<open>memset\<close> to zero, then \<open>item_init\<close>).\<close>

definition item_unused :: "('h, 'd) item" where
  "item_unused = \<lparr>it_fd = FD_UNUSED, it_interest = OP_NOOP, it_handler = None, it_data = None\<rparr>"

text \<open>\<open>s->fds + fd\<close> read or written.\<close>

definition item_at :: "('h, 'd) fdselector \<Rightarrow> int \<Rightarrow> ('h, 'd) item res" where
  "item_at s fd = (case s_fds s of None \<Rightarrow> Inl NullDeref | Some fds \<Rightarrow>
     if 0 \<le> fd then load_at (nat fd) fds else Inl OutOfBounds)"

definition put_item :: "('h, 'd) fdselector \<Rightarrow> int \<Rightarrow> ('h, 'd) item \<Rightarrow> ('h, 'd) fdselector" where
  "put_item s fd it = s\<lparr>s_fds := map_option (\<lambda>fds. fds[nat fd := it]) (s_fds s)\<rparr>"

section \<open>Capacity\<close>

fun bit_length :: "nat \<Rightarrow> nat" where
  "bit_length tmp = (if tmp = 0 then 0 else Suc (bit_length (tmp div 2)))"

declare bit_length.simps [simp del]

definition next_capacity :: "nat \<Rightarrow> nat res" where
  "next_capacity n =
     (let tmp = 2 ^ bit_length n in
      rbind (rassert (tmp \<ge> n) Aborted) (\<lambda>_.
      Inr ((if tmp > ITEMS_MAX_SIZE then ITEMS_MAX_SIZE else tmp) + 1)))"

definition ensure_capacity ::
  "bool \<Rightarrow> ('h, 'd) fdselector \<Rightarrow> nat \<Rightarrow> (selector_status \<times> ('h, 'd) fdselector) res" where
  "ensure_capacity mem s n =
     (if n < s_fd_size s then Inr (SELECTOR_SUCCESS, s)
      else if n > ITEMS_MAX_SIZE then Inr (SELECTOR_MAXFD, s)
      else case s_fds s of
        None \<Rightarrow>
          rbind (next_capacity n) (\<lambda>new_size.
          if \<not> mem then Inr (SELECTOR_ENOMEM, s)
          else Inr (SELECTOR_SUCCESS, s\<lparr>s_fds := Some (replicate new_size item_unused), s_fd_size := new_size\<rparr>))
      | Some fds \<Rightarrow>
          rbind (next_capacity n) (\<lambda>new_size.
          if \<not> mem then Inr (SELECTOR_ENOMEM, s)
          else Inr (SELECTOR_SUCCESS,
            s\<lparr>s_fds := Some (take new_size fds @ replicate (new_size - length fds) item_unused),
              s_fd_size := new_size\<rparr>)))"

definition selector_new :: "bool \<Rightarrow> nat \<Rightarrow> ('h, 'd) fdselector option res" where
  "selector_new mem initial_elements =
     rbind (ensure_capacity mem
       \<lparr>s_fds = None, s_fd_size = 0, s_max_fd = 0, master_r = {}, master_w = {}, resolution_jobs = []\<rparr>
       initial_elements) (\<lambda>(st, s). Inr (if st \<noteq> SELECTOR_SUCCESS then None else Some s))"

section \<open>Registration\<close>

text \<open>The loop \<open>for (int i = 0; i <= max_fd; i++)\<close>, here over the cells from \<open>i\<close> on.\<close>

fun max_used :: "('h, 'd) item list \<Rightarrow> int \<Rightarrow> int" where
  "max_used [] m = m"
| "max_used (it # its) m = max_used its (if ITEM_USED it \<and> it_fd it > m then it_fd it else m)"

definition items_max_fd :: "('h, 'd) fdselector \<Rightarrow> int res" where
  "items_max_fd s = (case s_fds s of None \<Rightarrow> Inl NullDeref | Some fds \<Rightarrow>
     if s_max_fd s < int (length fds) then Inr (max_used (take (nat (s_max_fd s + 1)) fds) 0)
     else Inl OutOfBounds)"

definition items_update_fdset_for_fd :: "('h, 'd) fdselector \<Rightarrow> ('h, 'd) item \<Rightarrow> ('h, 'd) fdselector" where
  "items_update_fdset_for_fd s it =
     (let r = master_r s - {it_fd it}; w = master_w s - {it_fd it}
      in if ITEM_USED it then
           s\<lparr>master_r := (if wants (it_interest it) OP_READ then insert (it_fd it) r else r),
             master_w := (if wants (it_interest it) OP_WRITE then insert (it_fd it) w else w)\<rparr>
         else s\<lparr>master_r := r, master_w := w\<rparr>)"

definition selector_register ::
  "bool \<Rightarrow> ('h, 'd) fdselector \<Rightarrow> int \<Rightarrow> 'h option \<Rightarrow> fd_interest \<Rightarrow> 'd option
    \<Rightarrow> (selector_status \<times> ('h, 'd) fdselector) res" where
  "selector_register mem s fd handler interest data =
     (if INVALID_FD fd \<or> handler = None then Inr (SELECTOR_IARGS, s)
      else
        rbind (if fd > int (s_fd_size s) then ensure_capacity mem s (nat fd) else Inr (SELECTOR_SUCCESS, s))
          (\<lambda>(ret, s1).
        if ret \<noteq> SELECTOR_SUCCESS then Inr (ret, s1)
        else
          rbind (item_at s1 fd) (\<lambda>item.
          if ITEM_USED item then Inr (SELECTOR_FDINUSE, s1)
          else
            let it = \<lparr>it_fd = fd, it_interest = interest, it_handler = handler, it_data = data\<rparr>;
                s2 = put_item s1 fd it;
                s3 = (if fd > s_max_fd s2 then s2\<lparr>s_max_fd := fd\<rparr> else s2)
            in Inr (SELECTOR_SUCCESS, items_update_fdset_for_fd s3 it))))"

text \<open>\<open>close h\<close> is the \<open>handle_close\<close> member of the handler; it sees the descriptor and the data.\<close>

definition selector_unregister_fd ::
  "('h \<Rightarrow> (int \<Rightarrow> 'd option \<Rightarrow> 'w \<Rightarrow> 'w res) option) \<Rightarrow> ('h, 'd) fdselector \<Rightarrow> int \<Rightarrow> 'w
    \<Rightarrow> (selector_status \<times> ('h, 'd) fdselector \<times> 'w) res" where
  "selector_unregister_fd close s fd w =
     (if INVALID_FD fd then Inr (SELECTOR_IARGS, s, w)
      else
        rbind (item_at s fd) (\<lambda>item.
        if \<not> ITEM_USED item then Inr (SELECTOR_IARGS, s, w)
        else case it_handler item of
          None \<Rightarrow> Inl NullDeref
        | Some h \<Rightarrow>
            rbind (case close h of None \<Rightarrow> Inr w | Some f \<Rightarrow> f (it_fd item) (it_data item) w) (\<lambda>w'.
            let s1 = items_update_fdset_for_fd s (item\<lparr>it_interest := OP_NOOP\<rparr>);
                s2 = put_item s1 fd item_unused
            in rbind (items_max_fd s2) (\<lambda>m. Inr (SELECTOR_SUCCESS, s2\<lparr>s_max_fd := m\<rparr>, w')))))"

definition selector_set_interest ::
  "('h, 'd) fdselector \<Rightarrow> int \<Rightarrow> fd_interest \<Rightarrow> (selector_status \<times> ('h, 'd) fdselector) res" where
  "selector_set_interest s fd i =
     (if INVALID_FD fd then Inr (SELECTOR_IARGS, s)
      else
        rbind (item_at s fd) (\<lambda>item.
        if \<not> ITEM_USED item then Inr (SELECTOR_IARGS, s)
        else
          let it = item\<lparr>it_interest := i\<rparr>
          in Inr (SELECTOR_SUCCESS, items_update_fdset_for_fd (put_item s fd it) it)))"

definition selector_set_interest_key ::
  "('h, 'd) fdselector \<Rightarrow> int \<Rightarrow> fd_interest \<Rightarrow> (selector_status \<times> ('h, 'd) fdselector) res" where
  "selector_set_interest_key s fd i =
     (if INVALID_FD fd then Inr (SELECTOR_IARGS, s) else selector_set_interest s fd i)"

section \<open>One round of the event loop\<close>

record ('h, 'd, 'w) callbacks =
  handle_read :: "'h \<Rightarrow> (int \<Rightarrow> 'd option \<Rightarrow> ('h, 'd) fdselector \<Rightarrow> 'w \<Rightarrow> (('h, 'd) fdselector \<times> 'w) res) option"
  handle_write :: "'h \<Rightarrow> (int \<Rightarrow> 'd option \<Rightarrow> ('h, 'd) fdselector \<Rightarrow> 'w \<Rightarrow> (('h, 'd) fdselector \<times> 'w) res) option"
  handle_block :: "'h \<Rightarrow> (int \<Rightarrow> 'd option \<Rightarrow> ('h, 'd) fdselector \<Rightarrow> 'w \<Rightarrow> (('h, 'd) fdselector \<times> 'w) res) option"

text \<open>
  The body of the loop of \<^verbatim>\<open>handle_iteration\<close> for descriptor \<open>i\<close>. The item is a pointer into the
  table: a callback that makes the table grow moves it, and reading the item after that is a use of
  freed memory.
\<close>

definition iteration_step ::
  "('h, 'd, 'w) callbacks \<Rightarrow> int set \<Rightarrow> int set \<Rightarrow> int \<Rightarrow> ('h, 'd) fdselector \<times> 'w
    \<Rightarrow> (('h, 'd) fdselector \<times> 'w) res" where
  "iteration_step cb slave_r slave_w i = (\<lambda>(s, w).
     rbind (item_at s i) (\<lambda>item.
     if ITEM_USED item then
       rbind
         (if it_fd item \<in> slave_r \<and> wants (it_interest item) OP_READ then
            (case Option.bind (it_handler item) (handle_read cb) of
              None \<Rightarrow> Inl Aborted
            | Some f \<Rightarrow> f (it_fd item) (it_data item) s w)
          else Inr (s, w)) (\<lambda>(s1, w1).
       if i \<in> slave_w then
         (if s_fd_size s1 \<noteq> s_fd_size s then Inl UseAfterFree
          else
            rbind (item_at s1 i) (\<lambda>item1.
            if wants (it_interest item1) OP_WRITE then
              (case Option.bind (it_handler item1) (handle_write cb) of
                None \<Rightarrow> Inl Aborted
              | Some f \<Rightarrow> f (it_fd item) (it_data item) s1 w1)
            else Inr (s1, w1)))
       else Inr (s1, w1))
     else Inr (s, w)))"

fun iterate_from :: "(int \<Rightarrow> 'a \<Rightarrow> 'a res) \<Rightarrow> int list \<Rightarrow> 'a \<Rightarrow> 'a res" where
  "iterate_from f [] x = Inr x"
| "iterate_from f (i # is) x = rbind (f i x) (iterate_from f is)"

definition handle_iteration ::
  "('h, 'd, 'w) callbacks \<Rightarrow> int set \<Rightarrow> int set \<Rightarrow> ('h, 'd) fdselector \<times> 'w \<Rightarrow> (('h, 'd) fdselector \<times> 'w) res" where
  "handle_iteration cb slave_r slave_w x =
     iterate_from (iteration_step cb slave_r slave_w) [0..s_max_fd (fst x)] x"

fun notify_jobs :: "('h, 'd, 'w) callbacks \<Rightarrow> int list \<Rightarrow> ('h, 'd) fdselector \<times> 'w
    \<Rightarrow> (('h, 'd) fdselector \<times> 'w) res" where
  "notify_jobs cb [] x = Inr x"
| "notify_jobs cb (fd # jobs) (s, w) =
     rbind (item_at s fd) (\<lambda>item.
     rbind (if ITEM_USED item then
              (case Option.bind (it_handler item) (handle_block cb) of
                None \<Rightarrow> Inl NullDeref
              | Some f \<Rightarrow> f (it_fd item) (it_data item) s w)
            else Inr (s, w)) (notify_jobs cb jobs))"

definition handle_block_notifications ::
  "('h, 'd, 'w) callbacks \<Rightarrow> ('h, 'd) fdselector \<times> 'w \<Rightarrow> (('h, 'd) fdselector \<times> 'w) res" where
  "handle_block_notifications cb x =
     rbind (notify_jobs cb (resolution_jobs (fst x)) x) (\<lambda>(s, w). Inr (s\<lparr>resolution_jobs := []\<rparr>, w))"

definition selector_notify_block :: "('h, 'd) fdselector \<Rightarrow> int \<Rightarrow> ('h, 'd) fdselector" where
  "selector_notify_block s fd = s\<lparr>resolution_jobs := fd # resolution_jobs s\<rparr>"

text \<open>\<open>pselect\<close> reports ready descriptors, or fails: interrupted, bad descriptor, other.\<close>

datatype pselect_result = Ready "int set" "int set" | Interrupted | BadDescriptor | OtherError

definition selector_select ::
  "('h, 'd, 'w) callbacks \<Rightarrow> pselect_result \<Rightarrow> ('h, 'd) fdselector \<times> 'w
    \<Rightarrow> (selector_status \<times> ('h, 'd) fdselector \<times> 'w) res" where
  "selector_select cb r x =
     (case r of
       OtherError \<Rightarrow> Inr (SELECTOR_IO, x)
     | BadDescriptor \<Rightarrow> Inr (SELECTOR_IO, x)
     | Interrupted \<Rightarrow> rbind (handle_block_notifications cb x) (\<lambda>y. Inr (SELECTOR_SUCCESS, y))
     | Ready slave_r slave_w \<Rightarrow>
         rbind (handle_iteration cb slave_r slave_w x) (\<lambda>y.
         rbind (handle_block_notifications cb y) (\<lambda>z. Inr (SELECTOR_SUCCESS, z))))"

section \<open>Setting up and the end of a selector\<close>

text \<open>Whether the signal was blocked and its handler installed; the handler does nothing.\<close>

definition selector_init :: "bool \<Rightarrow> bool \<Rightarrow> selector_status" where
  "selector_init blocked handled = (if \<not> blocked then SELECTOR_IO else if \<not> handled then SELECTOR_IO else SELECTOR_SUCCESS)"

definition selector_close :: selector_status where
  "selector_close = SELECTOR_SUCCESS"

definition O_NONBLOCK :: u32 where "O_NONBLOCK = 2048"

text \<open>The flags \<open>fcntl(fd, F_GETFD)\<close> gave, if any, and whether \<open>F_SETFL\<close> worked; with the result, the flags set.\<close>

definition selector_fd_set_nio :: "u32 option \<Rightarrow> bool \<Rightarrow> int \<times> u32 option" where
  "selector_fd_set_nio getfd setfl =
     (case getfd of
       None \<Rightarrow> (- 1, None)
     | Some flags \<Rightarrow> if setfl then (0, Some (flags OR O_NONBLOCK)) else (- 1, None))"

text \<open>Every descriptor still in use is removed, which runs its close callback; then the memory is freed.\<close>

definition selector_destroy ::
  "('h \<Rightarrow> (int \<Rightarrow> 'd option \<Rightarrow> 'w \<Rightarrow> 'w res) option) \<Rightarrow> ('h, 'd) fdselector \<Rightarrow> 'w
    \<Rightarrow> (('h, 'd) fdselector \<times> 'w) res" where
  "selector_destroy close s w =
     (case s_fds s of
       None \<Rightarrow> Inr (s, w)
     | Some fds \<Rightarrow>
         rbind (iterate_from (\<lambda>i (s, w).
           rbind (item_at s i) (\<lambda>item.
           if ITEM_USED item then rbind (selector_unregister_fd close s i w) (\<lambda>(_, s, w). Inr (s, w)) else Inr (s, w)))
           [0..int (s_fd_size s) - 1] (s, w)) (\<lambda>(s, w).
         Inr (s\<lparr>s_fds := None, s_fd_size := 0, resolution_jobs := []\<rparr>, w)))"

definition selector_error :: "selector_status \<Rightarrow> string" where
  "selector_error status =
     (case status of
       SELECTOR_SUCCESS \<Rightarrow> ''Success''
     | SELECTOR_ENOMEM \<Rightarrow> ''Not enough memory''
     | SELECTOR_MAXFD \<Rightarrow> ''Can't handle any more file descriptors''
     | SELECTOR_IARGS \<Rightarrow> ''Illegal argument''
     | SELECTOR_IO \<Rightarrow> ''I/O error''
     | _ \<Rightarrow> ''something failed'')"

section \<open>Capacity is always enough\<close>

lemma lt_bit_length: "n < 2 ^ bit_length n"
proof (induction n rule: bit_length.induct)
  case (1 n)
  show ?case
  proof (cases "n = 0")
    case True
    then show ?thesis by (simp add: bit_length.simps)
  next
    case False
    with 1 have "n div 2 < 2 ^ bit_length (n div 2)" by simp
    moreover have "bit_length n = Suc (bit_length (n div 2))" using False by (simp add: bit_length.simps [of n])
    ultimately show ?thesis by simp
  qed
qed

lemma next_capacity_bounds:
  assumes "n \<le> ITEMS_MAX_SIZE"
  shows "\<exists>c. next_capacity n = Inr c \<and> n < c \<and> c \<le> Suc ITEMS_MAX_SIZE"
  using lt_bit_length [of n] assms by (auto simp: next_capacity_def Let_def)

section \<open>The table as a map, and the invariant\<close>

definition registered :: "('h, 'd) fdselector \<Rightarrow> int \<Rightarrow> ('h, 'd) item option" where
  "registered s fd = (case s_fds s of None \<Rightarrow> None | Some fds \<Rightarrow>
     if 0 \<le> fd \<and> nat fd < length fds \<and> ITEM_USED (fds ! nat fd) then Some (fds ! nat fd) else None)"

definition interested :: "fd_interest \<Rightarrow> ('h, 'd) fdselector \<Rightarrow> int set" where
  "interested op s = {fd. \<exists>it. registered s fd = Some it \<and> wants (it_interest it) op}"

text \<open>A cell not in use is a cleared one.\<close>

definition cleared :: "('h, 'd) item list \<Rightarrow> bool" where
  "cleared fds \<longleftrightarrow> (\<forall>it \<in> set fds. ITEM_USED it \<or> it = item_unused)"

definition table_ok :: "('h, 'd) fdselector \<Rightarrow> bool" where
  "table_ok s \<longleftrightarrow> (\<exists>fds. s_fds s = Some fds \<and> length fds = s_fd_size s \<and> cleared fds) \<and> s_fd_size s \<le> Suc ITEMS_MAX_SIZE
     \<and> 0 \<le> s_max_fd s \<and> s_max_fd s < int (s_fd_size s)"

definition items_ok :: "('h, 'd) fdselector \<Rightarrow> bool" where
  "items_ok s \<longleftrightarrow> (\<forall>fd it. registered s fd = Some it \<longrightarrow>
     it_fd it = fd \<and> \<not> INVALID_FD fd \<and> fd \<le> s_max_fd s \<and> it_handler it \<noteq> None)"

definition selector_inv :: "('h, 'd) fdselector \<Rightarrow> bool" where
  "selector_inv s \<longleftrightarrow> table_ok s \<and> items_ok s
     \<and> master_r s = interested OP_READ s \<and> master_w s = interested OP_WRITE s"

lemma cleared_simps [simp]:
  "cleared (replicate n item_unused)"
  "cleared (fds @ gds) \<longleftrightarrow> cleared fds \<and> cleared gds"
  "cleared fds \<Longrightarrow> cleared (take n fds)"
  by (auto simp: cleared_def dest: in_set_takeD)

lemma cleared_upd [intro]: "cleared fds \<Longrightarrow> ITEM_USED it \<or> it = item_unused \<Longrightarrow> cleared (fds[n := it])"
  using set_update_subset_insert [of fds n it] by (auto simp: cleared_def)

lemma ITEM_USED_simps [simp]:
  "\<not> ITEM_USED item_unused"
  "0 \<le> fd \<Longrightarrow> ITEM_USED \<lparr>it_fd = fd, it_interest = i, it_handler = h, it_data = d\<rparr>"
  "ITEM_USED (it\<lparr>it_interest := i\<rparr>) = ITEM_USED it"
  by (simp_all add: ITEM_USED_def item_unused_def FD_UNUSED_def)

lemma registered_cong [simp]:
  "registered (s\<lparr>s_max_fd := m\<rparr>) = registered s"
  "registered (s\<lparr>master_r := r\<rparr>) = registered s"
  "registered (s\<lparr>master_w := w\<rparr>) = registered s"
  "registered (s\<lparr>resolution_jobs := j\<rparr>) = registered s"
  by (auto simp: registered_def fun_eq_iff)

lemma update_fdset_sel [simp]:
  "s_fds (items_update_fdset_for_fd s it) = s_fds s"
  "s_fd_size (items_update_fdset_for_fd s it) = s_fd_size s"
  "s_max_fd (items_update_fdset_for_fd s it) = s_max_fd s"
  "registered (items_update_fdset_for_fd s it) = registered s"
  by (simp_all add: items_update_fdset_for_fd_def Let_def)

lemma put_item_sel [simp]:
  "s_fd_size (put_item s fd it) = s_fd_size s" "s_max_fd (put_item s fd it) = s_max_fd s"
  "master_r (put_item s fd it) = master_r s" "master_w (put_item s fd it) = master_w s"
  by (simp_all add: put_item_def)

lemma registered_put:
  assumes "table_ok s" "0 \<le> fd" "fd < int (s_fd_size s)"
  shows "registered (put_item s fd it) = (registered s)(fd := (if ITEM_USED it then Some it else None))"
  using assms by (auto simp: registered_def put_item_def table_ok_def fun_eq_iff nth_list_update nat_eq_iff2)

lemma item_at_registered:
  assumes "table_ok s" "0 \<le> fd" "fd < int (s_fd_size s)"
  shows "\<exists>it. item_at s fd = Inr it \<and> registered s fd = (if ITEM_USED it then Some it else None)"
  using assms by (auto simp: item_at_def registered_def table_ok_def nat_less_iff)

lemma item_at_outside: "table_ok s \<Longrightarrow> int (s_fd_size s) \<le> fd \<Longrightarrow> item_at s fd = Inl OutOfBounds"
  by (auto simp: item_at_def table_ok_def nat_less_iff)

lemma registered_range: "table_ok s \<Longrightarrow> registered s fd = Some it \<Longrightarrow> 0 \<le> fd \<and> fd < int (s_fd_size s) \<and> ITEM_USED it"
  by (auto simp: registered_def table_ok_def split: if_splits option.splits)

lemma item_at_some: "table_ok s \<Longrightarrow> registered s fd = Some it \<Longrightarrow> item_at s fd = Inr it"
  using registered_range [of s fd it] item_at_registered [of s fd] by (auto split: if_splits)

text \<open>Setting one descriptor's bits keeps the two sets the interests of the table.\<close>

lemma update_fdset_masters:
  assumes "ITEM_USED it" "registered s (it_fd it) = Some it"
    and "master_r s - {it_fd it} = interested OP_READ s - {it_fd it}"
    and "master_w s - {it_fd it} = interested OP_WRITE s - {it_fd it}"
  shows "master_r (items_update_fdset_for_fd s it) = interested OP_READ s"
    and "master_w (items_update_fdset_for_fd s it) = interested OP_WRITE s"
proof -
  have "it_fd it \<in> interested op s \<longleftrightarrow> wants (it_interest it) op" for op
    using assms(2) by (auto simp: interested_def)
  with assms show "master_r (items_update_fdset_for_fd s it) = interested OP_READ s"
    and "master_w (items_update_fdset_for_fd s it) = interested OP_WRITE s"
    by (auto simp: items_update_fdset_for_fd_def Let_def)
qed

lemma interested_update:
  "registered s' = (registered s)(fd := x) \<Longrightarrow> interested op s' - {fd} = interested op s - {fd}"
  by (auto simp: interested_def)

section \<open>Registration keeps the invariant\<close>

lemma ensure_capacity_ok:
  assumes "selector_inv s" "s_fd_size s \<le> n" "n < ITEMS_MAX_SIZE"
  shows "\<exists>s'. ensure_capacity True s n = Inr (SELECTOR_SUCCESS, s') \<and> table_ok s' \<and> registered s' = registered s
    \<and> n < s_fd_size s' \<and> s_max_fd s' = s_max_fd s \<and> master_r s' = master_r s \<and> master_w s' = master_w s"
proof -
  from next_capacity_bounds [of n] assms(3) obtain c where
    c: "next_capacity n = Inr c" "n < c" "c \<le> Suc ITEMS_MAX_SIZE" by auto
  from assms(1) obtain fds where fds: "s_fds s = Some fds" "length fds = s_fd_size s"
    by (auto simp: selector_inv_def table_ok_def)
  let ?fds = "take c fds @ replicate (c - length fds) item_unused"
  let ?s = "s\<lparr>s_fds := Some ?fds, s_fd_size := c\<rparr>"
  have "registered ?s = registered s"
    using fds c assms(2) by (auto simp: registered_def fun_eq_iff nth_append split: if_splits)
  then show ?thesis
    using assms c fds by (auto simp: ensure_capacity_def selector_inv_def table_ok_def)
qed

lemma selector_new_ok:
  "\<exists>s :: ('h, 'd) fdselector. selector_new True 500 = Inr (Some s) \<and> selector_inv s \<and> registered s = Map.empty"
proof -
  from next_capacity_bounds [of 500] obtain c where
    c: "next_capacity 500 = Inr c" "500 < c" "c \<le> Suc ITEMS_MAX_SIZE" by (auto simp: ITEMS_MAX_SIZE_def)
  let ?s = "\<lparr>s_fds = Some (replicate c item_unused), s_fd_size = c, s_max_fd = 0, master_r = {}, master_w = {},
    resolution_jobs = []\<rparr> :: ('h, 'd) fdselector"
  have r: "registered ?s fd = None" for fd by (auto simp: registered_def)
  then have "selector_inv ?s" using c(2,3)
    by (auto simp: selector_inv_def table_ok_def items_ok_def interested_def)
  moreover from r have "registered ?s = Map.empty" by (auto simp: fun_eq_iff)
  ultimately show ?thesis using c
    by (auto simp: selector_new_def ensure_capacity_def ITEMS_MAX_SIZE_def)
qed

lemma put_new_item:
  assumes inv: "table_ok s" "items_ok s" "master_r s = interested OP_READ s" "master_w s = interested OP_WRITE s"
    and fd: "\<not> INVALID_FD fd" "fd < int (s_fd_size s)" "h \<noteq> None"
    and it: "it = \<lparr>it_fd = fd, it_interest = i, it_handler = h, it_data = d\<rparr>"
    and m: "m = (if fd > s_max_fd s then fd else s_max_fd s)"
  shows "selector_inv (items_update_fdset_for_fd (put_item s fd it\<lparr>s_max_fd := m\<rparr>) it)"
    and "registered (items_update_fdset_for_fd (put_item s fd it\<lparr>s_max_fd := m\<rparr>) it) = (registered s)(fd \<mapsto> it)"
proof -
  from fd have ge: "0 \<le> fd" by (simp add: INVALID_FD_def)
  then have used: "ITEM_USED it" and itfd: "it_fd it = fd" and ith: "it_handler it = h" by (simp_all add: it)
  let ?s = "put_item s fd it\<lparr>s_max_fd := m\<rparr>"
  have r: "registered ?s = (registered s)(fd \<mapsto> it)"
    using registered_put [OF inv(1) ge fd(2), of it] used by simp
  have i1: "interested op ?s - {fd} = interested op s - {fd}" for op by (rule interested_update [OF r])
  have "registered ?s (it_fd it) = Some it" using r itfd by simp
  from update_fdset_masters [OF used this] i1 inv(3,4) itfd
  have masters: "master_r (items_update_fdset_for_fd ?s it) = interested OP_READ ?s"
    "master_w (items_update_fdset_for_fd ?s it) = interested OP_WRITE ?s" by simp_all
  have "table_ok ?s" using inv(1) ge fd(2) cleared_upd [of _ it] used by (auto simp: table_ok_def put_item_def m)
  moreover have "items_ok ?s"
    using inv(2) fd itfd ith unfolding items_ok_def r by (auto simp: m) (meson less_imp_le order.trans)
  ultimately show "selector_inv (items_update_fdset_for_fd ?s it)"
    using masters by (simp add: selector_inv_def table_ok_def items_ok_def interested_def)
  show "registered (items_update_fdset_for_fd ?s it) = (registered s)(fd \<mapsto> it)" using r by simp
qed

lemma selector_register_ok:
  assumes inv: "selector_inv s" and fd: "\<not> INVALID_FD fd" "fd \<noteq> int (s_fd_size s)"
    and free: "registered s fd = None"
  shows "\<exists>s'. selector_register True s fd (Some h) i d = Inr (SELECTOR_SUCCESS, s') \<and> selector_inv s'
    \<and> registered s' = (registered s)(fd \<mapsto> \<lparr>it_fd = fd, it_interest = i, it_handler = Some h, it_data = d\<rparr>)"
proof -
  from fd have ge: "0 \<le> fd" and lt: "nat fd < ITEMS_MAX_SIZE" by (auto simp: INVALID_FD_def)
  have "\<exists>s1. (if fd > int (s_fd_size s) then ensure_capacity True s (nat fd) else Inr (SELECTOR_SUCCESS, s))
      = Inr (SELECTOR_SUCCESS, s1) \<and> table_ok s1 \<and> registered s1 = registered s \<and> fd < int (s_fd_size s1)
      \<and> s_max_fd s1 = s_max_fd s \<and> master_r s1 = master_r s \<and> master_w s1 = master_w s"
  proof (cases "fd > int (s_fd_size s)")
    case True
    then have "s_fd_size s \<le> nat fd" by simp
    from ensure_capacity_ok [OF inv this lt] True ge show ?thesis by (auto simp: nat_less_iff)
  next
    case False
    with fd inv show ?thesis by (auto simp: selector_inv_def)
  qed
  then obtain s1 where s1: "(if fd > int (s_fd_size s) then ensure_capacity True s (nat fd) else Inr (SELECTOR_SUCCESS, s))
      = Inr (SELECTOR_SUCCESS, s1)" "table_ok s1" "registered s1 = registered s" "fd < int (s_fd_size s1)"
      "s_max_fd s1 = s_max_fd s" "master_r s1 = master_r s" "master_w s1 = master_w s" by blast
  from item_at_registered [OF s1(2) ge s1(4)] free s1(3) obtain it where
    it: "item_at s1 fd = Inr it" "\<not> ITEM_USED it" by (auto split: if_splits)
  have i1: "interested op s1 = interested op s" for op by (simp add: interested_def s1(3))
  have io: "items_ok s1" using inv s1 by (simp add: selector_inv_def items_ok_def)
  let ?it = "\<lparr>it_fd = fd, it_interest = i, it_handler = Some h, it_data = d\<rparr>"
  let ?m = "if fd > s_max_fd s1 then fd else s_max_fd s1"
  note new = put_new_item [OF s1(2) io _ _ fd(1) s1(4), of "Some h" ?it i d ?m]
  have eq: "(if fd > s_max_fd (put_item s1 fd ?it) then put_item s1 fd ?it\<lparr>s_max_fd := fd\<rparr> else put_item s1 fd ?it)
      = put_item s1 fd ?it\<lparr>s_max_fd := ?m\<rparr>" by simp
  from new inv s1 i1 it fd(1) show ?thesis
    by (simp add: selector_register_def Let_def eq selector_inv_def del: put_item_sel)
qed

text \<open>The descriptor one past the table is not made room for: the cell read is out of bounds.\<close>

lemma selector_register_edge:
  assumes "selector_inv s" "\<not> INVALID_FD (int (s_fd_size s))"
  shows "selector_register mem s (int (s_fd_size s)) (Some h) i d = Inl OutOfBounds"
  using assms item_at_outside [of s "int (s_fd_size s)"]
  by (simp add: selector_register_def selector_inv_def)

lemma selector_register_twice:
  assumes "selector_inv s" "registered s fd = Some it"
  shows "selector_register mem s fd (Some h) i d = Inr (SELECTOR_FDINUSE, s)"
proof -
  from assms have t: "table_ok s" and fd: "\<not> INVALID_FD fd" by (auto simp: selector_inv_def items_ok_def)
  from registered_range [OF t assms(2)] item_at_some [OF t assms(2)] fd show ?thesis
    by (simp add: selector_register_def)
qed

section \<open>Interests and removal\<close>

lemma set_interest_ok:
  assumes inv: "selector_inv s" and reg: "registered s fd = Some it"
  shows "\<exists>s'. selector_set_interest_key s fd i = Inr (SELECTOR_SUCCESS, s') \<and> selector_inv s'
    \<and> registered s' = (registered s)(fd \<mapsto> it\<lparr>it_interest := i\<rparr>) \<and> s_fd_size s' = s_fd_size s"
proof -
  from inv have t: "table_ok s" and io: "items_ok s" by (auto simp: selector_inv_def)
  from io reg have fd: "\<not> INVALID_FD fd" "it_fd it = fd" "it_handler it \<noteq> None" "fd \<le> s_max_fd s"
    by (auto simp: items_ok_def)
  from registered_range [OF t reg] have r: "0 \<le> fd" "fd < int (s_fd_size s)" "ITEM_USED it" by auto
  let ?it = "it\<lparr>it_interest := i\<rparr>"
  have it: "?it = \<lparr>it_fd = fd, it_interest = i, it_handler = it_handler it, it_data = it_data it\<rparr>"
    using fd(2) by (cases it) simp
  have m: "s_max_fd s = (if fd > s_max_fd s then fd else s_max_fd s)" using fd(4) by simp
  have same: "put_item s fd ?it\<lparr>s_max_fd := s_max_fd s\<rparr> = put_item s fd ?it" by (simp add: put_item_def)
  from put_new_item [OF t io _ _ fd(1) r(2) fd(3) it m] inv item_at_some [OF t reg] fd(1) r(3)
  show ?thesis
    by (simp add: selector_set_interest_key_def selector_set_interest_def selector_inv_def Let_def same)
qed

lemma set_interest_unregistered:
  assumes "selector_inv s" "registered s fd = None" "fd < int (s_fd_size s)"
  shows "selector_set_interest_key s fd i = Inr (SELECTOR_IARGS, s)"
proof (cases "INVALID_FD fd")
  case True
  then show ?thesis by (simp add: selector_set_interest_key_def)
next
  case False
  then have "0 \<le> fd" by (simp add: INVALID_FD_def)
  with assms item_at_registered [of s fd] False show ?thesis
    by (auto simp: selector_set_interest_key_def selector_set_interest_def selector_inv_def split: if_splits)
qed

lemma max_used_ge: "m \<le> max_used its m"
proof (induction its arbitrary: m)
  case Nil
  then show ?case by simp
next
  case (Cons x its)
  have "m \<le> (if ITEM_USED x \<and> it_fd x > m then it_fd x else m)" by simp
  also have "\<dots> \<le> max_used its \<dots>" by (rule Cons.IH)
  finally show ?case by simp
qed

lemma max_used_upper: "it \<in> set its \<Longrightarrow> ITEM_USED it \<Longrightarrow> it_fd it \<le> max_used its m"
proof (induction its arbitrary: m)
  case Nil
  then show ?case by simp
next
  case (Cons x its)
  let ?m = "if ITEM_USED x \<and> it_fd x > m then it_fd x else m"
  show ?case
  proof (cases "it = x")
    case True
    with Cons.prems(2) have "it_fd it \<le> ?m" by simp
    also have "\<dots> \<le> max_used its ?m" by (rule max_used_ge)
    finally show ?thesis by simp
  next
    case False
    with Cons.prems have "it \<in> set its" by simp
    from Cons.IH [OF this Cons.prems(2), of ?m] show ?thesis by simp
  qed
qed

lemma max_used_bound: "m \<le> b \<Longrightarrow> (\<And>it. it \<in> set its \<Longrightarrow> ITEM_USED it \<Longrightarrow> it_fd it \<le> b) \<Longrightarrow> max_used its m \<le> b"
  by (induction its arbitrary: m) auto

text \<open>After a removal the maximum is recomputed: it still bounds every registered descriptor.\<close>

lemma items_max_fd_ok:
  assumes "table_ok s" "items_ok s"
  shows "\<exists>m. items_max_fd s = Inr m \<and> table_ok (s\<lparr>s_max_fd := m\<rparr>) \<and> items_ok (s\<lparr>s_max_fd := m\<rparr>)"
proof -
  from assms(1) obtain fds where fds: "s_fds s = Some fds" "length fds = s_fd_size s"
    "0 \<le> s_max_fd s" "s_max_fd s < int (length fds)" by (auto simp: table_ok_def)
  let ?its = "take (nat (s_max_fd s + 1)) fds"
  let ?m = "max_used ?its 0"
  have reg: "registered s (int j) = Some (fds ! j)" if "j < length fds" "ITEM_USED (fds ! j)" for j
    using fds that by (simp add: registered_def)
  have "it_fd it \<le> s_max_fd s" if "it \<in> set ?its" "ITEM_USED it" for it
  proof -
    from that obtain j where j: "j < length fds" "it = fds ! j" by (auto simp: in_set_conv_nth)
    with reg that assms(2) have "it_fd (fds ! j) = int j" "int j \<le> s_max_fd s" by (auto simp: items_ok_def)
    with j show ?thesis by simp
  qed
  then have le: "?m \<le> s_max_fd s" using fds(3) by (intro max_used_bound)
  have "fd \<le> ?m" if r: "registered s fd = Some it" for fd it
  proof -
    from assms(2) r have it: "it_fd it = fd" "fd \<le> s_max_fd s" by (auto simp: items_ok_def)
    from registered_range [OF assms(1) r] fds have used: "ITEM_USED it" "0 \<le> fd" "nat fd < length fds" by auto
    with r fds have "fds ! nat fd = it" by (simp add: registered_def split: if_splits)
    moreover have "nat fd < nat (s_max_fd s + 1)" using it(2) used(2) by simp
    ultimately have "it \<in> set ?its" using used(3) by (force simp: in_set_conv_nth)
    from max_used_upper [OF this used(1)] it(1) show ?thesis by simp
  qed
  with assms have "items_ok (s\<lparr>s_max_fd := ?m\<rparr>)" by (auto simp: items_ok_def)
  moreover have "table_ok (s\<lparr>s_max_fd := ?m\<rparr>)"
    using assms(1) le max_used_ge [of 0 ?its] by (auto simp: table_ok_def)
  ultimately show ?thesis using fds by (auto simp: items_max_fd_def)
qed

lemma unregister_ok:
  assumes inv: "selector_inv s" and reg: "registered s fd = Some it"
    and close: "(case close (the (it_handler it)) of None \<Rightarrow> Inr w | Some f \<Rightarrow> f fd (it_data it) w) = Inr w'"
  shows "\<exists>s'. selector_unregister_fd close s fd w = Inr (SELECTOR_SUCCESS, s', w') \<and> selector_inv s'
    \<and> registered s' = (registered s)(fd := None) \<and> s_fd_size s' = s_fd_size s"
proof -
  from inv have t: "table_ok s" and io: "items_ok s"
    and ms: "master_r s = interested OP_READ s" "master_w s = interested OP_WRITE s" by (auto simp: selector_inv_def)
  from io reg obtain h where fd: "\<not> INVALID_FD fd" "it_fd it = fd" "it_handler it = Some h" by (auto simp: items_ok_def)
  from registered_range [OF t reg] have r: "0 \<le> fd" "fd < int (s_fd_size s)" "ITEM_USED it" by auto
  let ?s1 = "items_update_fdset_for_fd s (it\<lparr>it_interest := OP_NOOP\<rparr>)"
  let ?s2 = "put_item ?s1 fd item_unused"
  have t1: "table_ok ?s1" using t by (simp add: table_ok_def)
  have r2: "registered ?s2 = (registered s)(fd := None)"
    using registered_put [OF t1 r(1), of item_unused] r(2) by simp
  have t2: "table_ok ?s2" using t by (auto simp: table_ok_def put_item_def)
  have i2: "items_ok ?s2" using io by (auto simp: items_ok_def r2)
  have "interested op ?s2 = interested op s - {fd}" for op unfolding interested_def r2 by auto
  moreover have "master_r ?s1 = master_r s - {fd}" "master_w ?s1 = master_w s - {fd}"
    using r(3) fd(2) by (simp_all add: items_update_fdset_for_fd_def Let_def)
  ultimately have m2: "master_r ?s2 = interested OP_READ ?s2" "master_w ?s2 = interested OP_WRITE ?s2"
    using ms by simp_all
  from items_max_fd_ok [OF t2 i2] obtain m where
    m: "items_max_fd ?s2 = Inr m" "table_ok (?s2\<lparr>s_max_fd := m\<rparr>)" "items_ok (?s2\<lparr>s_max_fd := m\<rparr>)" by blast
  have "selector_inv (?s2\<lparr>s_max_fd := m\<rparr>)"
    using m m2 by (simp add: selector_inv_def interested_def)
  then show ?thesis
    using m(1) item_at_some [OF t reg] fd r(3) close r2
    by (auto simp: selector_unregister_fd_def Let_def)
qed

lemma unregister_unregistered:
  assumes "selector_inv s" "registered s fd = None" "fd < int (s_fd_size s)"
  shows "selector_unregister_fd close s fd w = Inr (SELECTOR_IARGS, s, w)"
proof (cases "INVALID_FD fd")
  case True
  then show ?thesis by (simp add: selector_unregister_fd_def)
next
  case False
  then have "0 \<le> fd" by (simp add: INVALID_FD_def)
  with assms item_at_registered [of s fd] False show ?thesis
    by (auto simp: selector_unregister_fd_def selector_inv_def split: if_splits)
qed

text \<open>Whatever the outcome, registering, removing and changing an interest leave a well-formed selector.\<close>

lemma register_inv:
  assumes "selector_register mem s fd h i d = Inr (st, s')" "selector_inv s"
  shows "selector_inv s'"
proof (cases "INVALID_FD fd \<or> h = None")
  case True
  with assms show ?thesis by (simp add: selector_register_def)
next
  case False
  then obtain hd where h: "h = Some hd" by auto
  let ?grow = "if fd > int (s_fd_size s) then ensure_capacity mem s (nat fd) else Inr (SELECTOR_SUCCESS, s)"
  show ?thesis
  proof (cases "mem \<or> fd \<le> int (s_fd_size s)")
    case True
    then have mem: "selector_register mem s fd h i d = selector_register True s fd h i d"
      by (auto simp: selector_register_def)
    have edge: "fd \<noteq> int (s_fd_size s)"
      using assms False h selector_register_edge [of s mem hd i d] by auto
    show ?thesis
    proof (cases "registered s fd")
      case None
      from False edge have "\<not> INVALID_FD fd" by simp
      from selector_register_ok [OF assms(2) this edge None, of hd i d] assms(1) show ?thesis by (auto simp: mem [unfolded h] h)
    next
      case (Some it)
      from selector_register_twice [OF assms(2) Some] assms show ?thesis by (auto simp: h)
    qed
  next
    case nomem: False
    then have big: "\<not> nat fd < s_fd_size s" "fd > int (s_fd_size s)" by auto
    from False have "nat fd \<le> ITEMS_MAX_SIZE" by (auto simp: INVALID_FD_def)
    with next_capacity_bounds [of "nat fd"] big nomem have "ensure_capacity mem s (nat fd) = Inr (SELECTOR_ENOMEM, s)"
      by (auto simp: ensure_capacity_def split: option.splits)
    with big False h assms show ?thesis by (simp add: selector_register_def)
  qed
qed

lemma unregister_inv:
  assumes "selector_unregister_fd close s fd w = Inr (st, s', w')" "selector_inv s"
  shows "selector_inv s'"
proof (cases "registered s fd")
  case None
  have "fd < int (s_fd_size s) \<or> INVALID_FD fd"
    using assms item_at_outside [of s fd] by (force simp: selector_unregister_fd_def selector_inv_def split: if_splits)
  with unregister_unregistered [where close = close and w = w, OF assms(2) None] assms show ?thesis
    by (auto simp: selector_unregister_fd_def)
next
  case (Some it)
  from assms(2) have t: "table_ok s" and io: "items_ok s" by (auto simp: selector_inv_def)
  from io Some obtain h where it: "\<not> INVALID_FD fd" "it_fd it = fd" "it_handler it = Some h" by (auto simp: items_ok_def)
  from registered_range [OF t Some] have "ITEM_USED it" by simp
  with assms(1) item_at_some [OF t Some] it obtain w1 where
    "(case close h of None \<Rightarrow> Inr w | Some f \<Rightarrow> f fd (it_data it) w) = Inr w1"
    by (auto simp: selector_unregister_fd_def rbind_eq_Inr)
  with unregister_ok [where close = close and w = w and w' = w1, OF assms(2) Some] it(3) assms(1) show ?thesis by auto
qed

lemma set_interest_inv:
  assumes "selector_set_interest_key s fd i = Inr (st, s')" "selector_inv s"
  shows "selector_inv s'"
proof (cases "registered s fd")
  case None
  have "fd < int (s_fd_size s) \<or> INVALID_FD fd"
    using assms item_at_outside [of s fd]
    by (force simp: selector_set_interest_key_def selector_set_interest_def selector_inv_def split: if_splits)
  with set_interest_unregistered [OF assms(2) None, of i] assms show ?thesis
    by (auto simp: selector_set_interest_key_def)
next
  case (Some it)
  from set_interest_ok [OF assms(2) Some, of i] assms(1) show ?thesis by auto
qed

text \<open>A change of interest, successful or not, changes no descriptor's handler or data.\<close>

definition owner :: "('h, 'd) fdselector \<Rightarrow> int \<Rightarrow> ('h option \<times> 'd option) option" where
  "owner s fd = map_option (\<lambda>it. (it_handler it, it_data it)) (registered s fd)"

definition same_owners :: "('h, 'd) fdselector \<Rightarrow> ('h, 'd) fdselector \<Rightarrow> bool" where
  "same_owners s s' \<longleftrightarrow> (selector_inv s \<longrightarrow> selector_inv s' \<and> owner s' = owner s)"

lemma same_owners_refl [simp]: "same_owners s s"
  by (simp add: same_owners_def)

lemma same_owners_trans [trans]: "same_owners s s1 \<Longrightarrow> same_owners s1 s2 \<Longrightarrow> same_owners s s2"
  by (simp add: same_owners_def)

lemma set_interest_owners:
  assumes "selector_set_interest_key s fd i = Inr (st, s')"
  shows "same_owners s s'"
proof (cases "selector_inv s")
  case True
  have "owner s' = owner s"
  proof (cases "registered s fd")
    case None
    have "fd < int (s_fd_size s) \<or> INVALID_FD fd"
      using assms True item_at_outside [of s fd]
      by (force simp: selector_set_interest_key_def selector_set_interest_def selector_inv_def split: if_splits)
    with set_interest_unregistered [OF True None, of i] assms show ?thesis
      by (auto simp: selector_set_interest_key_def)
  next
    case (Some it)
    from set_interest_ok [OF True Some, of i] assms Some show ?thesis by (auto simp: owner_def fun_eq_iff)
  qed
  with set_interest_inv [OF assms True] show ?thesis by (simp add: same_owners_def)
qed (simp add: same_owners_def)

text \<open>Who owns a descriptor after registering one and after removing one.\<close>

lemma register_owner:
  assumes "selector_register mem s fd (Some h) i d = Inr (st, s')" "selector_inv s"
  shows "owner s' = owner s \<and> st \<noteq> SELECTOR_SUCCESS
    \<or> owner s fd = None \<and> owner s' = (owner s)(fd \<mapsto> (Some h, d)) \<and> st = SELECTOR_SUCCESS"
proof (cases "INVALID_FD fd")
  case True
  with assms(1) show ?thesis by (simp add: selector_register_def)
next
  case valid: False
  show ?thesis
  proof (cases "registered s fd")
    case (Some it)
    from selector_register_twice [OF assms(2) this] assms(1) show ?thesis by auto
  next
    case None
    show ?thesis
    proof (cases "mem \<or> fd \<le> int (s_fd_size s)")
      case True
      then have mem: "selector_register mem s fd (Some h) i d = selector_register True s fd (Some h) i d"
        by (auto simp: selector_register_def)
      have "fd \<noteq> int (s_fd_size s)" using assms valid selector_register_edge [of s mem h i d] by auto
      from selector_register_ok [OF assms(2) valid this None, of h i d] assms(1) None mem show ?thesis
        by (auto simp: owner_def fun_eq_iff)
    next
      case False
      then have big: "\<not> nat fd < s_fd_size s" "fd > int (s_fd_size s)" by auto
      from valid have "nat fd \<le> ITEMS_MAX_SIZE" by (auto simp: INVALID_FD_def)
      with next_capacity_bounds [of "nat fd"] big False have "ensure_capacity mem s (nat fd) = Inr (SELECTOR_ENOMEM, s)"
        by (auto simp: ensure_capacity_def split: option.splits)
      with big valid assms show ?thesis by (simp add: selector_register_def)
    qed
  qed
qed

lemma unregister_owner:
  assumes "selector_unregister_fd close s fd w = Inr (st, s', w')" "selector_inv s"
  shows "owner s fd = None \<and> s' = s \<and> w' = w
    \<or> (\<exists>h d. owner s fd = Some (Some h, d) \<and> (case close h of None \<Rightarrow> Inr w | Some f \<Rightarrow> f fd d w) = Inr w'
      \<and> owner s' = (owner s)(fd := None) \<and> st = SELECTOR_SUCCESS)"
proof (cases "registered s fd")
  case None
  have "fd < int (s_fd_size s) \<or> INVALID_FD fd"
    using assms item_at_outside [of s fd] by (force simp: selector_unregister_fd_def selector_inv_def split: if_splits)
  with unregister_unregistered [where close = close and w = w, OF assms(2) None] assms None show ?thesis
    by (auto simp: selector_unregister_fd_def owner_def)
next
  case (Some it)
  from assms(2) have t: "table_ok s" and io: "items_ok s" by (auto simp: selector_inv_def)
  from io Some obtain h where it: "\<not> INVALID_FD fd" "it_fd it = fd" "it_handler it = Some h" by (auto simp: items_ok_def)
  from registered_range [OF t Some] have "ITEM_USED it" by simp
  with assms(1) item_at_some [OF t Some] it obtain w1 where
    "(case close h of None \<Rightarrow> Inr w | Some f \<Rightarrow> f fd (it_data it) w) = Inr w1"
    by (auto simp: selector_unregister_fd_def rbind_eq_Inr)
  with unregister_ok [where close = close and w = w and w' = w1, OF assms(2) Some] it(3) assms(1) Some show ?thesis
    by (auto simp: owner_def fun_eq_iff)
qed

lemma cell_at:
  assumes "selector_inv s" "item_at s i = Inr it"
  shows "if ITEM_USED it then it_fd it = i \<and> owner s i = Some (it_handler it, it_data it) else it = item_unused \<and> owner s i = None"
proof -
  from assms(1) have t: "table_ok s" and io: "items_ok s" by (auto simp: selector_inv_def)
  from assms(2) item_at_outside [OF t, of i] have i: "0 \<le> i" "i < int (s_fd_size s)"
    by (force simp: item_at_def split: if_splits option.splits)+
  from t assms(2) obtain fds where "s_fds s = Some fds" "cleared fds" "it \<in> set fds"
    by (fastforce simp: item_at_def table_ok_def load_at_def split: if_splits)
  with item_at_registered [OF t i] assms(2) io show ?thesis
    by (auto simp: owner_def items_ok_def cleared_def)
qed

section \<open>What a round keeps\<close>

text \<open>
  If every callback keeps a property of the selector and the world, so does a round. \<open>may s fd h d\<close> says
  that the handler \<open>h\<close> may be called for \<open>fd\<close> with the data \<open>d\<close>: the callbacks need only keep the property
  when it holds, and it holds of what a round calls, also of the write callback after the read callback.
\<close>

locale guarded_loop =
  fixes cb :: "('h, 'd, 'w) callbacks" and good :: "('h, 'd) fdselector \<Rightarrow> 'w \<Rightarrow> bool"
    and may :: "('h, 'd) fdselector \<Rightarrow> int \<Rightarrow> 'h \<Rightarrow> 'd option \<Rightarrow> bool"
  assumes item_may: "good s w \<Longrightarrow> item_at s i = Inr it \<Longrightarrow> ITEM_USED it \<Longrightarrow> it_handler it = Some h \<Longrightarrow>
      may s (it_fd it) h (it_data it)"
    and later_may: "good s w \<Longrightarrow> item_at s i = Inr it \<Longrightarrow> ITEM_USED it \<Longrightarrow> it_handler it = Some h \<Longrightarrow>
      handle_read cb h = Some f \<Longrightarrow> f (it_fd it) (it_data it) s w = Inr (s', w') \<Longrightarrow> item_at s' i = Inr it' \<Longrightarrow>
      wants (it_interest it') OP_WRITE \<Longrightarrow> it_handler it' = Some h' \<Longrightarrow> may s' (it_fd it) h' (it_data it)"
    and read_good: "handle_read cb h = Some f \<Longrightarrow> f fd d s w = Inr (s', w') \<Longrightarrow> good s w \<Longrightarrow> may s fd h d \<Longrightarrow> good s' w'"
    and write_good: "handle_write cb h = Some f \<Longrightarrow> f fd d s w = Inr (s', w') \<Longrightarrow> good s w \<Longrightarrow> may s fd h d \<Longrightarrow> good s' w'"
    and block_good: "handle_block cb h = Some f \<Longrightarrow> f fd d s w = Inr (s', w') \<Longrightarrow> good s w \<Longrightarrow> may s fd h d \<Longrightarrow> good s' w'"
    and jobs_good: "good s w \<Longrightarrow> good (s\<lparr>resolution_jobs := []\<rparr>) w"
begin

lemma step_good:
  assumes "iteration_step cb R W i (s, w) = Inr (s', w')" "good s w"
  shows "good s' w'"
proof -
  from assms(1) obtain it where it: "item_at s i = Inr it" by (auto simp: iteration_step_def rbind_eq_Inr)
  show ?thesis
  proof (cases "ITEM_USED it")
    case False
    with assms it show ?thesis by (simp add: iteration_step_def)
  next
    case True
    let ?r = "if it_fd it \<in> R \<and> wants (it_interest it) OP_READ then
        (case Option.bind (it_handler it) (handle_read cb) of None \<Rightarrow> Inl Aborted | Some f \<Rightarrow> f (it_fd it) (it_data it) s w)
      else Inr (s, w)"
    from assms(1) it True obtain s1 w1 where r: "?r = Inr (s1, w1)"
      by (auto simp: iteration_step_def rbind_eq_Inr)
    have first: "good s1 w1 \<and> (\<forall>it' h'. item_at s1 i = Inr it' \<longrightarrow> wants (it_interest it') OP_WRITE \<longrightarrow>
        it_handler it' = Some h' \<longrightarrow> may s1 (it_fd it) h' (it_data it))"
    proof (cases "it_fd it \<in> R \<and> wants (it_interest it) OP_READ")
      case False
      with r have "s1 = s" "w1 = w" by auto
      with assms(2) it True item_may show ?thesis by auto
    next
      case True
      with r obtain h f where f: "it_handler it = Some h" "handle_read cb h = Some f"
        "f (it_fd it) (it_data it) s w = Inr (s1, w1)" by (auto split: option.splits bind_splits)
      from item_may [OF assms(2) it \<open>ITEM_USED it\<close> f(1)] read_good [OF f(2,3) assms(2)]
        later_may [OF assms(2) it \<open>ITEM_USED it\<close> f] show ?thesis by blast
    qed
    from assms(1) it True r have "(if i \<in> W then
         (if s_fd_size s1 \<noteq> s_fd_size s then Inl UseAfterFree
          else
            rbind (item_at s1 i) (\<lambda>item1.
            if wants (it_interest item1) OP_WRITE then
              (case Option.bind (it_handler item1) (handle_write cb) of
                None \<Rightarrow> Inl Aborted
              | Some f \<Rightarrow> f (it_fd it) (it_data it) s1 w1)
            else Inr (s1, w1)))
       else Inr (s1, w1)) = Inr (s', w')"
      by (simp add: iteration_step_def)
    with first show ?thesis
      by (auto simp: rbind_eq_Inr split: if_splits option.splits bind_splits intro: write_good)
  qed
qed

lemma iterate_good:
  "iterate_from (iteration_step cb R W) is (s, w) = Inr (s', w') \<Longrightarrow> good s w \<Longrightarrow> good s' w'"
proof (induction "is" arbitrary: s w)
  case Nil
  then show ?case by simp
next
  case (Cons i "is")
  from Cons.prems(1) obtain s1 w1 where
    "iteration_step cb R W i (s, w) = Inr (s1, w1)" "iterate_from (iteration_step cb R W) is (s1, w1) = Inr (s', w')"
    by (auto simp: rbind_eq_Inr)
  with step_good Cons.prems(2) Cons.IH show ?case by blast
qed

lemma notify_good: "notify_jobs cb jobs (s, w) = Inr (s', w') \<Longrightarrow> good s w \<Longrightarrow> good s' w'"
proof (induction jobs arbitrary: s w)
  case Nil
  then show ?case by simp
next
  case (Cons fd jobs)
  from Cons.prems(1) obtain it s1 w1 where
    j: "item_at s fd = Inr it" "(if ITEM_USED it then
           (case Option.bind (it_handler it) (handle_block cb) of None \<Rightarrow> Inl NullDeref
            | Some f \<Rightarrow> f (it_fd it) (it_data it) s w)
         else Inr (s, w)) = Inr (s1, w1)" "notify_jobs cb jobs (s1, w1) = Inr (s', w')"
    by (auto simp: rbind_eq_Inr)
  from j(1,2) Cons.prems(2) item_may [OF Cons.prems(2) j(1)] have "good s1 w1"
    by (auto split: if_splits option.splits bind_splits intro: block_good)
  with j(3) Cons.IH show ?case by blast
qed

lemma notifications_good:
  "handle_block_notifications cb (s, w) = Inr (s', w') \<Longrightarrow> good s w \<Longrightarrow> good s' w'"
  using notify_good jobs_good by (fastforce simp: handle_block_notifications_def rbind_eq_Inr)

lemma select_good:
  assumes "selector_select cb r (s, w) = Inr (st, s', w')" "good s w"
  shows "good s' w'"
proof (cases r)
  case (Ready R W)
  with assms(1) obtain s1 w1 where "iterate_from (iteration_step cb R W) [0..s_max_fd s] (s, w) = Inr (s1, w1)"
    "handle_block_notifications cb (s1, w1) = Inr (s', w')"
    by (auto simp: selector_select_def handle_iteration_def rbind_eq_Inr)
  with iterate_good notifications_good assms(2) show ?thesis by blast
qed (use assms in \<open>auto simp: selector_select_def rbind_eq_Inr intro: notifications_good\<close>)

end

text \<open>Callbacks that keep the property whatever they are called for.\<close>

locale event_loop =
  fixes cb :: "('h, 'd, 'w) callbacks" and good :: "('h, 'd) fdselector \<Rightarrow> 'w \<Rightarrow> bool"
  assumes read_keeps: "handle_read cb h = Some f \<Longrightarrow> f fd d s w = Inr (s', w') \<Longrightarrow> good s w \<Longrightarrow> good s' w'"
    and write_keeps: "handle_write cb h = Some f \<Longrightarrow> f fd d s w = Inr (s', w') \<Longrightarrow> good s w \<Longrightarrow> good s' w'"
    and block_keeps: "handle_block cb h = Some f \<Longrightarrow> f fd d s w = Inr (s', w') \<Longrightarrow> good s w \<Longrightarrow> good s' w'"
    and jobs_keep: "good s w \<Longrightarrow> good (s\<lparr>resolution_jobs := []\<rparr>) w"

sublocale event_loop \<subseteq> guarded_loop cb good "\<lambda>s fd h d. True"
  by unfold_locales (simp_all add: read_keeps write_keeps block_keeps jobs_keep)

text \<open>A round in which one descriptor is ready runs the callbacks of that descriptor.\<close>

lemma step_idle:
  assumes "selector_inv s" "0 \<le> i" "i < int (s_fd_size s)" "i \<notin> R" "i \<notin> W"
  shows "iteration_step cb R W i (s, w) = Inr (s, w)"
proof -
  from assms(1) have t: "table_ok s" and io: "items_ok s" by (auto simp: selector_inv_def)
  from item_at_registered [OF t assms(2,3)] obtain it where
    it: "item_at s i = Inr it" "registered s i = (if ITEM_USED it then Some it else None)" by blast
  with io have "ITEM_USED it \<Longrightarrow> it_fd it = i" by (auto simp: items_ok_def)
  with it assms(4,5) show ?thesis by (auto simp: iteration_step_def)
qed

lemma iterate_idle:
  assumes "selector_inv s" "\<forall>i \<in> set is. 0 \<le> i \<and> i < int (s_fd_size s) \<and> i \<notin> R \<and> i \<notin> W"
  shows "iterate_from (iteration_step cb R W) is (s, w) = Inr (s, w)"
  using assms(2) by (induction "is") (simp_all add: step_idle [OF assms(1)])

lemma iterate_append:
  "iterate_from f (is @ js) x = rbind (iterate_from f is x) (iterate_from f js)"
proof (induction "is" arbitrary: x)
  case (Cons i "is")
  then show ?case by (cases "f i x") simp_all
qed simp

lemma only_ready:
  assumes inv: "selector_inv s" "selector_inv s'" "s_fd_size s \<le> s_fd_size s'"
    and fd: "registered s fd = Some it" "R \<subseteq> {fd}" "W \<subseteq> {fd}"
    and run: "iteration_step cb R W fd (s, w) = Inr (s', w')"
  shows "handle_iteration cb R W (s, w) = Inr (s', w')"
proof -
  from inv(1) fd(1) have le: "0 \<le> fd" "fd \<le> s_max_fd s" "s_max_fd s < int (s_fd_size s)"
    using registered_range [of s fd it] by (auto simp: selector_inv_def items_ok_def table_ok_def)
  then have "[0..s_max_fd s] = [0..fd - 1] @ [fd..s_max_fd s]" "[fd..s_max_fd s] = fd # [fd + 1..s_max_fd s]"
    using upto_split1 [of 0 fd "s_max_fd s"] upto_rec1 [of fd "s_max_fd s"] by simp_all
  then have split: "[0..s_max_fd s] = [0..fd - 1] @ fd # [fd + 1..s_max_fd s]" by simp
  have "iterate_from (iteration_step cb R W) [0..fd - 1] (s, w) = Inr (s, w)"
    by (rule iterate_idle [OF inv(1)]) (use le fd in auto)
  moreover have "iterate_from (iteration_step cb R W) [fd + 1..s_max_fd s] (s', w') = Inr (s', w')"
    by (rule iterate_idle [OF inv(2)]) (use le fd inv(3) in auto)
  ultimately show ?thesis by (simp add: handle_iteration_def split iterate_append run del: upto.simps)
qed

lemma select_only_ready:
  assumes "selector_inv s" "selector_inv s'" "s_fd_size s \<le> s_fd_size s'" "resolution_jobs s' = []"
    and "registered s fd = Some it" "R \<subseteq> {fd}" "W \<subseteq> {fd}" "iteration_step cb R W fd (s, w) = Inr (s', w')"
  shows "selector_select cb (Ready R W) (s, w) = Inr (SELECTOR_SUCCESS, s', w')"
proof -
  from only_ready [OF assms(1-3,5-8)] have "handle_iteration cb R W (s, w) = Inr (s', w')" .
  moreover have "s'\<lparr>resolution_jobs := []\<rparr> = s'" using assms(4) by simp
  ultimately show ?thesis using assms(4) by (simp add: selector_select_def handle_block_notifications_def)
qed

text \<open>No operation shrinks the table or queues a job.\<close>

definition grows :: "('h, 'd) fdselector \<Rightarrow> ('h, 'd) fdselector \<Rightarrow> bool" where
  "grows s s' \<longleftrightarrow> s_fd_size s \<le> s_fd_size s' \<and> resolution_jobs s' = resolution_jobs s"

lemma update_fdset_grows [simp]: "grows s (items_update_fdset_for_fd s' it) = grows s s'"
  by (simp add: grows_def items_update_fdset_for_fd_def Let_def)

lemma put_item_grows [simp]: "grows s (put_item s' fd it) = grows s s'" "grows s (s'\<lparr>s_max_fd := m\<rparr>) = grows s s'"
  by (simp_all add: grows_def put_item_def)

lemma grows_refl [simp]: "grows s s"
  by (simp add: grows_def)

lemma grows_trans: "grows s s1 \<Longrightarrow> grows s1 s2 \<Longrightarrow> grows s s2"
  by (simp add: grows_def)

lemma ensure_capacity_grows: "ensure_capacity mem s n = Inr (st, s') \<Longrightarrow> grows s s'"
  using lt_bit_length [of n]
  by (auto simp: ensure_capacity_def grows_def rbind_eq_Inr next_capacity_def Let_def rassert_def split: if_splits option.splits)

lemma register_grows: "selector_register mem s fd h i d = Inr (st, s') \<Longrightarrow> grows s s'"
  using ensure_capacity_grows
  by (auto simp: selector_register_def Let_def rbind_eq_Inr split: if_splits)

lemma set_interest_grows: "selector_set_interest_key s fd i = Inr (st, s') \<Longrightarrow> grows s s'"
  by (auto simp: selector_set_interest_key_def selector_set_interest_def Let_def rbind_eq_Inr split: if_splits)

lemma unregister_grows: "selector_unregister_fd close s fd w = Inr (st, s', w') \<Longrightarrow> grows s s'"
  by (auto simp: selector_unregister_fd_def Let_def rbind_eq_Inr split: if_splits option.splits)

section \<open>The interface the connections rely on\<close>

text \<open>
  A registry of descriptors as its clients see it: a map from descriptors to interest, handler and
  data. \<open>usable\<close> are the descriptors that can be registered; \<open>closing\<close> is the close callback of a
  registered one.
\<close>

type_synonym ('h, 'd) entry = "fd_interest \<times> 'h \<times> 'd option"

locale fd_registry =
  fixes register :: "'s \<Rightarrow> int \<Rightarrow> 'h \<Rightarrow> fd_interest \<Rightarrow> 'd option \<Rightarrow> (selector_status \<times> 's) res"
    and unregister :: "'s \<Rightarrow> int \<Rightarrow> 'w \<Rightarrow> (selector_status \<times> 's \<times> 'w) res"
    and set_interest :: "'s \<Rightarrow> int \<Rightarrow> fd_interest \<Rightarrow> (selector_status \<times> 's) res"
    and entries :: "'s \<Rightarrow> int \<Rightarrow> ('h, 'd) entry option"
    and usable :: "'s \<Rightarrow> int \<Rightarrow> bool"
    and closing :: "'s \<Rightarrow> int \<Rightarrow> 'w \<Rightarrow> 'w res"
    and inv :: "'s \<Rightarrow> bool"
  assumes register_new: "inv s \<Longrightarrow> usable s fd \<Longrightarrow> entries s fd = None \<Longrightarrow>
      \<exists>s'. register s fd h i d = Inr (SELECTOR_SUCCESS, s') \<and> inv s' \<and> entries s' = (entries s)(fd \<mapsto> (i, h, d))"
    and register_used: "inv s \<Longrightarrow> entries s fd = Some e \<Longrightarrow> register s fd h i d = Inr (SELECTOR_FDINUSE, s)"
    and unregister_used: "inv s \<Longrightarrow> entries s fd = Some e \<Longrightarrow> closing s fd w = Inr w' \<Longrightarrow>
      \<exists>s'. unregister s fd w = Inr (SELECTOR_SUCCESS, s', w') \<and> inv s' \<and> entries s' = (entries s)(fd := None)"
    and set_interest_used: "inv s \<Longrightarrow> entries s fd = Some (i, h, d) \<Longrightarrow>
      \<exists>s'. set_interest s fd j = Inr (SELECTOR_SUCCESS, s') \<and> inv s' \<and> entries s' = (entries s)(fd \<mapsto> (j, h, d))"
begin

text \<open>Registering a descriptor and removing it again leaves the registry as it was.\<close>

lemma register_unregister:
  assumes "inv s" "usable s fd" "entries s fd = None"
    and "\<And>s'. entries s' fd = Some (i, h, d) \<Longrightarrow> closing s' fd w = Inr w'"
  shows "\<exists>s1 s2. register s fd h i d = Inr (SELECTOR_SUCCESS, s1)
    \<and> unregister s1 fd w = Inr (SELECTOR_SUCCESS, s2, w') \<and> inv s2 \<and> entries s2 = entries s"
proof -
  from register_new [OF assms(1-3)] obtain s1 where
    s1: "register s fd h i d = Inr (SELECTOR_SUCCESS, s1)" "inv s1" "entries s1 = (entries s)(fd \<mapsto> (i, h, d))" by blast
  then have e: "entries s1 fd = Some (i, h, d)" by simp
  from unregister_used [OF s1(2) e assms(4) [OF e]] s1(1,3) assms(3) show ?thesis
    by (auto simp: fun_upd_idem)
qed

text \<open>The interest a connection sets last is the one it has; other connections are not touched.\<close>

lemma set_interest_twice:
  assumes "inv s" "entries s fd = Some (i, h, d)"
  shows "\<exists>s1 s2. set_interest s fd j = Inr (SELECTOR_SUCCESS, s1) \<and> set_interest s1 fd k = Inr (SELECTOR_SUCCESS, s2)
    \<and> inv s2 \<and> entries s2 = (entries s)(fd \<mapsto> (k, h, d))"
proof -
  from set_interest_used [OF assms, of j] obtain s1 where
    s1: "set_interest s fd j = Inr (SELECTOR_SUCCESS, s1)" "inv s1" "entries s1 = (entries s)(fd \<mapsto> (j, h, d))" by blast
  then have "entries s1 fd = Some (j, h, d)" by simp
  from set_interest_used [OF s1(2) this, of k] s1 show ?thesis by auto
qed

end

definition entry_of :: "('h, 'd) fdselector \<Rightarrow> int \<Rightarrow> ('h, 'd) entry option" where
  "entry_of s fd = map_option (\<lambda>it. (it_interest it, the (it_handler it), it_data it)) (registered s fd)"

definition usable_fd :: "('h, 'd) fdselector \<Rightarrow> int \<Rightarrow> bool" where
  "usable_fd s fd \<longleftrightarrow> \<not> INVALID_FD fd \<and> fd \<noteq> int (s_fd_size s)"

definition run_close ::
  "('h \<Rightarrow> (int \<Rightarrow> 'd option \<Rightarrow> 'w \<Rightarrow> 'w res) option) \<Rightarrow> ('h, 'd) fdselector \<Rightarrow> int \<Rightarrow> 'w \<Rightarrow> 'w res" where
  "run_close close s fd w = (case registered s fd of None \<Rightarrow> Inr w
     | Some it \<Rightarrow> (case close (the (it_handler it)) of None \<Rightarrow> Inr w | Some f \<Rightarrow> f fd (it_data it) w))"

lemma entry_of_None [simp]: "entry_of s fd = None \<longleftrightarrow> registered s fd = None"
  by (simp add: entry_of_def)

lemma entry_of_upd:
  "registered s' = (registered s)(fd \<mapsto> it) \<Longrightarrow>
    entry_of s' = (entry_of s)(fd \<mapsto> (it_interest it, the (it_handler it), it_data it))"
  "registered s' = (registered s)(fd := None) \<Longrightarrow> entry_of s' = (entry_of s)(fd := None)"
  by (auto simp: entry_of_def fun_eq_iff)

interpretation sr: fd_registry "\<lambda>s fd h i d. selector_register True s fd (Some h) i d"
  "selector_unregister_fd close" selector_set_interest_key entry_of usable_fd "run_close close" selector_inv
  for close :: "'h \<Rightarrow> (int \<Rightarrow> 'd option \<Rightarrow> 'w \<Rightarrow> 'w res) option"
proof unfold_locales
  fix s :: "('h, 'd) fdselector" and fd :: int and h :: 'h and i j :: fd_interest and d :: "'d option"
    and w w' :: 'w and e :: "('h, 'd) entry"
  assume inv: "selector_inv s"
  show "\<exists>s'. selector_register True s fd (Some h) i d = Inr (SELECTOR_SUCCESS, s') \<and> selector_inv s'
      \<and> entry_of s' = (entry_of s)(fd \<mapsto> (i, h, d))" if "usable_fd s fd" "entry_of s fd = None"
  proof -
    from that have "\<not> INVALID_FD fd" "fd \<noteq> int (s_fd_size s)" "registered s fd = None"
      by (auto simp: usable_fd_def)
    from selector_register_ok [OF inv this, of h i d] obtain s' where
      s': "selector_register True s fd (Some h) i d = Inr (SELECTOR_SUCCESS, s')" "selector_inv s'"
        "registered s' = (registered s)(fd \<mapsto> \<lparr>it_fd = fd, it_interest = i, it_handler = Some h, it_data = d\<rparr>)"
      by blast
    from entry_of_upd(1) [OF s'(3)] s'(1,2) show ?thesis by simp
  qed
  show "selector_register True s fd (Some h) i d = Inr (SELECTOR_FDINUSE, s)" if "entry_of s fd = Some e"
    using that selector_register_twice [OF inv] by (auto simp: entry_of_def)
  show "\<exists>s'. selector_unregister_fd close s fd w = Inr (SELECTOR_SUCCESS, s', w') \<and> selector_inv s'
      \<and> entry_of s' = (entry_of s)(fd := None)" if "entry_of s fd = Some e" "run_close close s fd w = Inr w'"
  proof -
    from that(1) obtain it where it: "registered s fd = Some it" by (auto simp: entry_of_def)
    with that(2) have "(case close (the (it_handler it)) of None \<Rightarrow> Inr w | Some f \<Rightarrow> f fd (it_data it) w) = Inr w'"
      by (simp add: run_close_def)
    from unregister_ok [where close = close, OF inv it this] obtain s' where
      "selector_unregister_fd close s fd w = Inr (SELECTOR_SUCCESS, s', w')" "selector_inv s'"
      "registered s' = (registered s)(fd := None)" by blast
    with entry_of_upd(2) show ?thesis by blast
  qed
  show "\<exists>s'. selector_set_interest_key s fd j = Inr (SELECTOR_SUCCESS, s') \<and> selector_inv s'
      \<and> entry_of s' = (entry_of s)(fd \<mapsto> (j, h, d))" if e: "entry_of s fd = Some (i, h, d)"
  proof -
    from e obtain it where it: "registered s fd = Some it" "the (it_handler it) = h" "it_data it = d"
      by (auto simp: entry_of_def)
    from set_interest_ok [OF inv it(1), of j] obtain s' where
      s': "selector_set_interest_key s fd j = Inr (SELECTOR_SUCCESS, s')" "selector_inv s'"
        "registered s' = (registered s)(fd \<mapsto> it\<lparr>it_interest := j\<rparr>)" by blast
    from entry_of_upd(1) [OF s'(3)] s'(1,2) it(2,3) show ?thesis by simp
  qed
qed

section \<open>What one round serves\<close>

text \<open>
  The callbacks with a log of the calls: for each call its descriptor, whether it is for a read or for a write,
  the selector before and after it and the rest of the state it left. The log is written beside the state, which no callback sees.
\<close>

record ('h, 'd, 'w) call =
  c_fd :: int
  c_op :: fd_interest
  c_before :: "('h, 'd) fdselector"
  c_after :: "('h, 'd) fdselector"
  c_left :: 'w

definition note_call :: "fd_interest \<Rightarrow> (int \<Rightarrow> 'd option \<Rightarrow> ('h, 'd) fdselector \<Rightarrow> 'w \<Rightarrow> (('h, 'd) fdselector \<times> 'w) res)
    \<Rightarrow> int \<Rightarrow> 'd option \<Rightarrow> ('h, 'd) fdselector \<Rightarrow> 'w \<times> ('h, 'd, 'w) call list
    \<Rightarrow> (('h, 'd) fdselector \<times> 'w \<times> ('h, 'd, 'w) call list) res" where
  "note_call op f fd d s wl =
     rbind (f fd d s (fst wl)) (\<lambda>(s', w').
     Inr (s', w', snd wl @ [\<lparr>c_fd = fd, c_op = op, c_before = s, c_after = s', c_left = w'\<rparr>]))"

definition logged :: "('h, 'd, 'w) callbacks \<Rightarrow> ('h, 'd, 'w \<times> ('h, 'd, 'w) call list) callbacks" where
  "logged cb =
   \<lparr>handle_read = map_option (note_call OP_READ) \<circ> handle_read cb,
    handle_write = map_option (note_call OP_WRITE) \<circ> handle_write cb,
    handle_block = map_option (note_call OP_NOOP) \<circ> handle_block cb\<rparr>"

text \<open>A descriptor is due when it is reported ready and registered with that interest.\<close>

definition due :: "int set \<Rightarrow> int set \<Rightarrow> ('h, 'd) fdselector \<Rightarrow> int \<Rightarrow> fd_interest \<Rightarrow> bool" where
  "due slave_r slave_w s fd op \<longleftrightarrow> fd \<in> interested op s
     \<and> (op = OP_READ \<and> fd \<in> slave_r \<or> op = OP_WRITE \<and> fd \<in> slave_w)"

text \<open>The order of the calls: by descriptor, a read before a write.\<close>

definition earlier :: "int \<times> fd_interest \<Rightarrow> int \<times> fd_interest \<Rightarrow> bool" where
  "earlier x y \<longleftrightarrow> fst x < fst y \<or> fst x = fst y \<and> snd x = OP_READ \<and> snd y = OP_WRITE"

definition call_event :: "('h, 'd, 'w) call \<Rightarrow> int \<times> fd_interest" where
  "call_event c = (c_fd c, c_op c)"

text \<open>The calls lead from one selector to the other: nothing but a call changes it.\<close>

fun linked :: "('h, 'd) fdselector \<Rightarrow> ('h, 'd, 'w) call list \<Rightarrow> ('h, 'd) fdselector \<Rightarrow> bool" where
  "linked s [] s' \<longleftrightarrow> s' = s"
| "linked s (c # l) s' \<longleftrightarrow> c_before c = s \<and> linked (c_after c) l s'"

definition touches :: "('h, 'd, 'w) call \<Rightarrow> int \<Rightarrow> bool" where
  "touches c fd \<longleftrightarrow> registered (c_after c) fd \<noteq> registered (c_before c) fd"

text \<open>What is due at the start is called, unless an earlier call of the round has changed its registration.\<close>

definition heeded :: "('h, 'd, 'w) call list \<Rightarrow> int \<Rightarrow> fd_interest \<Rightarrow> bool" where
  "heeded l fd op \<longleftrightarrow> (\<exists>c \<in> set l. call_event c = (fd, op)) \<or> (\<exists>c \<in> set l. earlier (call_event c) (fd, op) \<and> touches c fd)"

text \<open>A log of the calls for the descriptors of a list.\<close>

definition fair_log :: "int set \<Rightarrow> int set \<Rightarrow> int list \<Rightarrow> ('h, 'd) fdselector \<Rightarrow> ('h, 'd, 'w) call list \<Rightarrow> ('h, 'd) fdselector \<Rightarrow> bool" where
  "fair_log R W fds s l s' \<longleftrightarrow> linked s l s' \<and> sorted_wrt (\<lambda>c c'. earlier (call_event c) (call_event c')) l
     \<and> (\<forall>c \<in> set l. c_fd c \<in> set fds \<and> due R W (c_before c) (c_fd c) (c_op c))
     \<and> (\<forall>fd \<in> set fds. \<forall>op. due R W s fd op \<longrightarrow> heeded l fd op)"

lemma linked_append: "linked s l s1 \<Longrightarrow> linked s1 l' s' \<Longrightarrow> linked s (l @ l') s'"
  by (induction l arbitrary: s) auto

lemma linked_untouched: "linked s l s' \<Longrightarrow> \<forall>c \<in> set l. \<not> touches c fd \<Longrightarrow> registered s' fd = registered s fd"
  by (induction l arbitrary: s) (auto simp: touches_def)

lemma due_registered: "registered s' fd = registered s fd \<Longrightarrow> due R W s' fd op = due R W s fd op"
  by (simp add: due_def interested_def)

lemma heeded_append: "heeded l fd op \<Longrightarrow> heeded (l @ l') fd op" "heeded l' fd op \<Longrightarrow> heeded (l @ l') fd op"
  by (auto simp: heeded_def)

lemma fair_log_Cons:
  assumes "fair_log R W [i] s l s1" "fair_log R W fds s1 l' s'" "\<forall>fd \<in> set fds. i < fd"
  shows "fair_log R W (i # fds) s (l @ l') s'"
proof -
  note f1 = assms(1) [unfolded fair_log_def] and f2 = assms(2) [unfolded fair_log_def]
  have sorted: "sorted_wrt (\<lambda>c c'. earlier (call_event c) (call_event c')) l"
    "sorted_wrt (\<lambda>c c'. earlier (call_event c) (call_event c')) l'" using f1 f2 by blast+
  from f1 have l: "\<forall>c \<in> set l. c_fd c = i \<and> due R W (c_before c) (c_fd c) (c_op c)" by auto
  from f2 have l': "\<forall>c \<in> set l'. c_fd c \<in> set fds \<and> due R W (c_before c) (c_fd c) (c_op c)" by blast
  have lt: "earlier (call_event c) (fd, op)" if "c \<in> set l" "fd \<in> set fds" for c fd op
    using l assms(3) that by (simp add: earlier_def call_event_def)
  have tail: "heeded (l @ l') fd op" if fd: "fd \<in> set fds" and due: "due R W s fd op" for fd op
  proof (cases "\<exists>c \<in> set l. touches c fd")
    case True
    then obtain c where "c \<in> set l" "touches c fd" by blast
    moreover from this(1) have "c \<in> set (l @ l')" by simp
    ultimately show ?thesis using lt fd unfolding heeded_def by blast
  next
    case False
    with f1 have "registered s1 fd = registered s fd" by (intro linked_untouched [of s l s1 fd]) blast+
    from due_registered [OF this] due have "due R W s1 fd op" by simp
    with f2 fd have "heeded l' fd op" by blast
    then show ?thesis by (rule heeded_append)
  qed
  have head: "heeded (l @ l') i op" if "due R W s i op" for op
  proof -
    have "\<forall>fd \<in> set [i]. \<forall>op. due R W s fd op \<longrightarrow> heeded l fd op" using f1 by (elim conjE)
    with that have "heeded l i op" by simp
    then show ?thesis by (rule heeded_append)
  qed
  have "earlier (call_event c) (call_event c')" if "c \<in> set l" "c' \<in> set l'" for c c'
    using lt [OF that(1), of "c_fd c'" "c_op c'"] l' that(2) by (simp add: call_event_def)
  then have "sorted_wrt (\<lambda>c c'. earlier (call_event c) (call_event c')) (l @ l')"
    by (simp add: sorted_wrt_append sorted)
  moreover have "linked s (l @ l') s'" using f1 f2 linked_append by blast
  moreover have "\<forall>c \<in> set (l @ l'). c_fd c \<in> set (i # fds) \<and> due R W (c_before c) (c_fd c) (c_op c)"
  proof
    fix c assume "c \<in> set (l @ l')"
    then consider "c \<in> set l" | "c \<in> set l'" by auto
    then show "c_fd c \<in> set (i # fds) \<and> due R W (c_before c) (c_fd c) (c_op c)" by cases (use l l' in auto)
  qed
  moreover have "\<forall>fd \<in> set (i # fds). \<forall>op. due R W s fd op \<longrightarrow> heeded (l @ l') fd op"
    using head tail by simp
  ultimately show ?thesis unfolding fair_log_def by blast
qed

lemma registered_cell:
  assumes "selector_inv s" "item_at s i = Inr it"
  shows "registered s i = (if ITEM_USED it then Some it else None)" "ITEM_USED it \<Longrightarrow> it_fd it = i"
    "wants (it_interest it) op \<Longrightarrow> ITEM_USED it"
proof -
  from assms have t: "table_ok s" by (simp add: selector_inv_def)
  from assms(2) item_at_outside [OF t, of i] have "0 \<le> i" "i < int (s_fd_size s)"
    by (force simp: item_at_def split: if_splits option.splits)+
  with item_at_registered [OF t] assms(2) show "registered s i = (if ITEM_USED it then Some it else None)" by fastforce
  show "ITEM_USED it \<Longrightarrow> it_fd it = i" "wants (it_interest it) op \<Longrightarrow> ITEM_USED it"
    using cell_at [OF assms] by (auto simp: item_unused_def split: if_splits)
qed

text \<open>One pass of the loop, as a call for a read that may be made and a call for a write that may be made.\<close>

definition call_of :: "int \<Rightarrow> fd_interest \<Rightarrow> ('h, 'd) fdselector \<Rightarrow> ('h, 'd) fdselector \<Rightarrow> 'w \<Rightarrow> ('h, 'd, 'w) call" where
  "call_of fd op s s' w' = \<lparr>c_fd = fd, c_op = op, c_before = s, c_after = s', c_left = w'\<rparr>"

definition read_part where
  "read_part cb R it s w = (if it_fd it \<in> R \<and> wants (it_interest it) OP_READ then
       (case Option.bind (it_handler it) (handle_read cb) of None \<Rightarrow> Inl Aborted | Some f \<Rightarrow> f (it_fd it) (it_data it) s w)
     else Inr (s, w))"

definition write_part where
  "write_part cb W i n it s1 w1 = (if i \<in> W then
       (if s_fd_size s1 \<noteq> n then Inl UseAfterFree
        else rbind (item_at s1 i) (\<lambda>item1.
          if wants (it_interest item1) OP_WRITE then
            (case Option.bind (it_handler item1) (handle_write cb) of
              None \<Rightarrow> Inl Aborted
            | Some f \<Rightarrow> f (it_fd it) (it_data it) s1 w1)
          else Inr (s1, w1)))
     else Inr (s1, w1))"

lemma step_parts:
  "item_at s i = Inr it \<Longrightarrow> iteration_step cb R W i (s, w) =
    (if ITEM_USED it then rbind (read_part cb R it s w) (\<lambda>(s1, w1). write_part cb W i (s_fd_size s) it s1 w1) else Inr (s, w))"
  by (simp add: iteration_step_def read_part_def write_part_def)

lemma read_part_log:
  assumes "read_part cb R it s w = Inr (s1, w1)" "l = (if it_fd it \<in> R \<and> wants (it_interest it) OP_READ then [call_of (it_fd it) OP_READ s s1 w1] else [])"
  shows "read_part (logged cb) R it s (w, l0) = Inr (s1, w1, l0 @ l)"
  using assms by (auto simp: read_part_def logged_def note_call_def call_of_def split: option.splits if_splits bind_splits)

lemma write_part_log:
  assumes "write_part cb W i n it s1 w1 = Inr (s', w')" "it_fd it = i" "selector_inv s1"
    and "l = (if i \<in> W \<and> i \<in> interested OP_WRITE s1 then [call_of i OP_WRITE s1 s' w'] else [])"
  shows "write_part (logged cb) W i n it s1 (w1, l0) = Inr (s', w', l0 @ l) \<and> (l = [] \<longrightarrow> s' = s1)"
proof (cases "i \<in> W")
  case False
  with assms show ?thesis by (simp add: write_part_def)
next
  case True
  with assms(1) obtain it1 where it1: "item_at s1 i = Inr it1" "s_fd_size s1 = n" by (auto simp: write_part_def rbind_eq_Inr split: if_splits)
  have i: "i \<in> interested OP_WRITE s1 \<longleftrightarrow> wants (it_interest it1) OP_WRITE"
    using registered_cell [OF assms(3) it1(1)] by (auto simp: interested_def split: if_splits)
  show ?thesis
    using assms(1,2,4) True it1 i
    by (auto simp: write_part_def logged_def note_call_def call_of_def split: option.splits if_splits bind_splits)
qed

lemma due_in_table: "due R W s fd op \<Longrightarrow> selector_inv s \<Longrightarrow> fd \<in> set [0..s_max_fd s]"
  by (fastforce simp: due_def interested_def selector_inv_def items_ok_def INVALID_FD_def)

text \<open>Keeping the log changes nothing of what the callbacks do.\<close>

definition forget :: "(('h, 'd) fdselector \<times> 'w \<times> 'l) res \<Rightarrow> (('h, 'd) fdselector \<times> 'w) res" where
  "forget r = rbind r (\<lambda>(s, w, l). Inr (s, w))"

lemma forget_simps [simp]: "forget (Inl e) = Inl e" "forget (Inr (s, w, l)) = Inr (s, w)"
  by (simp_all add: forget_def)

lemma forget_rbind:
  assumes "forget x = y" "\<And>s w l. forget (g (s, w, l)) = f (s, w)"
  shows "forget (rbind x g) = rbind y f"
  using assms by (cases x) auto

lemma note_call_forgets: "forget (note_call op f fd d s (w, l)) = f fd d s w"
  by (cases "f fd d s w") (auto simp: note_call_def)

lemma read_part_forgets: "forget (read_part (logged cb) R it s (w, l)) = read_part cb R it s w"
  by (auto simp: read_part_def logged_def note_call_forgets split: option.splits bind_splits)

lemma write_part_forgets: "forget (write_part (logged cb) W i n it s (w, l)) = write_part cb W i n it s w"
  by (cases "item_at s i") (auto simp: write_part_def logged_def note_call_forgets split: option.splits bind_splits)

lemma step_forgets: "forget (iteration_step (logged cb) R W i (s, w, l)) = iteration_step cb R W i (s, w)"
proof (cases "item_at s i")
  case (Inr it)
  have "forget (rbind (read_part (logged cb) R it s (w, l)) (\<lambda>(s1, w1). write_part (logged cb) W i n it s1 w1))
    = rbind (read_part cb R it s w) (\<lambda>(s1, w1). write_part cb W i n it s1 w1)" for n
    by (rule forget_rbind [OF read_part_forgets]) (simp add: write_part_forgets)
  with Inr show ?thesis by (simp add: step_parts)
qed (simp add: iteration_step_def)

lemma iterate_forgets: "forget (iterate_from (iteration_step (logged cb) R W) fds (s, w, l)) = iterate_from (iteration_step cb R W) fds (s, w)"
proof (induction fds arbitrary: s w l)
  case (Cons i fds)
  have "forget (rbind (iteration_step (logged cb) R W i (s, w, l)) (iterate_from (iteration_step (logged cb) R W) fds))
    = rbind (iteration_step cb R W i (s, w)) (iterate_from (iteration_step cb R W) fds)"
    by (rule forget_rbind [OF step_forgets]) (rule Cons.IH)
  then show ?case by simp
qed simp

lemma notify_forgets: "forget (notify_jobs (logged cb) jobs (s, w, l)) = notify_jobs cb jobs (s, w)"
proof (induction jobs arbitrary: s w l)
  case (Cons fd jobs)
  show ?case
  proof (cases "item_at s fd")
    case (Inr it)
    let ?one = "\<lambda>cb w. if ITEM_USED it then
        (case Option.bind (it_handler it) (handle_block cb) of None \<Rightarrow> Inl NullDeref | Some f \<Rightarrow> f (it_fd it) (it_data it) s w)
      else Inr (s, w)"
    have "forget (?one (logged cb) (w, l)) = ?one cb w"
      by (auto simp: logged_def note_call_forgets split: option.splits bind_splits)
    then have "forget (rbind (?one (logged cb) (w, l)) (notify_jobs (logged cb) jobs)) = rbind (?one cb w) (notify_jobs cb jobs)"
      by (rule forget_rbind) (rule Cons.IH)
    with Inr show ?thesis by simp
  qed simp
qed simp

lemma select_forgets:
  assumes "selector_select cb r (s, w) = Inr (st, s', w')"
  shows "\<exists>l'. selector_select (logged cb) r (s, w, l) = Inr (st, s', w', l')"
proof -
  have block: "forget (handle_block_notifications (logged cb) (s, w, l)) = handle_block_notifications cb (s, w)" for s w l
    unfolding handle_block_notifications_def fst_conv by (rule forget_rbind [OF notify_forgets]) simp
  have ready: "forget (rbind (handle_iteration (logged cb) R W (s, w, l)) (handle_block_notifications (logged cb)))
      = rbind (handle_iteration cb R W (s, w)) (handle_block_notifications cb)" for R W
    unfolding handle_iteration_def fst_conv by (rule forget_rbind [OF iterate_forgets]) (rule block)
  have found: "\<exists>l'. x = Inr (s', w', l')" if "forget x = Inr (s', w')" for x :: "(('a, 'b) fdselector \<times> 'c \<times> ('a, 'b, 'c) call list) res"
    using that by (cases x) auto
  show ?thesis
  proof (cases r)
    case (Ready R W)
    with assms have "rbind (handle_iteration cb R W (s, w)) (handle_block_notifications cb) = Inr (s', w')" "st = SELECTOR_SUCCESS"
      by (auto simp: selector_select_def rbind_eq_Inr)
    with found [OF trans [OF ready]] obtain l' where
      "rbind (handle_iteration (logged cb) R W (s, w, l)) (handle_block_notifications (logged cb)) = Inr (s', w', l')" by blast
    with Ready \<open>st = SELECTOR_SUCCESS\<close> show ?thesis by (auto simp: selector_select_def rbind_eq_Inr)
  next
    case Interrupted
    with assms have "handle_block_notifications cb (s, w) = Inr (s', w')" "st = SELECTOR_SUCCESS"
      by (auto simp: selector_select_def rbind_eq_Inr)
    moreover from found [OF trans [OF block this(1)]] obtain l' where
      "handle_block_notifications (logged cb) (s, w, l) = Inr (s', w', l')" by blast
    ultimately show ?thesis using Interrupted by (simp add: selector_select_def)
  qed (use assms in \<open>simp_all add: selector_select_def\<close>)
qed

locale sound_loop = event_loop cb good
  for cb :: "('h, 'd, 'w) callbacks" and good :: "('h, 'd) fdselector \<Rightarrow> 'w \<Rightarrow> bool" +
  assumes good_inv: "good s w \<Longrightarrow> selector_inv s"
begin

lemma read_part_keeps: "read_part cb R it s w = Inr (s', w') \<Longrightarrow> good s w \<Longrightarrow> good s' w'"
  by (auto simp: read_part_def dest: read_keeps split: if_splits option.splits bind_splits)

lemma write_part_keeps: "write_part cb W i n it s w = Inr (s', w') \<Longrightarrow> good s w \<Longrightarrow> good s' w'"
  by (auto simp: write_part_def rbind_eq_Inr dest: write_keeps split: if_splits option.splits bind_splits)

lemma step_log:
  assumes "iteration_step cb R W i (s, w) = Inr (s', w')" "good s w"
  shows "\<exists>l. (\<forall>l0. iteration_step (logged cb) R W i (s, w, l0) = Inr (s', w', l0 @ l)) \<and> fair_log R W [i] s l s' \<and> good s' w'"
proof -
  have inv: "selector_inv s" using assms(2) by (rule good_inv)
  from assms(1) obtain it where it: "item_at s i = Inr it" by (auto simp: iteration_step_def rbind_eq_Inr)
  note cell = registered_cell [OF inv it]
  show ?thesis
  proof (cases "ITEM_USED it")
    case False
    with cell(1) have "registered s i = None" by simp
    then have "fair_log R W [i] s [] s" by (simp add: fair_log_def due_def interested_def)
    with False assms it show ?thesis by (intro exI [of _ "[]"]) (simp add: step_parts)
  next
    case True
    with assms(1) it obtain s1 w1 where
      1: "read_part cb R it s w = Inr (s1, w1)" "write_part cb W i (s_fd_size s) it s1 w1 = Inr (s', w')"
      by (auto simp: step_parts rbind_eq_Inr)
    have fd: "it_fd it = i" "registered s i = Some it" using True cell by simp_all
    have g1: "good s1 w1" using read_part_keeps [OF 1(1) assms(2)] .
    let ?r = "i \<in> R \<and> wants (it_interest it) OP_READ" and ?w = "i \<in> W \<and> i \<in> interested OP_WRITE s1"
    define l1 where "l1 = (if ?r then [call_of i OP_READ s s1 w1] else [])"
    define l2 where "l2 = (if ?w then [call_of i OP_WRITE s1 s' w'] else [])"
    have r: "read_part (logged cb) R it s (w, l0) = Inr (s1, w1, l0 @ l1)" for l0
      by (rule read_part_log [OF 1(1)]) (simp add: l1_def fd)
    have w: "write_part (logged cb) W i (s_fd_size s) it s1 (w1, l0) = Inr (s', w', l0 @ l2)" "l2 = [] \<longrightarrow> s' = s1" for l0
      using write_part_log [OF 1(2) fd(1) good_inv [OF g1], of l2 l0] l2_def by blast+
    have same: "s1 = s" if "\<not> ?r" using 1(1) that by (auto simp: read_part_def fd split: if_splits)
    have "linked s (l1 @ l2) s'"
      using w(2) same by (auto simp: l1_def l2_def call_of_def)
    moreover have "heeded (l1 @ l2) i OP_READ" if "due R W s i OP_READ"
      using that fd by (auto simp: l1_def heeded_def due_def interested_def call_of_def call_event_def OP_READ_def OP_WRITE_def)
    moreover have "heeded (l1 @ l2) i OP_WRITE" if d: "due R W s i OP_WRITE"
    proof (cases "registered s1 i = registered s i")
      case True
      with d have ?w by (auto simp: due_def interested_def OP_READ_def OP_WRITE_def)
      then show ?thesis by (simp add: l2_def heeded_def call_of_def call_event_def)
    next
      case False
      with same have ?r by blast
      with False show ?thesis by (simp add: l1_def heeded_def call_of_def call_event_def touches_def earlier_def)
    qed
    moreover have "\<forall>c \<in> set (l1 @ l2). c_fd c \<in> set [i] \<and> due R W (c_before c) (c_fd c) (c_op c)"
      using fd by (auto simp: l1_def l2_def call_of_def due_def interested_def)
    moreover have "sorted_wrt (\<lambda>c c'. earlier (call_event c) (call_event c')) (l1 @ l2)"
      by (simp add: l1_def l2_def call_of_def earlier_def call_event_def)
    moreover have "op = OP_READ \<or> op = OP_WRITE" if "due R W s i op" for op using that by (auto simp: due_def)
    ultimately have "fair_log R W [i] s (l1 @ l2) s'" unfolding fair_log_def by fastforce
    moreover have "iteration_step (logged cb) R W i (s, w, l0) = Inr (s', w', l0 @ (l1 @ l2))" for l0
      using True it r w(1) by (simp add: step_parts)
    ultimately show ?thesis using write_part_keeps [OF 1(2) g1] by blast
  qed
qed

lemma iterate_log:
  assumes "iterate_from (iteration_step cb R W) fds (s, w) = Inr (s', w')" "good s w" "sorted_wrt (<) fds"
  shows "\<exists>l. (\<forall>l0. iterate_from (iteration_step (logged cb) R W) fds (s, w, l0) = Inr (s', w', l0 @ l)) \<and> fair_log R W fds s l s'"
  using assms
proof (induction fds arbitrary: s w)
  case Nil
  then show ?case by (auto simp: fair_log_def)
next
  case (Cons i fds)
  from Cons.prems(1) obtain s1 w1 where
    1: "iteration_step cb R W i (s, w) = Inr (s1, w1)" "iterate_from (iteration_step cb R W) fds (s1, w1) = Inr (s', w')"
    by (auto simp: rbind_eq_Inr)
  from step_log [OF 1(1) Cons.prems(2)] obtain l where
    l: "\<forall>l0. iteration_step (logged cb) R W i (s, w, l0) = Inr (s1, w1, l0 @ l)" "fair_log R W [i] s l s1" "good s1 w1"
    by blast
  from Cons.IH [OF 1(2) l(3)] Cons.prems(3) obtain l' where
    l': "\<forall>l0. iterate_from (iteration_step (logged cb) R W) fds (s1, w1, l0) = Inr (s', w', l0 @ l')" "fair_log R W fds s1 l' s'"
    by auto
  from fair_log_Cons [OF l(2) l'(2)] Cons.prems(3) have "fair_log R W (i # fds) s (l @ l') s'" by simp
  with l(1) l'(1) show ?case by (intro exI [of _ "l @ l'"]) simp
qed

lemma round_log:
  assumes "handle_iteration cb R W (s, w) = Inr (s', w')" "good s w"
  shows "\<exists>l. handle_iteration (logged cb) R W (s, w, []) = Inr (s', w', l) \<and> fair_log R W [0..s_max_fd s] s l s'"
  using iterate_log [of R W "[0..s_max_fd s]" s w s' w'] assms by (auto simp: handle_iteration_def)

end

section \<open>Properties\<close>

text \<open>
  C17. In a well-formed selector a free descriptor can be registered, and unregistering it, once its
  close callback has run, leaves every registration as it was.
\<close>

theorem register_then_unregister:
  assumes "selector_inv s" "usable_fd s fd" "entry_of s fd = None"
    and "\<And>s'. entry_of s' fd = Some (i, h, d) \<Longrightarrow> run_close close s' fd w = Inr w'"
  shows "\<exists>s1 s2. selector_register True s fd (Some h) i d = Inr (SELECTOR_SUCCESS, s1)
    \<and> selector_unregister_fd close s1 fd w = Inr (SELECTOR_SUCCESS, s2, w') \<and> selector_inv s2
    \<and> entry_of s2 = entry_of s"
  by (rule sr.register_unregister [OF assms])

theorem register_then_unregister_witness:
  "\<exists>(s :: (nat, nat) fdselector) s1 s2. selector_register True s 5 (Some 0) OP_READ None = Inr (SELECTOR_SUCCESS, s1)
    \<and> selector_unregister_fd (\<lambda>h. None) s1 5 (7 :: nat) = Inr (SELECTOR_SUCCESS, s2, 7) \<and> selector_inv s2
    \<and> entry_of s2 = entry_of s"
proof -
  obtain s :: "(nat, nat) fdselector" where
    s: "selector_new True 500 = Inr (Some s)" "selector_inv s" "registered s = Map.empty"
    using selector_new_ok by blast
  from s(1) have "s_fd_size s = 513"
    by (auto simp: selector_new_def ensure_capacity_def ITEMS_MAX_SIZE_def next_capacity_def bit_length.simps
        Let_def rassert_def)
  then have "usable_fd s 5" by (simp add: usable_fd_def INVALID_FD_def ITEMS_MAX_SIZE_def)
  moreover have "run_close (\<lambda>h. None) s' 5 (7 :: nat) = Inr 7" for s' :: "(nat, nat) fdselector"
    by (simp add: run_close_def split: option.splits)
  ultimately show ?thesis
    using register_then_unregister [OF s(2), of 5 OP_READ 0 None "\<lambda>h. None" 7 7] s(3) by auto
qed

text \<open>
  The interest set last is the one in force, in the table and in the two descriptor sets, and no
  other registration changes.
\<close>

lemma last_interest_wins:
  assumes "selector_inv s" "entry_of s fd = Some (i, h, d)"
  shows "\<exists>s1 s2. selector_set_interest_key s fd j = Inr (SELECTOR_SUCCESS, s1)
    \<and> selector_set_interest_key s1 fd k = Inr (SELECTOR_SUCCESS, s2) \<and> selector_inv s2
    \<and> entry_of s2 = (entry_of s)(fd \<mapsto> (k, h, d))"
  by (rule sr.set_interest_twice [OF assms])

lemma one_registered:
  "\<exists>s :: (nat, nat) fdselector. selector_inv s \<and> entry_of s = [5 \<mapsto> (OP_READ, 0, None)]"
proof -
  obtain s :: "(nat, nat) fdselector" where s: "selector_new True 500 = Inr (Some s)" "selector_inv s"
    "registered s = Map.empty" using selector_new_ok by blast
  from s(1) have "s_fd_size s = 513"
    by (auto simp: selector_new_def ensure_capacity_def ITEMS_MAX_SIZE_def next_capacity_def bit_length.simps
        Let_def rassert_def)
  then have "usable_fd s 5" by (simp add: usable_fd_def INVALID_FD_def ITEMS_MAX_SIZE_def)
  from sr.register_new [OF s(2) this, of 0 OP_READ None] s(3) obtain s' where
    "selector_inv s'" "entry_of s' = (entry_of s)(5 \<mapsto> (OP_READ, 0, None))" by auto
  moreover have "entry_of s = Map.empty" using s(3) by (simp add: entry_of_def fun_eq_iff)
  ultimately show ?thesis by auto
qed

lemma last_interest_wins_example:
  "\<exists>(s :: (nat, nat) fdselector) s1 s2. selector_set_interest_key s 5 OP_WRITE = Inr (SELECTOR_SUCCESS, s1)
    \<and> selector_set_interest_key s1 5 OP_READ = Inr (SELECTOR_SUCCESS, s2) \<and> selector_inv s2
    \<and> entry_of s2 = (entry_of s)(5 \<mapsto> (OP_READ, 0, None))"
proof -
  obtain s :: "(nat, nat) fdselector" where s: "selector_inv s" "entry_of s = [5 \<mapsto> (OP_READ, 0, None)]"
    using one_registered by blast
  from last_interest_wins [OF s(1), of 5 OP_READ 0 None OP_WRITE OP_READ] s(2) show ?thesis
    by (metis (no_types, lifting) fun_upd_same)
qed

text \<open>
  C11. The selector the server makes, for 500 descriptors, has room for 513. Descriptors 0 to 512 can be
  registered and so can those after 513, for which the table grows; but registering descriptor 513
  reads past the end of the table, because growing is tested with \<open>>\<close> instead of \<open>>=\<close>.
\<close>

theorem register_at_capacity:
  "\<exists>s :: ('h, 'd) fdselector. selector_new True 500 = Inr (Some s) \<and> s_fd_size s = 513
    \<and> selector_register True s 513 (Some h) i d = Inl OutOfBounds
    \<and> (\<exists>s'. selector_register True s 512 (Some h) i d = Inr (SELECTOR_SUCCESS, s'))
    \<and> (\<exists>s'. selector_register True s 514 (Some h) i d = Inr (SELECTOR_SUCCESS, s'))"
proof -
  obtain s :: "('h, 'd) fdselector" where s: "selector_new True 500 = Inr (Some s)" "selector_inv s"
    "registered s = Map.empty" using selector_new_ok by blast
  from s(1) have size: "s_fd_size s = 513"
    by (auto simp: selector_new_def ensure_capacity_def ITEMS_MAX_SIZE_def next_capacity_def bit_length.simps
        Let_def rassert_def)
  have v: "\<not> INVALID_FD 513" "\<not> INVALID_FD 512" "\<not> INVALID_FD 514"
    by (simp_all add: INVALID_FD_def ITEMS_MAX_SIZE_def)
  show ?thesis
    using s size v selector_register_edge [OF s(2), of True h i d]
      selector_register_ok [OF s(2) v(2), of h i d] selector_register_ok [OF s(2) v(3), of h i d] by auto
qed

end
