(* ===== verification/World.thy ===== *)
theory World
  imports Commands Monitor Selector
begin

text \<open>
  The state the two services share. The global and static variables of \<^verbatim>\<open>pop3nio.c\<close>,
  \<^verbatim>\<open>monitornio.c\<close>, \<^verbatim>\<open>email.c\<close> and \<^verbatim>\<open>server.c\<close> are the fields of one record; a
  connection is a cell of a heap, and the data pointer of a selector item is its address. The last
  three fields are traces of what the program asked the system to do: descriptors closed, files
  removed, bytes sent. What the system answers during one event is the record \<open>io\<close>. The theory also
  has the close callbacks, because unregistering a descriptor can run that of either service.
\<close>

section \<open>Handlers, data pointers, connections\<close>

datatype fd_handler = Pop3_passive | Pop3_handler | Mail_handler | Monitor_passive | Monitor_handler

datatype attachment = Pop3_data nat | Admin_data nat

record admin_connection =
  ac_fd :: int
  ac_rb :: buffer
  ac_wb :: buffer
  ac_parser :: monitor_parser
  ac_status :: byte

record admin_info =
  ai_user :: "byte list"
  ai_token :: "byte list"

record world =
  w_sel :: "(fd_handler, attachment) fdselector"
  w_users :: user_db
  w_maildir :: cstring
  w_conns :: "nat \<Rightarrow> pop3 option"
  head_connection :: "nat list"
  connections :: u32
  historic_connections :: u32
  transfer_bytes :: u64
  w_admins :: "nat \<Rightarrow> admin_connection option"
  pool :: "nat list"
  pool_size :: nat
  current_admins :: nat
  all_admin_data :: "admin_info list"
  w_globals :: monitor_globals
  w_next :: nat
  w_closed :: "int list"
  w_removed :: "cstring list"
  w_sent :: "(int \<times> byte list) list"

text \<open>
  \<open>recv\<close> and \<open>read\<close> give at most the bytes asked for (none: end of the stream; \<open>None\<close>: an error),
  \<open>send\<close> accepts at most the bytes given, \<open>io_reset\<close> says that a failed \<open>send\<close> set \<open>ECONNRESET\<close>,
  \<open>io_mem\<close> that an allocation succeeds, \<open>io_nio\<close> that a descriptor can be made non-blocking.
\<close>

record io =
  io_os :: os
  io_mem :: bool
  io_accept :: int
  io_nio :: bool
  io_recv :: "byte list option"
  io_read :: "byte list option"
  io_send :: "nat option"
  io_reset :: bool

definition received :: "byte list option \<Rightarrow> nat \<Rightarrow> byte list" where
  "received r count = (case r of None \<Rightarrow> [] | Some bs \<Rightarrow> take count bs)"

definition close_fd :: "int \<Rightarrow> world \<Rightarrow> world" where
  "close_fd fd w = w\<lparr>w_closed := w_closed w @ [fd]\<rparr>"

definition get_current :: "world \<Rightarrow> u32" where
  "get_current w = connections w"

definition get_historic :: "world \<Rightarrow> u32" where
  "get_historic w = historic_connections w"

definition get_transfer_bytes :: "world \<Rightarrow> u64" where
  "get_transfer_bytes w = transfer_bytes w"

definition change_buf_size :: "cstring \<Rightarrow> int" where
  "change_buf_size new_buf = 0"

section \<open>Closing a client's connection\<close>

text \<open>The first connection of the list with the descriptor is unlinked and freed.\<close>

fun remove_client_rec :: "(nat \<Rightarrow> pop3 option) \<Rightarrow> nat list \<Rightarrow> int \<Rightarrow> ((nat \<Rightarrow> pop3 option) \<times> nat list) res" where
  "remove_client_rec h [] fd = Inr (h, [])"
| "remove_client_rec h (a # as) fd =
     (case h a of
       None \<Rightarrow> Inl UseAfterFree
     | Some s \<Rightarrow>
         if client_fd s = fd then Inr (h(a := None), as)
         else rbind (remove_client_rec h as fd) (\<lambda>(h', as'). Inr (h', a # as')))"

definition remove_client :: "int \<Rightarrow> world \<Rightarrow> world res" where
  "remove_client fd w =
     rbind (remove_client_rec (w_conns w) (head_connection w) fd) (\<lambda>(h, l).
     Inr (w\<lparr>w_conns := h, head_connection := l\<rparr>))"

definition pop3_destroy :: "nat \<Rightarrow> world \<Rightarrow> world res" where
  "pop3_destroy a w =
     (case w_conns w a of
       None \<Rightarrow> Inl UseAfterFree
     | Some s \<Rightarrow>
         rbind (if mails s \<noteq> None then free_mails s else Inr s) (\<lambda>_.
         rbind (remove_client (client_fd s) w) (\<lambda>w1.
         Inr (w1\<lparr>connections := connections w1 - 1\<rparr>))))"

definition pop3_close :: "int \<Rightarrow> attachment option \<Rightarrow> world \<Rightarrow> world res" where
  "pop3_close fd data w =
     (case data of
       Some (Pop3_data a) \<Rightarrow>
         (case w_conns w a of
           None \<Rightarrow> Inl UseAfterFree
         | Some s \<Rightarrow> if mail_done s = 0 then pop3_destroy a w else Inr w)
     | _ \<Rightarrow> Inl NullDeref)"

section \<open>Closing an administrator's connection\<close>

definition max_pool :: nat where "max_pool = 5"

text \<open>A connection goes to the pool of free ones while the counter is below the limit.\<close>

definition admin_connection_destroy :: "nat option \<Rightarrow> world \<Rightarrow> world" where
  "admin_connection_destroy s w =
     (case s of
       None \<Rightarrow> w
     | Some a \<Rightarrow>
         if pool_size w < max_pool then w\<lparr>pool := a # pool w, pool_size := Suc (pool_size w)\<rparr>
         else w\<lparr>w_admins := (w_admins w)(a := None)\<rparr>)"

definition monitor_close :: "int \<Rightarrow> attachment option \<Rightarrow> world \<Rightarrow> world res" where
  "monitor_close fd data w =
     (case data of
       Some (Admin_data a) \<Rightarrow> Inr (admin_connection_destroy (Some a) w)
     | None \<Rightarrow> Inr (admin_connection_destroy None w)
     | _ \<Rightarrow> Inl UninitRead)"

text \<open>\<open>handle_close\<close> of the five handlers.\<close>

definition handle_close :: "fd_handler \<Rightarrow> (int \<Rightarrow> attachment option \<Rightarrow> world \<Rightarrow> world res) option" where
  "handle_close h =
     (case h of Pop3_handler \<Rightarrow> Some pop3_close | Monitor_handler \<Rightarrow> Some monitor_close | _ \<Rightarrow> None)"

text \<open>\<open>selector_unregister_fd(key->s, fd)\<close> on the world.\<close>

definition unregister_fd :: "int \<Rightarrow> world \<Rightarrow> (selector_status \<times> world) res" where
  "unregister_fd fd w =
     rbind (selector_unregister_fd handle_close (w_sel w) fd w) (\<lambda>(st, s, w1). Inr (st, w1\<lparr>w_sel := s\<rparr>))"

definition register_fd ::
  "bool \<Rightarrow> int \<Rightarrow> fd_handler \<Rightarrow> fd_interest \<Rightarrow> attachment option \<Rightarrow> world \<Rightarrow> (selector_status \<times> world) res" where
  "register_fd mem fd h i data w =
     rbind (selector_register mem (w_sel w) fd (Some h) i data) (\<lambda>(st, s). Inr (st, w\<lparr>w_sel := s\<rparr>))"

definition set_interest_key :: "int \<Rightarrow> fd_interest \<Rightarrow> world \<Rightarrow> (selector_status \<times> world) res" where
  "set_interest_key fd i w =
     rbind (selector_set_interest_key (w_sel w) fd i) (\<lambda>(st, s). Inr (st, w\<lparr>w_sel := s\<rparr>))"

text \<open>The state at the start of \<^verbatim>\<open>main\<close>, before any socket is registered.\<close>

definition admin_info_zero :: admin_info where
  "admin_info_zero = \<lparr>ai_user = replicate MAX_NAME 0, ai_token = replicate (Suc TOKEN_SIZE) 0\<rparr>"

definition initial_world :: "(fd_handler, attachment) fdselector \<Rightarrow> world" where
  "initial_world s =
   \<lparr>w_sel = s, w_users = no_users, w_maildir = INITIAL_PATH, w_conns = Map.empty, head_connection = [],
    connections = 0, historic_connections = 0, transfer_bytes = 0, w_admins = Map.empty, pool = [],
    pool_size = 0, current_admins = 0, all_admin_data = replicate 3 admin_info_zero,
    w_globals = monitor_globals_init, w_next = 0, w_closed = [], w_removed = [], w_sent = []\<rparr>"

text \<open>Answers of the system during one event, for the examples.\<close>

definition example_io :: "byte list \<Rightarrow> io" where
  "example_io bs = \<lparr>io_os = example_os, io_mem = True, io_accept = 9, io_nio = True, io_recv = Some bs,
     io_read = Some [], io_send = Some 100, io_reset = False\<rparr>"

lemma example_selector:
  assumes "0 \<le> fd" "fd < 513"
  shows "\<exists>s :: (fd_handler, attachment) fdselector. selector_inv s
    \<and> registered s = [fd \<mapsto> \<lparr>it_fd = fd, it_interest = OP_READ, it_handler = Some h, it_data = d\<rparr>]"
proof -
  obtain s :: "(fd_handler, attachment) fdselector" where
    s: "selector_new True 500 = Inr (Some s)" "selector_inv s" "registered s = Map.empty"
    using selector_new_ok by blast
  from s(1) have size: "s_fd_size s = 513"
    by (auto simp: selector_new_def ensure_capacity_def ITEMS_MAX_SIZE_def next_capacity_def bit_length.simps
        Let_def rassert_def)
  with assms have v: "\<not> INVALID_FD fd" "fd \<noteq> int (s_fd_size s)" "registered s fd = None"
    using s(3) by (simp_all add: INVALID_FD_def ITEMS_MAX_SIZE_def)
  from selector_register_ok [OF s(2) v, of h OP_READ d] s(3) size assms show ?thesis by fastforce
qed

end
