(* ===== verification/Stm.thy ===== *)
theory Stm
  imports Prelude
begin

text \<open>
  The state-machine engine of \<^verbatim>\<open>src/server/stm.c\<close>. A machine has a table of states; a state has
  optional callbacks (null pointers are \<open>None\<close>). The callbacks act on the connection behind the
  selector key, here a value of type \<open>'k\<close> they return updated, and may read the number of the
  current state, which is their first argument. The locale \<open>machine\<close> states what a table owes the
  engine; its lemmas say what the engine then keeps.
\<close>

section \<open>Tables and machines\<close>

record 'k state_definition =
  sd_state :: nat
  on_arrival :: "(nat \<Rightarrow> 'k \<Rightarrow> 'k res) option"
  on_departure :: "(nat \<Rightarrow> 'k \<Rightarrow> 'k res) option"
  on_read_ready :: "(nat \<Rightarrow> 'k \<Rightarrow> (nat \<times> 'k) res) option"
  on_write_ready :: "(nat \<Rightarrow> 'k \<Rightarrow> (nat \<times> 'k) res) option"
  on_block_ready :: "(nat \<Rightarrow> 'k \<Rightarrow> (nat \<times> 'k) res) option"

record 'k state_machine =
  stm_initial :: nat
  stm_states :: "'k state_definition list"
  stm_max_state :: nat
  stm_current :: "nat option"

text \<open>\<open>abort()\<close> unless the states are numbered in order and the initial one is below the last.\<close>

definition stm_init :: "'k state_machine \<Rightarrow> 'k state_machine res" where
  "stm_init stm =
     (if \<forall>i \<in> set [0..<Suc (stm_max_state stm)].
           i < length (stm_states stm) \<and> sd_state (stm_states stm ! i) = i
      then (if stm_initial stm < stm_max_state stm then Inr (stm\<lparr>stm_current := None\<rparr>) else Inl Aborted)
      else Inl Aborted)"

definition call_hook :: "(nat \<Rightarrow> 'k \<Rightarrow> 'k res) option \<Rightarrow> nat \<Rightarrow> 'k \<Rightarrow> 'k res" where
  "call_hook h st k = (case h of None \<Rightarrow> Inr k | Some f \<Rightarrow> f st k)"

definition handle_first :: "'k state_machine \<Rightarrow> 'k \<Rightarrow> ('k state_machine \<times> 'k) res" where
  "handle_first stm k =
     (case stm_current stm of
       None \<Rightarrow>
         rbind (load_at (stm_initial stm) (stm_states stm)) (\<lambda>sd.
         rbind (call_hook (on_arrival sd) (sd_state sd) k) (\<lambda>k'.
         Inr (stm\<lparr>stm_current := Some (stm_initial stm)\<rparr>, k')))
     | Some _ \<Rightarrow> Inr (stm, k))"

definition jump :: "'k state_machine \<Rightarrow> nat \<Rightarrow> 'k \<Rightarrow> ('k state_machine \<times> 'k) res" where
  "jump stm next k =
     (if next > stm_max_state stm then Inl Aborted
      else if stm_current stm \<noteq> Some next then
        rbind (case stm_current stm of
                 None \<Rightarrow> Inr k
               | Some cur \<Rightarrow>
                   rbind (load_at cur (stm_states stm)) (\<lambda>sd. call_hook (on_departure sd) (sd_state sd) k))
          (\<lambda>k1.
        rbind (load_at next (stm_states stm)) (\<lambda>sd.
        rbind (call_hook (on_arrival sd) (sd_state sd) k1) (\<lambda>k2.
        Inr (stm\<lparr>stm_current := Some next\<rparr>, k2))))
      else Inr (stm, k))"

text \<open>The three event entries differ in the callback they run; a null one aborts.\<close>

definition stm_handler ::
  "('k state_definition \<Rightarrow> (nat \<Rightarrow> 'k \<Rightarrow> (nat \<times> 'k) res) option) \<Rightarrow> 'k state_machine \<Rightarrow> 'k
    \<Rightarrow> (nat \<times> 'k state_machine \<times> 'k) res" where
  "stm_handler callback stm k =
     rbind (handle_first stm k) (\<lambda>(stm1, k1).
     case stm_current stm1 of
       None \<Rightarrow> Inl NullDeref
     | Some cur \<Rightarrow>
         rbind (load_at cur (stm_states stm1)) (\<lambda>sd.
         case callback sd of
           None \<Rightarrow> Inl Aborted
         | Some h \<Rightarrow>
             rbind (h (sd_state sd) k1) (\<lambda>(ret, k2).
             rbind (jump stm1 ret k2) (\<lambda>(stm2, k3). Inr (ret, stm2, k3)))))"

definition stm_handler_read :: "'k state_machine \<Rightarrow> 'k \<Rightarrow> (nat \<times> 'k state_machine \<times> 'k) res" where
  "stm_handler_read = stm_handler on_read_ready"

definition stm_handler_write :: "'k state_machine \<Rightarrow> 'k \<Rightarrow> (nat \<times> 'k state_machine \<times> 'k) res" where
  "stm_handler_write = stm_handler on_write_ready"

definition stm_handler_block :: "'k state_machine \<Rightarrow> 'k \<Rightarrow> (nat \<times> 'k state_machine \<times> 'k) res" where
  "stm_handler_block = stm_handler on_block_ready"

definition stm_handler_close :: "'k state_machine \<Rightarrow> 'k \<Rightarrow> 'k res" where
  "stm_handler_close stm k =
     (case stm_current stm of
       None \<Rightarrow> Inr k
     | Some cur \<Rightarrow> rbind (load_at cur (stm_states stm)) (\<lambda>sd. call_hook (on_departure sd) (sd_state sd) k))"

definition stm_state :: "'k state_machine \<Rightarrow> nat" where
  "stm_state stm = (case stm_current stm of None \<Rightarrow> stm_initial stm | Some cur \<Rightarrow> sd_state (stm_states stm ! cur))"

section \<open>What a table owes the engine\<close>

text \<open>
  \<open>Fresh\<close> is what holds of a connection before its first event, \<open>At st\<close> what holds before an event
  while the machine is in state \<open>st\<close>, \<open>Leaving st st'\<close> what a callback of \<open>st\<close> has established when it
  names \<open>st'\<close> as the next state, and \<open>After st\<close> what holds once the machine has arrived in \<open>st\<close>. A
  callback may fail; the contract is about the calls that return.
\<close>

locale event_machine =
  fixes tbl :: "'k state_definition list"
    and init :: nat
    and Fresh :: "'k \<Rightarrow> bool"
    and At :: "nat \<Rightarrow> 'k \<Rightarrow> bool"
    and Leaving :: "nat \<Rightarrow> nat \<Rightarrow> 'k \<Rightarrow> bool"
    and After :: "nat \<Rightarrow> 'k \<Rightarrow> bool"
  assumes numbered: "i < length tbl \<Longrightarrow> sd_state (tbl ! i) = i"
    and init_lt: "init < length tbl - 1"
    and first_arrival: "Fresh k \<Longrightarrow> call_hook (on_arrival (tbl ! init)) init k = Inr k' \<Longrightarrow> At init k'"
    and read_callback: "st < length tbl \<Longrightarrow> At st k \<Longrightarrow> on_read_ready (tbl ! st) = Some h \<Longrightarrow>
      h st k = Inr (st', k') \<Longrightarrow> Leaving st st' k'"
    and write_callback: "st < length tbl \<Longrightarrow> At st k \<Longrightarrow> on_write_ready (tbl ! st) = Some h \<Longrightarrow>
      h st k = Inr (st', k') \<Longrightarrow> Leaving st st' k'"
    and block_callback: "st < length tbl \<Longrightarrow> At st k \<Longrightarrow> on_block_ready (tbl ! st) = Some h \<Longrightarrow>
      h st k = Inr (st', k') \<Longrightarrow> Leaving st st' k'"
    and stay: "Leaving st st k \<Longrightarrow> After st k"
    and departure: "st < length tbl \<Longrightarrow> Leaving st st' k \<Longrightarrow> st \<noteq> st' \<Longrightarrow>
      call_hook (on_departure (tbl ! st)) st k = Inr k' \<Longrightarrow> Leaving st st' k'"
    and arrival: "st' < length tbl \<Longrightarrow> Leaving st st' k \<Longrightarrow> st \<noteq> st' \<Longrightarrow>
      call_hook (on_arrival (tbl ! st')) st' k = Inr k' \<Longrightarrow> After st' k'"
begin

definition built :: "'k state_machine \<Rightarrow> bool" where
  "built stm \<longleftrightarrow> stm_states stm = tbl \<and> stm_initial stm = init \<and> Suc (stm_max_state stm) = length tbl"

definition sound :: "'k state_machine \<Rightarrow> 'k \<Rightarrow> bool" where
  "sound stm k \<longleftrightarrow> built stm \<and>
     (case stm_current stm of None \<Rightarrow> Fresh k | Some st \<Rightarrow> st < length tbl \<and> At st k)"

text \<open>Such a table passes the checks of \<open>stm_init\<close>.\<close>

lemma init_built: "built stm \<Longrightarrow> stm_init stm = Inr (stm\<lparr>stm_current := None\<rparr>)"
  using init_lt by (auto simp: stm_init_def built_def numbered)

lemma handle_first_sound:
  assumes "sound stm k" "handle_first stm k = Inr (stm', k')"
  shows "built stm' \<and> (\<exists>st. stm_current stm' = Some st \<and> st < length tbl \<and> At st k')"
  using assms init_lt numbered [of init] first_arrival
  by (auto simp: handle_first_def sound_def built_def res_simps split: option.splits)

lemma jump_after:
  assumes "built stm" "stm_current stm = Some st" "st < length tbl" "Leaving st st' k"
    and "jump stm st' k = Inr (stm', k')"
  shows "built stm' \<and> stm_current stm' = Some st' \<and> st' < length tbl \<and> After st' k'"
proof (cases "st = st'")
  case True
  with assms have "After st k" using stay by simp
  with True assms show ?thesis by (auto simp: jump_def built_def split: if_splits)
next
  case False
  from assms False have le: "st' < length tbl" by (auto simp: jump_def built_def split: if_splits)
  with assms False obtain k1 where
    k1: "call_hook (on_departure (tbl ! st)) st k = Inr k1"
      "call_hook (on_arrival (tbl ! st')) st' k1 = Inr k'" "stm' = stm\<lparr>stm_current := Some st'\<rparr>"
    by (auto simp: jump_def built_def res_simps numbered split: if_splits)
  from departure [OF assms(3,4) False k1(1)] have "Leaving st st' k1" .
  from arrival [OF le this False k1(2)] have "After st' k'" .
  with k1(3) le assms(1) show ?thesis by (simp add: sound_def built_def)
qed

lemma stm_handler_after:
  assumes "sound stm k" "stm_handler callback stm k = Inr (ret, stm', k')"
    and callback: "\<And>st k h st' k'. st < length tbl \<Longrightarrow> At st k \<Longrightarrow> callback (tbl ! st) = Some h \<Longrightarrow>
      h st k = Inr (st', k') \<Longrightarrow> Leaving st st' k'"
  shows "built stm' \<and> stm_current stm' = Some ret \<and> ret < length tbl \<and> After ret k'"
proof -
  from assms(2) obtain stm1 k1 where first: "handle_first stm k = Inr (stm1, k1)"
    and rest: "(case stm_current stm1 of
       None \<Rightarrow> Inl NullDeref
     | Some cur \<Rightarrow>
         rbind (load_at cur (stm_states stm1)) (\<lambda>sd.
         case callback sd of
           None \<Rightarrow> Inl Aborted
         | Some h \<Rightarrow>
             rbind (h (sd_state sd) k1) (\<lambda>(ret, k2).
             rbind (jump stm1 ret k2) (\<lambda>(stm2, k3). Inr (ret, stm2, k3))))) = Inr (ret, stm', k')"
    by (auto simp: stm_handler_def res_simps)
  from handle_first_sound [OF assms(1) first] obtain st where
    st: "built stm1" "stm_current stm1 = Some st" "st < length tbl" "At st k1" by blast
  from rest st obtain h k2 where h: "callback (tbl ! st) = Some h" "h st k1 = Inr (ret, k2)"
    "jump stm1 ret k2 = Inr (stm', k')"
    by (auto simp: built_def numbered res_simps split: option.splits)
  from callback [OF st(3,4) h(1,2)] have "Leaving st ret k2" .
  from jump_after [OF st(1-3) this h(3)] show ?thesis .
qed

lemma read_after:
  assumes "sound stm k" "stm_handler_read stm k = Inr (ret, stm', k')"
  shows "built stm' \<and> stm_current stm' = Some ret \<and> ret < length tbl \<and> After ret k'"
  by (rule stm_handler_after [OF assms [unfolded stm_handler_read_def]]) (rule read_callback)

lemma write_after:
  assumes "sound stm k" "stm_handler_write stm k = Inr (ret, stm', k')"
  shows "built stm' \<and> stm_current stm' = Some ret \<and> ret < length tbl \<and> After ret k'"
  by (rule stm_handler_after [OF assms [unfolded stm_handler_write_def]]) (rule write_callback)

lemma block_after:
  assumes "sound stm k" "stm_handler_block stm k = Inr (ret, stm', k')"
  shows "built stm' \<and> stm_current stm' = Some ret \<and> ret < length tbl \<and> After ret k'"
  by (rule stm_handler_after [OF assms [unfolded stm_handler_block_def]]) (rule block_callback)

end

text \<open>When the same holds after an event as before, it holds in every state.\<close>

locale machine = event_machine tbl init Fresh At Leaving At
  for tbl :: "'k state_definition list" and init Fresh At Leaving
begin

lemma after_sound:
  "built stm \<and> stm_current stm = Some ret \<and> ret < length tbl \<and> At ret k \<Longrightarrow> sound stm k \<and> stm_current stm = Some ret"
  by (simp add: sound_def)

lemmas read_sound = after_sound [OF read_after]
lemmas write_sound = after_sound [OF write_after]
lemmas block_sound = after_sound [OF block_after]

end

end
