(* ===== verification/Session.thy ===== *)
theory Session
  imports World Stm
begin

text \<open>
  A client's session (\<^verbatim>\<open>src/server/pop3nio.c\<close>): the callbacks of its state table, the table
  itself, and the entry points the selector calls. While a callback runs, the session it works on is
  the field \<open>k_p3\<close> of the key and the rest of the program is \<open>k_world\<close>; \<open>pop3_event\<close> takes the session
  out of the heap before and puts it back after.
\<close>

section \<open>The key of a running callback\<close>

record key =
  k_fd :: int
  k_self :: nat
  k_io :: io
  k_p3 :: pop3
  k_world :: world

definition BUFFER_SIZE :: nat where "BUFFER_SIZE = 4194304"

definition key_set_interest :: "fd_interest \<Rightarrow> key \<Rightarrow> (selector_status \<times> key) res" where
  "key_set_interest i k =
     rbind (set_interest_key (k_fd k) i (k_world k)) (\<lambda>(st, w). Inr (st, k\<lparr>k_world := w\<rparr>))"

text \<open>Unregistering can close this very session; the caller's next access is then to freed memory.\<close>

definition key_unregister :: "int \<Rightarrow> key \<Rightarrow> (selector_status \<times> key) res" where
  "key_unregister fd k =
     rbind (unregister_fd fd ((k_world k)\<lparr>w_conns := (w_conns (k_world k))(k_self k \<mapsto> k_p3 k)\<rparr>)) (\<lambda>(st, w).
     case w_conns w (k_self k) of
       None \<Rightarrow> Inl UseAfterFree
     | Some p \<Rightarrow> Inr (st, k\<lparr>k_p3 := p, k_world := w\<rparr>))"

definition key_env :: "key \<Rightarrow> command_env" where
  "key_env k = \<lparr>ce_os = io_os (k_io k), ce_users = w_users (k_world k), ce_maildir = w_maildir (k_world k)\<rparr>"

text \<open>The members of the union \<open>client\<close>: the buffers, the parser, the two descriptors.\<close>

definition client_buffers :: "pop3 \<Rightarrow> unit res" where
  "client_buffers p = rassert (client p \<noteq> Untouched) NullDeref"

definition client_state :: "pop3 \<Rightarrow> unit res" where
  "client_state p =
     (case client p of Untouched \<Rightarrow> Inl NullDeref | State_st \<Rightarrow> Inr () | Mail_st _ _ \<Rightarrow> Inl UninitRead)"

definition client_mail :: "pop3 \<Rightarrow> (int \<times> int) res" where
  "client_mail p =
     (case client p of Untouched \<Rightarrow> Inl NullDeref | State_st \<Rightarrow> Inl UninitRead
      | Mail_st mail_fd socket_fd \<Rightarrow> Inr (mail_fd, socket_fd))"

section \<open>Arrivals\<close>

definition WELCOME :: cstring where "WELCOME = str ''+OK Server ready'' @ crlf"

definition welcome_on_connection :: "buffer \<Rightarrow> buffer res" where
  "welcome_on_connection b =
     rbind (buffer_write_ptr b) (\<lambda>_.
     rbind (buffer_fill b WELCOME) (\<lambda>b1. buffer_write_adv b1 (int (length WELCOME))))"

definition auth_init :: "nat \<Rightarrow> key \<Rightarrow> key res" where
  "auth_init state k =
     (let p = (k_p3 k)\<lparr>client := State_st\<rparr>
      in rbind (welcome_on_connection (write_buffer p)) (\<lambda>b. Inr (k\<lparr>k_p3 := p\<lparr>write_buffer := b\<rparr>\<rparr>)))"

definition trans_init :: "nat \<Rightarrow> key \<Rightarrow> key res" where
  "trans_init state k = Inr (k\<lparr>k_p3 := (k_p3 k)\<lparr>client := State_st\<rparr>\<rparr>)"

definition reading_init :: "nat \<Rightarrow> key \<Rightarrow> key res" where
  "reading_init state k =
     (let p = k_p3 k;
          p1 = p\<lparr>client := Mail_st (selected_mail_fd p) (client_fd p), mail_done := 0, byte_stuffing_st := 0\<rparr>
      in rbind (register_fd (io_mem (k_io k)) (selected_mail_fd p1) Mail_handler OP_READ (Some (Pop3_data (k_self k)))
           (k_world k)) (\<lambda>(_, w). Inr (k\<lparr>k_p3 := p1, k_world := w\<rparr>)))"

text \<open>\<open>remove()\<close> of every marked mail.\<close>

definition delete_mails :: "nat \<Rightarrow> key \<Rightarrow> key res" where
  "delete_mails state k =
     rbind (for_le (\<lambda>i w.
       rbind (load_at (unat i) (dele_flags (k_p3 k))) (\<lambda>flag.
       if flag \<noteq> 0 then
         rbind (mail_at (k_p3 k) (unat i)) (\<lambda>m. Inr (w\<lparr>w_removed := w_removed w @ [file_path m]\<rparr>))
       else Inr w)) (max_index (k_p3 k)) (k_world k)) (\<lambda>w. Inr (k\<lparr>k_world := w\<rparr>))"

definition close_connection :: "nat \<Rightarrow> key \<Rightarrow> key res" where
  "close_connection state k = Inr k"

definition error_function :: "nat \<Rightarrow> key \<Rightarrow> key res" where
  "error_function state k = Inr k"

section \<open>Reading commands\<close>

text \<open>The body of the loop of \<open>client_read\<close> for one byte, on the state to go to and the key.\<close>

definition read_byte :: "nat \<Rightarrow> byte \<Rightarrow> nat \<times> key \<Rightarrow> ((nat \<times> key) \<times> bool) res" where
  "read_byte cur c = (\<lambda>(curr_state, k).
     rbind (parser_feed (p_parser (k_p3 k)) c) (\<lambda>pa.
     let pe = get_last_event pa; k = k\<lparr>k_p3 := (k_p3 k)\<lparr>p_parser := pa\<rparr>\<rparr> in
     if pe_complete pe then
       rbind (key_set_interest OP_WRITE k) (\<lambda>(st, k).
       if st = SELECTOR_SUCCESS then
         rbind (comparator pe curr_state) (\<lambda>h.
         rbind (event_string 1 pe) (\<lambda>arg1.
         rbind (event_string 2 pe) (\<lambda>arg2.
         rbind (command_handler h (key_env k) cur arg1 arg2 (k_p3 k)) (\<lambda>(next, p).
         Inr ((next, k\<lparr>k_p3 := p\<lparr>p_parser := pa\<lparr>e1 := restart_tokenizer pe\<rparr>\<rparr>\<rparr>), False)))))
       else Inr ((ERROR, k), False))
     else Inr ((curr_state, k), False)))"

definition client_read :: "nat \<Rightarrow> key \<Rightarrow> (nat \<times> key) res" where
  "client_read cur k =
     rbind (client_state (k_p3 k)) (\<lambda>_.
     rbind (buffer_write_ptr (read_buffer (k_p3 k))) (\<lambda>count.
     let bytes = received (io_recv (k_io k)) count in
     if bytes \<noteq> [] then
       rbind (buffer_fill (read_buffer (k_p3 k)) bytes) (\<lambda>b.
       rbind (buffer_write_adv b (int (length bytes))) (\<lambda>b.
       rbind (consume_buffer (read_byte cur) b (cur, k)) (\<lambda>((curr_state, k), b).
       Inr (curr_state, k\<lparr>k_p3 := (k_p3 k)\<lparr>read_buffer := b\<rparr>\<rparr>))))
     else Inr (ERROR, k)))"

section \<open>Reading a mail\<close>

text \<open>The automaton that looks for the terminator; the second result is what the function returns.\<close>

definition byte_stuffer :: "byte \<Rightarrow> int \<Rightarrow> int \<times> bool" where
  "byte_stuffer input state =
     (if input = CR \<and> state = 0 then (1, False)
      else if input = LF \<and> state = 1 then (2, False)
      else if input = DOT \<and> state = 2 then (3, False)
      else if input = CR \<and> state = 3 then (4, False)
      else if input = LF \<and> state = 4 then (state, True)
      else (0, False))"

definition mail_byte :: "byte \<Rightarrow> pop3 \<Rightarrow> (pop3 \<times> bool) res" where
  "mail_byte c p =
     rbind (buffer_write (write_buffer p) c) (\<lambda>b.
     let (st, found) = byte_stuffer c (byte_stuffing_st p);
         p = p\<lparr>write_buffer := b, byte_stuffing_st := st\<rparr>
     in if found then
          rbind (delete_n_from_buffer b 5) (\<lambda>b.
          rbind (put_all buffer_write [CR, LF, DOT, CR, LF] b) (\<lambda>b.
          Inr (p\<lparr>write_buffer := b, mail_done := 1\<rparr>, True)))
        else Inr (p, False))"

definition filesystem_read :: "nat \<Rightarrow> key \<Rightarrow> (nat \<times> key) res" where
  "filesystem_read cur k =
     rbind (client_mail (k_p3 k)) (\<lambda>_.
     rbind (buffer_write_ptr (read_buffer (k_p3 k))) (\<lambda>count.
     let bytes = received (io_read (k_io k)) count in
     if bytes \<noteq> [] then
       rbind (buffer_fill (read_buffer (k_p3 k)) bytes) (\<lambda>b.
       rbind (buffer_write_adv b (int (length bytes))) (\<lambda>b.
       let k = k\<lparr>k_p3 := (k_p3 k)\<lparr>read_buffer := b\<rparr>\<rparr> in
       rbind (key_set_interest OP_WRITE k) (\<lambda>(st, k).
       if st = SELECTOR_SUCCESS then
         rbind (consume_buffer mail_byte (read_buffer (k_p3 k)) (k_p3 k)) (\<lambda>(p, b).
         Inr (WRITING_MAIL, k\<lparr>k_p3 := p\<lparr>read_buffer := b\<rparr>\<rparr>))
       else Inr (WRITING_MAIL, k))))
     else Inr (ERROR, k)))"

section \<open>Writing\<close>

text \<open>\<open>send\<close> of what the buffer holds: how much was accepted, the trace, the counter and the buffer.\<close>

definition send_buffer :: "int \<Rightarrow> nat \<Rightarrow> key \<Rightarrow> key res" where
  "send_buffer fd accepted k =
     rbind (buffer_read_ptr (write_buffer (k_p3 k))) (\<lambda>bytes.
     let n = min accepted (length bytes); w = k_world k in
     rbind (buffer_read_adv (write_buffer (k_p3 k)) (int n)) (\<lambda>b.
     Inr (k\<lparr>k_world := w\<lparr>w_sent := w_sent w @ [(fd, take n bytes)],
              transfer_bytes := transfer_bytes w + of_nat n\<rparr>,
            k_p3 := (k_p3 k)\<lparr>write_buffer := b\<rparr>\<rparr>)))"

definition client_write :: "nat \<Rightarrow> key \<Rightarrow> (nat \<times> key) res" where
  "client_write cur k =
     rbind (client_buffers (k_p3 k)) (\<lambda>_.
     rbind (buffer_read_ptr (write_buffer (k_p3 k))) (\<lambda>_.
     rbind (case io_send (k_io k) of
         None \<Rightarrow> Inr (ERROR, k)
       | Some n \<Rightarrow>
           rbind (send_buffer (k_fd k) n k) (\<lambda>k.
           if \<not> buffer_can_read (write_buffer (k_p3 k)) then
             rbind (key_set_interest OP_READ k) (\<lambda>(st, k).
             Inr (if st = SELECTOR_SUCCESS then cur else ERROR, k))
           else Inr (cur, k))) (\<lambda>(ret, k).
     Inr (if ret = UPDATE then DONE else ret, k))))"

definition mail_write :: "nat \<Rightarrow> key \<Rightarrow> (nat \<times> key) res" where
  "mail_write cur k =
     rbind (client_mail (k_p3 k)) (\<lambda>(mail_fd, socket_fd).
     rbind (buffer_read_ptr (write_buffer (k_p3 k))) (\<lambda>_.
     rbind (case io_send (k_io k) of
         None \<Rightarrow> Inr (if io_reset (k_io k) then ERROR else cur, k)
       | Some n \<Rightarrow>
           rbind (send_buffer socket_fd n k) (\<lambda>k.
           if \<not> buffer_can_read (write_buffer (k_p3 k)) then
             rbind (key_set_interest OP_READ k) (\<lambda>(st, k).
             Inr (if st = SELECTOR_SUCCESS then READING_MAIL else ERROR, k))
           else Inr (cur, k))) (\<lambda>(ret, k).
     if mail_done (k_p3 k) \<noteq> 0 then
       rbind (key_unregister mail_fd k) (\<lambda>(_, k).
       let p = k_p3 k in
       Inr (TRANSACTION, k\<lparr>k_p3 := p\<lparr>mail_done := 0, read_buffer := buffer_reset (read_buffer p),
              write_buffer := buffer_reset (write_buffer p)\<rparr>\<rparr>))
     else Inr (ret, k))))"

definition go_to_done :: "nat \<Rightarrow> key \<Rightarrow> (nat \<times> key) res" where
  "go_to_done cur k = Inr (DONE, k)"

section \<open>The table\<close>

definition no_state :: "nat \<Rightarrow> key state_definition" where
  "no_state n = \<lparr>sd_state = n, on_arrival = None, on_departure = None, on_read_ready = None, on_write_ready = None,
     on_block_ready = None\<rparr>"

definition client_statbl :: "key state_definition list" where
  "client_statbl =
     [(no_state AUTH)\<lparr>on_arrival := Some auth_init, on_read_ready := Some client_read, on_write_ready := Some client_write\<rparr>,
      (no_state TRANSACTION)\<lparr>on_arrival := Some trans_init, on_read_ready := Some client_read,
        on_write_ready := Some client_write\<rparr>,
      (no_state READING_MAIL)\<lparr>on_arrival := Some reading_init, on_read_ready := Some filesystem_read,
        on_write_ready := Some mail_write\<rparr>,
      (no_state WRITING_MAIL)\<lparr>on_read_ready := Some filesystem_read, on_write_ready := Some mail_write\<rparr>,
      (no_state UPDATE)\<lparr>on_arrival := Some delete_mails, on_read_ready := Some go_to_done,
        on_write_ready := Some client_write\<rparr>,
      (no_state DONE)\<lparr>on_arrival := Some close_connection\<rparr>,
      (no_state ERROR)\<lparr>on_arrival := Some error_function\<rparr>]"

definition pop3_stm :: "nat option \<Rightarrow> key state_machine" where
  "pop3_stm cur = \<lparr>stm_initial = AUTH, stm_states = client_statbl, stm_max_state = ERROR, stm_current = cur\<rparr>"

section \<open>Connections\<close>

definition pop3_zero :: "int \<Rightarrow> pop3" where
  "pop3_zero fd =
   \<lparr>cred_user = None, cred_pass = None, total_octates = 0, original_total_octates = 0, mail_qty = 0, max_index = 0,
    mails = None, dele_flags = replicate MAX_MAILS 0, p_stm = None, client_fd = fd,
    read_buffer = buffer_init BUFFER_SIZE (replicate BUFFER_SIZE 0),
    write_buffer = buffer_init BUFFER_SIZE (replicate BUFFER_SIZE 0), selected_mail = 0, selected_mail_fd = 0,
    p_parser = create_parser, client = Untouched, byte_stuffing_st = 0, mail_done = 0\<rparr>"

definition pop3_new :: "bool \<Rightarrow> int \<Rightarrow> world \<Rightarrow> (nat option \<times> world) res" where
  "pop3_new mem fd w =
     (if \<not> mem then Inr (None, w)
      else if \<exists>b \<in> set (head_connection w). w_conns w b = None then Inl UseAfterFree
      else
        rbind (stm_init (pop3_stm None)) (\<lambda>stm.
        let a = w_next w in
        Inr (Some a, w\<lparr>w_next := Suc a, connections := connections w + 1,
          historic_connections := historic_connections w + 1, head_connection := head_connection w @ [a],
          w_conns := (w_conns w)(a \<mapsto> (pop3_zero fd)\<lparr>p_stm := stm_current stm\<rparr>)\<rparr>)))"

text \<open>The failure path destroys the connection, also when there is none yet.\<close>

definition pop3_fail :: "int \<Rightarrow> nat option \<Rightarrow> world \<Rightarrow> world res" where
  "pop3_fail fd a w =
     (let w = (if fd \<noteq> - 1 then close_fd fd w else w)
      in case a of None \<Rightarrow> Inl NullDeref | Some a \<Rightarrow> pop3_destroy a w)"

definition pop3_passive_accept :: "io \<Rightarrow> world \<Rightarrow> world res" where
  "pop3_passive_accept io w =
     (let fd = io_accept io in
      if fd = - 1 \<or> \<not> io_nio io then pop3_fail fd None w
      else
        rbind (pop3_new (io_mem io) fd w) (\<lambda>(a, w).
        case a of
          None \<Rightarrow> pop3_fail fd None w
        | Some i \<Rightarrow>
            rbind (register_fd (io_mem io) fd Pop3_handler OP_WRITE (Some (Pop3_data i)) w) (\<lambda>(st, w).
            if st \<noteq> SELECTOR_SUCCESS then pop3_fail fd (Some i) w else Inr w)))"

definition pop3_done :: "nat \<Rightarrow> world \<Rightarrow> world res" where
  "pop3_done a w =
     (case w_conns w a of
       None \<Rightarrow> Inl UseAfterFree
     | Some p \<Rightarrow>
         rbind (if selected_mail_fd p \<noteq> 0 then unregister_fd (selected_mail_fd p) w else Inr (SELECTOR_SUCCESS, w))
           (\<lambda>(_, w).
         if client_fd p \<noteq> - 1 then
           rbind (unregister_fd (client_fd p) w) (\<lambda>(st, w).
           if st \<noteq> SELECTOR_SUCCESS then Inl Aborted else Inr (close_fd (client_fd p) w))
         else Inr w))"

text \<open>The three callbacks of a registered descriptor differ in the event they give the machine.\<close>

definition pop3_event ::
  "(key state_machine \<Rightarrow> key \<Rightarrow> (nat \<times> key state_machine \<times> key) res) \<Rightarrow> io \<Rightarrow> int \<Rightarrow> attachment option \<Rightarrow> world
    \<Rightarrow> world res" where
  "pop3_event handler io fd data w =
     (case data of
       Some (Pop3_data a) \<Rightarrow>
         (case w_conns w a of
           None \<Rightarrow> Inl UseAfterFree
         | Some p \<Rightarrow>
             rbind (handler (pop3_stm (p_stm p)) \<lparr>k_fd = fd, k_self = a, k_io = io, k_p3 = p, k_world = w\<rparr>)
               (\<lambda>(st, stm, k).
             let w = (k_world k)\<lparr>w_conns := (w_conns (k_world k))(a \<mapsto> (k_p3 k)\<lparr>p_stm := stm_current stm\<rparr>)\<rparr>
             in if st = ERROR \<or> st = DONE then pop3_done a w else Inr w))
     | Some _ \<Rightarrow> Inl UninitRead
     | None \<Rightarrow> Inl NullDeref)"

definition pop3_read :: "io \<Rightarrow> int \<Rightarrow> attachment option \<Rightarrow> world \<Rightarrow> world res" where
  "pop3_read = pop3_event stm_handler_read"

definition pop3_write :: "io \<Rightarrow> int \<Rightarrow> attachment option \<Rightarrow> world \<Rightarrow> world res" where
  "pop3_write = pop3_event stm_handler_write"

definition pop3_block :: "io \<Rightarrow> int \<Rightarrow> attachment option \<Rightarrow> world \<Rightarrow> world res" where
  "pop3_block = pop3_event stm_handler_block"

section \<open>Facts the callbacks share\<close>

lemma received_length: "length (received r n) \<le> n"
  by (simp add: received_def split: option.split)

definition selectable :: "key \<Rightarrow> bool" where
  "selectable k \<longleftrightarrow> selector_inv (w_sel (k_world k)) \<and> (\<exists>it. registered (w_sel (k_world k)) (k_fd k) = Some it)"

lemma key_set_interest_ok:
  assumes "selector_inv (w_sel (k_world k))" "registered (w_sel (k_world k)) (k_fd k) = Some it"
  shows "\<exists>s. key_set_interest i k = Inr (SELECTOR_SUCCESS, k\<lparr>k_world := (k_world k)\<lparr>w_sel := s\<rparr>\<rparr>) \<and> selector_inv s
    \<and> registered s = (registered (w_sel (k_world k)))(k_fd k \<mapsto> it\<lparr>it_interest := i\<rparr>)"
  using set_interest_ok [OF assms, of i] by (auto simp: key_set_interest_def set_interest_key_def)

text \<open>The other fields of a key and what a change of interest leaves alone.\<close>

definition same_rest :: "key \<Rightarrow> key \<Rightarrow> bool" where
  "same_rest k k' \<longleftrightarrow> (\<exists>p s. same_owners (w_sel (k_world k)) s
     \<and> k' = k\<lparr>k_p3 := p, k_world := (k_world k)\<lparr>w_sel := s\<rparr>\<rparr>)"

lemma same_rest_refl [simp]: "same_rest k k"
  unfolding same_rest_def by (intro exI [of _ "k_p3 k"] exI [of _ "w_sel (k_world k)"]) simp

lemma same_rest_p3:
  assumes "same_rest k k'"
  shows "same_rest k (k'\<lparr>k_p3 := p\<rparr>)"
proof -
  from assms obtain q s where "same_owners (w_sel (k_world k)) s"
    "k' = k\<lparr>k_p3 := q, k_world := (k_world k)\<lparr>w_sel := s\<rparr>\<rparr>" by (auto simp: same_rest_def)
  then show ?thesis unfolding same_rest_def by (intro exI [of _ p] exI [of _ s]) simp
qed

lemma same_rest_trans: "same_rest k k1 \<Longrightarrow> same_rest k1 k2 \<Longrightarrow> same_rest k k2"
  by (force simp: same_rest_def dest: same_owners_trans)

lemma key_set_interest_rest:
  assumes "key_set_interest i k = Inr (st, k')"
  shows "same_rest k k' \<and> k_p3 k' = k_p3 k"
proof -
  from assms obtain s where s: "selector_set_interest_key (w_sel (k_world k)) (k_fd k) i = Inr (st, s)"
    "k' = k\<lparr>k_world := (k_world k)\<lparr>w_sel := s\<rparr>\<rparr>"
    by (auto simp: key_set_interest_def set_interest_key_def rbind_eq_Inr)
  have "same_rest k k'"
    unfolding same_rest_def
    by (rule exI [of _ "k_p3 k"], rule exI [of _ s]) (use set_interest_owners [OF s(1)] s(2) in simp)
  with s(2) show ?thesis by simp
qed

lemma same_rest_sel:
  assumes "same_rest k k'"
  shows "key_env k' = key_env k" "k_fd k' = k_fd k" "k_self k' = k_self k" "k_io k' = k_io k"
    "w_conns (k_world k') = w_conns (k_world k)" "w_users (k_world k') = w_users (k_world k)"
    "same_owners (w_sel (k_world k)) (w_sel (k_world k'))"
  using assms by (auto simp: same_rest_def key_env_def)

end
