(* ===== verification/Frames.thy ===== *)
theory Frames
  imports Commands
begin

text \<open>
  What every call that returns keeps, whatever the directory, the arguments and the session: the
  invariant of the mailbox, that of the write buffer, and the fields a handler has no business with.
  Nothing is assumed of the operating system here, so a call may also fail; these lemmas are about the
  calls that do not.
\<close>

section \<open>Loading a mailbox\<close>

lemma for_nat_keeps:
  assumes "for_nat body n i s = Inr s'" "P s"
    and "\<And>j s s'. body j s = Inr s' \<Longrightarrow> P s \<Longrightarrow> P s'"
  shows "P s'"
  using assms(1,2)
proof (induction n arbitrary: i s)
  case 0
  then show ?case by simp
next
  case (Suc n)
  then show ?case using assms(3) by (auto simp: res_simps)
qed

lemma unat_max_u32: "unat (- 1 :: u32) = 2 ^ 32 - 1"
  by (simp add: unsigned_minus_1_eq_mask mask_eq_exp_minus_1)

lemma for_le_max_skip: "for_le (\<lambda>i s. Inr s) m s = Inr s' \<Longrightarrow> unat m < 2 ^ 32 - 1 \<and> s' = s"
proof (cases "m = - 1")
  case True
  then show "for_le (\<lambda>i s. Inr s) m s = Inr s' \<Longrightarrow> ?thesis" by (simp add: for_le_max)
next
  case False
  then have "unat m \<noteq> unat (- 1 :: u32)" by (simp add: word_unat_eq_iff)
  then have "unat m \<noteq> 2 ^ 32 - 1" by (simp add: unat_max_u32)
  moreover have "unat m < 2 ^ 32" using unat_lt [of m] by simp
  ultimately have "unat m < 2 ^ 32 - 1" by linarith
  then show "for_le (\<lambda>i s. Inr s) m s = Inr s' \<Longrightarrow> ?thesis" by (simp add: for_le_skip)
qed

definition same_session :: "'a mailbox_scheme \<Rightarrow> 'a mailbox_scheme \<Rightarrow> bool" where
  "same_session m m' \<longleftrightarrow> cred_user m' = cred_user m \<and> cred_pass m' = cred_pass m \<and> dele_flags m' = dele_flags m
     \<and> mailbox.more m' = mailbox.more m"

lemma same_session_refl [simp]: "same_session m m"
  by (simp add: same_session_def)

lemma same_session_trans: "same_session m m1 \<Longrightarrow> same_session m1 m2 \<Longrightarrow> same_session m m2"
  by (simp add: same_session_def)

lemma same_session_upd [simp]:
  "same_session m (m'\<lparr>mails := sl\<rparr>) = same_session m m'"
  "same_session m (m'\<lparr>mail_qty := n\<rparr>) = same_session m m'"
  "same_session m (m'\<lparr>max_index := n\<rparr>) = same_session m m'"
  "same_session m (m'\<lparr>total_octates := oct\<rparr>) = same_session m m'"
  "same_session m (m'\<lparr>original_total_octates := oct\<rparr>) = same_session m m'"
  by (simp_all add: same_session_def)

text \<open>While the directory is read: the entries stored so far are mails, and there is room for the next.\<close>

definition loading :: "'a mailbox_scheme \<Rightarrow> nat \<Rightarrow> 'a mailbox_scheme \<Rightarrow> bool" where
  "loading m0 i m \<longleftrightarrow> same_session m0 m \<and> i \<le> MAX_MAILS \<and> room_for i m \<and> (\<forall>k < i. \<exists>x. mail_at m k = Inr x)"

lemma load_one_loading:
  assumes "load_one os path name (i, st, m) = Inr (i', st', m')" "i < MAX_MAILS" "loading m0 i m"
  shows "loading m0 i' m'"
proof (cases "name \<noteq> str ''.'' \<and> name \<noteq> str ''..''")
  case False
  then show ?thesis using assms load_one_dot [of name os path i st m] by auto
next
  case True
  from assms(3) have l: "same_session m0 m" "room_for i m" "\<forall>k < i. \<exists>x. mail_at m k = Inr x"
    by (simp_all add: loading_def)
  obtain sl where sl: "(if i mod BLOCK = 0 then Some (realloc_mails (BLOCK + i) (mails m)) else mails m) = Some sl"
    "i < length sl" "length sl = (if Suc i \<le> 20 then 20 else 40)"
    "\<And>k. k < i \<Longrightarrow> load_at k sl = load_at k (the (mails m)) \<and> mails m \<noteq> None"
    using grow_mails [OF assms(2) l(2)] by blast
  have "mails (if i mod BLOCK = 0 then m\<lparr>mails := Some (realloc_mails (BLOCK + i) (mails m))\<rparr> else m) = Some sl"
    using sl(1) by (auto split: if_splits)
  with assms(1) True sl(2) obtain x where m': "i' = Suc i" "mails m' = Some (sl[i := Mail x])" "same_session m m'"
    by (auto simp: load_one_def Let_def res_simps split: option.splits if_splits)
  have "\<exists>x. mail_at m' k = Inr x" if "k < Suc i" for k
  proof (cases "k = i")
    case True
    then show ?thesis using m'(2) sl(2) by (simp add: mail_at_Some)
  next
    case False
    then have k: "k < i" using that by simp
    from False have "load_at k (sl[i := Mail x]) = load_at k (the (mails m))"
      using sl(4) [OF k, THEN conjunct1, symmetric] by (simp add: load_at_def)
    then have "mail_at m' k = mail_at m k" using sl(4) [OF k] m'(2) by (auto simp: mail_at_def)
    with l(3) k show ?thesis by simp
  qed
  then show ?thesis
    using m' sl(3) same_session_trans [OF l(1)] assms(2) by (auto simp: loading_def room_for_def)
qed

lemma load_loop_loading:
  assumes "load_loop os path names (i, st, m) = Inr (i', st', m')" "loading m0 i m"
  shows "loading m0 i' m'"
  using assms
proof (induction names arbitrary: i st m)
  case Nil
  then show ?case by simp
next
  case (Cons n ns)
  show ?case
  proof (cases "i < MAX_MAILS")
    case False
    with Cons.prems show ?thesis by simp
  next
    case True
    with Cons.prems(1) obtain i1 st1 m1 where m1: "load_one os path n (i, st, m) = Inr (i1, st1, m1)"
      "load_loop os path ns (i1, st1, m1) = Inr (i', st', m')" by (auto simp: res_simps)
    from Cons.IH [OF m1(2)] load_one_loading [OF m1(1) True Cons.prems(2)] show ?thesis by simp
  qed
qed

lemma free_mails_keeps: "free_mails m = Inr m' \<Longrightarrow> mailbox_inv m \<Longrightarrow> same_session m m'"
  using free_mails_ok [of m] by auto

lemma load_mails_keeps:
  assumes "load_mails os path m = Inr m'" "mailbox_inv m"
  shows "mailbox_inv m' \<and> same_session m m'"
proof -
  from assms(1) obtain d where rest: "(case d of None \<Rightarrow> Inl NullDeref | Some names \<Rightarrow>
       rbind (if max_index m \<noteq> 0 then free_mails m else Inr m) (\<lambda>m1.
       rbind (load_loop os path names (0, None, m1\<lparr>mail_qty := 0, max_index := 0, total_octates := 0\<rparr>))
         (\<lambda>(i, _, m2).
       let m3 = m2\<lparr>max_index := of_nat i - 1\<rparr>; m4 = m3\<lparr>original_total_octates := total_octates m3\<rparr>
       in for_le (\<lambda>i s. Inr s) (max_index m4) m4))) = Inr m'"
    unfolding load_mails_def rbind_eq_Inr by blast
  then obtain names m1 x where m1: "(if max_index m \<noteq> 0 then free_mails m else Inr m) = Inr m1"
    and x: "load_loop os path names (0, None, m1\<lparr>mail_qty := 0, max_index := 0, total_octates := 0\<rparr>) = Inr x"
      "(\<lambda>(i, _, m2). let m3 = m2\<lparr>max_index := of_nat i - 1\<rparr>;
         m4 = m3\<lparr>original_total_octates := total_octates m3\<rparr>
       in for_le (\<lambda>i s. Inr s) (max_index m4) m4) x = Inr m'"
    by (cases d) (simp_all only: option.case rbind_eq_Inr, auto)
  obtain i st m2 where xs: "x = (i, st, m2)" by (cases x)
  from x xs have
    m2: "load_loop os path names (0, None, m1\<lparr>mail_qty := 0, max_index := 0, total_octates := 0\<rparr>) = Inr (i, st, m2)"
    and end_loop: "for_le (\<lambda>i s. Inr s) (of_nat i - 1)
       (m2\<lparr>max_index := of_nat i - 1, original_total_octates := total_octates m2\<rparr>) = Inr m'"
    by (simp_all add: Let_def)
  from m1 assms(2) have "same_session m m1" by (auto split: if_splits dest: free_mails_keeps)
  then have "loading m 0 (m1\<lparr>mail_qty := 0, max_index := 0, total_octates := 0\<rparr>)"
    by (simp add: loading_def room_for_def)
  from load_loop_loading [OF m2 this] have l: "loading m i m2" .
  from for_le_max_skip [OF end_loop] have m': "unat (of_nat i - 1 :: u32) < 2 ^ 32 - 1"
    "m' = m2\<lparr>max_index := of_nat i - 1, original_total_octates := total_octates m2\<rparr>" by simp_all
  have i: "0 < i" using m'(1) unat_max_u32 by (cases i) auto
  have le: "i \<le> 30" using l by (simp add: loading_def MAX_MAILS_def)
  have "(of_nat i - 1 :: u32) = of_nat (i - 1)" using i by (cases i) auto
  moreover have "unat (of_nat (i - 1) :: u32) = i - 1" using le by (intro unat_of_nat_u32) simp
  ultimately have u: "unat (of_nat i - 1 :: u32) = i - 1" by simp
  have f: "dele_flags m2 = dele_flags m" using l by (simp add: loading_def same_session_def)
  have "\<exists>x. mail_at m' k = Inr x" if "k \<le> i - 1" for k
    using l that i m'(2) by (auto simp: loading_def mail_at_def)
  moreover have "mails m' \<noteq> None"
    using calculation [of 0] by (auto simp: mail_at_def split: option.splits)
  ultimately show ?thesis
    using l m'(2) u i le f assms(2) by (auto simp: mailbox_inv_def MAX_MAILS_def loading_def)
qed

section \<open>Handlers\<close>

text \<open>What no handler touches.\<close>

definition kept :: "pop3 \<Rightarrow> pop3 \<Rightarrow> bool" where
  "kept p p' \<longleftrightarrow> p_stm p' = p_stm p \<and> client_fd p' = client_fd p \<and> read_buffer p' = read_buffer p
     \<and> p_parser p' = p_parser p \<and> client p' = client p \<and> byte_stuffing_st p' = byte_stuffing_st p
     \<and> mail_done p' = mail_done p"

definition same_user :: "pop3 \<Rightarrow> pop3 \<Rightarrow> bool" where
  "same_user p p' \<longleftrightarrow> cred_user p' = cred_user p \<and> cred_pass p' = cred_pass p"

definition fit :: "pop3 \<Rightarrow> bool" where
  "fit p \<longleftrightarrow> mailbox_inv p \<and> buffer_inv (write_buffer p)"

lemma kept_refl [simp]: "kept p p"
  by (simp add: kept_def)

lemma kept_trans: "kept p p1 \<Longrightarrow> kept p1 p2 \<Longrightarrow> kept p p2"
  by (simp add: kept_def)

lemma same_user_refl [simp]: "same_user p p"
  by (simp add: same_user_def)

lemma same_user_trans: "same_user p p1 \<Longrightarrow> same_user p1 p2 \<Longrightarrow> same_user p p2"
  by (simp add: same_user_def)

lemma same_session_kept:
  fixes p :: pop3
  shows "same_session p p' \<Longrightarrow> kept p p' \<and> same_user p p' \<and> write_buffer p' = write_buffer p
    \<and> selected_mail_fd p' = selected_mail_fd p"
  by (cases p; cases p') (simp add: same_session_def kept_def same_user_def)

text \<open>Everything a step of a handler owes: the invariants, the untouched fields and the user.\<close>

definition tame :: "pop3 \<Rightarrow> pop3 \<Rightarrow> bool" where
  "tame p p' \<longleftrightarrow> (fit p \<longrightarrow> fit p') \<and> kept p p' \<and> same_user p p' \<and> selected_mail_fd p' = selected_mail_fd p"

text \<open>Only RETR picks a descriptor, which \<open>open\<close> has given, and goes to \<open>READING_MAIL\<close> with it.\<close>

definition picks :: "command_env \<Rightarrow> pop3 \<Rightarrow> nat \<Rightarrow> pop3 \<Rightarrow> bool" where
  "picks env p st p' \<longleftrightarrow> st = READING_MAIL
     \<and> (\<exists>f. 0 \<le> open_mail (ce_os env) f \<and> p' = p\<lparr>selected_mail_fd := open_mail (ce_os env) f\<rparr>)"

lemma picks_kept: "picks env p st p' \<Longrightarrow> fit p' = fit p \<and> kept p p' \<and> same_user p p'"
  by (auto simp: picks_def fit_def kept_def same_user_def mailbox_inv_def mail_at_def room_for_def)

lemma tame_refl [simp]: "tame p p"
  by (simp add: tame_def)

lemma tame_trans [trans]: "tame p p1 \<Longrightarrow> tame p1 p2 \<Longrightarrow> tame p p2"
  unfolding tame_def using kept_trans same_user_trans by metis

lemma load_tame: "load_mails os path p = Inr p' \<Longrightarrow> fit p \<Longrightarrow> tame p p'"
  using load_mails_keeps [of os path p p'] same_session_kept [of p p'] by (simp add: tame_def fit_def)

lemma mailbox_inv_upd [simp]:
  "mailbox_inv (p\<lparr>write_buffer := b\<rparr>) = mailbox_inv p" "mailbox_inv (p\<lparr>selected_mail := n\<rparr>) = mailbox_inv p"
  "mailbox_inv (p\<lparr>selected_mail_fd := fd\<rparr>) = mailbox_inv p" "mailbox_inv (p\<lparr>cred_user := u\<rparr>) = mailbox_inv p"
  "mailbox_inv (p\<lparr>cred_pass := u\<rparr>) = mailbox_inv p" "mailbox_inv (p\<lparr>mail_qty := q\<rparr>) = mailbox_inv p"
  "mailbox_inv (p\<lparr>total_octates := oct\<rparr>) = mailbox_inv p" "mailbox_inv (p\<lparr>client := cl\<rparr>) = mailbox_inv p"
  "mailbox_inv (p\<lparr>read_buffer := b\<rparr>) = mailbox_inv p" "mailbox_inv (p\<lparr>p_parser := pa\<rparr>) = mailbox_inv p"
  "mailbox_inv (p\<lparr>p_stm := sm\<rparr>) = mailbox_inv p" "mailbox_inv (p\<lparr>mail_done := d\<rparr>) = mailbox_inv p"
  "mailbox_inv (p\<lparr>byte_stuffing_st := bs\<rparr>) = mailbox_inv p"
  by (simp_all add: mailbox_inv_def mail_at_def)

lemma mailbox_inv_flags: "length d = length (dele_flags p) \<Longrightarrow> mailbox_inv (p\<lparr>dele_flags := d\<rparr>) = mailbox_inv p"
  by (simp add: mailbox_inv_def mail_at_def)

lemma reply_tame: "reply s p = Inr p' \<Longrightarrow> fit p \<Longrightarrow> tame p p'"
  using reply_ok [of p s] by (auto simp: tame_def fit_def kept_def same_user_def dest: said_inv)

lemma write_to_buffer_tame:
  "write_to_buffer s (write_buffer p) = Inr (r, b) \<Longrightarrow> fit p \<Longrightarrow> tame p (p\<lparr>write_buffer := b\<rparr>)"
  using write_to_buffer_ok [of "write_buffer p" s]
  by (auto simp: tame_def fit_def kept_def same_user_def dest: said_inv)

lemma fit_tame: "tame p p' \<Longrightarrow> fit p \<Longrightarrow> fit p'"
  by (simp add: tame_def)

lemma selected_tame [simp]: "tame p (p'\<lparr>selected_mail := n\<rparr>) = tame p p'"
  by (simp add: tame_def fit_def kept_def same_user_def)

lemma flags_tame: "store_at i v (dele_flags p) = Inr d \<Longrightarrow> tame p (p\<lparr>dele_flags := d\<rparr>)"
  by (auto simp: store_at_def tame_def fit_def kept_def same_user_def mailbox_inv_flags split: if_splits)

text \<open>Composing the steps of a handler.\<close>

lemma tame_step: "tame p p1 \<Longrightarrow> fit p \<Longrightarrow> (fit p1 \<Longrightarrow> tame p1 p2) \<Longrightarrow> tame p p2"
  using fit_tame tame_trans by blast

lemma selected_left [simp]: "tame (p\<lparr>selected_mail := n\<rparr>) p' = tame p p'" "fit (p\<lparr>selected_mail := n\<rparr>) = fit p"
  by (simp_all add: tame_def fit_def kept_def same_user_def)

lemma retr_tame:
  fixes p :: pop3
  assumes "retr_handler env cur arg1 p = Inr (st, p')" "fit p"
  shows "\<exists>q. tame p q \<and> (p' = q \<and> st \<in> {cur, TRANSACTION, ERROR} \<or> picks env q st p')"
proof -
  from assms(1) obtain p1 where p1: "load_mails (ce_os env) (ce_maildir env) p = Inr p1"
    by (auto simp: retr_handler_def rbind_eq_Inr)
  note t = load_tame [OF p1 assms(2)]
  have f: "fit p1" using fit_tame [OF t assms(2)] .
  have read: "tame p1 p2" if "reply s (p1\<lparr>selected_mail := n\<rparr>) = Inr p2" for s n p2
    using reply_tame [OF that] f by simp
  have "\<exists>q. tame p1 q \<and> (p' = q \<and> st \<in> {cur, TRANSACTION, ERROR} \<or> picks env q st p')"
  proof (cases arg1)
    case None
    with assms(1) reply_tame [OF _ f] show ?thesis by (auto simp: retr_handler_def p1 rbind_eq_Inr)
  next
    case (Some a)
    show ?thesis
    proof (cases "atoi a = 0 \<or> atoi a - 1 > max_index p1")
      case True
      with assms(1) Some reply_tame [OF _ f] show ?thesis
        by (cases "atoi a = 0") (auto simp: retr_handler_def p1 rbind_eq_Inr)
    next
      case False
      with assms(1) Some obtain flag :: byte where
        "(if flag \<noteq> 0 then rbind (reply ALREADY_DELE_MSG p1) (\<lambda>p. Inr (TRANSACTION, p))
           else
             rbind (reply POSITIVE_MSG (p1\<lparr>selected_mail := atoi a - 1\<rparr>)) (\<lambda>p.
             rbind (mail_at p (unat (selected_mail p))) (\<lambda>mail.
             let fd = open_mail (ce_os env) (file_path mail) in
             if fd < 0 then Inr (ERROR, p)
             else Inr (READING_MAIL, p\<lparr>selected_mail_fd := fd\<rparr>)))) = Inr (st, p')"
        by (simp add: retr_handler_def p1 Let_def [of "atoi a"] rbind_eq_Inr [of "load_at i xs" for i xs]) blast
      then have "(flag \<noteq> 0 \<and> reply ALREADY_DELE_MSG p1 = Inr p' \<and> st = TRANSACTION)
          \<or> (\<exists>p2. reply POSITIVE_MSG (p1\<lparr>selected_mail := atoi a - 1\<rparr>) = Inr p2
            \<and> (p' = p2 \<and> st = ERROR \<or> picks env p2 st p'))"
        unfolding picks_def
        by (cases "flag = 0") (auto simp: rbind_eq_Inr Let_def not_less split: if_splits)
      with read reply_tame [OF _ f] show ?thesis by blast
    qed
  qed
  with tame_trans [OF t] show ?thesis by blast
qed

lemma dele_tame:
  fixes p :: pop3
  assumes "dele_handler env cur arg1 p = Inr (st, p')" "fit p"
  shows "tame p p' \<and> st \<in> {cur, TRANSACTION}"
proof -
  from assms(1) obtain p1 where p1: "load_mails (ce_os env) (ce_maildir env) p = Inr p1"
    by (auto simp: dele_handler_def rbind_eq_Inr)
  note t = load_tame [OF p1 assms(2)]
  have f: "fit p1" using fit_tame [OF t assms(2)] .
  have dele: "tame p1 p2" if "store_at i v (dele_flags p1) = Inr d" "reply s (p1\<lparr>dele_flags := d\<rparr>) = Inr p2" for i v d s p2
    using flags_tame [OF that(1)] reply_tame [OF that(2)] fit_tame [OF _ f] tame_trans by blast
  have "((\<exists>s. reply s p1 = Inr p')
      \<or> (\<exists>i v d s. store_at i v (dele_flags p1) = Inr d \<and> reply s (p1\<lparr>dele_flags := d\<rparr>) = Inr p'))
    \<and> st \<in> {cur, TRANSACTION}"
    using assms(1) by (auto simp: dele_handler_def p1 Let_def rbind_eq_Inr split: option.splits if_splits)
  with dele reply_tame [OF _ f] have "tame p1 p' \<and> st \<in> {cur, TRANSACTION}" by blast
  with tame_trans [OF t] show ?thesis by blast
qed

lemma stat_tame:
  fixes p :: pop3
  assumes "stat_handler env p = Inr (st, p')" "fit p"
  shows "tame p p' \<and> st = TRANSACTION"
proof -
  from assms(1) obtain p1 where p1: "load_mails (ce_os env) (ce_maildir env) p = Inr p1"
    by (auto simp: stat_handler_def rbind_eq_Inr)
  note t = load_tame [OF p1 assms(2)]
  from assms(1) have "tame p1 p' \<and> st = TRANSACTION"
    using reply_tame [OF _ fit_tame [OF t assms(2)]] by (auto simp: stat_handler_def p1 rbind_eq_Inr)
  with tame_trans [OF t] show ?thesis by blast
qed

lemma list_one_tame: "list_one i p = Inr p' \<Longrightarrow> fit p \<Longrightarrow> tame p p'"
  using reply_tame by (auto simp: list_one_def rbind_eq_Inr split: if_splits)

lemma for_le_keeps:
  assumes "for_le body m s = Inr s'" "P s" "unat m < 2 ^ 32 - 1"
    and "\<And>j s s'. body j s = Inr s' \<Longrightarrow> P s \<Longrightarrow> P s'"
  shows "P s'"
  using for_nat_keeps [of body "Suc (unat m)" 0 s s' P] assms for_le_nat [OF assms(3), of body s] by metis

lemma fit_max: "fit p \<Longrightarrow> unat (max_index p) < 2 ^ 32 - 1"
  by (simp add: fit_def mailbox_inv_def MAX_MAILS_def)

lemma list_tame:
  fixes p :: pop3
  assumes "list_handler env arg1 p = Inr (st, p')" "fit p"
  shows "tame p p' \<and> st = TRANSACTION"
proof -
  from assms(1) obtain p1 where p1: "load_mails (ce_os env) (ce_maildir env) p = Inr p1"
    by (auto simp: list_handler_def rbind_eq_Inr)
  note t = load_tame [OF p1 assms(2)]
  have f: "fit p1" using fit_tame [OF t assms(2)] .
  have "tame p1 p' \<and> st = TRANSACTION"
  proof (cases arg1)
    case None
    with assms(1) obtain s p2 p3 where p2: "reply s p1 = Inr p2" "for_le list_one (max_index p2) p2 = Inr p3"
      "reply (str ''.'' @ [LF]) p3 = Inr p'" "st = TRANSACTION"
      by (auto simp: list_handler_def p1 rbind_eq_Inr simp del: str_Cons)
    note t2 = reply_tame [OF p2(1) f]
    note f2 = fit_tame [OF t2 f]
    have t3: "tame p2 p3"
      by (rule for_le_keeps [OF p2(2) _ fit_max [OF f2], of "tame p2"])
        (auto intro: tame_trans list_one_tame dest: fit_tame [OF _ f2])
    have "tame p3 p'" using reply_tame [OF p2(3)] fit_tame [OF t3 f2] .
    with t2 t3 p2(4) show ?thesis using tame_trans by blast
  next
    case (Some a)
    have two: "tame p1 p3" if "reply s p1 = Inr p2" "reply r p2 = Inr p3" for s r p2 p3
      using reply_tame [OF that(1) f] reply_tame [OF that(2)] fit_tame [OF _ f] tame_trans by blast
    have "((\<exists>s. reply s p1 = Inr p') \<or> (\<exists>s r p2. reply s p1 = Inr p2 \<and> reply r p2 = Inr p')) \<and> st = TRANSACTION"
      using assms(1) Some by (auto simp: list_handler_def p1 Let_def rbind_eq_Inr split: if_splits)
    with two reply_tame [OF _ f] show ?thesis by blast
  qed
  with tame_trans [OF t] show ?thesis by blast
qed

lemma rset_tame:
  fixes p :: pop3
  assumes "rset_handler cur p = Inr (st, p')" "fit p"
  shows "tame p p' \<and> st = cur"
proof -
  from assms(1) obtain p1 s where p1:
    "for_le (\<lambda>i p. rbind (store_at (unat i) 0 (dele_flags p)) (\<lambda>flags. Inr (p\<lparr>dele_flags := flags\<rparr>)))
       (max_index p) p = Inr p1"
    "reply s (p1\<lparr>mail_qty := max_index p1 + 1, total_octates := original_total_octates p1\<rparr>) = Inr p'" "st = cur"
    by (auto simp: rset_handler_def Let_def rbind_eq_Inr)
  have t: "tame p p1"
    by (rule for_le_keeps [OF p1(1) _ fit_max [OF assms(2)], of "tame p"])
      (auto simp: rbind_eq_Inr intro: tame_trans flags_tame)
  have "tame p1 (p1\<lparr>mail_qty := max_index p1 + 1, total_octates := original_total_octates p1\<rparr>)"
    by (simp add: tame_def fit_def kept_def same_user_def)
  from tame_trans [OF t this] reply_tame [OF p1(2)] fit_tame [OF _ assms(2)] p1(3) tame_trans
  show ?thesis by blast
qed

text \<open>The commands a logged-in client can give: the user stays the same.\<close>

lemma transaction_tame:
  fixes p :: pop3
  assumes "command_handler h env cur a1 a2 p = Inr (st, p')" "fit p"
    and "h \<in> {Noop, Stat, List, Retr, Dele, Rset, Trans_capa, Trans_quit, Invalid}"
  shows "\<exists>q. tame p q \<and> (p' = q \<and> st \<in> {cur, TRANSACTION, UPDATE, ERROR} \<or> picks env q st p')"
proof (cases h)
  case Stat
  with stat_tame assms(1,2) show ?thesis by fastforce
next
  case List
  with list_tame assms(1,2) show ?thesis by fastforce
next
  case Retr
  with retr_tame assms(1,2) show ?thesis by fastforce
next
  case Dele
  with dele_tame assms(1,2) show ?thesis by fastforce
next
  case Rset
  with rset_tame assms(1,2) show ?thesis by fastforce
qed (use assms reply_tame in \<open>auto simp: noop_def trans_capa_handler_def trans_quit_handler_def
    invalid_command_handler_def rbind_eq_Inr\<close>)

lemma transaction_kept:
  fixes p :: pop3
  assumes "command_handler h env cur a1 a2 p = Inr (st, p')" "fit p"
    and "h \<in> {Noop, Stat, List, Retr, Dele, Rset, Trans_capa, Trans_quit, Invalid}"
  shows "fit p' \<and> kept p p' \<and> same_user p p' \<and> st \<in> {cur, TRANSACTION, READING_MAIL, UPDATE, ERROR}"
proof -
  from transaction_tame [OF assms] obtain q where
    q: "tame p q" "p' = q \<and> st \<in> {cur, TRANSACTION, UPDATE, ERROR} \<or> picks env q st p'" by blast
  from q(2) show ?thesis
  proof
    assume "picks env q st p'"
    with q(1) picks_kept [OF this] assms(2) kept_trans same_user_trans show ?thesis
      unfolding tame_def picks_def by blast
  qed (use q(1) assms(2) in \<open>auto simp: tame_def\<close>)
qed

lemma auth_fit:
  fixes p :: pop3
  assumes "command_handler h env cur a1 a2 p = Inr (st, p')" "fit p"
    and "h \<in> {Auth_capa, User, Pass, Auth_quit}"
  shows "fit p' \<and> kept p p' \<and> selected_mail_fd p' = selected_mail_fd p"
proof -
  have up: "fit p' \<and> kept p p' \<and> selected_mail_fd p' = selected_mail_fd p" if "tame (p\<lparr>cred_user := u, cred_pass := v\<rparr>) p'" for u v
    using that assms(2) by (simp add: tame_def fit_def kept_def)
  have u: "fit p' \<and> kept p p' \<and> selected_mail_fd p' = selected_mail_fd p" if "reply s (p\<lparr>cred_user := u\<rparr>) = Inr p'" for s u
    using reply_tame [OF that] assms(2) by (simp add: tame_def fit_def kept_def)
  have v: "fit p' \<and> kept p p' \<and> selected_mail_fd p' = selected_mail_fd p" if "reply s (p\<lparr>cred_pass := u\<rparr>) = Inr p'" for s u
    using reply_tame [OF that] assms(2) by (simp add: tame_def fit_def kept_def)
  have r: "fit p' \<and> kept p p' \<and> selected_mail_fd p' = selected_mail_fd p" if "reply s p = Inr p'" for s
    using reply_tame [OF that] assms(2) by (simp add: tame_def)
  have b: "fit (p\<lparr>write_buffer := b\<rparr>) \<and> kept p (p\<lparr>write_buffer := b\<rparr>)"
    if "write_to_buffer s (write_buffer p) = Inr (x, b)" for s x b
    using write_to_buffer_tame [OF that] assms(2) by (simp add: tame_def)
  from assms(1,3) u v r b show ?thesis
    by (auto simp: auth_capa_handler_def auth_quit_handler_def user_handler_def pass_handler_def rbind_eq_Inr
        split: option.splits if_splits)
qed

lemma handler_fit:
  fixes p :: pop3
  assumes "command_handler h env cur a1 a2 p = Inr (st, p')" "fit p"
  shows "fit p' \<and> kept p p'"
proof (cases "h \<in> {Auth_capa, User, Pass, Auth_quit}")
  case True
  with auth_fit assms show ?thesis by blast
next
  case False
  then have "h \<in> {Noop, Stat, List, Retr, Dele, Rset, Trans_capa, Trans_quit, Invalid}" by (cases h) auto
  with transaction_kept [OF assms] show ?thesis by simp
qed

text \<open>The descriptor of a mail after a command.\<close>

lemma handler_fd:
  fixes p :: pop3
  assumes "command_handler h env cur a1 a2 p = Inr (st, p')" "fit p"
  shows "selected_mail_fd p' = selected_mail_fd p
    \<or> st = READING_MAIL \<and> 0 \<le> selected_mail_fd p' \<and> (\<exists>f. selected_mail_fd p' = open_mail (ce_os env) f)"
proof (cases "h \<in> {Auth_capa, User, Pass, Auth_quit}")
  case True
  with auth_fit assms show ?thesis by blast
next
  case False
  then have "h \<in> {Noop, Stat, List, Retr, Dele, Rset, Trans_capa, Trans_quit, Invalid}" by (cases h) auto
  from transaction_tame [OF assms this] show ?thesis by (auto simp: tame_def picks_def)
qed

end
