(* ===== verification/Conversation.thy ===== *)
theory Conversation
  imports Session Frames
begin

text \<open>
  What a client's commands do (\<^verbatim>\<open>client_read\<close> and the machine around it).
\<close>

section \<open>Reading whole lines\<close>

definition with_parser :: "parser \<Rightarrow> key \<Rightarrow> key" where
  "with_parser pa k = k\<lparr>k_p3 := (k_p3 k)\<lparr>p_parser := pa\<rparr>\<rparr>"

lemma with_parser_sel [simp]:
  "p_parser (k_p3 (with_parser pa k)) = pa" "with_parser pb (with_parser pa k) = with_parser pb k"
  "k_world (with_parser pa k) = k_world k" "k_fd (with_parser pa k) = k_fd k" "k_io (with_parser pa k) = k_io k"
  "k_self (with_parser pa k) = k_self k" "k_p3 (with_parser pa k) = (k_p3 k)\<lparr>p_parser := pa\<rparr>"
  by (simp_all add: with_parser_def)

lemma with_parser_same: "p_parser (k_p3 k) = pa \<Longrightarrow> with_parser pa k = k"
  by (cases k; cases "k_p3 k") (simp add: with_parser_def)

lemma read_byte_quiet:
  assumes "parser_feed (p_parser (k_p3 k)) c = Inr pa" "\<not> pe_complete (get_last_event pa)"
  shows "read_byte cur c (st, k) = Inr ((st, with_parser pa k), False)"
  using assms by (simp add: read_byte_def with_parser_def)

lemma read_byte_complete:
  assumes "parser_feed (p_parser (k_p3 k)) c = Inr pa" "pe_complete (get_last_event pa)"
    and "key_set_interest OP_WRITE (with_parser pa k) = Inr (SELECTOR_SUCCESS, k')"
  shows "read_byte cur c (st, k) =
    rbind (comparator (get_last_event pa) st) (\<lambda>h.
    rbind (event_string 1 (get_last_event pa)) (\<lambda>arg1.
    rbind (event_string 2 (get_last_event pa)) (\<lambda>arg2.
    rbind (command_handler h (key_env k') cur arg1 arg2 (k_p3 k')) (\<lambda>(next, p).
    Inr ((next, k'\<lparr>k_p3 := p\<lparr>p_parser := pa\<lparr>e1 := restart_tokenizer (get_last_event pa)\<rparr>\<rparr>\<rparr>), False)))))"
  using assms by (simp add: read_byte_def with_parser_def Let_def)

text \<open>Bytes that complete no event only move the lexer.\<close>

lemma read_quiet:
  assumes "tok_inv t" "\<forall>n \<le> length cs. \<not> k_done (tok_run t (take n cs))"
  shows "feed_until (read_byte cur) (cs @ ds) (st, with_parser (parser_of t) k)
      = feed_until (read_byte cur) ds (st, with_parser (parser_of (tok_run t cs)) k) \<and> tok_inv (tok_run t cs)"
  using assms
proof (induction cs arbitrary: t)
  case Nil
  then show ?case by simp
next
  case (Cons c cs)
  have nd: "\<not> k_done (tok_step t c)" using Cons.prems(2) [rule_format, of 1] by simp
  then have inv: "tok_inv (tok_step t c)" using tok_step_inv [OF Cons.prems(1), of c] by simp
  have quiet: "\<forall>n \<le> length cs. \<not> k_done (tok_run (tok_step t c) (take n cs))"
    using Cons.prems(2) by (auto dest: spec [of _ "Suc _"])
  have "read_byte cur c (st, with_parser (parser_of t) k) = Inr ((st, with_parser (parser_of (tok_step t c)) k), False)"
    using nd parser_feed_tok [OF Cons.prems(1), of c]
    by (subst read_byte_quiet [of _ _ "parser_of (tok_step t c)"]) (simp_all add: get_last_event_def event_of_def)
  with Cons.IH [OF inv quiet] show ?case by simp
qed

text \<open>The lexer just after the end of a line, before the event is consumed.\<close>

definition line_parser :: "byte list \<Rightarrow> parser" where
  "line_parser l = parser_of (tok_run tok_init (l @ crlf))"

text \<open>What one command line does to the state to go to and the session.\<close>

definition run_line :: "command_env \<Rightarrow> nat \<Rightarrow> byte list \<Rightarrow> nat \<times> pop3 \<Rightarrow> (nat \<times> pop3) res" where
  "run_line env cur l = (\<lambda>(st, p).
     rbind (comparator (line_event l) st) (\<lambda>h.
     rbind (command_handler h env cur (map_option cut_zero (line_arg1 l)) (map_option cut_zero (line_arg2 l))
              (p\<lparr>p_parser := line_parser l\<rparr>)) (\<lambda>(next, p').
     Inr (next, p'\<lparr>p_parser := create_parser\<rparr>))))"

fun run_lines :: "command_env \<Rightarrow> nat \<Rightarrow> byte list list \<Rightarrow> nat \<times> pop3 \<Rightarrow> (nat \<times> pop3) res" where
  "run_lines env cur [] x = Inr x"
| "run_lines env cur (l # ls) x = rbind (run_line env cur l x) (run_lines env cur ls)"

text \<open>A key that differs from another in the session, and in the selector by the interest of its descriptor.\<close>

definition waiting_to_write :: "key \<Rightarrow> pop3 \<Rightarrow> key \<Rightarrow> bool" where
  "waiting_to_write k p k' \<longleftrightarrow> (\<exists>s it. registered (w_sel (k_world k)) (k_fd k) = Some it
     \<and> k' = k\<lparr>k_p3 := p, k_world := (k_world k)\<lparr>w_sel := s\<rparr>\<rparr> \<and> selector_inv s \<and> grows (w_sel (k_world k)) s
     \<and> registered s = (registered (w_sel (k_world k)))(k_fd k \<mapsto> it\<lparr>it_interest := OP_WRITE\<rparr>))"

lemma waiting_selectable: "waiting_to_write k p k' \<Longrightarrow> selectable k'"
  by (auto simp: waiting_to_write_def selectable_def)

lemma waiting_env: "waiting_to_write k p k' \<Longrightarrow> key_env k' = key_env k \<and> k_p3 k' = p"
  by (auto simp: waiting_to_write_def key_env_def)

lemma waiting_trans:
  assumes "waiting_to_write k p k'" "waiting_to_write k' q k''"
  shows "waiting_to_write k q k''"
proof -
  from assms(1) obtain s it where 1: "registered (w_sel (k_world k)) (k_fd k) = Some it"
    "k' = k\<lparr>k_p3 := p, k_world := (k_world k)\<lparr>w_sel := s\<rparr>\<rparr>" "grows (w_sel (k_world k)) s"
    "registered s = (registered (w_sel (k_world k)))(k_fd k \<mapsto> it\<lparr>it_interest := OP_WRITE\<rparr>)"
    unfolding waiting_to_write_def by blast
  from assms(2) obtain s2 it2 where 2: "registered (w_sel (k_world k')) (k_fd k') = Some it2"
    "k'' = k'\<lparr>k_p3 := q, k_world := (k_world k')\<lparr>w_sel := s2\<rparr>\<rparr>" "selector_inv s2" "grows (w_sel (k_world k')) s2"
    "registered s2 = (registered (w_sel (k_world k')))(k_fd k' \<mapsto> it2\<lparr>it_interest := OP_WRITE\<rparr>)"
    unfolding waiting_to_write_def by blast
  from 1 2 show ?thesis
    unfolding waiting_to_write_def by (intro exI [of _ s2] exI [of _ it]) (auto elim: grows_trans)
qed

lemma event_complete: "pe_complete (event_of t) = k_done t"
  by (simp add: event_of_def)

lemma line_event_complete: "pe_complete (line_event l)"
  by (simp add: line_event_def event_complete)

lemma key_set_interest_grows:
  "key_set_interest i k = Inr (st, k') \<Longrightarrow> grows (w_sel (k_world k)) (w_sel (k_world k'))"
  by (auto simp: key_set_interest_def set_interest_key_def rbind_eq_Inr dest: set_interest_grows)

lemma read_line:
  assumes "CR \<notin> set l" "selectable k" "p_parser (k_p3 k) = create_parser"
  shows "(\<exists>e. run_line (key_env k) cur l (st, k_p3 k) = Inl e \<and> feed_until (read_byte cur) ((l @ crlf) @ ds) (st, k) = Inl e)
    \<or> (\<exists>next p k'. run_line (key_env k) cur l (st, k_p3 k) = Inr (next, p) \<and> waiting_to_write k p k'
        \<and> p_parser p = create_parser
        \<and> feed_until (read_byte cur) ((l @ crlf) @ ds) (st, k) = feed_until (read_byte cur) ds (next, k'))"
proof -
  from assms(2) obtain it where sel: "selector_inv (w_sel (k_world k))"
    "registered (w_sel (k_world k)) (k_fd k) = Some it" by (auto simp: selectable_def)
  let ?t = "tok_run tok_init (l @ [CR])"
  have nd: "\<forall>n \<le> length (l @ [CR]). \<not> k_done (tok_run tok_init (take n (l @ [CR])))"
  proof (intro allI impI)
    fix n
    assume n: "n \<le> length (l @ [CR])"
    then have "n < length (l @ crlf)" "take n (l @ [CR]) = take n (l @ crlf)"
      by (simp_all add: crlf_def take_Cons')
    with line_prefix_not_done [OF assms(1)] show "\<not> k_done (tok_run tok_init (take n (l @ [CR])))" by metis
  qed
  have k: "with_parser (parser_of tok_init) k = k" using assms(3) by (intro with_parser_same) (simp add: parser_of_init)
  from read_quiet [OF tok_inv_init nd, of cur "LF # ds" st k] k have
    q: "feed_until (read_byte cur) ((l @ crlf) @ ds) (st, k)
      = feed_until (read_byte cur) (LF # ds) (st, with_parser (parser_of ?t) k)" and inv: "tok_inv ?t"
    by (simp_all add: crlf_def)
  have pf: "parser_feed (parser_of ?t) LF = Inr (line_parser l)"
    using parser_feed_tok [OF inv, of LF] by (simp add: line_parser_def crlf_def tok_run_append)
  have pe: "get_last_event (line_parser l) = line_event l" "pe_complete (line_event l)"
    using tok_line_crlf(1) [OF assms(1)] line_event_complete
    by (simp_all add: get_last_event_def line_parser_def)
  have rs: "(line_parser l)\<lparr>e1 := restart_tokenizer (line_event l)\<rparr> = create_parser"
  proof -
    have "tok_done (tok_run tok_init (l @ crlf))"
      using tok_step_inv [OF inv, of LF] arg_cong [OF tok_line_crlf(1) [OF assms(1)], of pe_complete] line_event_complete
      by (simp add: crlf_def tok_run_append event_complete split: if_splits)
    from restart_final [OF this] show ?thesis
      using tok_line_crlf [OF assms(1)]
      by (simp add: line_parser_def parser_of_def parser_of_init [symmetric] state_init)
  qed
  let ?k = "with_parser (line_parser l) k"
  from key_set_interest_ok [of ?k it OP_WRITE] sel obtain s where
    s: "key_set_interest OP_WRITE ?k = Inr (SELECTOR_SUCCESS, ?k\<lparr>k_world := (k_world k)\<lparr>w_sel := s\<rparr>\<rparr>)" "selector_inv s"
      "registered s = (registered (w_sel (k_world k)))(k_fd k \<mapsto> it\<lparr>it_interest := OP_WRITE\<rparr>)" by auto
  let ?k1 = "?k\<lparr>k_world := (k_world k)\<lparr>w_sel := s\<rparr>\<rparr>"
  have env: "key_env ?k1 = key_env k" by (simp add: key_env_def)
  have step: "read_byte cur LF (st, with_parser (parser_of ?t) k) =
      rbind (run_line (key_env k) cur l (st, k_p3 k)) (\<lambda>(next, p). Inr ((next, ?k1\<lparr>k_p3 := p\<rparr>), False))"
    using s(1) pf pe rs env
    by (subst read_byte_complete [of _ _ "line_parser l" ?k1])
      (simp_all add: run_line_def line_event_strings [unfolded One_nat_def] rbind_assoc split_def)
  show ?thesis
  proof (cases "run_line (key_env k) cur l (st, k_p3 k)")
    case (Inl e)
    with q step show ?thesis by simp
  next
    case (Inr r)
    obtain nx p where r: "r = (nx, p)" by (cases r)
    have "p_parser p = create_parser" using Inr r by (auto simp: run_line_def res_simps)
    moreover have "waiting_to_write k p (?k1\<lparr>k_p3 := p\<rparr>)"
      unfolding waiting_to_write_def using s(2,3) sel(2) key_set_interest_grows [OF s(1)] by (intro exI [of _ s] exI [of _ it]) (simp add: with_parser_def)
    ultimately show ?thesis using Inr r q step by auto
  qed
qed

lemma read_lines:
  assumes "\<forall>l \<in> set ls. CR \<notin> set l" "selectable k" "p_parser (k_p3 k) = create_parser"
  shows "case run_lines (key_env k) cur ls (st, k_p3 k) of
      Inl e \<Rightarrow> feed_until (read_byte cur) (concat (List.map (\<lambda>l. l @ crlf) ls)) (st, k) = Inl e
    | Inr (nx, p) \<Rightarrow> \<exists>k'. (if ls = [] then k' = k else waiting_to_write k p k')
        \<and> feed_until (read_byte cur) (concat (List.map (\<lambda>l. l @ crlf) ls)) (st, k) = Inr ((nx, k'), [])"
  using assms
proof (induction ls arbitrary: st k)
  case Nil
  then show ?case by simp
next
  case (Cons l ls)
  have l: "CR \<notin> set l" using Cons.prems(1) by simp
  let ?rest = "concat (List.map (\<lambda>l. l @ crlf) ls)"
  from read_line [OF l Cons.prems(2,3), of cur st ?rest] show ?case
  proof (elim disjE exE conjE)
    fix e
    assume "run_line (key_env k) cur l (st, k_p3 k) = Inl e"
      "feed_until (read_byte cur) ((l @ crlf) @ ?rest) (st, k) = Inl e"
    then show ?case by simp
  next
    fix nx p k'
    assume run: "run_line (key_env k) cur l (st, k_p3 k) = Inr (nx, p)" and w: "waiting_to_write k p k'"
      and p: "p_parser p = create_parser"
      and feed: "feed_until (read_byte cur) ((l @ crlf) @ ?rest) (st, k) = feed_until (read_byte cur) ?rest (nx, k')"
    have k': "key_env k' = key_env k" "k_p3 k' = p" "selectable k'"
      using waiting_env [OF w] waiting_selectable [OF w] by simp_all
    from Cons.IH [OF _ k'(3), of nx] Cons.prems(1) p k'
    have "case run_lines (key_env k) cur ls (nx, p) of
        Inl e \<Rightarrow> feed_until (read_byte cur) ?rest (nx, k') = Inl e
      | Inr (ny, q) \<Rightarrow> \<exists>k''. (if ls = [] then k'' = k' else waiting_to_write k' q k'')
          \<and> feed_until (read_byte cur) ?rest (nx, k') = Inr ((ny, k''), [])" by simp
    then show ?case
      using run feed w waiting_trans [OF w]
      by (cases ls) (auto split: sum.splits)
  qed
qed

section \<open>One event\<close>

lemma client_read_eq:
  assumes "client (k_p3 k) = State_st" "buffer_inv (read_buffer (k_p3 k))" "content (read_buffer (k_p3 k)) = []"
    and "io_recv (k_io k) = Some bs" "bs \<noteq> []" "length bs \<le> room (read_buffer (k_p3 k))"
  shows "\<exists>b. client_read cur k = rbind (feed_until (read_byte cur) bs (cur, k)) (\<lambda>((st, k'), rest).
      Inr (st, k'\<lparr>k_p3 := (k_p3 k')\<lparr>read_buffer := b\<rparr>\<rparr>)) \<and> buffer_inv b
    \<and> (\<forall>s rest. feed_until (read_byte cur) bs (cur, k) = Inr (s, rest) \<longrightarrow> content b = rest)"
proof -
  from buffer_fill_ok [OF assms(2,6)] assms(3) obtain b1 b2 where
    b: "buffer_fill (read_buffer (k_p3 k)) bs = Inr b1" "buffer_write_adv b1 (int (length bs)) = Inr b2"
      "buffer_inv b2" "content b2 = bs" by auto
  from consume_buffer_feeds [OF b(3), of "read_byte cur" "(cur, k)"] b(4) obtain b' where
    b': "consume_buffer (read_byte cur) b2 (cur, k)
        = rbind (feed_until (read_byte cur) bs (cur, k)) (\<lambda>(s', rest). Inr (s', b'))"
      "buffer_inv b'" "\<forall>s rest. feed_until (read_byte cur) bs (cur, k) = Inr (s, rest) \<longrightarrow> content b' = rest"
    by auto
  have "received (io_recv (k_io k)) (room (read_buffer (k_p3 k))) = bs"
    using assms(4,6) by (simp add: received_def)
  then have "client_read cur k = rbind (feed_until (read_byte cur) bs (cur, k)) (\<lambda>((st, k'), rest).
      Inr (st, k'\<lparr>k_p3 := (k_p3 k')\<lparr>read_buffer := b'\<rparr>\<rparr>))"
    using assms b b'(1) by (simp add: client_read_def client_state_def rbind_assoc split_def)
  with b'(2,3) show ?thesis by blast
qed

lemma run_lines_append:
  "run_lines env cur (ls @ ms) x = rbind (run_lines env cur ls x) (run_lines env cur ms)"
  by (induction ls arbitrary: x) (simp_all add: rbind_def split: sum.split)

text \<open>
  The client has just sent the lines \<open>ls\<close>: they are what \<open>recv\<close> gives, and they fit into the buffer,
  in which nothing is left of an earlier line.
\<close>

definition lines_arrived :: "key \<Rightarrow> byte list list \<Rightarrow> bool" where
  "lines_arrived k ls \<longleftrightarrow> selectable k \<and> client (k_p3 k) = State_st \<and> p_parser (k_p3 k) = create_parser
     \<and> buffer_inv (read_buffer (k_p3 k)) \<and> content (read_buffer (k_p3 k)) = []
     \<and> ls \<noteq> [] \<and> (\<forall>l \<in> set ls. CR \<notin> set l) \<and> io_recv (k_io k) = Some (concat (List.map (\<lambda>l. l @ crlf) ls))
     \<and> length (concat (List.map (\<lambda>l. l @ crlf) ls)) \<le> room (read_buffer (k_p3 k))"

lemma lines_read:
  assumes "lines_arrived k ls"
  shows "case run_lines (key_env k) cur ls (cur, k_p3 k) of
      Inl e \<Rightarrow> client_read cur k = Inl e
    | Inr (nx, p) \<Rightarrow> \<exists>b k'. client_read cur k = Inr (nx, k') \<and> buffer_inv b \<and> content b = []
        \<and> waiting_to_write k (p\<lparr>read_buffer := b\<rparr>) k'"
proof -
  let ?bs = "concat (List.map (\<lambda>l. l @ crlf) ls)"
  from assms have ne: "?bs \<noteq> []" "ls \<noteq> []" by (cases ls; simp add: lines_arrived_def crlf_def)+
  from client_read_eq [of k ?bs cur] assms ne obtain b where
    b: "client_read cur k = rbind (feed_until (read_byte cur) ?bs (cur, k)) (\<lambda>((st, k'), rest).
        Inr (st, k'\<lparr>k_p3 := (k_p3 k')\<lparr>read_buffer := b\<rparr>\<rparr>))" "buffer_inv b"
      "\<And>s rest. feed_until (read_byte cur) ?bs (cur, k) = Inr (s, rest) \<Longrightarrow> content b = rest"
    unfolding lines_arrived_def by blast
  have lines: "case run_lines (key_env k) cur ls (cur, k_p3 k) of
      Inl e \<Rightarrow> feed_until (read_byte cur) ?bs (cur, k) = Inl e
    | Inr (nx, p) \<Rightarrow> \<exists>k'. (if ls = [] then k' = k else waiting_to_write k p k')
        \<and> feed_until (read_byte cur) ?bs (cur, k) = Inr ((nx, k'), [])"
    by (rule read_lines) (use assms in \<open>simp_all add: lines_arrived_def\<close>)
  show ?thesis
  proof (cases "run_lines (key_env k) cur ls (cur, k_p3 k)")
    case (Inl e)
    with lines b(1) show ?thesis by simp
  next
    case (Inr r)
    obtain nx p where r: "r = (nx, p)" by (cases r)
    with Inr lines ne obtain k' where
      k': "waiting_to_write k p k'" "feed_until (read_byte cur) ?bs (cur, k) = Inr ((nx, k'), [])" by auto
    have "waiting_to_write k (p\<lparr>read_buffer := b\<rparr>) (k'\<lparr>k_p3 := (k_p3 k')\<lparr>read_buffer := b\<rparr>\<rparr>)"
      using k'(1) unfolding waiting_to_write_def by force
    with Inr r b k'(2) show ?thesis by auto
  qed
qed

section \<open>Any bytes\<close>

text \<open>One byte: at most one command runs, in the state the commands before it led to.\<close>

lemma read_byte_step:
  assumes "read_byte cur c (st, k) = Inr ((st', k'), stop)"
  shows "same_rest k k' \<and> (\<exists>pa pb p. k_p3 k' = p\<lparr>p_parser := pb\<rparr>
    \<and> (st' \<in> {st, ERROR} \<and> p = (k_p3 k)\<lparr>p_parser := pa\<rparr>
      \<or> (\<exists>h a1 a2. comparator (get_last_event pa) st = Inr h
          \<and> command_handler h (key_env k) cur a1 a2 ((k_p3 k)\<lparr>p_parser := pa\<rparr>) = Inr (st', p))))"
proof -
  from assms obtain pa where pa: "parser_feed (p_parser (k_p3 k)) c = Inr pa"
    by (auto simp: read_byte_def rbind_eq_Inr)
  show ?thesis
  proof (cases "pe_complete (get_last_event pa)")
    case False
    from read_byte_quiet [OF pa False, of cur st] assms have k': "k' = with_parser pa k" "st' = st" by simp_all
    then show ?thesis
      using same_rest_p3 [OF same_rest_refl [of k]]
      by (intro conjI exI [of _ pa] exI [of _ "(k_p3 k)\<lparr>p_parser := pa\<rparr>"]) (simp_all add: with_parser_def)
  next
    case True
    from assms pa True obtain s k1 where k1: "key_set_interest OP_WRITE (with_parser pa k) = Inr (s, k1)"
      by (auto simp: read_byte_def with_parser_def rbind_eq_Inr Let_def)
    from key_set_interest_rest [OF k1] have r: "same_rest (with_parser pa k) k1" "k_p3 k1 = (k_p3 k)\<lparr>p_parser := pa\<rparr>"
      by simp_all
    have r': "same_rest k k1"
      using same_rest_trans [OF same_rest_p3 [OF same_rest_refl [of k]] r(1) [unfolded with_parser_def]] .
    show ?thesis
    proof (cases "s = SELECTOR_SUCCESS")
      case False
      with assms pa True k1 have "k' = k1" "st' = ERROR"
        by (simp_all add: read_byte_def with_parser_def Let_def)
      with r r' show ?thesis by (intro conjI exI [of _ pa] exI [of _ "(k_p3 k)\<lparr>p_parser := pa\<rparr>"]) simp_all
    next
      case success: True
      from read_byte_complete [OF pa True k1 [unfolded success], of cur st, symmetric] assms obtain h a1 a2 p where
        p: "comparator (get_last_event pa) st = Inr h"
          "command_handler h (key_env k1) cur a1 a2 (k_p3 k1) = Inr (st', p)"
          "k' = k1\<lparr>k_p3 := p\<lparr>p_parser := pa\<lparr>e1 := restart_tokenizer (get_last_event pa)\<rparr>\<rparr>\<rparr>"
        by (auto simp: rbind_eq_Inr)
      show ?thesis
        using r' p(1,2) same_rest_p3 [OF r'] r(2) same_rest_sel(1) [OF r'] unfolding p(3)
        by (intro conjI exI [of _ pa] exI [of _ "pa\<lparr>e1 := restart_tokenizer (get_last_event pa)\<rparr>"] exI [of _ p])
          auto
    qed
  qed
qed

text \<open>
  What a command finds, and what an event that reads commands leaves, whatever the bytes.
\<close>

lemma pass_without_user:
  "cred_user p = None \<Longrightarrow> pass_handler env a p = Inr (st, p') \<Longrightarrow> cred_user p' = None"
  using reply_tame by (auto simp: pass_handler_def reply_def rbind_eq_Inr split: option.splits)

lemma comparator_table:
  assumes "comparator pe st = Inr h"
  shows "st = AUTH \<and> h \<in> {Auth_capa, User, Pass, Auth_quit, Invalid}
    \<or> st = TRANSACTION \<and> h \<in> {Noop, Stat, List, Retr, Dele, Rset, Trans_capa, Trans_quit, Invalid}"
proof -
  from assms have "st < 2" using comparator_outside [of st pe] by (cases "st < 2") auto
  then consider "st = AUTH" | "st = TRANSACTION" by fastforce
  then show ?thesis
    using assms find_auth find_transaction
    by cases (auto simp: comparator_def commands_per_state_def rbind_eq_Inr split: option.splits)
qed

lemma session_fields [simp]: "fit (p\<lparr>p_parser := pa\<rparr>) = fit p" "fit (p\<lparr>read_buffer := b\<rparr>) = fit p"
  by (simp_all add: fit_def)

lemma client_read_Inr:
  assumes "client_read cur k = Inr (nx, k')" "buffer_inv (read_buffer (k_p3 k))"
  shows "client (k_p3 k) = State_st \<and> (nx = ERROR \<and> k' = k
    \<or> (\<exists>bs k1 rest b. feed_until (read_byte cur) bs (cur, k) = Inr ((nx, k1), rest) \<and> buffer_inv b
        \<and> k' = k1\<lparr>k_p3 := (k_p3 k1)\<lparr>read_buffer := b\<rparr>\<rparr>))"
proof -
  let ?bs = "received (io_recv (k_io k)) (room (read_buffer (k_p3 k)))"
  from assms have c: "client (k_p3 k) = State_st"
    by (auto simp: client_read_def client_state_def rbind_eq_Inr split: client_union.splits)
  show ?thesis
  proof (cases "?bs = []")
    case True
    with assms c show ?thesis by (simp add: client_read_def client_state_def)
  next
    case False
    from buffer_fill_ok [OF assms(2) received_length, of "io_recv (k_io k)"] obtain b1 b2 where
      b: "buffer_fill (read_buffer (k_p3 k)) ?bs = Inr b1" "buffer_write_adv b1 (int (length ?bs)) = Inr b2"
        "buffer_inv b2" by blast
    from assms c False b obtain k1 b3 where k1: "consume_buffer (read_byte cur) b2 (cur, k) = Inr ((nx, k1), b3)"
      "k' = k1\<lparr>k_p3 := (k_p3 k1)\<lparr>read_buffer := b3\<rparr>\<rparr>"
      by (auto simp: client_read_def client_state_def rbind_eq_Inr)
    from consume_buffer_Inr [OF k1(1) b(3)] k1(2) c show ?thesis by blast
  qed
qed

section \<open>Properties\<close>

text \<open>A client of the example user, and a key for it.\<close>

definition example_key :: "world \<Rightarrow> byte list \<Rightarrow> key" where
  "example_key w bs = \<lparr>k_fd = 8, k_self = 0, k_io = example_io bs, k_p3 = example_session, k_world = w\<rparr>"

definition example_world :: "world \<Rightarrow> bool" where
  "example_world w \<longleftrightarrow> selector_inv (w_sel w) \<and> (\<exists>it. registered (w_sel w) 8 = Some it)
     \<and> w_maildir w = INITIAL_PATH \<and> w_users w = no_users"

lemma example_world_exists: "\<exists>w. example_world w"
proof -
  obtain s :: "(fd_handler, attachment) fdselector" where "selector_inv s" "\<exists>it. registered s 8 = Some it"
    using example_selector [of 8 Pop3_handler "Some (Pop3_data 0)"] by fastforce
  then have "example_world (initial_world s)" by (simp add: example_world_def initial_world_def)
  then show ?thesis by blast
qed

text \<open>
  C34. When whole lines arrive, \<open>client_read\<close> runs the commands in the order they were sent, however
  many came in one read: each is looked up in the state the one before it led to, the session they leave
  is the session after the event, the read buffer is empty again, and the socket waits to be written.
  When a command fails, the event fails.
\<close>

theorem client_read_runs_lines:
  assumes "lines_arrived k ls"
  shows "case run_lines (key_env k) cur ls (cur, k_p3 k) of
      Inl e \<Rightarrow> client_read cur k = Inl e
    | Inr (nx, p) \<Rightarrow> \<exists>b k'. client_read cur k = Inr (nx, k') \<and> buffer_inv b \<and> content b = []
        \<and> waiting_to_write k (p\<lparr>read_buffer := b\<rparr>) k'"
  by (rule lines_read [OF assms])

lemma example_run:
  "\<exists>b. run_lines example_env AUTH [str ''NOOP''] (AUTH, example_session)
     = Inr (AUTH, example_session\<lparr>write_buffer := b\<rparr>) \<and> said INVALID_COMMAND_MSG (write_buffer example_session) b"
proof -
  let ?p = "example_session\<lparr>p_parser := line_parser (str ''NOOP'')\<rparr>"
  have "comparator (line_event (str ''NOOP'')) AUTH = Inr Invalid"
    by (simp add: comparator_line line_command_def word1_def cut_zero_def commands_per_state_def auth_commands_def)
  moreover obtain b where "reply INVALID_COMMAND_MSG ?p = Inr (?p\<lparr>write_buffer := b\<rparr>)"
    "said INVALID_COMMAND_MSG (write_buffer example_session) b"
    using reply_ok [of ?p INVALID_COMMAND_MSG] example_loadable by (auto simp: loadable_def)
  moreover have "p_parser example_session = create_parser" by (simp add: example_session_def mailbox.defs)
  ultimately show ?thesis
    by (intro exI [of _ b]) (simp add: run_line_def invalid_command_handler_def del: str_Cons)
qed

lemma example_arrived:
  assumes "example_world w" "\<forall>l \<in> set ls. CR \<notin> set l" "ls \<noteq> []"
    and "bs = concat (List.map (\<lambda>l. l @ crlf) ls)" "length bs \<le> 500"
  shows "lines_arrived (example_key w bs) ls \<and> key_env (example_key w bs) = example_env"
  using assms
  by (simp add: lines_arrived_def example_key_def example_world_def selectable_def example_session_def mailbox.defs
      example_io_def key_env_def example_env_def room_def buffer_init_def content_def buffer_inv_def)

theorem client_read_runs_lines_witness:
  "\<exists>w b k'. client_read AUTH (example_key w (str ''NOOP'' @ crlf)) = Inr (AUTH, k')
    \<and> said INVALID_COMMAND_MSG (write_buffer example_session) b \<and> write_buffer (k_p3 k') = b"
proof -
  obtain w where w: "example_world w" using example_world_exists by blast
  have a: "lines_arrived (example_key w (str ''NOOP'' @ crlf)) [str ''NOOP''] \<and>
      key_env (example_key w (str ''NOOP'' @ crlf)) = example_env"
    by (rule example_arrived [OF w]) simp_all
  obtain b where b: "run_lines example_env AUTH [str ''NOOP''] (AUTH, example_session)
     = Inr (AUTH, example_session\<lparr>write_buffer := b\<rparr>)" "said INVALID_COMMAND_MSG (write_buffer example_session) b"
    using example_run by blast
  have p: "k_p3 (example_key w (str ''NOOP'' @ crlf)) = example_session" by (simp add: example_key_def)
  from client_read_runs_lines [OF a [THEN conjunct1], of AUTH] b a obtain b' k' where
    "client_read AUTH (example_key w (str ''NOOP'' @ crlf)) = Inr (AUTH, k')"
    "waiting_to_write (example_key w (str ''NOOP'' @ crlf)) (example_session\<lparr>write_buffer := b, read_buffer := b'\<rparr>) k'"
    unfolding p by (auto simp del: str_Cons)
  with b(2) show ?thesis using waiting_env by fastforce
qed

text \<open>
  C32. After a command that leaves the two states with commands (QUIT, or a RETR that opens its mail),
  any further command in the same read is looked up outside the table of commands. The pipelining the
  server announces therefore ends in an access out of bounds.
\<close>

theorem command_after_quit_faults:
  assumes "lines_arrived k (ls @ l # ms)" "run_lines (key_env k) cur ls (cur, k_p3 k) = Inr (nx, p)" "2 \<le> nx"
  shows "client_read cur k = Inl OutOfBounds"
proof -
  from assms(3) have "run_line (key_env k) cur l (nx, p) = Inl OutOfBounds" by (simp add: run_line_def comparator_outside)
  then have "run_lines (key_env k) cur (ls @ l # ms) (cur, k_p3 k) = Inl OutOfBounds"
    using assms(2) by (simp add: run_lines_append)
  with lines_read [OF assms(1), of cur] show ?thesis by simp
qed

lemma example_quit: "\<exists>p. run_lines example_env AUTH [str ''QUIT''] (AUTH, example_session) = Inr (DONE, p)"
proof -
  let ?p = "example_session\<lparr>p_parser := line_parser (str ''QUIT'')\<rparr>"
  have "comparator (line_event (str ''QUIT'')) AUTH = Inr Auth_quit"
    by (simp add: comparator_line line_command_def word1_def cut_zero_def commands_per_state_def auth_commands_def)
  moreover obtain b where "reply AUTH_QUIT_MSG ?p = Inr (?p\<lparr>write_buffer := b\<rparr>)"
    using reply_ok [of ?p AUTH_QUIT_MSG] example_loadable by (auto simp: loadable_def)
  ultimately show ?thesis by (simp add: run_line_def auth_quit_handler_def del: str_Cons)
qed

theorem command_after_quit_faults_witness:
  "\<exists>w. example_world w
    \<and> client_read AUTH (example_key w (str ''QUIT'' @ crlf @ str ''NOOP'' @ crlf)) = Inl OutOfBounds"
proof -
  obtain w where w: "example_world w" using example_world_exists by blast
  let ?k = "example_key w (str ''QUIT'' @ crlf @ str ''NOOP'' @ crlf)"
  have a: "lines_arrived ?k [str ''QUIT'', str ''NOOP''] \<and> key_env ?k = example_env"
    by (rule example_arrived [OF w]) simp_all
  obtain p where p: "run_lines example_env AUTH [str ''QUIT''] (AUTH, example_session) = Inr (DONE, p)"
    using example_quit by blast
  have "client_read AUTH ?k = Inl OutOfBounds"
  proof (rule command_after_quit_faults)
    show "lines_arrived ?k ([str ''QUIT''] @ str ''NOOP'' # [])" using a by simp
    show "run_lines (key_env ?k) AUTH [str ''QUIT''] (AUTH, k_p3 ?k) = Inr (DONE, p)"
      using a p by (simp add: example_key_def del: run_lines.simps str_Cons)
  qed simp
  with w show ?thesis by blast
qed

end
