(* ===== verification/Delivery.thy ===== *)
theory Delivery
  imports Conversation
begin

text \<open>
  How a mail reaches the client (\<^verbatim>\<open>filesystem_read\<close> and \<^verbatim>\<open>mail_write\<close> of
  \<^verbatim>\<open>src/server/pop3nio.c\<close>) and how the marked ones are removed (\<^verbatim>\<open>delete_mails\<close>). The file of
  a mail is a text of lines that ends with the terminator of the protocol; the server looks for it to
  know that the mail is over.
\<close>

section \<open>The automaton\<close>

definition terminator :: "byte list" where "terminator = [CR, LF, DOT, CR, LF]"

text \<open>What the automaton has seen in each of its states.\<close>

definition pending :: "int \<Rightarrow> byte list" where "pending st = take (nat st) terminator"

definition stuff_inv :: "int \<Rightarrow> byte list \<Rightarrow> bool" where
  "stuff_inv st out \<longleftrightarrow> 0 \<le> st \<and> st \<le> 4 \<and> (\<exists>xs. out = xs @ pending st)"

lemma pending_simps [simp]:
  "pending 0 = []" "pending 1 = [CR]" "pending 2 = [CR, LF]" "pending 3 = [CR, LF, DOT]" "pending 4 = [CR, LF, DOT, CR]"
  by (simp_all add: pending_def terminator_def numeral_eq_Suc)

lemma state_cases: "0 \<le> st \<Longrightarrow> st \<le> 4 \<Longrightarrow> st = 0 \<or> st = 1 \<or> st = 2 \<or> st = 3 \<or> st = (4 :: int)"
  by auto

text \<open>One more byte: either it is the last of a terminator, or it is in what the next state has seen.\<close>

lemma stuffer_step:
  assumes "stuff_inv st out" "byte_stuffer c st = (st', found)"
  shows "if found then \<exists>xs. out @ [c] = xs @ terminator else stuff_inv st' (out @ [c])"
proof -
  from assms(1) obtain xs where st: "0 \<le> st" "st \<le> 4" "out = xs @ pending st" by (auto simp: stuff_inv_def)
  from state_cases [OF st(1,2)] st(3) assms(2) show ?thesis
    by (elim disjE) (auto simp: byte_stuffer_def stuff_inv_def terminator_def split: if_splits)
qed

text \<open>The automaton over a text: the state at the end when it has not seen a terminator, else what is left.\<close>

fun stuffer_run :: "int \<Rightarrow> byte list \<Rightarrow> int + byte list" where
  "stuffer_run st [] = Inl st"
| "stuffer_run st (c # cs) = (let (st', found) = byte_stuffer c st in if found then Inr cs else stuffer_run st' cs)"

lemma stuffer_run_append:
  "stuffer_run st (xs @ ys) = (case stuffer_run st xs of Inl st' \<Rightarrow> stuffer_run st' ys | Inr zs \<Rightarrow> Inr (zs @ ys))"
  by (induction xs arbitrary: st) (auto simp: Let_def split: prod.splits)

text \<open>
  Lines: \<open>armed\<close> says whether the automaton would take a terminator at this point of the text. A line
  with text arms it; a blank line takes the carriage return that should have started the next one.
\<close>

fun armed :: "bool \<Rightarrow> byte list list \<Rightarrow> bool" where
  "armed a [] = a"
| "armed a (l # ls) = armed (l \<noteq> [] \<or> \<not> a) ls"

lemma stuff_body: "CR \<notin> set l \<Longrightarrow> stuffer_run 0 l = Inl 0"
  by (induction l) (auto simp: byte_stuffer_def)

lemma stuff_line:
  assumes "CR \<notin> set l" "l \<noteq> [DOT]" "st = (if a then 2 else 0)"
  shows "stuffer_run st (l @ crlf) = Inl (if l \<noteq> [] \<or> \<not> a then 2 else 0)"
proof (cases l)
  case Nil
  then show ?thesis using assms(3) by (simp add: crlf_def byte_stuffer_def)
next
  case (Cons c cs)
  show ?thesis
  proof (cases "a \<and> c = DOT")
    case True
    with Cons assms obtain d ds where "cs = d # ds" "d \<noteq> CR" "CR \<notin> set ds" by (cases cs) auto
    with True Cons assms(3) stuff_body [of ds] show ?thesis
      by (simp add: stuffer_run_append crlf_def byte_stuffer_def)
  next
    case False
    have "byte_stuffer c st = (0, False)" using False Cons assms by (auto simp: byte_stuffer_def)
    with Cons assms(1) stuff_body [of cs] show ?thesis
      by (simp add: stuffer_run_append crlf_def byte_stuffer_def)
  qed
qed

lemma stuff_lines:
  assumes "\<forall>l \<in> set ls. CR \<notin> set l \<and> l \<noteq> [DOT]"
  shows "stuffer_run (if a then 2 else 0) (concat (List.map (\<lambda>l. l @ crlf) ls)) = Inl (if armed a ls then 2 else 0)"
  using assms
proof (induction ls arbitrary: a)
  case Nil
  then show ?case by simp
next
  case (Cons l ls)
  then have "stuffer_run (if a then 2 else 0) (l @ crlf) = Inl (if l \<noteq> [] \<or> \<not> a then 2 else 0)"
    using stuff_line [of l "if a then 2 else 0" a] by simp
  then show ?case using Cons.IH [of "l \<noteq> [] \<or> \<not> a"] Cons.prems by (simp add: stuffer_run_append del: append_assoc)
qed

text \<open>In closed form: an even number of blank lines after the last line with text.\<close>

lemma armed_snoc: "armed a (ls @ [l]) = (l \<noteq> [] \<or> \<not> armed a ls)"
  by (induction ls arbitrary: a) auto

definition blank_tail :: "byte list list \<Rightarrow> nat" where
  "blank_tail ls = length (takeWhile (\<lambda>l. l = []) (rev ls))"

lemma armed_blank: "\<exists>l \<in> set ls. l \<noteq> [] \<Longrightarrow> armed a ls = even (blank_tail ls)"
  by (induction ls rule: rev_induct) (auto simp: armed_snoc blank_tail_def)

text \<open>The file of a mail.\<close>

definition mail_text :: "byte list list \<Rightarrow> byte list" where
  "mail_text ls = concat (List.map (\<lambda>l. l @ crlf) ls) @ [DOT, CR, LF]"

lemma stuff_mail:
  assumes "\<forall>l \<in> set ls. CR \<notin> set l \<and> l \<noteq> [DOT]"
  shows "stuffer_run 0 (mail_text ls) = (if armed False ls then Inr [] else Inl 2)"
  using stuff_lines [OF assms, of False]
  by (simp add: mail_text_def stuffer_run_append byte_stuffer_def)

section \<open>Copying a text\<close>

lemma mail_byte_ok:
  assumes "buffer_inv (write_buffer p)" "0 < room (write_buffer p)"
    and "stuff_inv (byte_stuffing_st p) (content (write_buffer p))"
    and "byte_stuffer c (byte_stuffing_st p) = (st', found)"
  shows "\<exists>b. mail_byte c p = Inr (p\<lparr>write_buffer := b, byte_stuffing_st := st',
        mail_done := (if found then 1 else mail_done p)\<rparr>, found)
    \<and> buffer_inv b \<and> content b = content (write_buffer p) @ [c] \<and> room b = room (write_buffer p) - 1
    \<and> b_limit b = b_limit (write_buffer p)"
proof -
  from buffer_write_ok [OF assms(1,2), of c] obtain b1 where
    b1: "buffer_write (write_buffer p) c = Inr b1" "buffer_inv b1" "content b1 = content (write_buffer p) @ [c]"
      "room b1 = room (write_buffer p) - 1" "b_limit b1 = b_limit (write_buffer p)" by blast
  show ?thesis
  proof (cases found)
    case False
    with b1 assms(4) show ?thesis by (intro exI [of _ b1]) (simp add: mail_byte_def)
  next
    case True
    with stuffer_step [OF assms(3,4)] b1(3) obtain xs where xs: "content b1 = xs @ terminator" by auto
    have len: "length terminator = 5" by (simp add: terminator_def)
    from delete_n_ok [OF b1(2), of 5] xs len obtain b2 where
      b2: "delete_n_from_buffer b1 5 = Inr b2" "buffer_inv b2" "content b2 = xs" "room b2 = room b1 + 5"
        "b_limit b2 = b_limit b1" by (auto simp: terminator_def)
    have fits: "length [CR, LF, DOT, CR, LF] \<le> room b2" using b2(4) by simp
    from bq.put_all_total [OF b2(2), of "[CR, LF, DOT, CR, LF]"] fits obtain b3 where
      b3: "put_all buffer_write [CR, LF, DOT, CR, LF] b2 = Inr b3" "buffer_inv b3" "content b3 = xs @ terminator"
        "room b3 = room b2 - 5" by (auto simp: terminator_def b2(3) simp del: put_all.simps)
    have "b_limit b3 = b_limit b2" using put_all_limit [OF b3(1)] .
    with True b1 b2 b3 xs assms(4) show ?thesis
      by (intro exI [of _ b3]) (simp add: mail_byte_def del: put_all.simps)
  qed
qed

lemma mail_bytes_ok:
  assumes "buffer_inv (write_buffer p)" "length cs \<le> room (write_buffer p)"
    and "stuff_inv (byte_stuffing_st p) (content (write_buffer p))"
  shows "\<exists>b st. feed_until mail_byte cs p =
      (case stuffer_run (byte_stuffing_st p) cs of
        Inl _ \<Rightarrow> Inr (p\<lparr>write_buffer := b, byte_stuffing_st := st\<rparr>, [])
      | Inr rest \<Rightarrow> Inr (p\<lparr>write_buffer := b, byte_stuffing_st := st, mail_done := 1\<rparr>, rest))
    \<and> (\<forall>st'. stuffer_run (byte_stuffing_st p) cs = Inl st' \<longrightarrow> st = st' \<and> stuff_inv st' (content b)
        \<and> content b = content (write_buffer p) @ cs)
    \<and> (\<forall>rest. stuffer_run (byte_stuffing_st p) cs = Inr rest \<longrightarrow> content b @ rest = content (write_buffer p) @ cs)
    \<and> buffer_inv b \<and> b_limit b = b_limit (write_buffer p)"
  using assms
proof (induction cs arbitrary: p)
  case Nil
  then show ?case
    by (intro exI [of _ "write_buffer p"] exI [of _ "byte_stuffing_st p"]) simp
next
  case (Cons c cs)
  obtain st' found where st': "byte_stuffer c (byte_stuffing_st p) = (st', found)"
    by (cases "byte_stuffer c (byte_stuffing_st p)")
  from mail_byte_ok [OF Cons.prems(1) _ Cons.prems(3) st'] Cons.prems(2) obtain b where
    b: "mail_byte c p = Inr (p\<lparr>write_buffer := b, byte_stuffing_st := st',
        mail_done := (if found then 1 else mail_done p)\<rparr>, found)"
      "buffer_inv b" "content b = content (write_buffer p) @ [c]" "room b = room (write_buffer p) - 1"
      "b_limit b = b_limit (write_buffer p)" by auto
  show ?case
  proof (cases found)
    case True
    with b st' show ?thesis by (intro exI [of _ b] exI [of _ st']) simp
  next
    case False
    let ?p = "p\<lparr>write_buffer := b, byte_stuffing_st := st'\<rparr>"
    have inv: "stuff_inv st' (content b)" using stuffer_step [OF Cons.prems(3) st'] False b(3) by simp
    have "buffer_inv (write_buffer ?p)" "length cs \<le> room (write_buffer ?p)"
      "stuff_inv (byte_stuffing_st ?p) (content (write_buffer ?p))"
      using b inv Cons.prems(2) by simp_all
    from Cons.IH [OF this] obtain b2 st2 where
      b2: "feed_until mail_byte cs ?p = (case stuffer_run st' cs of
          Inl _ \<Rightarrow> Inr (?p\<lparr>write_buffer := b2, byte_stuffing_st := st2\<rparr>, [])
        | Inr rest \<Rightarrow> Inr (?p\<lparr>write_buffer := b2, byte_stuffing_st := st2, mail_done := 1\<rparr>, rest))"
      "\<And>st3. stuffer_run st' cs = Inl st3 \<Longrightarrow> st2 = st3 \<and> stuff_inv st3 (content b2) \<and> content b2 = content b @ cs"
      "\<And>rest. stuffer_run st' cs = Inr rest \<Longrightarrow> content b2 @ rest = content b @ cs" "buffer_inv b2"
      "b_limit b2 = b_limit b"
      by (auto simp del: feed_until.simps)
    have "mail_byte c p = Inr (?p, False)" using b(1) False by simp
    with b2 b(3,5) st' False show ?thesis
      by (intro exI [of _ b2] exI [of _ st2]) (auto split: sum.splits)
  qed
qed

section \<open>Buffers that are emptied\<close>

text \<open>A buffer of the size of a session's that is back at its start whenever it is empty.\<close>

definition steady :: "buffer \<Rightarrow> bool" where
  "steady b \<longleftrightarrow> buffer_inv b \<and> b_limit b = BUFFER_SIZE \<and> (content b = [] \<longrightarrow> room b = BUFFER_SIZE)"

definition drained :: "buffer \<Rightarrow> bool" where
  "drained b \<longleftrightarrow> steady b \<and> content b = []"

lemma drainedD: "drained b \<Longrightarrow> buffer_inv b \<and> content b = [] \<and> room b = BUFFER_SIZE \<and> b_limit b = BUFFER_SIZE"
  by (simp add: drained_def steady_def)

lemma buffer_read_steady:
  assumes "steady b" "content b = c # cs"
  shows "\<exists>b'. buffer_read b = Inr (c, b') \<and> steady b' \<and> content b' = cs"
proof -
  from assms have b: "buffer_inv b" "b_limit b = BUFFER_SIZE" by (simp_all add: steady_def)
  from buffer_read_ok [OF b(1) assms(2)] obtain b' where
    b': "buffer_read b = Inr (c, b')" "buffer_inv b'" "content b' = cs" "b_limit b' = b_limit b" by blast
  have "room b' = BUFFER_SIZE" if "cs = []"
  proof -
    from that assms(2) have "int (length (content b)) = 1" by simp
    with buffer_read_adv_drained [OF b(1)] obtain b1 where
      b1: "buffer_read_adv b 1 = Inr b1" "room b1 = b_limit b" by auto
    have "buffer_can_read b" using b(1) assms(2) by (simp add: can_read_content)
    with b'(1) b1(1) have "b1 = b'" by (auto simp: buffer_read_def rbind_eq_Inr)
    with b1(2) b(2) show ?thesis by simp
  qed
  with b' b(2) show ?thesis by (auto simp: steady_def)
qed

interpretation full: byte_source buffer_can_read buffer_read content steady
proof
  show "steady b \<Longrightarrow> buffer_can_read b \<longleftrightarrow> content b \<noteq> []" for b by (simp add: steady_def can_read_content)
qed (rule buffer_read_steady)

lemma consume_buffer_steady:
  assumes "consume_buffer step b s = Inr (s', b')" "steady b"
  shows "steady b'"
proof -
  have "length (content b) = b_write b - b_read b" using assms(2) by (simp add: steady_def)
  with full.consume_feeds [OF assms(2), of "b_write b - b_read b" step s] obtain b1 where
    b1: "consume_buffer step b s = rbind (feed_until step (content b) s) (\<lambda>(s', rest). Inr (s', b1))" "steady b1"
    unfolding consume_buffer_def by auto
  with assms(1) show ?thesis by (cases "feed_until step (content b) s") auto
qed

lemma buffer_fill_steady:
  assumes "steady b" "bs \<noteq> []" "length bs \<le> room b" "buffer_fill b bs = Inr b1" "buffer_write_adv b1 (int (length bs)) = Inr b2"
  shows "steady b2"
proof -
  from assms(1) have "buffer_inv b" "b_limit b = BUFFER_SIZE" by (simp_all add: steady_def)
  with buffer_fill_ok [of b bs] assms(2-5) show ?thesis by (auto simp: steady_def)
qed

lemma client_read_steady:
  assumes "client_read cur k = Inr (nx, k')" "steady (read_buffer (k_p3 k))"
  shows "steady (read_buffer (k_p3 k'))"
proof -
  let ?b = "read_buffer (k_p3 k)" and ?bs = "received (io_recv (k_io k)) (room (read_buffer (k_p3 k)))"
  have ptr: "buffer_write_ptr ?b = Inr (room ?b)" using assms(2) by (simp add: steady_def)
  show ?thesis
  proof (cases "?bs = []")
    case True
    with assms ptr show ?thesis by (auto simp: client_read_def rbind_eq_Inr Let_def)
  next
    case False
    with assms(1) ptr obtain b1 b2 k1 b3 where
      b: "buffer_fill ?b ?bs = Inr b1" "buffer_write_adv b1 (int (length ?bs)) = Inr b2"
        "consume_buffer (read_byte cur) b2 (cur, k) = Inr ((nx, k1), b3)" "read_buffer (k_p3 k') = b3"
      by (auto simp: client_read_def rbind_eq_Inr Let_def)
    from buffer_fill_steady [OF assms(2) False received_length b(1,2)] consume_buffer_steady [OF b(3)] b(4)
    show ?thesis by simp
  qed
qed

section \<open>One read of the file\<close>

text \<open>The session is delivering a mail, the read buffer is empty and \<open>read\<close> gives \<open>bs\<close>.\<close>

definition file_read :: "key \<Rightarrow> byte list \<Rightarrow> bool" where
  "file_read k bs \<longleftrightarrow> selectable k \<and> (\<exists>mail_fd socket_fd. client (k_p3 k) = Mail_st mail_fd socket_fd)
     \<and> buffer_inv (read_buffer (k_p3 k)) \<and> content (read_buffer (k_p3 k)) = []
     \<and> buffer_inv (write_buffer (k_p3 k)) \<and> bs \<noteq> [] \<and> io_read (k_io k) = Some bs
     \<and> length bs \<le> room (read_buffer (k_p3 k))"

lemma filesystem_read_eq:
  assumes "file_read k bs"
  shows "\<exists>b1 b2 k1. waiting_to_write k ((k_p3 k)\<lparr>read_buffer := b1\<rparr>) k1 \<and> buffer_inv b2
    \<and> filesystem_read cur k = rbind (feed_until mail_byte bs ((k_p3 k)\<lparr>read_buffer := b1\<rparr>)) (\<lambda>(p, rest).
        Inr (WRITING_MAIL, k1\<lparr>k_p3 := p\<lparr>read_buffer := b2\<rparr>\<rparr>))
    \<and> (\<forall>s rest. feed_until mail_byte bs ((k_p3 k)\<lparr>read_buffer := b1\<rparr>) = Inr (s, rest) \<longrightarrow> content b2 = rest)"
proof -
  from assms have f: "buffer_inv (read_buffer (k_p3 k))" "content (read_buffer (k_p3 k)) = []" "bs \<noteq> []"
    "length bs \<le> room (read_buffer (k_p3 k))" "io_read (k_io k) = Some bs" by (simp_all add: file_read_def)
  from buffer_fill_ok [OF f(1,4)] f(2) obtain b0 b1 where
    b: "buffer_fill (read_buffer (k_p3 k)) bs = Inr b0" "buffer_write_adv b0 (int (length bs)) = Inr b1"
      "buffer_inv b1" "content b1 = bs" by auto
  let ?k = "k\<lparr>k_p3 := (k_p3 k)\<lparr>read_buffer := b1\<rparr>\<rparr>"
  from assms obtain it where it: "selector_inv (w_sel (k_world ?k))" "registered (w_sel (k_world ?k)) (k_fd ?k) = Some it"
    by (auto simp: file_read_def selectable_def)
  from key_set_interest_ok [OF it, of OP_WRITE] obtain s where
    s: "key_set_interest OP_WRITE ?k = Inr (SELECTOR_SUCCESS, ?k\<lparr>k_world := (k_world k)\<lparr>w_sel := s\<rparr>\<rparr>)" "selector_inv s"
      "registered s = (registered (w_sel (k_world k)))(k_fd k \<mapsto> it\<lparr>it_interest := OP_WRITE\<rparr>)" by auto
  let ?k1 = "?k\<lparr>k_world := (k_world k)\<lparr>w_sel := s\<rparr>\<rparr>"
  have r: "waiting_to_write k ((k_p3 k)\<lparr>read_buffer := b1\<rparr>) ?k1" "k_p3 ?k1 = (k_p3 k)\<lparr>read_buffer := b1\<rparr>"
    unfolding waiting_to_write_def using it(2) s(2,3) key_set_interest_grows [OF s(1)]
    by (auto intro!: exI [of _ s] exI [of _ it])
  from consume_buffer_feeds [OF b(3), of mail_byte "(k_p3 k)\<lparr>read_buffer := b1\<rparr>"] b(4) obtain b2 where
    b2: "consume_buffer mail_byte b1 ((k_p3 k)\<lparr>read_buffer := b1\<rparr>)
        = rbind (feed_until mail_byte bs ((k_p3 k)\<lparr>read_buffer := b1\<rparr>)) (\<lambda>(s', rest). Inr (s', b2))"
      "buffer_inv b2"
      "\<forall>s rest. feed_until mail_byte bs ((k_p3 k)\<lparr>read_buffer := b1\<rparr>) = Inr (s, rest) \<longrightarrow> content b2 = rest"
    by auto
  have rec: "received (io_read (k_io k)) (room (read_buffer (k_p3 k))) = bs" using f(4,5) by (simp add: received_def)
  from assms have c: "\<exists>x. client_mail (k_p3 k) = Inr x" by (auto simp: file_read_def client_mail_def)
  have "filesystem_read cur k = rbind (feed_until mail_byte bs ((k_p3 k)\<lparr>read_buffer := b1\<rparr>)) (\<lambda>(p, rest).
        Inr (WRITING_MAIL, ?k1\<lparr>k_p3 := p\<lparr>read_buffer := b2\<rparr>\<rparr>))"
    using f b s(1) r(2) b2(1) c rec by (auto simp: filesystem_read_def Let_def rbind_assoc split_def)
  with r(1) b2(2,3) show ?thesis by blast
qed

section \<open>One write of the mail\<close>

lemma send_buffer_ok:
  assumes "buffer_inv (write_buffer (k_p3 k))"
  shows "\<exists>b. send_buffer fd n k = Inr (k\<lparr>k_p3 := (k_p3 k)\<lparr>write_buffer := b\<rparr>,
      k_world := (k_world k)\<lparr>w_sent := w_sent (k_world k) @ [(fd, take n (content (write_buffer (k_p3 k))))],
        transfer_bytes := transfer_bytes (k_world k) + of_nat (min n (length (content (write_buffer (k_p3 k)))))\<rparr>\<rparr>)
    \<and> buffer_inv b \<and> content b = drop n (content (write_buffer (k_p3 k)))"
proof -
  let ?c = "content (write_buffer (k_p3 k))"
  from buffer_read_adv_ok [OF assms, of "min n (length ?c)"] obtain b where
    b: "buffer_read_adv (write_buffer (k_p3 k)) (int (min n (length ?c))) = Inr b" "buffer_inv b"
      "content b = drop (min n (length ?c)) ?c" by auto
  have "drop (min n (length ?c)) ?c = drop n ?c" by (simp add: min_def)
  moreover have "take (min n (length ?c)) ?c = take n ?c" by (simp add: min_def)
  ultimately show ?thesis
    using b assms by (intro exI [of _ b]) (simp add: send_buffer_def Let_def del: of_nat_min length_content)
qed

text \<open>The socket takes all there is: the write buffer is empty and the descriptor wants to be read again.\<close>

lemma send_all:
  assumes "selector_inv (w_sel (k_world k))" "registered (w_sel (k_world k)) (k_fd k) = Some it"
    and "steady (write_buffer (k_p3 k))" "length (content (write_buffer (k_p3 k))) \<le> n"
  shows "\<exists>k1 b s t. send_buffer fd n k = Inr k1 \<and> write_buffer (k_p3 k1) = b \<and> drained b \<and> \<not> buffer_can_read b
    \<and> key_set_interest OP_READ k1 = Inr (SELECTOR_SUCCESS, k\<lparr>k_p3 := (k_p3 k)\<lparr>write_buffer := b\<rparr>,
        k_world := (k_world k)\<lparr>w_sent := w_sent (k_world k) @ [(fd, content (write_buffer (k_p3 k)))],
          transfer_bytes := t, w_sel := s\<rparr>\<rparr>)
    \<and> selector_inv s \<and> grows (w_sel (k_world k)) s
    \<and> registered s = (registered (w_sel (k_world k)))(k_fd k \<mapsto> it\<lparr>it_interest := OP_READ\<rparr>)"
proof -
  let ?p = "k_p3 k" and ?w = "k_world k"
  let ?c = "content (write_buffer ?p)"
  let ?t = "transfer_bytes ?w + of_nat (length ?c)"
  from assms(3) have inv: "buffer_inv (write_buffer ?p)" "b_limit (write_buffer ?p) = BUFFER_SIZE"
    by (simp_all add: steady_def)
  from buffer_read_adv_drained [OF inv(1)] inv(2) obtain b where
    b: "buffer_read_adv (write_buffer ?p) (int (length ?c)) = Inr b" "drained b"
    by (auto simp: drained_def steady_def)
  let ?k1 = "k\<lparr>k_p3 := ?p\<lparr>write_buffer := b\<rparr>, k_world := ?w\<lparr>w_sent := w_sent ?w @ [(fd, ?c)], transfer_bytes := ?t\<rparr>\<rparr>"
  have "send_buffer fd n k = Inr ?k1"
    using inv(1) assms(4) b(1) by (simp add: send_buffer_def Let_def min_absorb2 del: length_content)
  moreover from set_interest_ok [OF assms(1,2), of OP_READ] obtain s where
    s: "selector_set_interest_key (w_sel ?w) (k_fd k) OP_READ = Inr (SELECTOR_SUCCESS, s)" "selector_inv s"
      "registered s = (registered (w_sel ?w))(k_fd k \<mapsto> it\<lparr>it_interest := OP_READ\<rparr>)" by blast
  moreover have "\<not> buffer_can_read b" using drainedD [OF b(2)] can_read_content by simp
  ultimately show ?thesis
    using b(2) set_interest_grows [OF s(1)]
    by (intro exI [of _ ?k1] exI [of _ b] exI [of _ s] exI [of _ ?t]) (simp add: key_set_interest_def set_interest_key_def)
qed

lemma mail_fd_unregistered:
  assumes "selector_inv (w_sel (k_world k))" "registered (w_sel (k_world k)) fd = Some it"
    and "it_handler it = Some Mail_handler"
  shows "\<exists>s. key_unregister fd k = Inr (SELECTOR_SUCCESS, k\<lparr>k_world := (k_world k)\<lparr>w_conns :=
      (w_conns (k_world k))(k_self k \<mapsto> k_p3 k), w_sel := s\<rparr>\<rparr>)
    \<and> selector_inv s \<and> grows (w_sel (k_world k)) s \<and> registered s = (registered (w_sel (k_world k)))(fd := None)"
proof -
  let ?w = "(k_world k)\<lparr>w_conns := (w_conns (k_world k))(k_self k \<mapsto> k_p3 k)\<rparr>"
  have "selector_inv (w_sel ?w)" "registered (w_sel ?w) fd = Some it" using assms by simp_all
  moreover have "(case handle_close (the (it_handler it)) of None \<Rightarrow> Inr ?w | Some f \<Rightarrow> f fd (it_data it) ?w) = Inr ?w"
    using assms(3) by (simp add: handle_close_def)
  ultimately obtain s where s: "selector_unregister_fd handle_close (w_sel ?w) fd ?w = Inr (SELECTOR_SUCCESS, s, ?w)"
    "selector_inv s" "registered s = (registered (w_sel (k_world k)))(fd := None)"
    using unregister_ok [of "w_sel ?w" fd it, where close = handle_close and w = ?w and w' = ?w] by auto
  with unregister_grows [OF s(1)] show ?thesis by (intro exI [of _ s]) (simp add: key_unregister_def unregister_fd_def)
qed

section \<open>Removing the marked mails\<close>

definition marked :: "byte list \<Rightarrow> nat \<Rightarrow> mail_t list \<Rightarrow> mail_t list" where
  "marked flags i ms = List.map snd (List.filter (\<lambda>(k, _). flags ! k \<noteq> 0) (enumerate i ms))"

lemma marked_Cons: "marked flags i (x # ms) = (if flags ! i \<noteq> 0 then x # marked flags (Suc i) ms else marked flags (Suc i) ms)"
  by (simp add: marked_def)

lemma delete_loop:
  assumes "holds p i ms" "i + length ms \<le> 30" "length (dele_flags p) = 30"
  shows "for_nat (\<lambda>i w.
       rbind (load_at (unat i) (dele_flags p)) (\<lambda>flag.
       if flag \<noteq> 0 then
         rbind (mail_at p (unat i)) (\<lambda>m. Inr (w\<lparr>w_removed := w_removed w @ [file_path m]\<rparr>))
       else Inr w)) (length ms) i w
    = Inr (w\<lparr>w_removed := w_removed w @ List.map file_path (marked (dele_flags p) i ms)\<rparr>)"
  using assms
proof (induction ms arbitrary: i w)
  case Nil
  then show ?case by (simp add: marked_def)
next
  case (Cons x ms)
  have u: "unat (of_nat i :: u32) = i" using Cons.prems by (intro unat_of_nat_u32) simp
  have m: "mail_at p i = Inr x" using Cons.prems(1) by (auto simp: holds_def dest: spec [of _ 0])
  have "holds p (Suc i) ms" using Cons.prems(1) by (auto simp: holds_def dest: spec [of _ "Suc _"])
  with Cons.IH [of "Suc i"] Cons.prems u m show ?case by (simp add: marked_Cons)
qed

section \<open>Properties\<close>

definition mail_key :: "world \<Rightarrow> int \<Rightarrow> byte list \<Rightarrow> key" where
  "mail_key w st bs = \<lparr>k_fd = 8, k_self = 0, k_io = (example_io [])\<lparr>io_read := Some bs\<rparr>,
     k_p3 = example_session\<lparr>client := Mail_st 9 8, byte_stuffing_st := st\<rparr>, k_world = w\<rparr>"

lemma mail_key_read:
  assumes "bs \<noteq> []" "length bs \<le> 500"
  shows "\<exists>w. file_read (mail_key w st bs) bs"
proof -
  obtain s :: "(fd_handler, attachment) fdselector" where "selector_inv s" "\<exists>it. registered s 8 = Some it"
    using example_selector [of 8 Pop3_handler "Some (Pop3_data 0)"] by fastforce
  then have "file_read (mail_key (initial_world s) st bs) bs"
    using assms by (simp add: file_read_def mail_key_def initial_world_def selectable_def example_session_def
        mailbox.defs example_io_def room_def content_def buffer_inv_def buffer_init_def)
  then show ?thesis by blast
qed

text \<open>
  C10. A mail of lines without a bare carriage return, none of which is a single dot and not all blank, is
  copied byte for byte behind what the write buffer holds, terminator included, and it is marked as over
  exactly when the number of blank lines just before the terminator is even: after a blank line the
  automaton misses the line end it needs.
\<close>

theorem mail_is_copied:
  assumes "file_read k (mail_text ls)" "\<forall>l \<in> set ls. CR \<notin> set l \<and> l \<noteq> [DOT]"
    and "\<exists>l \<in> set ls. l \<noteq> []" "byte_stuffing_st (k_p3 k) = 0" "length (mail_text ls) \<le> room (write_buffer (k_p3 k))"
  shows "\<exists>k'. filesystem_read cur k = Inr (WRITING_MAIL, k')
    \<and> content (write_buffer (k_p3 k')) = content (write_buffer (k_p3 k)) @ mail_text ls
    \<and> content (read_buffer (k_p3 k')) = []
    \<and> mail_done (k_p3 k') = (if even (blank_tail ls) then 1 else mail_done (k_p3 k))"
proof -
  from filesystem_read_eq [OF assms(1), of cur] obtain b1 b2 k1 where
    k1: "filesystem_read cur k = rbind (feed_until mail_byte (mail_text ls) ((k_p3 k)\<lparr>read_buffer := b1\<rparr>)) (\<lambda>(p, rest).
        Inr (WRITING_MAIL, k1\<lparr>k_p3 := p\<lparr>read_buffer := b2\<rparr>\<rparr>))"
      "\<And>s rest. feed_until mail_byte (mail_text ls) ((k_p3 k)\<lparr>read_buffer := b1\<rparr>) = Inr (s, rest) \<Longrightarrow> content b2 = rest"
    by blast
  let ?p = "(k_p3 k)\<lparr>read_buffer := b1\<rparr>"
  have "buffer_inv (write_buffer ?p)" "length (mail_text ls) \<le> room (write_buffer ?p)"
    "stuff_inv (byte_stuffing_st ?p) (content (write_buffer ?p))"
    using assms by (simp_all add: file_read_def stuff_inv_def)
  from mail_bytes_ok [OF this] stuff_mail [OF assms(2)] assms(4) obtain b st where
    b: "feed_until mail_byte (mail_text ls) ?p = (if armed False ls
        then Inr (?p\<lparr>write_buffer := b, byte_stuffing_st := st, mail_done := 1\<rparr>, [])
        else Inr (?p\<lparr>write_buffer := b, byte_stuffing_st := st\<rparr>, []))"
      "content b = content (write_buffer (k_p3 k)) @ mail_text ls"
    by (cases "armed False ls") auto
  from k1 b armed_blank [OF assms(3)] show ?thesis by (cases "armed False ls") auto
qed

theorem mail_is_copied_witness:
  "(\<exists>w k'. filesystem_read READING_MAIL (mail_key w 0 (mail_text [str ''a'', [], str ''b''])) = Inr (WRITING_MAIL, k')
      \<and> mail_done (k_p3 k') = 1)
    \<and> (\<exists>w k'. filesystem_read READING_MAIL (mail_key w 0 (mail_text [str ''a'', []])) = Inr (WRITING_MAIL, k')
      \<and> mail_done (k_p3 k') = 0)"
proof -
  let ?l1 = "[str ''a'', [], str ''b'']" and ?l2 = "[str ''a'', []]"
  have len: "length (mail_text ?l1) \<le> 500" "length (mail_text ?l2) \<le> 500" "mail_text ?l1 \<noteq> []" "mail_text ?l2 \<noteq> []"
    by (simp_all add: mail_text_def)
  from mail_key_read [of "mail_text ?l1" 0] mail_key_read [of "mail_text ?l2" 0] len obtain w1 w2 where
    w: "file_read (mail_key w1 0 (mail_text ?l1)) (mail_text ?l1)" "file_read (mail_key w2 0 (mail_text ?l2)) (mail_text ?l2)"
    by blast
  have s: "byte_stuffing_st (k_p3 (mail_key w 0 bs)) = 0" "room (write_buffer (k_p3 (mail_key w 0 bs))) = 500"
    "mail_done (k_p3 (mail_key w 0 bs)) = 0" for w bs
    by (simp_all add: mail_key_def example_session_def mailbox.defs room_def buffer_init_def)
  have b: "blank_tail ?l1 = 0" "blank_tail ?l2 = 1" by (simp_all add: blank_tail_def)
  from mail_is_copied [OF w(1), of READING_MAIL] mail_is_copied [OF w(2), of READING_MAIL] len s b
  show ?thesis by (fastforce simp del: str_Cons simp: str_def)
qed

text \<open>
  C39. The write after the end of a mail has been read is the last one of that mail, however much of it
  the socket accepts: the session goes back to waiting for commands, the descriptor of the file leaves
  the selector, and what was not sent is thrown away.
\<close>

theorem last_write_drops_the_rest:
  assumes "client (k_p3 k) = Mail_st mail_fd socket_fd" "mail_done (k_p3 k) \<noteq> 0" "io_send (k_io k) = Some n"
    and "buffer_inv (write_buffer (k_p3 k))" "selectable k"
    and "registered (w_sel (k_world k)) mail_fd = Some it" "it_handler it = Some Mail_handler"
  shows "\<exists>k'. mail_write cur k = Inr (TRANSACTION, k')
    \<and> w_sent (k_world k') = w_sent (k_world k) @ [(socket_fd, take n (content (write_buffer (k_p3 k))))]
    \<and> content (write_buffer (k_p3 k')) = [] \<and> content (read_buffer (k_p3 k')) = [] \<and> mail_done (k_p3 k') = 0
    \<and> registered (w_sel (k_world k')) mail_fd = None"
proof -
  from send_buffer_ok [OF assms(4), of socket_fd n] obtain k1 where
    k1: "send_buffer socket_fd n k = Inr k1" "w_sel (k_world k1) = w_sel (k_world k)" "k_fd k1 = k_fd k"
      "mail_done (k_p3 k1) = mail_done (k_p3 k)"
      "w_sent (k_world k1) = w_sent (k_world k) @ [(socket_fd, take n (content (write_buffer (k_p3 k))))]"
    by auto
  let ?rest = "if \<not> buffer_can_read (write_buffer (k_p3 k1)) then
       rbind (key_set_interest OP_READ k1) (\<lambda>(st, k). Inr (if st = SELECTOR_SUCCESS then READING_MAIL else ERROR, k))
     else Inr (cur, k1)"
  have "\<exists>ret k2 it2. ?rest = Inr (ret, k2) \<and> selector_inv (w_sel (k_world k2))
    \<and> registered (w_sel (k_world k2)) mail_fd = Some it2 \<and> it_handler it2 = Some Mail_handler \<and> k_p3 k2 = k_p3 k1
    \<and> w_sent (k_world k2) = w_sent (k_world k1)"
  proof (cases "buffer_can_read (write_buffer (k_p3 k1))")
    case True
    with assms(5-7) k1(2) show ?thesis by (auto simp: selectable_def)
  next
    case False
    from assms(5) k1(2,3) obtain it1 where
      it1: "selector_inv (w_sel (k_world k1))" "registered (w_sel (k_world k1)) (k_fd k1) = Some it1"
      by (auto simp: selectable_def)
    from key_set_interest_ok [OF it1, of OP_READ] obtain s where
      s: "key_set_interest OP_READ k1 = Inr (SELECTOR_SUCCESS, k1\<lparr>k_world := (k_world k1)\<lparr>w_sel := s\<rparr>\<rparr>)"
        "selector_inv s" "registered s = (registered (w_sel (k_world k1)))(k_fd k1 \<mapsto> it1\<lparr>it_interest := OP_READ\<rparr>)"
      by auto
    have "\<exists>it2. registered s mail_fd = Some it2 \<and> it_handler it2 = Some Mail_handler"
      using s(3) it1(2) assms(6,7) k1(2) by (cases "mail_fd = k_fd k1") auto
    with s(1,2) False show ?thesis by auto
  qed
  then obtain ret k2 it2 where k2: "?rest = Inr (ret, k2)" "selector_inv (w_sel (k_world k2))"
    "registered (w_sel (k_world k2)) mail_fd = Some it2" "it_handler it2 = Some Mail_handler" "k_p3 k2 = k_p3 k1"
    "w_sent (k_world k2) = w_sent (k_world k1)" by blast
  from mail_fd_unregistered [OF k2(2-4)] obtain s where
    s: "key_unregister mail_fd k2 = Inr (SELECTOR_SUCCESS, k2\<lparr>k_world := (k_world k2)\<lparr>w_conns :=
      (w_conns (k_world k2))(k_self k2 \<mapsto> k_p3 k2), w_sel := s\<rparr>\<rparr>)"
      "registered s = (registered (w_sel (k_world k2)))(mail_fd := None)" by blast
  have "mail_write cur k = rbind ?rest (\<lambda>(ret, k).
     if mail_done (k_p3 k) \<noteq> 0 then
       rbind (key_unregister mail_fd k) (\<lambda>(_, k).
       let p = k_p3 k in
       Inr (TRANSACTION, k\<lparr>k_p3 := p\<lparr>mail_done := 0, read_buffer := buffer_reset (read_buffer p),
              write_buffer := buffer_reset (write_buffer p)\<rparr>\<rparr>))
     else Inr (ret, k))"
    using assms(1,3,4) k1(1) by (simp add: mail_write_def client_mail_def)
  also have "\<dots> = Inr (TRANSACTION, k2\<lparr>k_p3 := (k_p3 k1)\<lparr>mail_done := 0,
        read_buffer := buffer_reset (read_buffer (k_p3 k1)), write_buffer := buffer_reset (write_buffer (k_p3 k1))\<rparr>,
      k_world := (k_world k2)\<lparr>w_conns := (w_conns (k_world k2))(k_self k2 \<mapsto> k_p3 k1), w_sel := s\<rparr>\<rparr>)"
    unfolding k2(1) using s(1) k1(4) k2(5) assms(2) by (simp add: Let_def)
  finally show ?thesis using s(2) k1(5) k2(6) by simp
qed

definition written_out :: "world \<Rightarrow> byte list \<Rightarrow> key" where
  "written_out w bs = \<lparr>k_fd = 9, k_self = 0, k_io = (example_io [])\<lparr>io_send := Some 1\<rparr>,
     k_p3 = example_session\<lparr>client := Mail_st 9 8, mail_done := 1, write_buffer := buffer_init 2 bs\<lparr>b_write := 2\<rparr>\<rparr>,
     k_world = w\<rparr>"

theorem last_write_drops_the_rest_witness:
  "\<exists>w k'. mail_write WRITING_MAIL (written_out w [65, 66]) = Inr (TRANSACTION, k')
    \<and> w_sent (k_world k') = [(8, [65])] \<and> content (write_buffer (k_p3 k')) = []"
proof -
  obtain s :: "(fd_handler, attachment) fdselector" where s: "selector_inv s"
    "registered s = [9 \<mapsto> \<lparr>it_fd = 9, it_interest = OP_READ, it_handler = Some Mail_handler, it_data = None\<rparr>]"
    using example_selector [of 9 Mail_handler None] by auto
  let ?k = "written_out (initial_world s) [65, 66]"
  have c: "content (write_buffer (k_p3 ?k)) = [65, 66]" by (simp add: written_out_def content_def buffer_init_def)
  have "\<exists>k'. mail_write WRITING_MAIL ?k = Inr (TRANSACTION, k')
    \<and> w_sent (k_world k') = w_sent (k_world ?k) @ [(8, take 1 (content (write_buffer (k_p3 ?k))))]
    \<and> content (write_buffer (k_p3 k')) = [] \<and> content (read_buffer (k_p3 k')) = [] \<and> mail_done (k_p3 k') = 0
    \<and> registered (w_sel (k_world k')) 9 = None"
    by (rule last_write_drops_the_rest [where mail_fd = 9 and
        it = "\<lparr>it_fd = 9, it_interest = OP_READ, it_handler = Some Mail_handler, it_data = None\<rparr>"])
      (simp_all add: written_out_def example_io_def initial_world_def selectable_def s buffer_inv_def buffer_init_def)
  then obtain k' where "mail_write WRITING_MAIL ?k = Inr (TRANSACTION, k')"
    "w_sent (k_world k') = w_sent (k_world ?k) @ [(8, take 1 [65, 66])]" "content (write_buffer (k_p3 k')) = []"
    unfolding c by blast
  then show ?thesis by (intro exI [of _ "initial_world s"] exI [of _ k']) (simp add: written_out_def initial_world_def)
qed

text \<open>
  On arrival in the update state the files of exactly the marked mails are removed, in their order,
  and nothing else of the program changes.
\<close>

lemma delete_mails_removes:
  assumes "mailbox_inv (k_p3 k)" "holds (k_p3 k) 0 ms" "length ms = Suc (unat (max_index (k_p3 k)))"
  shows "delete_mails st k = Inr (k\<lparr>k_world := (k_world k)\<lparr>w_removed :=
      w_removed (k_world k) @ List.map file_path (marked (dele_flags (k_p3 k)) 0 ms)\<rparr>\<rparr>)"
proof -
  have len: "unat (max_index (k_p3 k)) < 30" "length (dele_flags (k_p3 k)) = 30"
    using assms(1) by (simp_all add: mailbox_inv_def MAX_MAILS_def)
  with delete_loop [OF assms(2), of "k_world k"] assms(3) show ?thesis
    by (simp add: delete_mails_def for_le_nat del: for_nat.simps)
qed

lemma delete_mails_removes_example:
  "\<exists>p k. load_mails example_os INITIAL_PATH example_session = Inr p \<and> k_p3 k = p
    \<and> delete_mails UPDATE k = Inr (k\<lparr>k_world := (k_world k)\<lparr>w_removed :=
        w_removed (k_world k) @ [str ''./directories/foo/cur/b'']\<rparr>\<rparr>)"
proof -
  from loadable_load [OF example_loadable] obtain p where
    p: "load_mails example_os INITIAL_PATH example_session = Inr p" "loaded example_session example_mails p"
    by (auto simp: example_env_def)
  let ?k = "(mail_key (initial_world undefined) 0 [])\<lparr>k_p3 := p\<rparr>"
  have l: "length example_mails = 2" by (simp add: example_mails_def)
  have i: "mailbox_inv (k_p3 ?k)" "holds (k_p3 ?k) 0 example_mails"
    "length example_mails = Suc (unat (max_index (k_p3 ?k)))" "dele_flags (k_p3 ?k) = (replicate 30 0)[1 := 1]"
    using p(2) loaded_sel(2,3) [OF p(2)] l by (simp_all add: loaded_def example_fields)
  have "List.map file_path (marked (dele_flags (k_p3 ?k)) 0 example_mails) = [str ''./directories/foo/cur/b'']"
    unfolding i(4) by (simp add: marked_def example_mails_def mail_of_def INITIAL_PATH_def CUR_def)
  with delete_mails_removes [OF i(1-3), of UPDATE] p(1) show ?thesis
    by (intro exI [of _ p] exI [of _ ?k]) simp
qed

end
