(* ===== verification/Admin.thy ===== *)
theory Admin
  imports World
begin

text \<open>
  The monitor service (\<^verbatim>\<open>src/server/monitornio.c\<close>): the table of administrators, the action a
  request asks for, and the callbacks of a connection. Requests act on the state the sessions share:
  the user list, the mail directory, the counters.
\<close>

section \<open>The table of administrators\<close>

definition MAX_ADMIN :: nat where "MAX_ADMIN = 3"

text \<open>\<open>strncmp(a, b, n) == 0\<close> on memory that holds \<open>n\<close> bytes.\<close>

fun strncmp_eq :: "nat \<Rightarrow> byte list \<Rightarrow> byte list \<Rightarrow> bool" where
  "strncmp_eq 0 xs ys \<longleftrightarrow> True"
| "strncmp_eq (Suc n) (x # xs) (y # ys) \<longleftrightarrow> x = y \<and> (x = 0 \<or> strncmp_eq n xs ys)"
| "strncmp_eq (Suc n) xs ys \<longleftrightarrow> False"

definition check_monitor_admin :: "world \<Rightarrow> byte list \<Rightarrow> bool" where
  "check_monitor_admin w token \<longleftrightarrow>
     (\<exists>a \<in> set (take (current_admins w) (all_admin_data w)). strncmp_eq TOKEN_SIZE token (ai_token a))"

text \<open>The name at the start of an entry; one of five letters has no zero and runs into the token.\<close>

definition admin_name :: "admin_info \<Rightarrow> cstring res" where
  "admin_name a = mem_string (ai_user a @ ai_token a)"

fun find_admin :: "cstring \<Rightarrow> admin_info list \<Rightarrow> bool res" where
  "find_admin user [] = Inr False"
| "find_admin user (a # as) = rbind (admin_name a) (\<lambda>n. if user = n then Inr True else find_admin user as)"

definition remove_admin :: "cstring \<Rightarrow> world \<Rightarrow> (int \<times> world) res" where
  "remove_admin username w =
     rbind (find_admin username (take (current_admins w) (all_admin_data w))) (\<lambda>found.
     Inr (if found then (0, w\<lparr>current_admins := current_admins w - 1\<rparr>) else (- 1, w)))"

text \<open>\<open>user\<close> and \<open>token\<close> are the memory the two pointers point to.\<close>

definition add_new_admin :: "byte list \<Rightarrow> byte list \<Rightarrow> world \<Rightarrow> (int \<times> world) res" where
  "add_new_admin user token w =
     (if current_admins w \<ge> MAX_ADMIN then Inr (1, w)
      else
        rbind (mem_string token) (\<lambda>tk.
        if length tk \<noteq> TOKEN_SIZE then Inr (- 1, w)
        else
          rbind (mem_string user) (\<lambda>u.
          rbind (find_admin u (take (current_admins w) (all_admin_data w))) (\<lambda>found.
          if found then Inr (- 1, w)
          else
            rbind (load_at (current_admins w) (all_admin_data w)) (\<lambda>a.
            let a' = \<lparr>ai_user = strncpy (ai_user a) u 5, ai_token = strncpy (ai_token a) tk 16\<rparr>
            in Inr (0, w\<lparr>all_admin_data := (all_admin_data w)[current_admins w := a'],
                         current_admins := Suc (current_admins w)\<rparr>))))))"

section \<open>Carrying out a request\<close>

text \<open>The outcome of the two switches: status, length, data, error code.\<close>

definition data_action :: "world \<Rightarrow> byte \<Rightarrow> byte \<times> u16 \<times> response_data" where
  "data_action w t =
     (if t = monitor_data_current then (monitor_status_success, 4, Number (get_current w))
      else if t = monitor_data_historic then (monitor_status_success, 4, Number (get_historic w))
      else if t = monitor_data_tranfer_bytes then
        (monitor_status_success, 4, Number (ucast (get_transfer_bytes w)))
      else (monitor_status_no_such_method, 1, No_data))"

definition config_action :: "world \<Rightarrow> monitor \<Rightarrow> (byte \<times> int \<times> world) res" where
  "config_action w m =
     (let t = m_type m; done = (\<lambda>(e, w). Inr (monitor_status_success, e, w)) in
      if t = monitor_config_maildir then
        rbind (mem_string (m_data m)) (\<lambda>path.
        let (e, path') = change_maildir (w_maildir w) path in done (e, w\<lparr>w_maildir := path'\<rparr>))
      else if t = monitor_config_buf_size then
        rbind (mem_string (m_data m)) (\<lambda>s. done (change_buf_size s, w))
      else if t = monitor_config_add_admin then rbind (add_new_admin (m_data m) (drop MAX_NAME (m_data m)) w) done
      else if t = monitor_config_remove_admin then
        rbind (mem_string (m_data m)) (\<lambda>u. rbind (remove_admin u w) done)
      else if t = monitor_config_add_pop3 then
        rbind (mem_string (m_data m)) (\<lambda>u.
        rbind (mem_string (drop MAX_NAME (m_data m))) (\<lambda>p.
        rbind (register_user (w_users w) (Some u) (Some p)) (\<lambda>(e, db). done (e, w\<lparr>w_users := db\<rparr>))))
      else if t = monitor_config_remove_pop3 then
        rbind (mem_string (m_data m)) (\<lambda>u.
        rbind (unregister_user (w_users w) (Some u)) (\<lambda>(e, db). done (e, w\<lparr>w_users := db\<rparr>)))
      else Inr (monitor_status_no_such_method, 0, w))"

definition monitor_action :: "world \<Rightarrow> admin_connection \<Rightarrow> (world \<times> admin_connection) res" where
  "monitor_action w d =
     (let m = mp_monitor (ac_parser d) in
      rbind
        (if \<not> check_monitor_admin w (m_token m) then Inr (monitor_status_invalid_auth, 1, No_data, 0, w)
         else if m_req_type m = monitor_type_data then
           (let (status, len, data) = data_action w (m_type m) in Inr (status, len, data, 0, w))
         else if m_req_type m = monitor_type_config then
           rbind (config_action w m) (\<lambda>(status, e, w1). Inr (status, 1, No_data, e, w1))
         else Inr (monitor_status_no_such_method, 1, No_data, 0, w)) (\<lambda>(status, len, data, error_type, w1).
      let status' = (if error_type \<noteq> 0 then monitor_status_invalid_data else status) in
      rbind (monitor_response_handler (ac_wb d) status' len data) (\<lambda>(r, wb).
      if r = - 1 then Inl Aborted else Inr (w1, d\<lparr>ac_wb := wb, ac_status := status'\<rparr>))))"

section \<open>Connections\<close>

definition zero_connection :: "int \<Rightarrow> admin_connection" where
  "zero_connection fd =
   \<lparr>ac_fd = fd, ac_rb = buffer_init 512 (replicate 512 0), ac_wb = buffer_init 512 (replicate 512 0),
    ac_parser = fresh_parser, ac_status = 0\<rparr>"

text \<open>A connection comes from the pool, or from the allocator.\<close>

definition new_admin_connection :: "bool \<Rightarrow> int \<Rightarrow> world \<Rightarrow> nat option \<times> world" where
  "new_admin_connection mem fd w =
     (case pool w of
       [] \<Rightarrow> if mem then (Some (w_next w), w\<lparr>w_next := Suc (w_next w),
                 w_admins := (w_admins w)(w_next w \<mapsto> zero_connection fd)\<rparr>)
             else (None, w)
     | a # as \<Rightarrow> (Some a, w\<lparr>pool := as, w_admins := (w_admins w)(a \<mapsto> zero_connection fd)\<rparr>))"

definition monitor_init :: "admin_connection \<Rightarrow> admin_connection" where
  "monitor_init ac = ac\<lparr>ac_status := monitor_status_unknown_error, ac_parser := monitor_init_parser (ac_parser ac)\<rparr>"

definition monitor_fail :: "int \<Rightarrow> nat option \<Rightarrow> world \<Rightarrow> world" where
  "monitor_fail fd a w = admin_connection_destroy a (if fd \<noteq> - 1 then close_fd fd w else w)"

definition monitor_passive_accept :: "io \<Rightarrow> world \<Rightarrow> world res" where
  "monitor_passive_accept io w =
     (let fd = io_accept io in
      if fd = - 1 \<or> \<not> io_nio io then Inr (monitor_fail fd None w)
      else
        (case new_admin_connection (io_mem io) fd w of
          (None, w1) \<Rightarrow> Inr (monitor_fail fd None w1)
        | (Some a, w1) \<Rightarrow>
            rbind (register_fd (io_mem io) fd Monitor_handler OP_READ (Some (Admin_data a)) w1) (\<lambda>(st, w2).
            if st \<noteq> SELECTOR_SUCCESS then Inr (monitor_fail fd (Some a) w2)
            else Inr (w2\<lparr>w_admins := (w_admins w2)(a := map_option monitor_init (w_admins w2 a))\<rparr>))))"

text \<open>The connection behind the data pointer of a selector key.\<close>

definition admin_at :: "attachment option \<Rightarrow> world \<Rightarrow> (nat \<times> admin_connection) res" where
  "admin_at data w =
     (case data of
       Some (Admin_data a) \<Rightarrow> (case w_admins w a of None \<Rightarrow> Inl UseAfterFree | Some d \<Rightarrow> Inr (a, d))
     | Some _ \<Rightarrow> Inl UninitRead
     | None \<Rightarrow> Inl NullDeref)"

definition put_admin :: "nat \<Rightarrow> admin_connection \<Rightarrow> world \<Rightarrow> world" where
  "put_admin a d w = w\<lparr>w_admins := (w_admins w)(a \<mapsto> d)\<rparr>"

definition monitor_end :: "admin_connection \<Rightarrow> world \<Rightarrow> world res" where
  "monitor_end d w =
     (if ac_fd d \<noteq> - 1 then
        rbind (unregister_fd (ac_fd d) w) (\<lambda>(st, w1).
        if st \<noteq> SELECTOR_SUCCESS then Inl Aborted else Inr (close_fd (ac_fd d) w1))
      else Inr w)"

definition monitor_read :: "io \<Rightarrow> int \<Rightarrow> attachment option \<Rightarrow> world \<Rightarrow> world res" where
  "monitor_read io fd data w =
     rbind (admin_at data w) (\<lambda>(a, d).
     rbind (buffer_write_ptr (ac_rb d)) (\<lambda>count.
     let bytes = received (io_recv io) count in
     if bytes = [] then monitor_end d w
     else
       rbind (buffer_fill (ac_rb d) bytes) (\<lambda>b.
       rbind (buffer_write_adv b (int (length bytes))) (\<lambda>b.
       rbind (monitor_consume (w_globals w) b (ac_parser d)) (\<lambda>(state, g, p, b).
       let d = d\<lparr>ac_rb := b, ac_parser := p\<rparr>; w = w\<lparr>w_globals := g\<rparr> in
       if monitor_has_finish state then
         rbind
           (if state \<noteq> monitor_finish then
              rbind (monitor_error_handler p (ac_wb d)) (\<lambda>(r, wb).
              if r = - 1 then Inl Aborted else Inr (w, d\<lparr>ac_wb := wb\<rparr>))
            else monitor_action w d) (\<lambda>(w, d).
         rbind (set_interest_key fd OP_WRITE (put_admin a d w)) (\<lambda>(_, w). Inr w))
       else Inr (put_admin a d w))))))"

definition monitor_write :: "io \<Rightarrow> int \<Rightarrow> attachment option \<Rightarrow> world \<Rightarrow> world res" where
  "monitor_write io fd data w =
     rbind (admin_at data w) (\<lambda>(a, d).
     rbind (buffer_read_ptr (ac_wb d)) (\<lambda>bytes.
     case io_send io of
       None \<Rightarrow> monitor_end d w
     | Some k \<Rightarrow>
         let n = min k (length bytes); w = w\<lparr>w_sent := w_sent w @ [(fd, take n bytes)]\<rparr> in
         rbind (buffer_read_adv (ac_wb d) (int n)) (\<lambda>wb.
         let w = put_admin a (d\<lparr>ac_wb := wb\<rparr>) w in
         if \<not> buffer_can_read wb then monitor_end d w else Inr w)))"

section \<open>Requests\<close>

text \<open>The reply to a request without numbers: the status and one zero byte.\<close>

lemma short_response:
  assumes "buffer_inv b" "4 \<le> room b"
  shows "\<exists>b'. monitor_response_handler b status 1 No_data = Inr (4, b') \<and> buffer_inv b'
    \<and> content b' = content b @ [status, 0, 1, 0]"
  using response_ok [of b 1 No_data status] assms by (simp add: response_bytes_def htons_def)

lemma number_response:
  assumes "buffer_inv b" "7 \<le> room b"
  shows "\<exists>b'. monitor_response_handler b status 4 (Number n) = Inr (7, b') \<and> buffer_inv b'
    \<and> content b' = content b @ [status, 0, 4] @ htonl n"
  using response_ok [of b 4 "Number n" status] assms by (simp add: response_bytes_def htons_def htonl_def)

lemma add_user_action:
  assumes "m_type m = monitor_config_add_pop3" "mem_string (m_data m) = Inr u" "mem_string (drop 5 (m_data m)) = Inr pw"
    and "users_are (w_users w) xs"
  shows "\<exists>db. config_action w m = Inr (monitor_status_success, if u \<in> fst ` set xs then 1 else 0, w\<lparr>w_users := db\<rparr>)
    \<and> users_are db (if u \<in> fst ` set xs then xs else xs @ [(u, pw)])"
proof -
  from register_user_refines [OF assms(4), of u pw] obtain db where
    "register_user (w_users w) (Some u) (Some pw) = Inr (if u \<in> fst ` set xs then 1 else 0, db)"
    "users_are db (if u \<in> fst ` set xs then xs else xs @ [(u, pw)])" by blast
  with assms(1-3) show ?thesis
    by (intro exI [of _ db]) (simp add: config_action_def Let_def MAX_NAME_def)
qed

lemma monitor_action_config:
  assumes "buffer_inv (ac_wb d)" "4 \<le> room (ac_wb d)" "m = mp_monitor (ac_parser d)"
    and "check_monitor_admin w (m_token m)" "m_req_type m = monitor_type_config"
    and "config_action w m = Inr (status, e, w1)"
  shows "\<exists>wb. monitor_action w d = Inr (w1, d\<lparr>ac_wb := wb, ac_status := if e = 0 then status else monitor_status_invalid_data\<rparr>)
    \<and> buffer_inv wb \<and> content wb = content (ac_wb d) @ [if e = 0 then status else monitor_status_invalid_data, 0, 1, 0]"
  using short_response [OF assms(1,2), of status] short_response [OF assms(1,2), of monitor_status_invalid_data] assms(3-6)
  by (cases "e = 0") (auto simp: monitor_action_def Let_def)

section \<open>Adding and removing administrators\<close>

text \<open>The table holds the administrators \<open>as\<close>, each with a name of at most four letters.\<close>

definition admin_entry :: "admin_info \<Rightarrow> cstring \<times> byte list \<Rightarrow> bool" where
  "admin_entry a x \<longleftrightarrow> length (ai_user a) = 5 \<and> length (ai_token a) = 17 \<and> length (fst x) \<le> 4 \<and> 0 \<notin> set (fst x)
     \<and> take (Suc (length (fst x))) (ai_user a) = fst x @ [0] \<and> length (snd x) = 16 \<and> take 16 (ai_token a) = snd x
     \<and> 0 \<notin> set (snd x)"

definition admins_are :: "world \<Rightarrow> (cstring \<times> byte list) list \<Rightarrow> bool" where
  "admins_are w xs \<longleftrightarrow> length (all_admin_data w) = 3 \<and> current_admins w = length xs \<and> length xs \<le> 3
     \<and> list_all2 admin_entry (take (length xs) (all_admin_data w)) xs
     \<and> (\<forall>a \<in> set (all_admin_data w). length (ai_user a) = 5 \<and> length (ai_token a) = 17)"

lemma admin_entry_name:
  assumes "admin_entry a (u, tk)"
  shows "admin_name a = Inr u"
proof -
  from assms have u: "take (Suc (length u)) (ai_user a) = u @ [0]" "0 \<notin> set u" by (simp_all add: admin_entry_def)
  have "ai_user a = u @ 0 # drop (Suc (length u)) (ai_user a)"
    using u(1) append_take_drop_id [of "Suc (length u)" "ai_user a"] by simp
  then have "ai_user a @ ai_token a = u @ 0 # (drop (Suc (length u)) (ai_user a) @ ai_token a)"
    by (metis append.assoc append_Cons)
  with mem_string_append_zero [OF u(2)] show ?thesis unfolding admin_name_def by metis
qed

lemma find_admin_entries:
  "list_all2 admin_entry as xs \<Longrightarrow> find_admin u as = Inr (u \<in> fst ` set xs)"
proof (induction as xs rule: list_all2_induct)
  case Nil
  then show ?case by simp
next
  case (Cons a as x xs)
  obtain v tk where x: "x = (v, tk)" by (cases x)
  with Cons admin_entry_name [of a v tk] show ?case by auto
qed

lemma strncmp_eq_take:
  assumes "length xs \<ge> n" "length ys \<ge> n" "0 \<notin> set (take n ys)"
  shows "strncmp_eq n xs ys \<longleftrightarrow> take n xs = take n ys"
  using assms
proof (induction n xs ys rule: strncmp_eq.induct)
  case (2 n x xs y ys)
  then show ?case by auto
qed auto

lemma check_entries:
  assumes "admins_are w xs" "length tk = 16"
  shows "check_monitor_admin w tk \<longleftrightarrow> tk \<in> snd ` set xs"
proof -
  have e: "strncmp_eq TOKEN_SIZE tk (ai_token a) \<longleftrightarrow> tk = snd x" if "admin_entry a x" for a x
    using strncmp_eq_take [of 16 tk "ai_token a"] that assms(2) by (auto simp: admin_entry_def TOKEN_SIZE_def)
  from assms(1) have l: "list_all2 admin_entry (take (current_admins w) (all_admin_data w)) xs"
    by (simp add: admins_are_def)
  then have "(\<exists>a \<in> set (take (current_admins w) (all_admin_data w)). strncmp_eq TOKEN_SIZE tk (ai_token a))
      \<longleftrightarrow> (\<exists>x \<in> set xs. tk = snd x)"
    by (induction rule: list_all2_induct) (auto simp: e)
  then show ?thesis unfolding check_monitor_admin_def by auto
qed

lemma add_new_admin_ok:
  assumes "admins_are w xs" "length xs < 3" "u \<notin> fst ` set xs" "length u \<le> 4" "0 \<notin> set u" "length tk = 16" "0 \<notin> set tk"
    and "mem_string um = Inr u" "mem_string tm = Inr tk"
  shows "\<exists>w'. add_new_admin um tm w = Inr (0, w') \<and> admins_are w' (xs @ [(u, tk)])
    \<and> w' = w\<lparr>all_admin_data := all_admin_data w', current_admins := current_admins w'\<rparr>"
proof -
  let ?n = "length xs"
  from assms(1) have t: "length (all_admin_data w) = 3" "current_admins w = ?n"
    "list_all2 admin_entry (take ?n (all_admin_data w)) xs"
    and l: "\<forall>a \<in> set (all_admin_data w). length (ai_user a) = 5 \<and> length (ai_token a) = 17"
    by (simp_all add: admins_are_def)
  let ?a = "all_admin_data w ! ?n"
  have a: "length (ai_user ?a) = 5" "length (ai_token ?a) = 17" using l t(1) assms(2) by (simp_all add: nth_mem)
  let ?a' = "\<lparr>ai_user = strncpy (ai_user ?a) u 5, ai_token = strncpy (ai_token ?a) tk 16\<rparr>"
  have e: "admin_entry ?a' (u, tk)"
    using a assms(4-7)
    by (auto simp: admin_entry_def strncpy_def min_def take_Cons' replicate_app_Cons_same [symmetric] Suc_diff_le)
  have "take (Suc ?n) ((all_admin_data w)[?n := ?a']) = take ?n (all_admin_data w) @ [?a']"
    using t(1) assms(2) by (simp add: take_Suc_conv_app_nth)
  then have "list_all2 admin_entry (take (length (xs @ [(u, tk)])) ((all_admin_data w)[?n := ?a'])) (xs @ [(u, tk)])"
    using t(3) e by (simp add: list_all2_appendI)
  moreover have "\<forall>a \<in> set ((all_admin_data w)[?n := ?a']). length (ai_user a) = 5 \<and> length (ai_token a) = 17"
    using l e set_update_subset_insert [of "all_admin_data w" ?n ?a'] by (auto simp: admin_entry_def)
  ultimately show ?thesis
    using assms t find_admin_entries [OF t(3), of u]
    by (auto simp: add_new_admin_def MAX_ADMIN_def TOKEN_SIZE_def admins_are_def Let_def)
qed

lemma remove_admin_ok:
  assumes "admins_are w xs" "u \<in> fst ` set xs"
  shows "\<exists>w'. remove_admin u w = Inr (0, w') \<and> admins_are w' (butlast xs)"
proof -
  from assms(1) have t: "length (all_admin_data w) = 3" "current_admins w = length xs" "length xs \<le> 3"
    "list_all2 admin_entry (take (length xs) (all_admin_data w)) xs" by (simp_all add: admins_are_def)
  have "remove_admin u w = Inr (0, w\<lparr>current_admins := length xs - 1\<rparr>)"
    using find_admin_entries [OF t(4), of u] assms(2) t(2) by (simp add: remove_admin_def)
  moreover have "list_all2 admin_entry (take (length xs - 1) (all_admin_data w)) (butlast xs)"
    using list_all2_takeI [OF t(4), of "length xs - 1"] t(3) by (simp add: butlast_conv_take min_def)
  ultimately show ?thesis using assms(1) by (auto simp: admins_are_def)
qed

section \<open>A request in one read\<close>

definition new_connection :: "int \<Rightarrow> admin_connection" where
  "new_connection fd = monitor_init (zero_connection fd)"

lemma new_connection_sel [simp]:
  "ac_fd (new_connection fd) = fd" "ac_parser (new_connection fd) = fresh_parser"
  "ac_rb (new_connection fd) = buffer_init 512 (replicate 512 0)"
  "ac_wb (new_connection fd) = buffer_init 512 (replicate 512 0)"
  by (simp_all add: new_connection_def monitor_init_def zero_connection_def monitor_init_parser_def fresh_parser_def)

lemma room_512 [simp]: "room (buffer_init n xs) = n"
  by (simp add: room_def buffer_init_def)

lemma monitor_read_complete:
  assumes "w_admins w a = Some (new_connection fd)" "io_recv io = Some bs" "bs \<noteq> []" "length bs \<le> 512"
    and "monitor_feed_all (w_globals w) fresh_parser bs = Inr (g, p)" "mp_state p = monitor_finish"
  shows "\<exists>rb. monitor_read io fd (Some (Admin_data a)) w =
    rbind (monitor_action (w\<lparr>w_globals := g\<rparr>) ((new_connection fd)\<lparr>ac_rb := rb, ac_parser := p\<rparr>)) (\<lambda>(w, d).
    rbind (set_interest_key fd OP_WRITE (put_admin a d w)) (\<lambda>(_, w). Inr w))"
proof -
  let ?b = "buffer_init 512 (replicate 512 (0 :: byte))"
  have inv: "buffer_inv ?b" by simp
  from buffer_fill_ok [OF inv, of bs] assms(4) obtain b1 b2 where
    b: "buffer_fill ?b bs = Inr b1" "buffer_write_adv b1 (int (length bs)) = Inr b2" "buffer_inv b2" "content b2 = bs"
    by auto
  from monitor_consume_feeds [OF b(3), of "w_globals w" fresh_parser g p] b(4) assms(5,6) obtain b3 where
    c: "monitor_consume (w_globals w) b2 fresh_parser = Inr (monitor_finish, g, p, b3)" by auto
  have ptr: "buffer_write_ptr ?b = Inr 512" by (simp add: buffer_write_ptr_def buffer_init_def)
  show ?thesis
    using assms(1-4) b(1,2) c ptr by (auto simp: monitor_read_def admin_at_def received_def Let_def)
qed

lemma set_interest_key_ok:
  assumes "selector_inv (w_sel w)" "registered (w_sel w) fd = Some it"
  shows "\<exists>s. set_interest_key fd i w = Inr (SELECTOR_SUCCESS, w\<lparr>w_sel := s\<rparr>) \<and> selector_inv s
    \<and> registered s = (registered (w_sel w))(fd \<mapsto> it\<lparr>it_interest := i\<rparr>)"
  using set_interest_ok [OF assms, of i] by (auto simp: set_interest_key_def)

lemma config_header_length: "length tk = 16 \<Longrightarrow> length (config_header tk t n) = 21"
  by (simp add: config_header_def htons_def)

text \<open>A world with the user and the administrator of \<^verbatim>\<open>main\<close> and a monitor connection on descriptor 7.\<close>

definition root_token :: "byte list" where
  "root_token = str ''123456789abcdef1''"

lemma length_root_token [simp]: "length root_token = 16"
  by (simp add: root_token_def)

definition monitored :: "world \<Rightarrow> bool" where
  "monitored w \<longleftrightarrow> users_are (w_users w) [(str ''foo'', str ''bar'')] \<and> admins_are w [(str ''root'', root_token)]
     \<and> w_admins w 0 = Some (new_connection 7) \<and> selector_inv (w_sel w)
     \<and> (\<exists>it. registered (w_sel w) 7 = Some it) \<and> length (combinedlen (w_globals w)) = 2"

lemma admins_initial: "admins_are (initial_world s) []"
  by (simp add: admins_are_def initial_world_def admin_info_zero_def MAX_NAME_def TOKEN_SIZE_def)

lemma monitored_exists: "\<exists>w. monitored w"
proof -
  obtain s' :: "(fd_handler, attachment) fdselector" where s': "selector_inv s'" "\<exists>it. registered s' 7 = Some it"
    using example_selector [of 7 Monitor_handler "Some (Admin_data 0)"] by fastforce
  from register_user_refines [OF users_are_empty, of "str ''foo''" "str ''bar''"] obtain db where
    db: "users_are db [(str ''foo'', str ''bar'')]" by auto
  have "mem_string (str ''root'' @ [0]) = Inr (str ''root'')" "mem_string (root_token @ [0]) = Inr root_token"
    by (simp_all add: root_token_def)
  from add_new_admin_ok [OF admins_initial _ _ _ _ _ _ this, of s'] obtain w where
    w: "admins_are w [(str ''root'', root_token)]"
      "w = (initial_world s')\<lparr>all_admin_data := all_admin_data w, current_admins := current_admins w\<rparr>"
    by (auto simp: root_token_def)
  let ?w = "w\<lparr>w_users := db, w_admins := [0 \<mapsto> new_connection 7]\<rparr>"
  have "w_sel w = s'" "w_globals w = monitor_globals_init"
    using arg_cong [OF w(2), of w_sel] arg_cong [OF w(2), of w_globals] by (simp_all add: initial_world_def)
  then have "monitored ?w"
    using w(1) s' db by (simp add: monitored_def admins_are_def monitor_globals_init_def)
  then show ?thesis by blast
qed

definition start_world :: world where
  "start_world = initial_world \<lparr>s_fds = None, s_fd_size = 0, s_max_fd = 0, master_r = {}, master_w = {},
     resolution_jobs = []\<rparr>"

section \<open>Properties\<close>

text \<open>
  C30. A monitor request whose token is not that of an administrator changes nothing the services share:
  it is answered with the status for invalid authentication.
\<close>

theorem monitor_requires_token:
  assumes "buffer_inv (ac_wb d)" "4 \<le> room (ac_wb d)"
    and "\<not> check_monitor_admin w (m_token (mp_monitor (ac_parser d)))"
  shows "\<exists>wb. monitor_action w d = Inr (w, d\<lparr>ac_wb := wb, ac_status := monitor_status_invalid_auth\<rparr>)
    \<and> buffer_inv wb \<and> content wb = content (ac_wb d) @ [monitor_status_invalid_auth, 0, 1, 0]"
  using short_response [OF assms(1,2), of monitor_status_invalid_auth] assms(3)
  by (auto simp: monitor_action_def Let_def)

theorem monitor_requires_token_witness:
  "\<exists>wb. monitor_action start_world (new_connection 4) =
      Inr (start_world, (new_connection 4)\<lparr>ac_wb := wb, ac_status := monitor_status_invalid_auth\<rparr>)
    \<and> buffer_inv wb \<and> content wb = [monitor_status_invalid_auth, 0, 1, 0]"
proof -
  have "\<not> check_monitor_admin start_world tk" for tk
    by (simp add: check_monitor_admin_def start_world_def initial_world_def)
  from monitor_requires_token [OF _ _ this, of "new_connection 4"] show ?thesis by simp
qed

text \<open>
  The request to add a user, sent by an administrator on a new connection and received in one
  read, adds exactly that user when the name is new and is refused when it is taken; the reply is
  queued and the connection waits to send it.
\<close>

lemma monitor_adds_user:
  assumes "w_admins w a = Some (new_connection fd)" "selector_inv (w_sel w)" "registered (w_sel w) fd = Some it"
    and "users_are (w_users w) xs" "length (combinedlen (w_globals w)) = 2" "check_monitor_admin w tk"
    and "length tk = 16" "u \<noteq> []" "pw \<noteq> []" "\<forall>c \<in> set (u @ pw). IS_ALNUM c" "length u \<le> 4"
    and "n = Suc (length u + length pw)" "n < 240"
    and "io_recv io = Some (config_header tk monitor_config_add_pop3 (of_nat n) @ u @ 0 # pw)"
  shows "\<exists>w' d. monitor_read io fd (Some (Admin_data a)) w = Inr w'
    \<and> users_are (w_users w') (if u \<in> fst ` set xs then xs else xs @ [(u, pw)])
    \<and> w_admins w' a = Some d
    \<and> content (ac_wb d) = [if u \<in> fst ` set xs then monitor_status_invalid_data else monitor_status_success, 0, 1, 0]
    \<and> selector_inv (w_sel w') \<and> registered (w_sel w') = (registered (w_sel w))(fd \<mapsto> it\<lparr>it_interest := OP_WRITE\<rparr>)"
proof -
  let ?bs = "config_header tk monitor_config_add_pop3 (of_nat n) @ u @ 0 # pw"
  have n: "n < 250" and len: "length pw < 245" using assms(12,13) by simp_all
  have z: "0 \<notin> set u" "0 \<notin> set pw" using assms(10) IS_ALNUM_0 by (metis Un_iff set_append)+
  have e: "(new_user_data u pw)[5 + n := 0] = new_user_data u pw"
    using assms(11-13) len by (intro new_user_data_end) auto
  have "length ?bs \<le> 512" "?bs \<noteq> []"
    using config_header_length [OF assms(7), of monitor_config_add_pop3 "of_nat n"] assms(12,13) by auto
  from feed_new_user_request [OF assms(7) _ assms(5) assms(8-10,12) n, of 4] e obtain g p where
    f: "monitor_feed_all (w_globals w) fresh_parser ?bs = Inr (g, p)" "mp_state p = monitor_finish"
    and p: "mp_monitor p = monitor_zero\<lparr>m_token := tk, m_req_type := 1, m_type := 4, m_dlen := of_nat n,
      m_data := new_user_data u pw\<rparr>"
    by (auto simp: with_data_def data_parser_def)
  from monitor_read_complete [OF assms(1,14) \<open>?bs \<noteq> []\<close> \<open>length ?bs \<le> 512\<close> f] obtain rb where
    run: "monitor_read io fd (Some (Admin_data a)) w =
      rbind (monitor_action (w\<lparr>w_globals := g\<rparr>) ((new_connection fd)\<lparr>ac_rb := rb, ac_parser := p\<rparr>)) (\<lambda>(w, d).
      rbind (set_interest_key fd OP_WRITE (put_admin a d w)) (\<lambda>(_, w). Inr w))" by blast
  let ?d = "(new_connection fd)\<lparr>ac_rb := rb, ac_parser := p\<rparr>" and ?w = "w\<lparr>w_globals := g\<rparr>"
  let ?e = "if u \<in> fst ` set xs then 1 else (0 :: int)"
  have strs: "mem_string (m_data (mp_monitor p)) = Inr u" "mem_string (drop 5 (m_data (mp_monitor p))) = Inr pw"
    using new_user_strings [OF assms(11) len z] by (simp_all add: p)
  from add_user_action [OF _ strs, of ?w xs] assms(4) p obtain db where
    db: "config_action ?w (mp_monitor p) = Inr (monitor_status_success, ?e, ?w\<lparr>w_users := db\<rparr>)"
      "users_are db (if u \<in> fst ` set xs then xs else xs @ [(u, pw)])" by auto
  have chk: "check_monitor_admin ?w (m_token (mp_monitor p))" using assms(6) by (simp add: p check_monitor_admin_def)
  from monitor_action_config [of ?d "mp_monitor p" ?w, OF _ _ _ chk _ db(1)] p obtain d where
    act: "monitor_action ?w ?d = Inr (?w\<lparr>w_users := db\<rparr>, d)"
      "content (ac_wb d) = [if ?e = 0 then monitor_status_success else monitor_status_invalid_data, 0, 1, 0]" by auto
  let ?w1 = "put_admin a d (?w\<lparr>w_users := db\<rparr>)"
  from set_interest_key_ok [of ?w1 fd it OP_WRITE] assms(2,3) obtain s where
    "set_interest_key fd OP_WRITE ?w1 = Inr (SELECTOR_SUCCESS, ?w1\<lparr>w_sel := s\<rparr>)" "selector_inv s"
    "registered s = (registered (w_sel w))(fd \<mapsto> it\<lparr>it_interest := OP_WRITE\<rparr>)" by (auto simp: put_admin_def)
  with run act db(2) show ?thesis by (auto simp: put_admin_def)
qed

lemma monitor_adds_user_example:
  "\<exists>w w' d. monitored w
    \<and> monitor_read (example_io (config_header root_token monitor_config_add_pop3 7 @ str ''ana'' @ 0 # str ''pwd'')) 7
        (Some (Admin_data 0)) w = Inr w'
    \<and> users_are (w_users w') [(str ''foo'', str ''bar''), (str ''ana'', str ''pwd'')]
    \<and> w_admins w' 0 = Some d \<and> content (ac_wb d) = [monitor_status_success, 0, 1, 0]"
proof -
  obtain w where m: "monitored w" using monitored_exists by blast
  then have w: "users_are (w_users w) [(str ''foo'', str ''bar'')]" "admins_are w [(str ''root'', root_token)]"
    "w_admins w 0 = Some (new_connection 7)" "selector_inv (w_sel w)" "length (combinedlen (w_globals w)) = 2"
    unfolding monitored_def by blast+
  obtain it where it: "registered (w_sel w) 7 = Some it" using m unfolding monitored_def by blast
  have c: "check_monitor_admin w root_token" using check_entries [OF w(2), of root_token] by simp
  let ?io = "example_io (config_header root_token monitor_config_add_pop3 7 @ str ''ana'' @ 0 # str ''pwd'')"
  have "io_recv ?io = Some (config_header root_token monitor_config_add_pop3 (of_nat 7) @ str ''ana'' @ 0 # str ''pwd'')"
    by (simp add: example_io_def)
  from monitor_adds_user [OF w(3,4) it w(1,5) c length_root_token _ _ _ _ _ _ this] m show ?thesis
    by (auto simp: IS_ALNUM_def)
qed

text \<open>
  An administrator's query for the current sessions, the sessions so far or the bytes sent is
  answered with that counter as four bytes in network order, the last cut to 32 bits.
\<close>

lemma monitor_reports_counters:
  assumes "buffer_inv (ac_wb d)" "7 \<le> room (ac_wb d)" "m = mp_monitor (ac_parser d)"
    and "check_monitor_admin w (m_token m)" "m_req_type m = monitor_type_data"
    and "(m_type m, n) \<in> {(monitor_data_historic, historic_connections w), (monitor_data_current, connections w),
      (monitor_data_tranfer_bytes, ucast (transfer_bytes w))}"
  shows "\<exists>wb. monitor_action w d = Inr (w, d\<lparr>ac_wb := wb, ac_status := monitor_status_success\<rparr>)
    \<and> content wb = content (ac_wb d) @ [monitor_status_success, 0, 4] @ htonl n"
proof -
  have "data_action w (m_type m) = (monitor_status_success, 4, Number n)"
    using assms(6) by (auto simp: data_action_def get_current_def get_historic_def get_transfer_bytes_def)
  with number_response [OF assms(1,2), of monitor_status_success n] assms(3-5) show ?thesis
    by (auto simp: monitor_action_def Let_def)
qed

lemma monitor_reports_counters_example:
  "\<exists>w d wb. monitored w \<and> monitor_action (w\<lparr>connections := 3\<rparr>) d
      = Inr (w\<lparr>connections := 3\<rparr>, d\<lparr>ac_wb := wb, ac_status := monitor_status_success\<rparr>)
    \<and> content wb = [0, 0, 4, 0, 0, 0, 3]"
proof -
  obtain w where m: "monitored w" using monitored_exists by blast
  then have "admins_are w [(str ''root'', root_token)]" unfolding monitored_def by blast
  from check_entries [OF this, of root_token] have c: "check_monitor_admin (w\<lparr>connections := 3\<rparr>) root_token"
    by (simp add: check_monitor_admin_def)
  let ?m = "monitor_zero\<lparr>m_token := root_token, m_type := monitor_data_current\<rparr>"
  let ?d = "(new_connection 7)\<lparr>ac_parser := fresh_parser\<lparr>mp_monitor := ?m\<rparr>\<rparr>"
  have "htonl 3 = [0, 0, 0, 3]" by (simp add: htonl_def)
  with monitor_reports_counters [of ?d ?m "w\<lparr>connections := 3\<rparr>" 3] c m show ?thesis
    by (fastforce simp: monitor_zero_def)
qed

text \<open>So is the whole request, whatever follows the target, and the connection waits to send the answer.\<close>

lemma monitor_reads_query:
  assumes "w_admins w a = Some (new_connection fd)" "selector_inv (w_sel w)" "registered (w_sel w) fd = Some it"
    and "check_monitor_admin w tk" "length tk = 16" "length rest \<le> 400" "io_recv io = Some (1 # tk @ [0, t] @ rest)"
    and "(t, n) \<in> {(monitor_data_historic, historic_connections w), (monitor_data_current, connections w),
      (monitor_data_tranfer_bytes, ucast (transfer_bytes w))}"
  shows "\<exists>w' d. monitor_read io fd (Some (Admin_data a)) w = Inr w' \<and> w_admins w' a = Some d
    \<and> content (ac_wb d) = [monitor_status_success, 0, 4] @ htonl n
    \<and> selector_inv (w_sel w') \<and> registered (w_sel w') = (registered (w_sel w))(fd \<mapsto> it\<lparr>it_interest := OP_WRITE\<rparr>)"
proof -
  let ?bs = "1 # tk @ [0, t] @ rest" and ?g = "w_globals w"
  let ?m = "monitor_zero\<lparr>m_token := tk, m_req_type := 0, m_type := t\<rparr>"
  let ?p = "fresh_parser\<lparr>mp_state := monitor_finish, mp_len := 16, mp_read := 16, mp_monitor := ?m\<rparr>"
  have "t \<in> {0, 1, 2}" using assms(8) by auto
  from feed_query [OF assms(5) this, of ?g] feed_all_finished [of ?p ?g rest]
    monitor_feed_all_append [of ?g fresh_parser "1 # tk @ [0, t]" rest]
  have f: "monitor_feed_all ?g fresh_parser ?bs = Inr (?g, ?p)" by (simp del: monitor_feed_all.simps)
  from monitor_read_complete [OF assms(1,7) _ _ f] assms(5,6) obtain rb where
    run: "monitor_read io fd (Some (Admin_data a)) w =
      rbind (monitor_action w ((new_connection fd)\<lparr>ac_rb := rb, ac_parser := ?p\<rparr>)) (\<lambda>(w, d).
      rbind (set_interest_key fd OP_WRITE (put_admin a d w)) (\<lambda>(_, w). Inr w))" by auto
  let ?d = "(new_connection fd)\<lparr>ac_rb := rb, ac_parser := ?p\<rparr>"
  from monitor_reports_counters [of ?d ?m w n] assms(4,8) obtain wb where
    act: "monitor_action w ?d = Inr (w, ?d\<lparr>ac_wb := wb, ac_status := monitor_status_success\<rparr>)"
      "content wb = [monitor_status_success, 0, 4] @ htonl n" by (auto simp: monitor_zero_def)
  let ?w1 = "put_admin a (?d\<lparr>ac_wb := wb, ac_status := monitor_status_success\<rparr>) w"
  from set_interest_key_ok [of ?w1 fd it OP_WRITE] assms(2,3) obtain s where
    "set_interest_key fd OP_WRITE ?w1 = Inr (SELECTOR_SUCCESS, ?w1\<lparr>w_sel := s\<rparr>)" "selector_inv s"
    "registered s = (registered (w_sel w))(fd \<mapsto> it\<lparr>it_interest := OP_WRITE\<rparr>)" by (auto simp: put_admin_def)
  with run act show ?thesis by (auto simp: put_admin_def)
qed

text \<open>
  A new administrator with a name of at most four letters and a token of sixteen can be added while
  there are fewer than three; from then on exactly its token and those before are accepted.
\<close>

lemma add_admin_grants_token:
  assumes "admins_are w xs" "length xs < 3" "u \<notin> fst ` set xs" "length u \<le> 4" "0 \<notin> set u" "length tk = 16" "0 \<notin> set tk"
  shows "\<exists>w'. add_new_admin (u @ [0]) (tk @ [0]) w = Inr (0, w')
    \<and> (\<forall>t. length t = 16 \<longrightarrow> check_monitor_admin w' t = (t = tk \<or> check_monitor_admin w t))"
proof -
  from mem_string_append_zero [OF assms(5), of "[]"] mem_string_append_zero [OF assms(7), of "[]"]
  have "mem_string (u @ [0]) = Inr u" "mem_string (tk @ [0]) = Inr tk" by simp_all
  from add_new_admin_ok [OF assms this] obtain w' where
    "add_new_admin (u @ [0]) (tk @ [0]) w = Inr (0, w')" "admins_are w' (xs @ [(u, tk)])" by blast
  with check_entries [OF assms(1)] check_entries [of w' "xs @ [(u, tk)]"] show ?thesis by auto
qed

lemma add_admin_grants_token_example:
  "\<exists>w'. add_new_admin (str ''root'' @ [0]) (root_token @ [0]) start_world = Inr (0, w')
    \<and> check_monitor_admin w' root_token"
proof -
  have "\<exists>w'. add_new_admin (str ''root'' @ [0]) (root_token @ [0]) start_world = Inr (0, w')
    \<and> (\<forall>t. length t = 16 \<longrightarrow> check_monitor_admin w' t = (t = root_token \<or> check_monitor_admin start_world t))"
    unfolding start_world_def by (rule add_admin_grants_token [OF admins_initial]) (simp_all add: root_token_def)
  then show ?thesis by auto
qed

text \<open>
  C31. Removing an administrator by name takes away the one added last, whichever was named: the token
  of the named one keeps working and the last one's stops.
\<close>

theorem remove_admin_removes_the_last:
  assumes "admins_are w [(u, tk), (v, tv)]" "u \<noteq> v" "tk \<noteq> tv"
  shows "\<exists>w'. remove_admin u w = Inr (0, w') \<and> check_monitor_admin w' tk \<and> \<not> check_monitor_admin w' tv"
proof -
  have l: "length tk = 16" "length tv = 16" using assms(1) by (auto simp: admins_are_def admin_entry_def list_all2_Cons2)
  from remove_admin_ok [OF assms(1), of u] obtain w' where
    w': "remove_admin u w = Inr (0, w')" "admins_are w' [(u, tk)]" by auto
  with check_entries [OF w'(2) l(1)] check_entries [OF w'(2) l(2)] assms(3) show ?thesis by auto
qed

theorem remove_admin_removes_the_last_witness:
  "\<exists>w w'. remove_admin (str ''root'') w = Inr (0, w') \<and> check_monitor_admin w' root_token
    \<and> \<not> check_monitor_admin w' (str ''AAAAAAAAAAAAAAAA'')"
proof -
  obtain w where "monitored w" using monitored_exists by blast
  then have w: "admins_are w [(str ''root'', root_token)]" unfolding monitored_def by blast
  have "mem_string (str ''ana'' @ [0]) = Inr (str ''ana'')"
    "mem_string (str ''AAAAAAAAAAAAAAAA'' @ [0]) = Inr (str ''AAAAAAAAAAAAAAAA'')" by simp_all
  from add_new_admin_ok [OF w _ _ _ _ _ _ this] obtain w1 where
    "admins_are w1 [(str ''root'', root_token), (str ''ana'', str ''AAAAAAAAAAAAAAAA'')]" by auto
  moreover have "str ''root'' \<noteq> str ''ana''" "root_token \<noteq> str ''AAAAAAAAAAAAAAAA''"
    by (simp_all add: root_token_def)
  ultimately show ?thesis using remove_admin_removes_the_last by blast
qed

end
