(* ===== verification/Soundness.thy ===== *)
theory Soundness
  imports Conversation Delivery Admin
begin

text \<open>
  What holds of every session between two events, in every state the server can reach: its buffers keep
  their pointers in order and inside their arrays, the cells of its array of mails up to the last one
  are live mails, and the member of the union it uses is the one its state needs. The table of states
  satisfies the contract \<open>machine\<close> of the engine with this invariant, and every event of the server
  keeps it. The calls may still fail, as other theories show; this is about what is left when they
  return.
\<close>

section \<open>The invariant of a session\<close>

definition session_ok :: "pop3 \<Rightarrow> bool" where
  "session_ok p \<longleftrightarrow> fit p \<and> buffer_inv (read_buffer p)"

text \<open>The member of the union a state uses.\<close>

definition placed :: "nat \<Rightarrow> pop3 \<Rightarrow> bool" where
  "placed st p \<longleftrightarrow>
     (if st = AUTH \<or> st = TRANSACTION then client p = State_st
      else if st = READING_MAIL \<or> st = WRITING_MAIL then \<exists>mail_fd socket_fd. client p = Mail_st mail_fd socket_fd
      else client p \<noteq> Untouched)"

definition live :: "pop3 \<Rightarrow> bool" where
  "live p \<longleftrightarrow> session_ok p \<and> (case p_stm p of None \<Rightarrow> True | Some st \<Rightarrow> st \<le> ERROR \<and> placed st p)"

text \<open>The running session and, in the heap, all others.\<close>

definition at_home :: "nat \<Rightarrow> key \<Rightarrow> bool" where
  "at_home a k \<longleftrightarrow> k_self k = a \<and> session_ok (k_p3 k)
     \<and> (\<forall>b p. b \<noteq> a \<longrightarrow> w_conns (k_world k) b = Some p \<longrightarrow> live p) \<and> selector_inv (w_sel (k_world k))"

definition in_state :: "nat \<Rightarrow> nat \<Rightarrow> key \<Rightarrow> bool" where
  "in_state a st k \<longleftrightarrow> at_home a k \<and> placed st (k_p3 k)"

definition leaving :: "nat \<Rightarrow> nat \<Rightarrow> nat \<Rightarrow> key \<Rightarrow> bool" where
  "leaving a st st' k \<longleftrightarrow> at_home a k \<and> client (k_p3 k) \<noteq> Untouched \<and> (st' = st \<longrightarrow> placed st (k_p3 k))
     \<and> (st' = WRITING_MAIL \<longrightarrow> placed WRITING_MAIL (k_p3 k))"

lemma placed_touched: "placed st p \<Longrightarrow> client p \<noteq> Untouched"
  by (auto simp: placed_def split: if_splits)

lemma at_home_rest: "same_rest k k' \<Longrightarrow> at_home a k \<Longrightarrow> session_ok (k_p3 k') \<Longrightarrow> at_home a k'"
  using same_rest_sel(7) [of k k'] by (simp add: at_home_def same_rest_sel same_owners_def)

lemma session_ok_upd [simp]:
  "session_ok (p\<lparr>client := c\<rparr>) = session_ok p" "session_ok (p\<lparr>mail_done := d\<rparr>) = session_ok p"
  "session_ok (p\<lparr>byte_stuffing_st := s\<rparr>) = session_ok p" "session_ok (p\<lparr>p_parser := pa\<rparr>) = session_ok p"
  "session_ok (p\<lparr>p_stm := m\<rparr>) = session_ok p"
  "session_ok (p\<lparr>read_buffer := b\<rparr>) = (fit p \<and> buffer_inv b)"
  "session_ok (p\<lparr>write_buffer := b\<rparr>) = (mailbox_inv p \<and> buffer_inv b \<and> buffer_inv (read_buffer p))"
  by (auto simp: session_ok_def fit_def)

lemma placed_upd [simp]:
  "placed st (p\<lparr>mail_done := d\<rparr>) = placed st p" "placed st (p\<lparr>byte_stuffing_st := s\<rparr>) = placed st p"
  "placed st (p\<lparr>p_parser := pa\<rparr>) = placed st p" "placed st (p\<lparr>p_stm := m\<rparr>) = placed st p"
  "placed st (p\<lparr>read_buffer := b\<rparr>) = placed st p" "placed st (p\<lparr>write_buffer := b\<rparr>) = placed st p"
  by (simp_all add: placed_def)

section \<open>Reading commands\<close>

lemma handler_next:
  assumes "comparator pe st = Inr h" "command_handler h env cur a1 a2 p = Inr (st', p')" "fit p"
    and "cur \<in> {AUTH, TRANSACTION}"
  shows "st' \<noteq> WRITING_MAIL"
  using comparator_table [OF assms(1)]
proof
  assume "st = AUTH \<and> h \<in> {Auth_capa, User, Pass, Auth_quit, Invalid}"
  then show ?thesis
    using assms(2,4) by (auto simp: auth_capa_handler_def user_handler_def pass_handler_def auth_quit_handler_def
        invalid_command_handler_def rbind_eq_Inr dest!: write_to_buffer_return split: option.splits if_splits)
next
  assume "st = TRANSACTION \<and> h \<in> {Noop, Stat, List, Retr, Dele, Rset, Trans_capa, Trans_quit, Invalid}"
  with transaction_kept [OF assms(2,3)] assms(4) show ?thesis by auto
qed

definition reading :: "nat \<Rightarrow> nat \<times> key \<Rightarrow> bool" where
  "reading a x \<longleftrightarrow> at_home a (snd x) \<and> client (k_p3 (snd x)) = State_st \<and> fst x \<noteq> WRITING_MAIL"

lemma read_byte_home:
  assumes "read_byte cur c x = Inr (x', stop)" "reading a x" "cur \<in> {AUTH, TRANSACTION}"
  shows "reading a x'"
proof -
  obtain st k st' k' where x: "x = (st, k)" "x' = (st', k')" by (cases x; cases x')
  from read_byte_step [of cur c st k st' k' stop] assms(1) x obtain pa pb p where
    r: "same_rest k k'" "k_p3 k' = p\<lparr>p_parser := pb\<rparr>"
    and d: "st' \<in> {st, ERROR} \<and> p = (k_p3 k)\<lparr>p_parser := pa\<rparr>
      \<or> (\<exists>h a1 a2. comparator (get_last_event pa) st = Inr h
          \<and> command_handler h (key_env k) cur a1 a2 ((k_p3 k)\<lparr>p_parser := pa\<rparr>) = Inr (st', p))"
    by blast
  from assms(2) x have k: "at_home a k" "client (k_p3 k) = State_st" "st \<noteq> WRITING_MAIL" "session_ok (k_p3 k)"
    by (simp_all add: reading_def at_home_def)
  have "session_ok p \<and> client p = State_st \<and> st' \<noteq> WRITING_MAIL"
    using d
  proof (elim disjE exE conjE)
    assume "st' \<in> {st, ERROR}" "p = (k_p3 k)\<lparr>p_parser := pa\<rparr>"
    with k show ?thesis by auto
  next
    fix h a1 a2
    assume c: "comparator (get_last_event pa) st = Inr h"
      and h: "command_handler h (key_env k) cur a1 a2 ((k_p3 k)\<lparr>p_parser := pa\<rparr>) = Inr (st', p)"
    have f: "fit ((k_p3 k)\<lparr>p_parser := pa\<rparr>)" using k(4) by (simp add: session_ok_def)
    from handler_fit [OF h f] handler_next [OF c h f assms(3)] k show ?thesis
      by (simp add: session_ok_def kept_def)
  qed
  with r at_home_rest [OF r(1) k(1)] x show ?thesis by (simp add: reading_def)
qed

lemma client_read_home:
  assumes "client_read st k = Inr (st', k')" "in_state a st k" "st \<in> {AUTH, TRANSACTION}"
  shows "leaving a st st' k'"
proof -
  from assms(2) have k: "at_home a k" "session_ok (k_p3 k)" "placed st (k_p3 k)" by (simp_all add: in_state_def at_home_def)
  then have "buffer_inv (read_buffer (k_p3 k))" by (simp add: session_ok_def)
  from client_read_Inr [OF assms(1) this] show ?thesis
  proof (elim conjE disjE exE)
    assume "client (k_p3 k) = State_st" "st' = ERROR" "k' = k"
    with k assms(3) show ?thesis by (auto simp: leaving_def)
  next
    fix bs k1 rest b
    assume c: "client (k_p3 k) = State_st" and run: "feed_until (read_byte st) bs (st, k) = Inr ((st', k1), rest)"
      and b: "buffer_inv b" "k' = k1\<lparr>k_p3 := (k_p3 k1)\<lparr>read_buffer := b\<rparr>\<rparr>"
    have "reading a (st, k)" using k c assms(3) by (auto simp: reading_def)
    from feed_until_keeps [OF run, of "reading a", OF this] read_byte_home assms(3) have "reading a (st', k1)" by blast
    with b assms(3) show ?thesis
      by (auto simp: reading_def leaving_def at_home_def session_ok_def fit_def placed_def)
  qed
qed

section \<open>Steps that keep descriptors\<close>

text \<open>What most steps leave alone: of the world, and of the session the member in use and the descriptors.\<close>

definition untouched :: "world \<Rightarrow> world \<Rightarrow> bool" where
  "untouched w w' \<longleftrightarrow> w_conns w' = w_conns w \<and> head_connection w' = head_connection w \<and> w_admins w' = w_admins w
     \<and> pool w' = pool w \<and> w_next w' = w_next w"

definition same_member :: "pop3 \<Rightarrow> pop3 \<Rightarrow> bool" where
  "same_member p p' \<longleftrightarrow> client p' = client p \<and> client_fd p' = client_fd p \<and> selected_mail_fd p' = selected_mail_fd p"

definition same_place :: "key \<Rightarrow> key \<Rightarrow> bool" where
  "same_place k k' \<longleftrightarrow> k_self k' = k_self k \<and> k_fd k' = k_fd k \<and> k_io k' = k_io k \<and> untouched (k_world k) (k_world k')
     \<and> same_owners (w_sel (k_world k)) (w_sel (k_world k')) \<and> same_member (k_p3 k) (k_p3 k')
     \<and> (session_ok (k_p3 k) \<longrightarrow> session_ok (k_p3 k'))"

lemma untouched_refl [simp]: "untouched w w"
  by (simp add: untouched_def)

lemma same_member_refl [simp]: "same_member p p"
  by (simp add: same_member_def)

lemma same_place_refl [simp]: "same_place k k"
  by (simp add: same_place_def)

lemma same_place_trans: "same_place k k1 \<Longrightarrow> same_place k1 k2 \<Longrightarrow> same_place k k2"
  by (auto simp: same_place_def untouched_def same_member_def dest: same_owners_trans)

lemma same_place_home: "same_place k k' \<Longrightarrow> at_home a k \<Longrightarrow> at_home a k' \<and> client (k_p3 k') = client (k_p3 k)"
  by (simp add: same_place_def untouched_def same_member_def at_home_def same_owners_def)

lemma same_rest_place:
  assumes "same_rest k k'" "same_member (k_p3 k) (k_p3 k')" "session_ok (k_p3 k) \<Longrightarrow> session_ok (k_p3 k')"
  shows "same_place k k'"
  using assms by (auto simp: same_rest_def same_place_def untouched_def)

lemma set_interest_place: "key_set_interest i k = Inr (st, k') \<Longrightarrow> same_place k k' \<and> k_p3 k' = k_p3 k"
  using key_set_interest_rest [of i k st k'] same_rest_place [of k k'] by auto

section \<open>Reading a mail\<close>

text \<open>
  Taking five bytes back may leave the write pointer behind the read pointer; putting five bytes right
  after brings it back where it was.
\<close>

lemma put_from_anywhere:
  assumes "put_all buffer_write cs b = Inr b'" "b_write b + length cs \<le> b_limit b"
  shows "b_write b' = b_write b + length cs \<and> b_read b' = b_read b \<and> b_limit b' = b_limit b
    \<and> length (b_data b') = length (b_data b)"
  using assms
proof (induction cs arbitrary: b)
  case Nil
  then show ?case by simp
next
  case (Cons c cs)
  from Cons.prems obtain b1 where b1: "buffer_write b c = Inr b1" "put_all buffer_write cs b1 = Inr b'"
    by (auto simp: rbind_eq_Inr)
  from b1(1) Cons.prems(2) have "b_write b1 = Suc (b_write b) \<and> b_read b1 = b_read b \<and> b_limit b1 = b_limit b
      \<and> length (b_data b1) = length (b_data b)"
    by (auto simp: buffer_write_def buffer_can_write_def buffer_write_adv_def Let_def rbind_eq_Inr store_at_def
        split: if_splits)
  with Cons.IH [OF b1(2)] Cons.prems(2) show ?case by simp
qed

lemma buffer_write_inv: "buffer_write b c = Inr b' \<Longrightarrow> buffer_inv b \<Longrightarrow> buffer_inv b'"
  using buffer_write_ok [of b c] buffer_write_full [of b c] by (cases "room b = 0") auto

lemma take_back_and_put:
  assumes "delete_n_from_buffer b n = Inr b1" "put_all buffer_write cs b1 = Inr b2" "length cs = n" "buffer_inv b"
  shows "buffer_inv b2"
proof -
  from assms(1) have b1: "n \<le> b_write b" "b1 = b\<lparr>b_write := b_write b - n\<rparr>"
    by (auto simp: delete_n_from_buffer_def split: if_splits)
  with put_from_anywhere [OF assms(2)] assms(3,4) show ?thesis by (simp add: buffer_inv_def)
qed

lemma mail_byte_keeps:
  assumes "mail_byte c p = Inr (p', stop)" "session_ok p"
  shows "session_ok p' \<and> same_member p p'"
proof -
  from assms(1) obtain b where b: "buffer_write (write_buffer p) c = Inr b" by (auto simp: mail_byte_def rbind_eq_Inr)
  from assms(2) have inv: "buffer_inv (write_buffer p)" "mailbox_inv p" "buffer_inv (read_buffer p)"
    by (simp_all add: session_ok_def fit_def)
  from buffer_write_inv [OF b inv(1)] have ib: "buffer_inv b" .
  obtain st found where st: "byte_stuffer c (byte_stuffing_st p) = (st, found)"
    by (cases "byte_stuffer c (byte_stuffing_st p)")
  show ?thesis
  proof (cases found)
    case False
    with assms(1) b st ib inv show ?thesis by (auto simp: mail_byte_def same_member_def)
  next
    case True
    with assms(1) b st obtain b1 b2 where
      b1: "delete_n_from_buffer b 5 = Inr b1" "put_all buffer_write [CR, LF, DOT, CR, LF] b1 = Inr b2"
      "p' = p\<lparr>byte_stuffing_st := st, write_buffer := b2, mail_done := 1\<rparr>"
      by (auto simp: mail_byte_def rbind_eq_Inr simp del: put_all.simps)
    from take_back_and_put [OF b1(1,2) _ ib] b1(3) inv show ?thesis by (simp add: same_member_def)
  qed
qed

lemma filesystem_read_place:
  assumes "filesystem_read st k = Inr (st', k')" "session_ok (k_p3 k)"
  shows "same_place k k' \<and> st' \<in> {WRITING_MAIL, ERROR} \<and> (\<exists>mf sf. client (k_p3 k) = Mail_st mf sf)"
proof -
  from assms(1) obtain mf sf where c: "client (k_p3 k) = Mail_st mf sf"
    by (auto simp: filesystem_read_def client_mail_def rbind_eq_Inr split: client_union.splits)
  then have m: "client_mail (k_p3 k) = Inr (mf, sf)" by (simp add: client_mail_def)
  have inv: "buffer_inv (read_buffer (k_p3 k))" using assms(2) by (simp add: session_ok_def)
  let ?bs = "received (io_read (k_io k)) (room (read_buffer (k_p3 k)))"
  show ?thesis
  proof (cases "?bs = []")
    case True
    with assms(1) m inv c show ?thesis by (simp add: filesystem_read_def)
  next
    case False
    from buffer_fill_ok [OF inv received_length, of "io_read (k_io k)"] obtain b1 b2 where
      b: "buffer_fill (read_buffer (k_p3 k)) ?bs = Inr b1" "buffer_write_adv b1 (int (length ?bs)) = Inr b2"
        "buffer_inv b2" by blast
    let ?k = "k\<lparr>k_p3 := (k_p3 k)\<lparr>read_buffer := b2\<rparr>\<rparr>"
    from assms(1) m inv False b obtain s k1 where k1: "key_set_interest OP_WRITE ?k = Inr (s, k1)"
      and rest: "(if s = SELECTOR_SUCCESS then
         rbind (consume_buffer mail_byte (read_buffer (k_p3 k1)) (k_p3 k1)) (\<lambda>(p, b).
         Inr (WRITING_MAIL, k1\<lparr>k_p3 := p\<lparr>read_buffer := b\<rparr>\<rparr>))
       else Inr (WRITING_MAIL, k1)) = Inr (st', k')"
      by (auto simp: filesystem_read_def Let_def rbind_eq_Inr)
    from key_set_interest_rest [OF k1] same_rest_trans [OF same_rest_p3 [OF same_rest_refl]]
    have r: "same_rest k k1" "k_p3 k1 = (k_p3 k)\<lparr>read_buffer := b2\<rparr>" by auto
    have s1: "session_ok (k_p3 k1)" "same_member (k_p3 k) (k_p3 k1)"
      using r(2) assms(2) b(3) by (simp_all add: session_ok_def same_member_def)
    show ?thesis
    proof (cases "s = SELECTOR_SUCCESS")
      case False
      with rest r s1 same_rest_place [OF r(1) s1(2)] c show ?thesis by auto
    next
      case True
      with rest obtain p b4 where p: "consume_buffer mail_byte (read_buffer (k_p3 k1)) (k_p3 k1) = Inr (p, b4)"
        "k' = k1\<lparr>k_p3 := p\<lparr>read_buffer := b4\<rparr>\<rparr>" "st' = WRITING_MAIL" by (auto simp: rbind_eq_Inr)
      have "buffer_inv (read_buffer (k_p3 k1))" using r(2) b(3) by simp
      from consume_buffer_Inr [OF p(1) this] have
        f: "feed_until mail_byte (content (read_buffer (k_p3 k1))) (k_p3 k1) = Inr (p, content b4)" "buffer_inv b4"
        by simp_all
      let ?P = "\<lambda>q. session_ok q \<and> same_member (k_p3 k) q"
      have "?P p"
        by (rule feed_until_keeps [OF f(1)]) (use s1 mail_byte_keeps in \<open>auto simp: same_member_def\<close>)
      with p(2) f(2) have "session_ok (k_p3 k')" "same_member (k_p3 k) (k_p3 k')"
        by (simp_all add: session_ok_def same_member_def)
      with same_rest_place [OF same_rest_p3 [OF r(1)], of "p\<lparr>read_buffer := b4\<rparr>"] p(2,3) c show ?thesis by simp
    qed
  qed
qed

lemma filesystem_read_home:
  assumes "filesystem_read st k = Inr (st', k')" "in_state a st k" "st = READING_MAIL \<or> st = WRITING_MAIL"
  shows "leaving a st st' k'"
proof -
  from assms(2) have k: "at_home a k" "session_ok (k_p3 k)" by (simp_all add: in_state_def at_home_def)
  from filesystem_read_place [OF assms(1) k(2)] obtain mf sf where
    f: "same_place k k'" "st' \<in> {WRITING_MAIL, ERROR}" "client (k_p3 k) = Mail_st mf sf" by blast
  from same_place_home [OF f(1) k(1)] f(2,3) assms(3) show ?thesis by (auto simp: leaving_def placed_def)
qed

section \<open>Writing\<close>

lemma send_place:
  assumes "send_buffer fd n k = Inr k'" "session_ok (k_p3 k)"
  shows "same_place k k'"
proof -
  have "buffer_inv (write_buffer (k_p3 k))" using assms(2) by (simp add: session_ok_def fit_def)
  from send_buffer_ok [OF this, of fd n] obtain b w where
    b: "send_buffer fd n k = Inr (k\<lparr>k_p3 := (k_p3 k)\<lparr>write_buffer := b\<rparr>, k_world := w\<rparr>)" "buffer_inv b"
      "untouched (k_world k) w" "w_sel w = w_sel (k_world k)" by (fastforce simp: untouched_def)
  then have "k' = k\<lparr>k_p3 := (k_p3 k)\<lparr>write_buffer := b\<rparr>, k_world := w\<rparr>" using assms(1) by simp
  with assms(2) b(2-4) show ?thesis by (simp add: same_place_def same_member_def session_ok_def fit_def)
qed

lemma client_write_place:
  assumes "client_write st k = Inr (st', k')" "session_ok (k_p3 k)" "st \<in> {AUTH, TRANSACTION, UPDATE}"
  shows "same_place k k' \<and> st' \<in> {st, DONE, ERROR}"
proof (cases "io_send (k_io k)")
  case None
  with assms show ?thesis by (auto simp: client_write_def rbind_eq_Inr)
next
  case (Some n)
  have "buffer_inv (write_buffer (k_p3 k))" using assms(2) by (simp add: session_ok_def fit_def)
  with assms(1) Some have run: "rbind (rbind (send_buffer (k_fd k) n k) (\<lambda>k.
         if \<not> buffer_can_read (write_buffer (k_p3 k)) then
           rbind (key_set_interest OP_READ k) (\<lambda>(s, k). Inr (if s = SELECTOR_SUCCESS then st else ERROR, k))
         else Inr (st, k))) (\<lambda>(ret, k). Inr (if ret = UPDATE then DONE else ret, k)) = Inr (st', k')"
    by (simp add: client_write_def client_buffers_def rassert_def split: if_splits)
  then obtain k1 where k1: "send_buffer (k_fd k) n k = Inr k1" by (cases "send_buffer (k_fd k) n k") simp_all
  from run have rest: "rbind (if \<not> buffer_can_read (write_buffer (k_p3 k1)) then
           rbind (key_set_interest OP_READ k1) (\<lambda>(s, k). Inr (if s = SELECTOR_SUCCESS then st else ERROR, k))
         else Inr (st, k1)) (\<lambda>(ret, k). Inr (if ret = UPDATE then DONE else ret, k)) = Inr (st', k')"
    unfolding k1 rbind_Inr .
  note p1 = send_place [OF k1 assms(2)]
  show ?thesis
  proof (cases "buffer_can_read (write_buffer (k_p3 k1))")
    case True
    with rest p1 assms(3) show ?thesis by auto
  next
    case False
    with rest obtain s where "key_set_interest OP_READ k1 = Inr (s, k')" "st' \<in> {st, DONE, ERROR}"
      by (auto simp: rbind_eq_Inr split: if_splits)
    with same_place_trans [OF p1] set_interest_place show ?thesis by blast
  qed
qed

lemma client_write_home:
  assumes "client_write st k = Inr (st', k')" "in_state a st k" "st \<in> {AUTH, TRANSACTION, UPDATE}"
  shows "leaving a st st' k'"
proof -
  from assms(2) have k: "at_home a k" "session_ok (k_p3 k)" "placed st (k_p3 k)" by (simp_all add: in_state_def at_home_def)
  from client_write_place [OF assms(1) k(2) assms(3)] have f: "same_place k k'" "st' \<in> {st, DONE, ERROR}" by simp_all
  from same_place_home [OF f(1) k(1)] f(2) k(3) placed_touched [OF k(3)] assms(3) show ?thesis
    by (auto simp: leaving_def placed_def)
qed

section \<open>Connections come and go\<close>

text \<open>Closing removes connections and changes none.\<close>

definition shrinks :: "world \<Rightarrow> world \<Rightarrow> bool" where
  "shrinks w w' \<longleftrightarrow> w_conns w' \<subseteq>\<^sub>m w_conns w"

lemma shrinks_refl [simp]: "shrinks w w"
  by (simp add: shrinks_def)

lemma shrinks_trans: "shrinks w w1 \<Longrightarrow> shrinks w1 w2 \<Longrightarrow> shrinks w w2"
  unfolding shrinks_def by (rule map_le_trans)

lemma shrinks_same: "w_conns w' = w_conns w \<Longrightarrow> shrinks w w'"
  by (simp add: shrinks_def)

lemma remove_client_rec_shrinks: "remove_client_rec h as fd = Inr (h', as') \<Longrightarrow> h' \<subseteq>\<^sub>m h"
  by (induction as arbitrary: as') (auto simp: rbind_eq_Inr map_le_def split: option.splits if_splits)

lemma pop3_destroy_shrinks: "pop3_destroy a w = Inr w' \<Longrightarrow> shrinks w w'"
  using remove_client_rec_shrinks
  by (fastforce simp: pop3_destroy_def remove_client_def shrinks_def rbind_eq_Inr split: option.splits)

lemma handle_close_shrinks: "handle_close h = Some f \<Longrightarrow> f fd d w = Inr w' \<Longrightarrow> shrinks w w'"
  using pop3_destroy_shrinks
  by (auto simp: handle_close_def pop3_close_def monitor_close_def admin_connection_destroy_def shrinks_def
      split: fd_handler.splits option.splits attachment.splits if_splits)

lemma unregister_shrinks:
  assumes "unregister_fd fd w = Inr (st, w')"
  shows "shrinks w w'"
proof -
  from assms obtain s w1 where w1: "selector_unregister_fd handle_close (w_sel w) fd w = Inr (st, s, w1)"
    "w' = w1\<lparr>w_sel := s\<rparr>" by (auto simp: unregister_fd_def rbind_eq_Inr)
  have "shrinks w w1"
    using w1(1) handle_close_shrinks
    by (auto simp: selector_unregister_fd_def Let_def rbind_eq_Inr split: if_splits option.splits)
  then show ?thesis using w1(2) by (simp add: shrinks_def)
qed

lemma unregister_fd_inv: "unregister_fd fd w = Inr (st, w') \<Longrightarrow> selector_inv (w_sel w) \<Longrightarrow> selector_inv (w_sel w')"
  using unregister_inv by (fastforce simp: unregister_fd_def rbind_eq_Inr)

lemma register_fd_inv: "register_fd mem fd h i d w = Inr (st, w') \<Longrightarrow> selector_inv (w_sel w) \<Longrightarrow> selector_inv (w_sel w')"
  using register_inv by (fastforce simp: register_fd_def rbind_eq_Inr)

lemma set_interest_key_inv: "set_interest_key fd i w = Inr (st, w') \<Longrightarrow> selector_inv (w_sel w) \<Longrightarrow> selector_inv (w_sel w')"
  using set_interest_inv by (fastforce simp: set_interest_key_def rbind_eq_Inr)

lemma key_unregister_home:
  assumes "key_unregister fd k = Inr (st, k')" "at_home a k"
  shows "at_home a k' \<and> k_p3 k' = k_p3 k"
proof -
  let ?w = "(k_world k)\<lparr>w_conns := (w_conns (k_world k))(k_self k \<mapsto> k_p3 k)\<rparr>"
  from assms(1) obtain w p where w: "unregister_fd fd ?w = Inr (st, w)" "w_conns w (k_self k) = Some p"
    "k' = k\<lparr>k_p3 := p, k_world := w\<rparr>"
    by (auto simp: key_unregister_def rbind_eq_Inr split: option.splits)
  from unregister_shrinks [OF w(1)] have le: "w_conns w b = Some q \<Longrightarrow> w_conns ?w b = Some q" for b q
    by (auto simp: shrinks_def map_le_def dom_def split: if_splits)
  from le [OF w(2)] have "p = k_p3 k" by simp
  moreover have "live q" if "b \<noteq> a" "w_conns w b = Some q" for b q
    using le [OF that(2)] that(1) assms(2) by (simp add: at_home_def)
  moreover have "selector_inv (w_sel w)" using unregister_fd_inv [OF w(1)] assms(2) by (simp add: at_home_def)
  ultimately show ?thesis using assms(2) w(3) by (simp add: at_home_def)
qed

lemma mail_write_split:
  assumes "mail_write st k = Inr (st', k')" "session_ok (k_p3 k)"
  shows "\<exists>mf sf k2. client (k_p3 k) = Mail_st mf sf \<and> same_place k k2
    \<and> (k' = k2 \<and> st' \<in> {st, READING_MAIL, ERROR}
      \<or> st' = TRANSACTION \<and> (\<exists>s k3. key_unregister mf k2 = Inr (s, k3)
        \<and> k' = k3\<lparr>k_p3 := (k_p3 k3)\<lparr>mail_done := 0, read_buffer := buffer_reset (read_buffer (k_p3 k3)),
              write_buffer := buffer_reset (write_buffer (k_p3 k3))\<rparr>\<rparr>))"
proof -
  from assms(1) obtain mf sf where c: "client (k_p3 k) = Mail_st mf sf"
    by (auto simp: mail_write_def client_mail_def rbind_eq_Inr split: client_union.splits)
  have inv: "buffer_inv (write_buffer (k_p3 k))" using assms(2) by (simp add: session_ok_def fit_def)
  let ?send = "case io_send (k_io k) of
         None \<Rightarrow> Inr (if io_reset (k_io k) then ERROR else st, k)
       | Some n \<Rightarrow>
           rbind (send_buffer sf n k) (\<lambda>k.
           if \<not> buffer_can_read (write_buffer (k_p3 k)) then
             rbind (key_set_interest OP_READ k) (\<lambda>(s, k).
             Inr (if s = SELECTOR_SUCCESS then READING_MAIL else ERROR, k))
           else Inr (st, k))"
  from assms(1) c inv have "rbind ?send (\<lambda>(ret, k).
     if mail_done (k_p3 k) \<noteq> 0 then
       rbind (key_unregister mf k) (\<lambda>(_, k).
       let p = k_p3 k in
       Inr (TRANSACTION, k\<lparr>k_p3 := p\<lparr>mail_done := 0, read_buffer := buffer_reset (read_buffer p),
              write_buffer := buffer_reset (write_buffer p)\<rparr>\<rparr>))
     else Inr (ret, k)) = Inr (st', k')"
    by (simp add: mail_write_def client_mail_def)
  then obtain ret k2 where k2: "?send = Inr (ret, k2)" and rest: "(if mail_done (k_p3 k2) \<noteq> 0 then
       rbind (key_unregister mf k2) (\<lambda>(_, k).
       let p = k_p3 k in
       Inr (TRANSACTION, k\<lparr>k_p3 := p\<lparr>mail_done := 0, read_buffer := buffer_reset (read_buffer p),
              write_buffer := buffer_reset (write_buffer p)\<rparr>\<rparr>))
     else Inr (ret, k2)) = Inr (st', k')"
    by (cases ?send) auto
  have place: "same_place k k2 \<and> ret \<in> {st, READING_MAIL, ERROR}"
  proof (cases "io_send (k_io k)")
    case None
    with k2 show ?thesis by auto
  next
    case (Some n)
    with k2 obtain k1 where k1: "send_buffer sf n k = Inr k1" by (cases "send_buffer sf n k") simp_all
    note p1 = send_place [OF k1 assms(2)]
    from k2 Some k1 have after: "(if \<not> buffer_can_read (write_buffer (k_p3 k1)) then
             rbind (key_set_interest OP_READ k1) (\<lambda>(s, k).
             Inr (if s = SELECTOR_SUCCESS then READING_MAIL else ERROR, k))
           else Inr (st, k1)) = Inr (ret, k2)" by simp
    show ?thesis
    proof (cases "buffer_can_read (write_buffer (k_p3 k1))")
      case True
      with after p1 show ?thesis by auto
    next
      case False
      with after obtain s where "key_set_interest OP_READ k1 = Inr (s, k2)" "ret \<in> {READING_MAIL, ERROR}"
        by (auto simp: rbind_eq_Inr split: if_splits)
      with same_place_trans [OF p1] set_interest_place show ?thesis by blast
    qed
  qed
  show ?thesis
  proof (cases "mail_done (k_p3 k2) = 0")
    case True
    with rest place c show ?thesis by auto
  next
    case False
    with rest place c show ?thesis by (auto simp: rbind_eq_Inr Let_def)
  qed
qed

lemma mail_write_home:
  assumes "mail_write st k = Inr (st', k')" "in_state a st k" "st = READING_MAIL \<or> st = WRITING_MAIL"
  shows "leaving a st st' k'"
proof -
  from assms(2) have k: "at_home a k" "session_ok (k_p3 k)" by (simp_all add: in_state_def at_home_def)
  from mail_write_split [OF assms(1) k(2)] obtain mf sf k2 where
    c: "client (k_p3 k) = Mail_st mf sf" and place: "same_place k k2"
    and rest: "k' = k2 \<and> st' \<in> {st, READING_MAIL, ERROR}
      \<or> st' = TRANSACTION \<and> (\<exists>s k3. key_unregister mf k2 = Inr (s, k3)
        \<and> k' = k3\<lparr>k_p3 := (k_p3 k3)\<lparr>mail_done := 0, read_buffer := buffer_reset (read_buffer (k_p3 k3)),
              write_buffer := buffer_reset (write_buffer (k_p3 k3))\<rparr>\<rparr>)" by blast
  from same_place_home [OF place k(1)] c have h2: "at_home a k2" "client (k_p3 k2) = Mail_st mf sf" by simp_all
  have ret: "leaving a st st' k'" if "at_home a k'" "client (k_p3 k') = Mail_st mf sf"
    using that assms(3) by (auto simp: leaving_def placed_def)
  from rest show ?thesis
  proof
    assume "st' = TRANSACTION \<and> (\<exists>s k3. key_unregister mf k2 = Inr (s, k3)
        \<and> k' = k3\<lparr>k_p3 := (k_p3 k3)\<lparr>mail_done := 0, read_buffer := buffer_reset (read_buffer (k_p3 k3)),
              write_buffer := buffer_reset (write_buffer (k_p3 k3))\<rparr>\<rparr>)"
    then obtain s k3 where k3: "key_unregister mf k2 = Inr (s, k3)"
      "k' = k3\<lparr>k_p3 := (k_p3 k3)\<lparr>mail_done := 0, read_buffer := buffer_reset (read_buffer (k_p3 k3)),
              write_buffer := buffer_reset (write_buffer (k_p3 k3))\<rparr>\<rparr>" by blast
    from key_unregister_home [OF k3(1) h2(1)] have h3: "at_home a k3" "k_p3 k3 = k_p3 k2" by simp_all
    have "at_home a k'" using h3(1) k3(2) by (auto simp: at_home_def session_ok_def fit_def)
    with k3(2) h3(2) h2(2) show ?thesis by (intro ret) simp_all
  qed (use ret h2 in blast)
qed

section \<open>Arriving\<close>

lemma auth_init_eq:
  assumes "auth_init st k = Inr k'" "session_ok (k_p3 k)"
  shows "\<exists>b. k' = k\<lparr>k_p3 := (k_p3 k)\<lparr>client := State_st, write_buffer := b\<rparr>\<rparr> \<and> buffer_inv b"
proof -
  let ?b = "write_buffer (k_p3 k)"
  from assms(2) have ok: "buffer_inv ?b" by (simp add: session_ok_def fit_def)
  from assms(1) obtain b where b: "welcome_on_connection ?b = Inr b"
    "k' = k\<lparr>k_p3 := (k_p3 k)\<lparr>client := State_st, write_buffer := b\<rparr>\<rparr>"
    by (auto simp: auth_init_def Let_def rbind_eq_Inr)
  from b(1) obtain b1 where b1: "buffer_fill ?b WELCOME = Inr b1" "buffer_write_adv b1 (int (length WELCOME)) = Inr b"
    by (auto simp: welcome_on_connection_def rbind_eq_Inr)
  have "buffer_inv b"
    using b1 ok
    by (auto simp: buffer_fill_def buffer_write_adv_def buffer_inv_def Let_def rbind_eq_Inr rassert_def split: if_splits)
  with b(2) show ?thesis by blast
qed

lemma auth_init_home:
  assumes "auth_init st k = Inr k'" "at_home a k"
  shows "in_state a AUTH k'"
proof -
  from assms(2) have "session_ok (k_p3 k)" by (simp add: at_home_def)
  with auth_init_eq [OF assms(1) this] assms(2) show ?thesis
    by (auto simp: in_state_def at_home_def placed_def session_ok_def fit_def)
qed

lemma trans_init_home: "trans_init st k = Inr k' \<Longrightarrow> at_home a k \<Longrightarrow> in_state a TRANSACTION k'"
  by (auto simp: trans_init_def in_state_def at_home_def placed_def)

lemma register_place: "register_fd mem fd h i d w = Inr (st, w') \<Longrightarrow> w_conns w' = w_conns w"
  by (auto simp: register_fd_def rbind_eq_Inr)

lemma reading_init_home:
  assumes "reading_init st k = Inr k'" "at_home a k"
  shows "in_state a READING_MAIL k'"
proof -
  from assms(1) obtain s w where w: "register_fd (io_mem (k_io k)) (selected_mail_fd (k_p3 k)) Mail_handler OP_READ
      (Some (Pop3_data (k_self k))) (k_world k) = Inr (s, w)"
    "k' = k\<lparr>k_p3 := (k_p3 k)\<lparr>client := Mail_st (selected_mail_fd (k_p3 k)) (client_fd (k_p3 k)), mail_done := 0,
        byte_stuffing_st := 0\<rparr>, k_world := w\<rparr>"
    by (auto simp: reading_init_def Let_def rbind_eq_Inr)
  from register_place [OF w(1)] register_fd_inv [OF w(1)] w(2) assms(2) show ?thesis by (simp add: in_state_def at_home_def placed_def)
qed

lemma delete_mails_place:
  assumes "delete_mails st k = Inr k'" "session_ok (k_p3 k)"
  shows "same_place k k' \<and> k_p3 k' = k_p3 k"
proof -
  from assms(1) obtain w where w: "for_le (\<lambda>i w.
       rbind (load_at (unat i) (dele_flags (k_p3 k))) (\<lambda>flag.
       if flag \<noteq> 0 then
         rbind (mail_at (k_p3 k) (unat i)) (\<lambda>m. Inr (w\<lparr>w_removed := w_removed w @ [file_path m]\<rparr>))
       else Inr w)) (max_index (k_p3 k)) (k_world k) = Inr w" "k' = k\<lparr>k_world := w\<rparr>"
    by (auto simp: delete_mails_def rbind_eq_Inr)
  have m: "unat (max_index (k_p3 k)) < 2 ^ 32 - 1" using assms(2) fit_max by (simp add: session_ok_def)
  have "untouched (k_world k) w \<and> w_sel w = w_sel (k_world k)"
    by (rule for_le_keeps [OF w(1) _ m]) (auto simp: untouched_def rbind_eq_Inr split: if_splits)
  with w(2) show ?thesis by (simp add: same_place_def)
qed

lemma delete_mails_home:
  assumes "delete_mails st k = Inr k'" "at_home a k" "client (k_p3 k) \<noteq> Untouched"
  shows "in_state a UPDATE k'"
proof -
  from assms(2) have "session_ok (k_p3 k)" by (simp add: at_home_def)
  from delete_mails_place [OF assms(1) this] have "same_place k k'" by simp
  from same_place_home [OF this assms(2)] assms(3) show ?thesis by (simp add: in_state_def placed_def)
qed

section \<open>The table and the engine\<close>

lemma table_cases: "st < length client_statbl \<Longrightarrow> st \<in> {AUTH, TRANSACTION, READING_MAIL, WRITING_MAIL, UPDATE, DONE, ERROR}"
  by (auto simp: client_statbl_def)

lemma length_statbl [simp]: "length client_statbl = 7"
  by (simp add: client_statbl_def)

lemma table_hooks:
  "on_departure (client_statbl ! st) = None \<or> st \<ge> length client_statbl"
  "on_block_ready (client_statbl ! st) = None \<or> st \<ge> length client_statbl"
  using table_cases [of st] by (cases "st < length client_statbl"; auto simp: client_statbl_def no_state_def)+

lemma leaving_home: "leaving a st st' k \<Longrightarrow> at_home a k \<and> client (k_p3 k) \<noteq> Untouched"
  by (simp add: leaving_def)

lemma arrival_home:
  assumes "st' < length client_statbl" "leaving a st st' k"
    and "call_hook (on_arrival (client_statbl ! st')) st' k = Inr k'"
  shows "in_state a st' k'"
proof -
  from leaving_home [OF assms(2)] have k: "at_home a k" "client (k_p3 k) \<noteq> Untouched" by simp_all
  from table_cases [OF assms(1)] show ?thesis
  proof (elim insertE emptyE)
    assume "st' = AUTH"
    with assms(3) auth_init_home k show ?thesis by (auto simp: client_statbl_def no_state_def call_hook_def)
  next
    assume "st' = TRANSACTION"
    with assms(3) trans_init_home k show ?thesis by (auto simp: client_statbl_def no_state_def call_hook_def)
  next
    assume "st' = READING_MAIL"
    with assms(3) reading_init_home k show ?thesis by (auto simp: client_statbl_def no_state_def call_hook_def)
  next
    assume "st' = WRITING_MAIL"
    with assms(2,3) k show ?thesis by (auto simp: client_statbl_def no_state_def call_hook_def leaving_def in_state_def)
  next
    assume "st' = UPDATE"
    with assms(3) delete_mails_home k show ?thesis by (auto simp: client_statbl_def no_state_def call_hook_def)
  next
    assume "st' = DONE"
    with assms(3) k show ?thesis
      by (auto simp: client_statbl_def no_state_def call_hook_def close_connection_def in_state_def placed_def)
  next
    assume "st' = ERROR"
    with assms(3) k show ?thesis
      by (auto simp: client_statbl_def no_state_def call_hook_def error_function_def in_state_def placed_def)
  qed
qed

lemma read_home:
  assumes "st < length client_statbl" "in_state a st k" "on_read_ready (client_statbl ! st) = Some h"
    and "h st k = Inr (st', k')"
  shows "leaving a st st' k'"
  using table_cases [OF assms(1)] assms(2-4) client_read_home filesystem_read_home
  by (elim insertE emptyE)
    (auto simp: client_statbl_def no_state_def go_to_done_def leaving_def in_state_def dest: placed_touched)

lemma write_home:
  assumes "st < length client_statbl" "in_state a st k" "on_write_ready (client_statbl ! st) = Some h"
    and "h st k = Inr (st', k')"
  shows "leaving a st st' k'"
  using table_cases [OF assms(1)] assms(2-4) client_write_home mail_write_home
  by (elim insertE emptyE) (auto simp: client_statbl_def no_state_def)

interpretation sm: machine client_statbl AUTH "at_home a" "in_state a" "leaving a" for a :: nat
proof unfold_locales
  fix i
  assume "i < length client_statbl"
  from table_cases [OF this] show "sd_state (client_statbl ! i) = i"
    by (auto simp: client_statbl_def no_state_def)
next
  show "AUTH < length client_statbl - 1" by (simp add: client_statbl_def)
next
  fix k k'
  assume "at_home a k" "call_hook (on_arrival (client_statbl ! AUTH)) AUTH k = Inr k'"
  then show "in_state a AUTH k'" using auth_init_home by (auto simp: client_statbl_def no_state_def call_hook_def)
next
  fix st k h st' k'
  assume "st < length client_statbl" "in_state a st k" "on_read_ready (client_statbl ! st) = Some h" "h st k = Inr (st', k')"
  then show "leaving a st st' k'" by (rule read_home)
next
  fix st k h st' k'
  assume "st < length client_statbl" "in_state a st k" "on_write_ready (client_statbl ! st) = Some h" "h st k = Inr (st', k')"
  then show "leaving a st st' k'" by (rule write_home)
next
  fix st k h st' k'
  assume "st < length client_statbl" "on_block_ready (client_statbl ! st) = Some h"
  then show "leaving a st st' k'" using table_hooks(2) [of st] by simp
next
  fix st k
  assume "leaving a st st k"
  then show "in_state a st k" by (simp add: leaving_def in_state_def)
next
  fix st st' k k'
  assume "st < length client_statbl" "leaving a st st' k" "call_hook (on_departure (client_statbl ! st)) st k = Inr k'"
  then show "leaving a st st' k'" using table_hooks(1) [of st] by (simp add: call_hook_def)
next
  fix st st' k k'
  assume "st' < length client_statbl" "leaving a st st' k" "call_hook (on_arrival (client_statbl ! st')) st' k = Inr k'"
  then show "in_state a st' k'" by (rule arrival_home)
qed

section \<open>Events\<close>

definition world_ok :: "world \<Rightarrow> bool" where
  "world_ok w \<longleftrightarrow> selector_inv (w_sel w) \<and> (\<forall>a p. w_conns w a = Some p \<longrightarrow> live p)"

text \<open>What closing descriptors does to the world.\<close>

definition closes :: "world \<Rightarrow> world \<Rightarrow> bool" where
  "closes w w' \<longleftrightarrow> shrinks w w' \<and> (selector_inv (w_sel w) \<longrightarrow> selector_inv (w_sel w'))"

lemma closes_trans [trans]: "closes w w1 \<Longrightarrow> closes w1 w2 \<Longrightarrow> closes w w2"
  by (auto simp: closes_def intro: shrinks_trans)

lemma closes_same: "w_conns w' = w_conns w \<Longrightarrow> w_sel w' = w_sel w \<Longrightarrow> closes w w'"
  by (simp add: closes_def shrinks_same)

lemma unregister_closes: "unregister_fd fd w = Inr (st, w') \<Longrightarrow> closes w w'"
  using unregister_shrinks unregister_fd_inv by (auto simp: closes_def)

lemma closes_ok: "closes w w' \<Longrightarrow> world_ok w \<Longrightarrow> world_ok w'"
  unfolding world_ok_def closes_def shrinks_def map_le_def by (metis domI)

text \<open>The last steps of both services: unregister, then close.\<close>

lemma unregister_then_close:
  assumes "(if fd \<noteq> - 1 then
      rbind (unregister_fd fd w) (\<lambda>(st, w1). if st \<noteq> SELECTOR_SUCCESS then Inl Aborted else Inr (close_fd fd w1))
    else Inr w) = Inr w'"
  shows "closes w w'"
proof (cases "fd = - 1")
  case True
  with assms show ?thesis by (simp add: closes_same)
next
  case False
  with assms obtain st w1 where "unregister_fd fd w = Inr (st, w1)" "w' = close_fd fd w1"
    by (auto simp: rbind_eq_Inr split: if_splits)
  with closes_trans [OF unregister_closes closes_same] show ?thesis by (simp add: close_fd_def)
qed

lemma built_pop3: "sm.built (pop3_stm cur)"
  by (simp add: sm.built_def pop3_stm_def)

lemma pop3_done_closes:
  assumes "pop3_done a w = Inr w'"
  shows "closes w w'"
proof -
  obtain p where p: "w_conns w a = Some p" using assms by (cases "w_conns w a") (simp_all add: pop3_done_def)
  let ?first = "if selected_mail_fd p \<noteq> 0 then unregister_fd (selected_mail_fd p) w else Inr (SELECTOR_SUCCESS, w)"
  obtain st w1 where first: "?first = Inr (st, w1)"
    using assms p by (cases ?first) (auto simp: pop3_done_def)
  from assms have rest: "(if client_fd p \<noteq> - 1 then
           rbind (unregister_fd (client_fd p) w1) (\<lambda>(st, w).
           if st \<noteq> SELECTOR_SUCCESS then Inl Aborted else Inr (close_fd (client_fd p) w))
         else Inr w1) = Inr w'"
    unfolding pop3_done_def p option.case first by simp
  have "closes w w1" using first unregister_closes by (auto simp: closes_same split: if_splits)
  also have "closes w1 w'" by (rule unregister_then_close [OF rest])
  finally show ?thesis .
qed

lemma pop3_event_ok:
  assumes "pop3_event handler io fd data w = Inr w'" "world_ok w"
    and sound: "\<And>a stm k ret stm' k'. sm.sound a stm k \<Longrightarrow> handler stm k = Inr (ret, stm', k') \<Longrightarrow>
      sm.sound a stm' k' \<and> stm_current stm' = Some ret"
  shows "world_ok w'"
proof -
  from assms(1) obtain a p where a: "data = Some (Pop3_data a)" "w_conns w a = Some p"
    by (auto simp: pop3_event_def split: option.splits attachment.splits)
  let ?k = "\<lparr>k_fd = fd, k_self = a, k_io = io, k_p3 = p, k_world = w\<rparr>"
  from assms(1) a obtain ret stm k where h: "handler (pop3_stm (p_stm p)) ?k = Inr (ret, stm, k)"
    and w': "(if ret = ERROR \<or> ret = DONE
        then pop3_done a ((k_world k)\<lparr>w_conns := (w_conns (k_world k))(a \<mapsto> (k_p3 k)\<lparr>p_stm := stm_current stm\<rparr>)\<rparr>)
        else Inr ((k_world k)\<lparr>w_conns := (w_conns (k_world k))(a \<mapsto> (k_p3 k)\<lparr>p_stm := stm_current stm\<rparr>)\<rparr>)) = Inr w'"
    by (auto simp: pop3_event_def rbind_eq_Inr Let_def)
  from assms(2) a(2) have l: "live p" "\<And>b q. w_conns w b = Some q \<Longrightarrow> live q" "selector_inv (w_sel w)"
    by (auto simp: world_ok_def)
  then have "sm.sound a (pop3_stm (p_stm p)) ?k"
    using built_pop3
    by (auto simp: sm.sound_def pop3_stm_def live_def at_home_def in_state_def split: option.splits)
  from sound [OF this h] have s: "sm.sound a stm k" "stm_current stm = Some ret" by simp_all
  then have "in_state a ret k" "ret < length client_statbl" by (simp_all add: sm.sound_def)
  then have "world_ok ((k_world k)\<lparr>w_conns := (w_conns (k_world k))(a \<mapsto> (k_p3 k)\<lparr>p_stm := stm_current stm\<rparr>)\<rparr>)"
    using s(2) by (auto simp: world_ok_def live_def in_state_def at_home_def)
  with w' closes_ok [OF pop3_done_closes] show ?thesis by (cases "ret = ERROR \<or> ret = DONE") auto
qed

lemma pop3_read_ok: "pop3_read io fd data w = Inr w' \<Longrightarrow> world_ok w \<Longrightarrow> world_ok w'"
  unfolding pop3_read_def by (erule pop3_event_ok, assumption) (rule sm.read_sound; assumption)

lemma pop3_write_ok: "pop3_write io fd data w = Inr w' \<Longrightarrow> world_ok w \<Longrightarrow> world_ok w'"
  unfolding pop3_write_def by (erule pop3_event_ok, assumption) (rule sm.write_sound; assumption)

lemma pop3_block_ok: "pop3_block io fd data w = Inr w' \<Longrightarrow> world_ok w \<Longrightarrow> world_ok w'"
  unfolding pop3_block_def by (erule pop3_event_ok, assumption) (rule sm.block_sound; assumption)

text \<open>A new session is well-formed, and so is the world after it is accepted or refused.\<close>

lemma live_new: "live ((pop3_zero fd)\<lparr>p_stm := None\<rparr>)"
  by (simp add: live_def session_ok_def fit_def pop3_zero_def mailbox_inv_def buffer_inv_init MAX_MAILS_def)

lemma pop3_destroy_closes: "pop3_destroy a w = Inr w' \<Longrightarrow> closes w w'"
  using pop3_destroy_shrinks [of a w w']
  by (auto simp: closes_def pop3_destroy_def remove_client_def rbind_eq_Inr split: option.splits)

lemma pop3_fail_closes:
  assumes "pop3_fail fd a w = Inr w'"
  shows "closes w w'"
proof -
  let ?w = "if fd \<noteq> - 1 then close_fd fd w else w"
  from assms obtain i where "pop3_destroy i ?w = Inr w'" by (cases a) (auto simp: pop3_fail_def Let_def)
  have "closes w ?w" by (rule closes_same) (simp_all add: close_fd_def)
  also from \<open>pop3_destroy i ?w = Inr w'\<close> have "closes ?w w'" by (rule pop3_destroy_closes)
  finally show ?thesis .
qed

lemma register_fd_ok: "register_fd mem fd h i d w = Inr (st, w') \<Longrightarrow> world_ok w \<Longrightarrow> world_ok w'"
  using register_place register_fd_inv by (auto simp: world_ok_def)

lemma set_interest_key_world_ok: "set_interest_key fd i w = Inr (st, w') \<Longrightarrow> world_ok w \<Longrightarrow> world_ok w'"
  using set_interest_key_inv by (fastforce simp: world_ok_def set_interest_key_def rbind_eq_Inr)

lemma pop3_new_ok:
  assumes "pop3_new mem fd w = Inr (a, w')" "world_ok w"
  shows "world_ok w'"
proof (cases mem)
  case False
  with assms show ?thesis by (simp add: pop3_new_def)
next
  case True
  from sm.init_built [OF built_pop3, of None]
  have "stm_init (pop3_stm None) = Inr (pop3_stm None\<lparr>stm_current := None\<rparr>)" .
  with assms True have "w_sel w' = w_sel w" "w_conns w' = (w_conns w)(w_next w \<mapsto> (pop3_zero fd)\<lparr>p_stm := None\<rparr>)"
    by (auto simp: pop3_new_def Let_def split: if_splits)
  with assms(2) live_new show ?thesis by (simp add: world_ok_def)
qed

lemma pop3_passive_accept_ok:
  assumes "pop3_passive_accept io w = Inr w'" "world_ok w"
  shows "world_ok w'"
proof (cases "io_accept io = - 1 \<or> \<not> io_nio io")
  case True
  with assms pop3_fail_closes closes_ok show ?thesis by (simp add: pop3_passive_accept_def Let_def) blast
next
  case False
  with assms(1) obtain a w1 where new: "pop3_new (io_mem io) (io_accept io) w = Inr (a, w1)"
    and rest: "(case a of
          None \<Rightarrow> pop3_fail (io_accept io) None w1
        | Some i \<Rightarrow>
            rbind (register_fd (io_mem io) (io_accept io) Pop3_handler OP_WRITE (Some (Pop3_data i)) w1) (\<lambda>(st, w).
            if st \<noteq> SELECTOR_SUCCESS then pop3_fail (io_accept io) (Some i) w else Inr w)) = Inr w'"
    by (auto simp: pop3_passive_accept_def Let_def rbind_eq_Inr)
  from pop3_new_ok [OF new assms(2)] have 1: "world_ok w1" .
  show ?thesis
  proof (cases a)
    case None
    with rest show ?thesis by (simp add: pop3_fail_def Let_def)
  next
    case (Some i)
    with rest obtain st w2 where
      2: "register_fd (io_mem io) (io_accept io) Pop3_handler OP_WRITE (Some (Pop3_data i)) w1 = Inr (st, w2)"
        "(if st \<noteq> SELECTOR_SUCCESS then pop3_fail (io_accept io) (Some i) w2 else Inr w2) = Inr w'"
      by (auto simp: rbind_eq_Inr)
    from register_fd_ok [OF 2(1) 1] 2(2) closes_ok [OF pop3_fail_closes] show ?thesis by (auto split: if_splits)
  qed
qed

end
