(* ===== verification/Ownership.thy ===== *)
theory Ownership
  imports Soundness
begin

text \<open>
  Who a registered descriptor belongs to. The data pointer of a selector item is the address of a
  connection: the theory states when every item of a client's socket or of an open mail points to a
  live session that knows the descriptor, and shows that every event of a session keeps this, provided
  the system never hands out a descriptor that is still in use. The first part is about maps of owners
  and of sessions, the second about the state table, the third about the entry points of
  \<^verbatim>\<open>pop3nio.c\<close>.
\<close>

section \<open>Owners and sessions\<close>

type_synonym owners = "int \<Rightarrow> (fd_handler option \<times> attachment option) option"

abbreviation socket_of :: "nat \<Rightarrow> fd_handler option \<times> attachment option" where
  "socket_of a \<equiv> (Some Pop3_handler, Some (Pop3_data a))"

abbreviation mail_of_session :: "nat \<Rightarrow> fd_handler option \<times> attachment option" where
  "mail_of_session a \<equiv> (Some Mail_handler, Some (Pop3_data a))"

text \<open>
  An item of a client's socket belongs to a live session with that socket; one of a mail to a live
  session that has selected it and whose socket is registered. What a session has selected is its own,
  and is nobody else's. Descriptor 0 stands for no mail, but it can be registered as one: \<open>PASS\<close> before
  \<open>USER\<close> with a full write buffer makes the session go on to read a mail it has not selected. Nothing is
  known of that item, which nobody removes when the session ends.
\<close>

definition socket_owned :: "(nat \<Rightarrow> pop3 option) \<Rightarrow> int \<Rightarrow> attachment option \<Rightarrow> bool" where
  "socket_owned c fd d \<longleftrightarrow> (\<exists>a p. d = Some (Pop3_data a) \<and> c a = Some p \<and> client_fd p = fd)"

definition mail_owned :: "owners \<Rightarrow> (nat \<Rightarrow> pop3 option) \<Rightarrow> int \<Rightarrow> attachment option \<Rightarrow> bool" where
  "mail_owned ow c fd d \<longleftrightarrow> (\<exists>a p. d = Some (Pop3_data a) \<and> c a = Some p \<and> selected_mail_fd p = fd
     \<and> ow (client_fd p) = Some (socket_of a))"

definition selection_owned :: "owners \<Rightarrow> (nat \<Rightarrow> pop3 option) \<Rightarrow> nat \<Rightarrow> int \<Rightarrow> bool" where
  "selection_owned ow c a fd \<longleftrightarrow> (ow fd = None \<or> ow fd = Some (mail_of_session a))
     \<and> (\<forall>b q. c b = Some q \<longrightarrow> selected_mail_fd q = fd \<longrightarrow> b = a)"

definition owned :: "owners \<Rightarrow> (nat \<Rightarrow> pop3 option) \<Rightarrow> bool" where
  "owned ow c \<longleftrightarrow> (\<forall>fd d. ow fd = Some (Some Pop3_handler, d) \<longrightarrow> socket_owned c fd d)
     \<and> (\<forall>fd d. fd \<noteq> 0 \<longrightarrow> ow fd = Some (Some Mail_handler, d) \<longrightarrow> mail_owned ow c fd d)
     \<and> (\<forall>a p. c a = Some p \<longrightarrow> selected_mail_fd p \<noteq> 0 \<longrightarrow> selection_owned ow c a (selected_mail_fd p))
     \<and> (\<forall>d. ow 0 \<notin> {Some (Some Pop3_handler, d), Some (Some Monitor_handler, d)})"

definition no_mail :: "owners \<Rightarrow> nat \<Rightarrow> bool" where
  "no_mail ow a \<longleftrightarrow> (\<forall>fd. fd \<noteq> 0 \<longrightarrow> ow fd \<noteq> Some (mail_of_session a))"

text \<open>Nobody has the descriptor.\<close>

definition unclaimed :: "owners \<Rightarrow> (nat \<Rightarrow> pop3 option) \<Rightarrow> int \<Rightarrow> bool" where
  "unclaimed ow c fd \<longleftrightarrow> fd \<noteq> 0 \<and> ow fd = None \<and> (\<forall>a p. c a = Some p \<longrightarrow> selected_mail_fd p \<noteq> fd)"

text \<open>What the member of the union in use owes to the state, and when no mail is open.\<close>

definition settled :: "owners \<Rightarrow> nat \<Rightarrow> pop3 \<Rightarrow> nat option \<Rightarrow> bool" where
  "settled ow a p st \<longleftrightarrow>
     (st = Some READING_MAIL \<or> st = Some WRITING_MAIL \<longrightarrow>
        client p = Mail_st (selected_mail_fd p) (client_fd p))
     \<and> (st \<notin> {Some READING_MAIL, Some WRITING_MAIL, Some DONE, Some ERROR} \<longrightarrow> no_mail ow a)"

definition all_settled :: "owners \<Rightarrow> (nat \<Rightarrow> pop3 option) \<Rightarrow> bool" where
  "all_settled ow c \<longleftrightarrow> (\<forall>a p. c a = Some p \<longrightarrow> settled ow a p (p_stm p))"

lemma owned_socket: "owned ow c \<Longrightarrow> ow fd = Some (Some Pop3_handler, d) \<Longrightarrow>
    \<exists>a p. d = Some (Pop3_data a) \<and> c a = Some p \<and> client_fd p = fd"
  by (simp add: owned_def socket_owned_def)

lemma owned_mail: "owned ow c \<Longrightarrow> fd \<noteq> 0 \<Longrightarrow> ow fd = Some (Some Mail_handler, d) \<Longrightarrow>
    \<exists>a p. d = Some (Pop3_data a) \<and> c a = Some p \<and> selected_mail_fd p = fd
      \<and> ow (client_fd p) = Some (socket_of a)"
  by (simp add: owned_def mail_owned_def)

lemma owned_selected: "owned ow c \<Longrightarrow> c a = Some p \<Longrightarrow> selected_mail_fd p \<noteq> 0 \<Longrightarrow>
    selection_owned ow c a (selected_mail_fd p)"
  by (simp add: owned_def)

lemma owned_selection: "owned ow c \<Longrightarrow> c a = Some p \<Longrightarrow> selected_mail_fd p \<noteq> 0 \<Longrightarrow>
    ow (selected_mail_fd p) = None \<or> ow (selected_mail_fd p) = Some (mail_of_session a)"
  by (simp add: owned_def selection_owned_def)

lemma ownedI:
  assumes "\<And>fd d. ow fd = Some (Some Pop3_handler, d) \<Longrightarrow> socket_owned c fd d"
    and "\<And>fd d. fd \<noteq> 0 \<Longrightarrow> ow fd = Some (Some Mail_handler, d) \<Longrightarrow> mail_owned ow c fd d"
    and "\<And>a p. c a = Some p \<Longrightarrow> selected_mail_fd p \<noteq> 0 \<Longrightarrow> selection_owned ow c a (selected_mail_fd p)"
    and "\<And>d. ow 0 \<notin> {Some (Some Pop3_handler, d), Some (Some Monitor_handler, d)}"
  shows "owned ow c"
  using assms by (simp add: owned_def)

lemma owned_stdin: "owned ow c \<Longrightarrow> ow 0 \<noteq> Some (Some Pop3_handler, d) \<and> ow 0 \<noteq> Some (Some Monitor_handler, d)"
  by (simp add: owned_def)

section \<open>Steps that keep ownership\<close>

text \<open>The running session changes, but not its descriptors.\<close>

lemma owned_same_fds:
  assumes "owned ow c" "c a = Some p" "client_fd q = client_fd p" "selected_mail_fd q = selected_mail_fd p"
  shows "owned ow (c(a \<mapsto> q))"
proof (rule ownedI)
  fix fd d
  assume "ow fd = Some (Some Pop3_handler, d)"
  from owned_socket [OF assms(1) this] assms(2,3) show "socket_owned (c(a \<mapsto> q)) fd d"
    by (auto simp: socket_owned_def)
next
  fix fd d
  assume fd: "fd \<noteq> 0" "ow fd = Some (Some Mail_handler, d)"
  from owned_mail [OF assms(1) fd] obtain b r where "d = Some (Pop3_data b)" "c b = Some r" "selected_mail_fd r = fd"
    "ow (client_fd r) = Some (socket_of b)" by blast
  with assms(2-4) show "mail_owned ow (c(a \<mapsto> q)) fd d"
    unfolding mail_owned_def by (intro exI [of _ b] exI [of _ "if b = a then q else r"]) auto
next
  fix b r
  assume b: "(c(a \<mapsto> q)) b = Some r" "selected_mail_fd r \<noteq> 0"
  define r' where "r' = (if b = a then p else r)"
  with b assms(2,4) have r': "c b = Some r'" "selected_mail_fd r' = selected_mail_fd r" by (auto split: if_splits)
  from owned_selected [OF assms(1) r'(1)] r'(2) b(2) assms(2,4) show "selection_owned ow (c(a \<mapsto> q)) b (selected_mail_fd r)"
    by (auto simp: selection_owned_def)
qed (use owned_stdin [OF assms(1)] in simp)

text \<open>It selects a mail nobody has.\<close>

lemma owned_select:
  assumes "owned ow c" "c a = Some p" "client_fd q = client_fd p" "unclaimed ow c (selected_mail_fd q)" "no_mail ow a"
  shows "owned ow (c(a \<mapsto> q))"
proof (rule ownedI)
  fix fd d
  assume "ow fd = Some (Some Pop3_handler, d)"
  from owned_socket [OF assms(1) this] assms(2,3) show "socket_owned (c(a \<mapsto> q)) fd d"
    by (auto simp: socket_owned_def)
next
  fix fd d
  assume m: "fd \<noteq> 0" "ow fd = Some (Some Mail_handler, d)"
  from owned_mail [OF assms(1) m] obtain b r where b: "d = Some (Pop3_data b)" "c b = Some r" "selected_mail_fd r = fd"
    "ow (client_fd r) = Some (socket_of b)" by blast
  with m assms(5) have "b \<noteq> a" by (auto simp: no_mail_def)
  with b show "mail_owned ow (c(a \<mapsto> q)) fd d" by (auto simp: mail_owned_def)
next
  fix b r
  assume b: "(c(a \<mapsto> q)) b = Some r" "selected_mail_fd r \<noteq> 0"
  show "selection_owned ow (c(a \<mapsto> q)) b (selected_mail_fd r)"
  proof (cases "b = a")
    case True
    with b assms(4) show ?thesis by (auto simp: selection_owned_def unclaimed_def)
  next
    case False
    with b have r: "c b = Some r" by simp
    with assms(4) have "selected_mail_fd q \<noteq> selected_mail_fd r" by (force simp: unclaimed_def)
    with owned_selected [OF assms(1) r b(2)] show ?thesis by (auto simp: selection_owned_def)
  qed
qed (use owned_stdin [OF assms(1)] in simp)

text \<open>A change of owners that leaves the clients' sockets alone and adds no mail.\<close>

lemma owned_change:
  assumes "owned ow c" "\<And>g d. ow g = Some (Some Pop3_handler, d) \<Longrightarrow> ow' g = ow g"
    and "\<And>g h d. ow' g = Some (Some h, d) \<Longrightarrow> h \<in> {Pop3_handler, Mail_handler} \<Longrightarrow> g \<noteq> 0 \<Longrightarrow> ow g = ow' g"
    and "\<And>g a p. ow' g \<noteq> ow g \<Longrightarrow> ow' g \<noteq> None \<Longrightarrow> g \<noteq> 0 \<Longrightarrow> c a = Some p \<Longrightarrow> selected_mail_fd p \<noteq> g"
    and "\<And>d. ow' 0 \<notin> {Some (Some Pop3_handler, d), Some (Some Monitor_handler, d)}"
  shows "owned ow' c"
proof (rule ownedI)
  fix fd d
  assume s: "ow' fd = Some (Some Pop3_handler, d)"
  with assms(5) [of d] have "fd \<noteq> 0" by auto
  with assms(3) [OF s] s have "ow fd = Some (Some Pop3_handler, d)" by simp
  from owned_socket [OF assms(1) this] show "socket_owned c fd d" by (simp add: socket_owned_def)
next
  fix fd d
  assume m: "fd \<noteq> 0" "ow' fd = Some (Some Mail_handler, d)"
  with assms(3) [OF m(2)] have "ow fd = Some (Some Mail_handler, d)" by simp
  from owned_mail [OF assms(1) m(1) this] obtain b r where b: "d = Some (Pop3_data b)" "c b = Some r"
    "selected_mail_fd r = fd" "ow (client_fd r) = Some (socket_of b)" by blast
  from assms(2) [OF b(4)] b have "ow' (client_fd r) = Some (socket_of b)" by simp
  with b(1-3) show "mail_owned ow' c fd d" unfolding mail_owned_def by blast
next
  fix a p
  assume p: "c a = Some p" "selected_mail_fd p \<noteq> 0"
  from assms(4) [OF _ _ p(2,1)] have "ow' (selected_mail_fd p) = ow (selected_mail_fd p) \<or> ow' (selected_mail_fd p) = None"
    by blast
  with owned_selected [OF assms(1) p] show "selection_owned ow' c a (selected_mail_fd p)"
    unfolding selection_owned_def by metis
qed (use assms(5) in blast)

text \<open>A descriptor that is not a client's socket leaves the selector; anything may happen to descriptor 0.\<close>

lemma owned_drop:
  assumes "owned ow c" "\<And>d. ow fd \<noteq> Some (Some Pop3_handler, d)"
  shows "owned (ow(fd := None)) c"
  using owned_stdin [OF assms(1)] assms(2) by (intro owned_change [OF assms(1)]) (auto split: if_splits)

lemma owned_zero:
  assumes "owned ow c"
  shows "owned (ow(0 \<mapsto> (Some Mail_handler, d))) c"
  using owned_stdin [OF assms] by (intro owned_change [OF assms]) (auto split: if_splits)

text \<open>An unclaimed descriptor is registered for something other than a session.\<close>

lemma owned_arrival:
  assumes "owned ow c" "unclaimed ow c fd" "h \<notin> {Mail_handler, Pop3_handler}"
  shows "owned (ow(fd \<mapsto> (Some h, d))) c"
  using owned_stdin [OF assms(1)] assms(2,3)
  by (intro owned_change [OF assms(1)]) (auto simp: unclaimed_def split: if_splits)

text \<open>The socket of a session without an open mail leaves it.\<close>

lemma owned_close:
  assumes "owned ow c" "ow fd = Some (socket_of a)" "no_mail ow a"
  shows "owned (ow(fd := None)) c"
proof (rule ownedI)
  fix g d
  assume "g \<noteq> 0" "(ow(fd := None)) g = Some (Some Mail_handler, d)"
  then have m: "g \<noteq> 0" "ow g = Some (Some Mail_handler, d)" by (simp_all split: if_splits)
  from owned_mail [OF assms(1) m] obtain b p where b: "d = Some (Pop3_data b)" "c b = Some p" "selected_mail_fd p = g"
    "ow (client_fd p) = Some (socket_of b)" by blast
  with m assms(3) have "b \<noteq> a" by (auto simp: no_mail_def)
  with b assms(2) have "client_fd p \<noteq> fd" by auto
  with b show "mail_owned (ow(fd := None)) c g d" by (auto simp: mail_owned_def)
qed (use owned_socket [OF assms(1)] owned_selected [OF assms(1)] owned_stdin [OF assms(1)] in
    \<open>auto simp: socket_owned_def selection_owned_def split: if_splits\<close>)

text \<open>A session whose socket is not registered is freed.\<close>

lemma owned_free:
  assumes "owned ow c" "c b = Some q" "\<And>d. ow (client_fd q) \<noteq> Some (Some Pop3_handler, d)"
  shows "owned ow (c(b := None))"
proof (rule ownedI)
  fix fd d
  assume s: "ow fd = Some (Some Pop3_handler, d)"
  from owned_socket [OF assms(1) s] obtain a p where a: "d = Some (Pop3_data a)" "c a = Some p" "client_fd p = fd" by blast
  with assms(2,3) s have "a \<noteq> b" by auto
  with a show "socket_owned (c(b := None)) fd d" by (auto simp: socket_owned_def)
next
  fix fd d
  assume m: "fd \<noteq> 0" "ow fd = Some (Some Mail_handler, d)"
  from owned_mail [OF assms(1) m] obtain a p where a: "d = Some (Pop3_data a)" "c a = Some p" "selected_mail_fd p = fd"
    "ow (client_fd p) = Some (socket_of a)" by blast
  with assms(2,3) have "a \<noteq> b" by auto
  with a show "mail_owned ow (c(b := None)) fd d" by (auto simp: mail_owned_def)
next
  fix a p
  assume "(c(b := None)) a = Some p" "selected_mail_fd p \<noteq> 0"
  with owned_selected [OF assms(1)] show "selection_owned ow (c(b := None)) a (selected_mail_fd p)"
    by (auto simp: selection_owned_def split: if_splits)
qed (use owned_stdin [OF assms(1)] in simp)

text \<open>The selected mail is registered.\<close>

lemma owned_open:
  assumes "owned ow c" "c a = Some p" "selected_mail_fd p = fd" "fd \<noteq> 0" "ow fd = None" "ow (client_fd p) = Some (socket_of a)"
  shows "owned (ow(fd \<mapsto> mail_of_session a)) c"
proof (rule ownedI)
  fix g d
  assume "(ow(fd \<mapsto> mail_of_session a)) g = Some (Some Pop3_handler, d)"
  then have "ow g = Some (Some Pop3_handler, d)" by (simp split: if_splits)
  from owned_socket [OF assms(1) this] show "socket_owned c g d"
    by (simp add: socket_owned_def)
next
  fix g d
  assume m: "g \<noteq> 0" "(ow(fd \<mapsto> mail_of_session a)) g = Some (Some Mail_handler, d)"
  have "\<exists>b q. d = Some (Pop3_data b) \<and> c b = Some q \<and> selected_mail_fd q = g
    \<and> ow (client_fd q) = Some (socket_of b)"
  proof (cases "g = fd")
    case True
    with m assms show ?thesis by (intro exI [of _ a] exI [of _ p]) simp
  next
    case False
    with m owned_mail [OF assms(1) m(1)] show ?thesis by auto
  qed
  then obtain b q where b: "d = Some (Pop3_data b)" "c b = Some q" "selected_mail_fd q = g"
    "ow (client_fd q) = Some (socket_of b)" by blast
  with assms(5) have "client_fd q \<noteq> fd" by auto
  with b show "mail_owned (ow(fd \<mapsto> mail_of_session a)) c g d" by (auto simp: mail_owned_def)
next
  fix b q
  assume q: "c b = Some q" "selected_mail_fd q \<noteq> 0"
  from owned_selected [OF assms(1) q] have s: "selection_owned ow c b (selected_mail_fd q)" .
  with assms(2,3) have "selected_mail_fd q = fd \<Longrightarrow> b = a" by (auto simp: selection_owned_def)
  with s show "selection_owned (ow(fd \<mapsto> mail_of_session a)) c b (selected_mail_fd q)"
    by (auto simp: selection_owned_def)
qed (use owned_stdin [OF assms(1)] assms(4) in simp)

text \<open>A session is born, and its socket is registered.\<close>

lemma owned_born:
  assumes "owned ow c" "c a = None" "selected_mail_fd p = 0"
  shows "owned ow (c(a \<mapsto> p))"
proof (rule ownedI)
  fix fd d
  assume "ow fd = Some (Some Pop3_handler, d)"
  from owned_socket [OF assms(1) this] assms(2) show "socket_owned (c(a \<mapsto> p)) fd d"
    unfolding socket_owned_def by (metis fun_upd_apply option.distinct(1))
next
  fix fd d
  assume m: "fd \<noteq> 0" "ow fd = Some (Some Mail_handler, d)"
  from owned_mail [OF assms(1) m] assms(2) show "mail_owned ow (c(a \<mapsto> p)) fd d"
    unfolding mail_owned_def by (metis fun_upd_apply option.distinct(1))
next
  fix b q
  assume q: "(c(a \<mapsto> p)) b = Some q" "selected_mail_fd q \<noteq> 0"
  with assms(3) have "b \<noteq> a" "c b = Some q" by (auto split: if_splits)
  with owned_selected [OF assms(1) this(2) q(2)] q(2) assms(3) show "selection_owned ow (c(a \<mapsto> p)) b (selected_mail_fd q)"
    unfolding selection_owned_def by (metis fun_upd_apply option.inject)
qed (use owned_stdin [OF assms(1)] in simp)

lemma owned_connect:
  assumes "owned ow c" "c a = Some p" "client_fd p = fd" "unclaimed ow c fd"
  shows "owned (ow(fd \<mapsto> socket_of a)) c"
proof (rule ownedI)
  fix g d
  assume "(ow(fd \<mapsto> socket_of a)) g = Some (Some Pop3_handler, d)"
  then have "g = fd \<and> d = Some (Pop3_data a) \<or> ow g = Some (Some Pop3_handler, d)" by (auto split: if_splits)
  with assms(2,3) owned_socket [OF assms(1), of g d] show "socket_owned c g d"
    unfolding socket_owned_def by blast
next
  fix g d
  assume "g \<noteq> 0" "(ow(fd \<mapsto> socket_of a)) g = Some (Some Mail_handler, d)"
  then have m: "g \<noteq> 0" "ow g = Some (Some Mail_handler, d)" by (auto split: if_splits)
  from owned_mail [OF assms(1) m] obtain b q where b: "d = Some (Pop3_data b)" "c b = Some q" "selected_mail_fd q = g"
    "ow (client_fd q) = Some (socket_of b)" by blast
  with assms(4) have "client_fd q \<noteq> fd" by (auto simp: unclaimed_def)
  with b show "mail_owned (ow(fd \<mapsto> socket_of a)) c g d" by (auto simp: mail_owned_def)
next
  fix b q
  assume q: "c b = Some q" "selected_mail_fd q \<noteq> 0"
  with assms(4) have "selected_mail_fd q \<noteq> fd" by (auto simp: unclaimed_def)
  with owned_selected [OF assms(1) q] show "selection_owned (ow(fd \<mapsto> socket_of a)) c b (selected_mail_fd q)"
    unfolding selection_owned_def by simp
qed (use owned_stdin [OF assms(1)] assms(4) in \<open>simp add: unclaimed_def\<close>)

section \<open>What the system hands out\<close>

text \<open>
  The descriptors the system would give in an event: the answer of \<open>accept\<close> and those of opening mails. The
  system is honest when none of them is in use: none is registered, none is the file of a mail a live
  session has open (the program never closes those), and none is the standard input.
\<close>

definition handed_out :: "io \<Rightarrow> int \<Rightarrow> bool" where
  "handed_out io fd \<longleftrightarrow> fd = io_accept io \<and> fd \<noteq> - 1 \<or> 0 \<le> fd \<and> (\<exists>path. open_mail (io_os io) path = fd)"

definition fair :: "io \<Rightarrow> owners \<Rightarrow> (nat \<Rightarrow> pop3 option) \<Rightarrow> bool" where
  "fair io ow c \<longleftrightarrow> (\<forall>fd. handed_out io fd \<longrightarrow> unclaimed ow c fd)"

definition honest :: "io \<Rightarrow> world \<Rightarrow> bool" where
  "honest io w \<longleftrightarrow> fair io (owner (w_sel w)) (w_conns w)"

section \<open>A session during an event\<close>

definition k_owner :: "key \<Rightarrow> owners" where
  "k_owner k = owner (w_sel (k_world k))"

definition k_sessions :: "key \<Rightarrow> nat \<Rightarrow> pop3 option" where
  "k_sessions k = (w_conns (k_world k))(k_self k \<mapsto> k_p3 k)"

text \<open>What an event of session \<open>a\<close> on \<open>fd\<close> that began in the world \<open>w\<close> has left alone, and kept.\<close>

definition same_lists :: "world \<Rightarrow> world \<Rightarrow> bool" where
  "same_lists w w' \<longleftrightarrow> head_connection w' = head_connection w \<and> w_admins w' = w_admins w \<and> pool w' = pool w
     \<and> w_next w' = w_next w"

definition around :: "world \<Rightarrow> nat \<Rightarrow> int \<Rightarrow> key \<Rightarrow> bool" where
  "around w a fd k \<longleftrightarrow> fd \<noteq> 0 \<and> k_self k = a \<and> k_fd k = fd \<and> session_ok (k_p3 k) \<and> selector_inv (w_sel (k_world k))
     \<and> same_lists w (k_world k) \<and> (\<forall>b. b \<noteq> a \<longrightarrow> w_conns (k_world k) b = w_conns w b)
     \<and> k_owner k (client_fd (k_p3 k)) = Some (socket_of a) \<and> owned (k_owner k) (k_sessions k)
     \<and> (\<forall>g x. k_owner k g = Some x \<longrightarrow> owner (w_sel w) g = Some x \<or> x = mail_of_session a)
     \<and> owner (w_sel w) fd \<noteq> None \<and> k_owner k fd \<in> {owner (w_sel w) fd, None}"

definition at_rest :: "world \<Rightarrow> nat \<Rightarrow> int \<Rightarrow> nat option \<Rightarrow> key \<Rightarrow> bool" where
  "at_rest w a fd st k \<longleftrightarrow> around w a fd k \<and> k_owner k fd \<noteq> None \<and> settled (k_owner k) a (k_p3 k) st
     \<and> fair (k_io k) (k_owner k) (k_sessions k)"

definition on_leave :: "world \<Rightarrow> nat \<Rightarrow> int \<Rightarrow> nat \<Rightarrow> nat \<Rightarrow> key \<Rightarrow> bool" where
  "on_leave w a fd st st' k \<longleftrightarrow> around w a fd k \<and>
     (if st' = READING_MAIL \<and> st \<noteq> READING_MAIL then k_owner k fd \<noteq> None
      else settled (k_owner k) a (k_p3 k) (Some st'))"

definition arrived :: "world \<Rightarrow> nat \<Rightarrow> int \<Rightarrow> nat \<Rightarrow> key \<Rightarrow> bool" where
  "arrived w a fd st k \<longleftrightarrow> around w a fd k \<and> settled (k_owner k) a (k_p3 k) (Some st)"

lemma around_step:
  assumes "around w a fd k" "k_self k' = k_self k" "k_fd k' = k_fd k" "untouched (k_world k) (k_world k')"
    and "same_owners (w_sel (k_world k)) (w_sel (k_world k'))" "client_fd (k_p3 k') = client_fd (k_p3 k)"
    and "selected_mail_fd (k_p3 k') = selected_mail_fd (k_p3 k)" "session_ok (k_p3 k')"
  shows "around w a fd k' \<and> k_owner k' = k_owner k"
proof -
  from assms(1,5) have o: "selector_inv (w_sel (k_world k'))" "k_owner k' = k_owner k"
    by (simp_all add: around_def same_owners_def k_owner_def)
  have c: "k_sessions k' = (k_sessions k)(k_self k \<mapsto> k_p3 k')"
    using assms(2,4) by (simp add: k_sessions_def untouched_def)
  have "owned (k_owner k) ((k_sessions k)(k_self k \<mapsto> k_p3 k'))"
    by (rule owned_same_fds [where p = "k_p3 k"]) (use assms(1,6,7) in \<open>simp_all add: around_def, simp add: k_sessions_def\<close>)
  with o c assms show ?thesis by (simp add: around_def untouched_def same_lists_def)
qed

lemma around_place:
  assumes "around w a fd k" "same_place k k'"
  shows "around w a fd k' \<and> k_owner k' = k_owner k"
  by (rule around_step [OF assms(1)]) (use assms in \<open>simp_all add: same_place_def same_member_def around_def\<close>)

lemma settled_member: "same_member p p' \<Longrightarrow> settled ow a p' st = settled ow a p st"
  by (simp add: same_member_def settled_def)

lemma settled_over: "st \<in> {DONE, ERROR} \<Longrightarrow> settled ow a p (Some st)"
  by (auto simp: settled_def)

lemma settled_mail: "st \<in> {READING_MAIL, WRITING_MAIL} \<Longrightarrow> st' \<in> {READING_MAIL, WRITING_MAIL} \<Longrightarrow>
    settled ow a p (Some st) = settled ow a p (Some st')"
  by (auto simp: settled_def)

lemma settled_idle: "st \<notin> {READING_MAIL, WRITING_MAIL, DONE, ERROR} \<Longrightarrow> settled ow a p (Some st) = no_mail ow a"
  by (auto simp: settled_def)

lemma place_settled: "same_place k k' \<Longrightarrow> settled ow a (k_p3 k') st = settled ow a (k_p3 k) st"
  by (simp add: same_place_def settled_member)

section \<open>The callbacks\<close>

text \<open>The key while the lines that arrived are read; \<open>k\<close> is the key before.\<close>

definition while_reading :: "key \<Rightarrow> nat \<times> key \<Rightarrow> bool" where
  "while_reading k x \<longleftrightarrow> same_rest k (snd x) \<and> session_ok (k_p3 (snd x)) \<and> client_fd (k_p3 (snd x)) = client_fd (k_p3 k)
     \<and> fst x \<noteq> WRITING_MAIL
     \<and> (selected_mail_fd (k_p3 (snd x)) = selected_mail_fd (k_p3 k)
        \<or> handed_out (k_io k) (selected_mail_fd (k_p3 (snd x))) \<and> fst x \<in> {READING_MAIL, ERROR})"

lemma read_byte_while:
  assumes "read_byte cur c x = Inr (x', stop)" "while_reading k x" "cur \<in> {AUTH, TRANSACTION}"
  shows "while_reading k x'"
proof -
  obtain st k1 st' k' where x: "x = (st, k1)" "x' = (st', k')" by (cases x; cases x')
  from read_byte_step [of cur c st k1 st' k' stop] assms(1) x obtain pa pb p where
    r: "same_rest k1 k'" "k_p3 k' = p\<lparr>p_parser := pb\<rparr>"
    and d: "st' \<in> {st, ERROR} \<and> p = (k_p3 k1)\<lparr>p_parser := pa\<rparr>
      \<or> (\<exists>h a1 a2. comparator (get_last_event pa) st = Inr h
          \<and> command_handler h (key_env k1) cur a1 a2 ((k_p3 k1)\<lparr>p_parser := pa\<rparr>) = Inr (st', p))"
    by blast
  from assms(2) x have w: "same_rest k k1" "session_ok (k_p3 k1)" "client_fd (k_p3 k1) = client_fd (k_p3 k)" "st \<noteq> WRITING_MAIL"
    "selected_mail_fd (k_p3 k1) = selected_mail_fd (k_p3 k)
      \<or> handed_out (k_io k) (selected_mail_fd (k_p3 k1)) \<and> st \<in> {READING_MAIL, ERROR}"
    by (simp_all add: while_reading_def)
  note rest = same_rest_trans [OF w(1) r(1)]
  from d show ?thesis
  proof (elim disjE exE conjE)
    assume "st' \<in> {st, ERROR}" "p = (k_p3 k1)\<lparr>p_parser := pa\<rparr>"
    with w r rest x show ?thesis by (auto simp: while_reading_def)
  next
    fix h a1 a2
    assume c: "comparator (get_last_event pa) st = Inr h"
      and h: "command_handler h (key_env k1) cur a1 a2 ((k_p3 k1)\<lparr>p_parser := pa\<rparr>) = Inr (st', p)"
    have f: "fit ((k_p3 k1)\<lparr>p_parser := pa\<rparr>)" using w(2) by (simp add: session_ok_def)
    have os: "ce_os (key_env k1) = io_os (k_io k)" using same_rest_sel(4) [OF w(1)] by (simp add: key_env_def)
    from comparator_table [OF c] have "st \<notin> {READING_MAIL, ERROR}" by auto
    with w(5) have sel: "selected_mail_fd (k_p3 k1) = selected_mail_fd (k_p3 k)" by blast
    from handler_fd [OF h f] sel os have
      "selected_mail_fd p = selected_mail_fd (k_p3 k) \<or> st' = READING_MAIL \<and> handed_out (k_io k) (selected_mail_fd p)"
      by (auto simp: handed_out_def)
    moreover have "session_ok p" "client_fd p = client_fd (k_p3 k)"
      using handler_fit [OF h f] w(2,3) by (simp_all add: session_ok_def kept_def)
    ultimately show ?thesis using handler_next [OF c h f assms(3)] r(2) rest x by (auto simp: while_reading_def split: if_splits)
  qed
qed

text \<open>The same session with a mail it has just selected.\<close>

lemma around_select:
  assumes "around w a fd k" "same_rest k k'" "session_ok (k_p3 k')" "client_fd (k_p3 k') = client_fd (k_p3 k)"
    and "selected_mail_fd (k_p3 k') = selected_mail_fd (k_p3 k)
      \<or> unclaimed (k_owner k) (k_sessions k) (selected_mail_fd (k_p3 k')) \<and> no_mail (k_owner k) a"
  shows "around w a fd k' \<and> k_owner k' = k_owner k"
proof -
  from assms(2) have r: "k_self k' = k_self k" "k_fd k' = k_fd k" "untouched (k_world k) (k_world k')"
    "same_owners (w_sel (k_world k)) (w_sel (k_world k'))"
    by (auto simp: same_rest_def untouched_def)
  show ?thesis
  proof (cases "selected_mail_fd (k_p3 k') = selected_mail_fd (k_p3 k)")
    case True
    from around_step [OF assms(1) r assms(4) True assms(3)] show ?thesis .
  next
    case False
    from assms(1) r(4) have o: "selector_inv (w_sel (k_world k'))" "k_owner k' = k_owner k"
      by (simp_all add: around_def same_owners_def k_owner_def)
    have c: "k_sessions k' = (k_sessions k)(a \<mapsto> k_p3 k')" "k_sessions k a = Some (k_p3 k)"
      using assms(1) r by (simp_all add: k_sessions_def untouched_def around_def)
    have "owned (k_owner k) ((k_sessions k)(a \<mapsto> k_p3 k'))"
      by (rule owned_select [where p = "k_p3 k"]) (use assms(1,4,5) c(2) False in \<open>simp_all add: around_def\<close>)
    with o c assms(1,3,4) r show ?thesis by (simp add: around_def untouched_def same_lists_def)
  qed
qed

lemma client_read_leave:
  assumes "client_read st k = Inr (st', k')" "at_rest w a fd (Some st) k" "st \<in> {AUTH, TRANSACTION}"
  shows "on_leave w a fd st st' k'"
proof -
  from assms(2) have k: "around w a fd k" "k_owner k fd \<noteq> None" "settled (k_owner k) a (k_p3 k) (Some st)"
    "fair (k_io k) (k_owner k) (k_sessions k)" "session_ok (k_p3 k)" by (simp_all add: at_rest_def around_def)
  from k(3) assms(3) have quiet: "no_mail (k_owner k) a" by (auto simp: settled_def)
  from k(5) have "buffer_inv (read_buffer (k_p3 k))" by (simp add: session_ok_def)
  from client_read_Inr [OF assms(1) this] show ?thesis
  proof (elim conjE disjE exE)
    assume "st' = ERROR" "k' = k"
    with k(1) show ?thesis by (simp add: on_leave_def settled_over)
  next
    fix bs k1 rest b
    assume run: "feed_until (read_byte st) bs (st, k) = Inr ((st', k1), rest)"
      and b: "buffer_inv b" "k' = k1\<lparr>k_p3 := (k_p3 k1)\<lparr>read_buffer := b\<rparr>\<rparr>"
    have "while_reading k (st, k)" using k(5) assms(3) by (auto simp: while_reading_def)
    from feed_until_keeps [OF run, of "while_reading k", OF this] read_byte_while assms(3)
    have "while_reading k (st', k1)" by blast
    then have r: "same_rest k k1" "session_ok (k_p3 k1)" "client_fd (k_p3 k1) = client_fd (k_p3 k)" "st' \<noteq> WRITING_MAIL"
      "selected_mail_fd (k_p3 k1) = selected_mail_fd (k_p3 k) \<or> handed_out (k_io k) (selected_mail_fd (k_p3 k1))"
      by (auto simp: while_reading_def)
    have "around w a fd k' \<and> k_owner k' = k_owner k"
      by (rule around_select [OF k(1)])
        (use r b k(4) quiet same_rest_p3 [OF r(1)] in \<open>auto simp: session_ok_def fair_def fit_def\<close>)
    with k(2) quiet r(4) assms(3) show ?thesis by (auto simp: on_leave_def settled_def)
  qed
qed

lemma client_write_leave:
  assumes "client_write st k = Inr (st', k')" "at_rest w a fd (Some st) k" "st \<in> {AUTH, TRANSACTION, UPDATE}"
  shows "on_leave w a fd st st' k'"
proof -
  from assms(2) have k: "around w a fd k" "settled (k_owner k) a (k_p3 k) (Some st)" "session_ok (k_p3 k)"
    by (simp_all add: at_rest_def around_def)
  from client_write_place [OF assms(1) k(3) assms(3)] have f: "same_place k k'" "st' \<in> {st, DONE, ERROR}" by simp_all
  from around_place [OF k(1) f(1)] place_settled [OF f(1)] k(2) f(2) settled_over [of st'] assms(3) show ?thesis
    by (auto simp: on_leave_def)
qed

lemma filesystem_read_leave:
  assumes "filesystem_read st k = Inr (st', k')" "at_rest w a fd (Some st) k" "st \<in> {READING_MAIL, WRITING_MAIL}"
  shows "on_leave w a fd st st' k'"
proof -
  from assms(2) have k: "around w a fd k" "settled (k_owner k) a (k_p3 k) (Some st)" "session_ok (k_p3 k)"
    by (simp_all add: at_rest_def around_def)
  from filesystem_read_place [OF assms(1) k(3)] have f: "same_place k k'" "st' \<in> {WRITING_MAIL, ERROR}" by simp_all
  have "settled (k_owner k) a (k_p3 k) (Some st')"
    using f(2) settled_over [of st'] settled_mail [OF assms(3), of st'] k(2) by auto
  with around_place [OF k(1) f(1)] place_settled [OF f(1)] f(2) show ?thesis by (auto simp: on_leave_def)
qed

text \<open>Removing the mail runs no close callback, and leaves the session without one.\<close>

lemma selection_handler:
  assumes "owned ow c" "c a = Some p"
  shows "ow (selected_mail_fd p) \<notin> {Some (Some Pop3_handler, d), Some (Some Monitor_handler, d)}"
  using owned_selection [OF assms] owned_stdin [OF assms(1), of d] by (cases "selected_mail_fd p = 0") auto

lemma no_close:
  assumes "h \<notin> {Pop3_handler, Monitor_handler}"
  shows "handle_close h = None"
  using assms by (cases h) (simp_all add: handle_close_def)

lemma unregister_selection:
  assumes "unregister_fd (selected_mail_fd p) w = Inr (st, w')" "selector_inv (w_sel w)"
    and "owned (owner (w_sel w)) (w_conns w)" "w_conns w a = Some p"
  shows "\<exists>s. w' = w\<lparr>w_sel := s\<rparr> \<and> selector_inv s \<and> owner s = (owner (w_sel w))(selected_mail_fd p := None)"
proof -
  let ?fd = "selected_mail_fd p"
  from assms(1) obtain s w1 where s: "selector_unregister_fd handle_close (w_sel w) ?fd w = Inr (st, s, w1)"
    "w' = w1\<lparr>w_sel := s\<rparr>" by (auto simp: unregister_fd_def rbind_eq_Inr)
  from unregister_inv [OF s(1) assms(2)] have inv: "selector_inv s" by simp
  have "w1 = w \<and> owner s = (owner (w_sel w))(?fd := None)"
    using unregister_owner [OF s(1) assms(2)]
  proof (elim disjE exE conjE)
    fix h d
    assume h: "owner (w_sel w) ?fd = Some (Some h, d)"
      "(case handle_close h of None \<Rightarrow> Inr w | Some f \<Rightarrow> f ?fd d w) = Inr w1" "owner s = (owner (w_sel w))(?fd := None)"
    from selection_handler [OF assms(3,4), of d] h(1) have "h \<notin> {Pop3_handler, Monitor_handler}" by auto
    with h(2,3) no_close show ?thesis by simp
  qed (auto simp: fun_upd_idem)
  with s(2) inv show ?thesis by auto
qed

lemma no_mail_left:
  assumes "owned ow c" "c a = Some p"
  shows "no_mail (ow(selected_mail_fd p := None)) a"
proof -
  have "g = selected_mail_fd p" if "g \<noteq> 0" "ow g = Some (mail_of_session a)" for g
    using owned_mail [OF assms(1) that] assms(2) by auto
  then show ?thesis by (auto simp: no_mail_def)
qed

lemma key_unregister_mail:
  assumes "key_unregister (selected_mail_fd (k_p3 k)) k = Inr (st, k')" "around w a fd k"
  shows "around w a fd k' \<and> k_p3 k' = k_p3 k \<and> no_mail (k_owner k') a"
proof -
  let ?w = "(k_world k)\<lparr>w_conns := k_sessions k\<rparr>" and ?sel = "selected_mail_fd (k_p3 k)"
  from assms(1) obtain w1 p where w1: "unregister_fd ?sel ?w = Inr (st, w1)" "w_conns w1 (k_self k) = Some p"
    "k' = k\<lparr>k_p3 := p, k_world := w1\<rparr>"
    by (auto simp: key_unregister_def k_sessions_def rbind_eq_Inr split: option.splits)
  have self: "w_conns ?w (k_self k) = Some (k_p3 k)" by (simp add: k_sessions_def)
  from assms(2) have o: "selector_inv (w_sel ?w)" "owned (owner (w_sel ?w)) (w_conns ?w)" "k_self k = a"
    "owner (w_sel ?w) (client_fd (k_p3 k)) = Some (socket_of a)"
    by (simp_all add: around_def k_owner_def)
  from unregister_selection [OF w1(1) o(1,2) self] obtain s where
    s: "w1 = ?w\<lparr>w_sel := s\<rparr>" "selector_inv s" "owner s = (owner (w_sel ?w))(?sel := None)" by blast
  with w1(2,3) self have k': "k' = k\<lparr>k_world := ?w\<lparr>w_sel := s\<rparr>\<rparr>" "k_p3 k' = k_p3 k" by simp_all
  then have ow: "k_owner k' = (k_owner k)(?sel := None)" "k_sessions k' = k_sessions k"
    using s(3) by (simp_all add: k_owner_def k_sessions_def)
  from selection_handler [OF o(2) self] have sock: "owner (w_sel ?w) ?sel \<noteq> Some (Some Pop3_handler, d)" for d by simp
  with o(4) have "client_fd (k_p3 k) \<noteq> ?sel" by auto
  moreover have "owned (k_owner k') (k_sessions k')"
    using owned_drop [OF o(2), of ?sel] sock ow by (simp add: k_owner_def)
  moreover have "no_mail (k_owner k') a"
    using no_mail_left [OF o(2) self [unfolded o(3)]] ow(1) by (simp add: k_owner_def)
  ultimately show ?thesis
    using assms(2) k' ow s(2) by (auto simp: around_def same_lists_def k_sessions_def k_owner_def)
qed

lemma mail_write_leave:
  assumes "mail_write st k = Inr (st', k')" "at_rest w a fd (Some st) k" "st \<in> {READING_MAIL, WRITING_MAIL}"
  shows "on_leave w a fd st st' k'"
proof -
  from assms(2) have k: "around w a fd k" "settled (k_owner k) a (k_p3 k) (Some st)" "session_ok (k_p3 k)" "k_owner k fd \<noteq> None"
    by (simp_all add: at_rest_def around_def)
  from mail_write_split [OF assms(1) k(3)] obtain mf sf k2 where
    c: "client (k_p3 k) = Mail_st mf sf" and place: "same_place k k2"
    and rest: "k' = k2 \<and> st' \<in> {st, READING_MAIL, ERROR}
      \<or> st' = TRANSACTION \<and> (\<exists>s k3. key_unregister mf k2 = Inr (s, k3)
        \<and> k' = k3\<lparr>k_p3 := (k_p3 k3)\<lparr>mail_done := 0, read_buffer := buffer_reset (read_buffer (k_p3 k3)),
              write_buffer := buffer_reset (write_buffer (k_p3 k3))\<rparr>\<rparr>)" by blast
  from around_place [OF k(1) place] have a2: "around w a fd k2" "k_owner k2 = k_owner k" by simp_all
  from k(2) assms(3) c place have mf: "mf = selected_mail_fd (k_p3 k2)"
    by (auto simp: settled_def same_place_def same_member_def)
  from rest show ?thesis
  proof (elim disjE conjE exE)
    assume "k' = k2" and st': "st' \<in> {st, READING_MAIL, ERROR}"
    have "settled (k_owner k) a (k_p3 k2) (Some st')"
      using st' k(2) settled_over [of st'] settled_mail [OF assms(3), of st'] assms(3) unfolding place_settled [OF place] by auto
    with a2 k(4) \<open>k' = k2\<close> show ?thesis by (simp add: on_leave_def)
  next
    fix s k3
    assume "st' = TRANSACTION" and k3: "key_unregister mf k2 = Inr (s, k3)"
      "k' = k3\<lparr>k_p3 := (k_p3 k3)\<lparr>mail_done := 0, read_buffer := buffer_reset (read_buffer (k_p3 k3)),
              write_buffer := buffer_reset (write_buffer (k_p3 k3))\<rparr>\<rparr>"
    from key_unregister_mail [OF k3(1) [unfolded mf] a2(1)] have a3: "around w a fd k3" "no_mail (k_owner k3) a" by simp_all
    have "around w a fd k' \<and> k_owner k' = k_owner k3"
      by (rule around_step [OF a3(1)]) (use a3(1) k3(2) in \<open>auto simp: around_def session_ok_def fit_def\<close>)
    with a3(2) \<open>st' = TRANSACTION\<close> show ?thesis by (simp add: on_leave_def settled_def)
  qed
qed

section \<open>The state table\<close>

lemma register_owners:
  assumes "register_fd mem fd h i d w = Inr (st, w')" "selector_inv (w_sel w)"
  shows "\<exists>s. w' = w\<lparr>w_sel := s\<rparr> \<and> selector_inv s \<and> (owner s = owner (w_sel w) \<and> st \<noteq> SELECTOR_SUCCESS
    \<or> owner (w_sel w) fd = None \<and> owner s = (owner (w_sel w))(fd \<mapsto> (Some h, d)) \<and> st = SELECTOR_SUCCESS)"
proof -
  from assms(1) obtain s where s: "selector_register mem (w_sel w) fd (Some h) i d = Inr (st, s)" "w' = w\<lparr>w_sel := s\<rparr>"
    by (auto simp: register_fd_def rbind_eq_Inr)
  from register_owner [OF s(1) assms(2)] register_inv [OF s(1) assms(2)] s(2) show ?thesis by blast
qed

lemma reading_init_arrives:
  assumes "reading_init st' k = Inr k'" "around w a fd k" "k_owner k fd \<noteq> None"
  shows "arrived w a fd READING_MAIL k'"
proof -
  let ?sel = "selected_mail_fd (k_p3 k)"
  let ?p = "(k_p3 k)\<lparr>client := Mail_st ?sel (client_fd (k_p3 k)), mail_done := 0, byte_stuffing_st := 0\<rparr>"
  from assms(1) obtain s w1 where w1: "register_fd (io_mem (k_io k)) ?sel Mail_handler OP_READ
      (Some (Pop3_data (k_self k))) (k_world k) = Inr (s, w1)" "k' = k\<lparr>k_p3 := ?p, k_world := w1\<rparr>"
    by (auto simp: reading_init_def Let_def rbind_eq_Inr)
  let ?k = "k\<lparr>k_p3 := ?p\<rparr>"
  have "around w a fd ?k \<and> k_owner ?k = k_owner k"
    by (rule around_step [OF assms(2)]) (use assms(2) in \<open>simp_all add: around_def\<close>)
  then have k: "around w a fd ?k" "k_owner ?k = k_owner k" "k_self k = a" using assms(2) unfolding around_def by blast+
  have settled: "settled ow a (k_p3 k') (Some READING_MAIL)" for ow using w1(2) by (simp add: settled_def)
  have "selector_inv (w_sel (k_world k))" using assms(2) by (simp add: around_def)
  from register_owners [OF w1(1) this] obtain t where t: "w1 = (k_world k)\<lparr>w_sel := t\<rparr>" "selector_inv t"
    "owner t = k_owner k \<or> k_owner k ?sel = None \<and> owner t = (k_owner k)(?sel \<mapsto> mail_of_session a)"
    unfolding k_owner_def k(3) by blast
  have k': "k_owner k' = owner t" "k_sessions k' = k_sessions ?k" using w1(2) t(1) by (simp_all add: k_owner_def k_sessions_def)
  from t(3) have "around w a fd k'"
  proof (elim disjE conjE)
    assume "owner t = k_owner k"
    with k(1,2) k' w1(2) t(1,2) show ?thesis by (simp add: around_def same_lists_def)
  next
    assume new: "k_owner k ?sel = None" "owner t = (k_owner k)(?sel \<mapsto> mail_of_session a)"
    from k(1,2) have o: "owned (k_owner k) (k_sessions ?k)" "k_owner k (client_fd ?p) = Some (socket_of a)"
      by (simp_all add: around_def)
    have self: "k_sessions ?k a = Some ?p" using k(3) by (simp add: k_sessions_def)
    have "owned ((k_owner k)(?sel \<mapsto> mail_of_session a)) (k_sessions ?k)"
    proof (cases "?sel = 0")
      case True
      with owned_zero [OF o(1)] show ?thesis by simp
    next
      case False
      with owned_open [OF o(1) self _ _ _ o(2), of ?sel] new(1) show ?thesis by simp
    qed
    with k(1,2) k' w1(2) t(1,2) new assms(3) o(2) show ?thesis by (auto simp: around_def same_lists_def)
  qed
  with settled show ?thesis by (simp add: arrived_def)
qed

lemma arrives:
  assumes "st' < length client_statbl" "on_leave w a fd st st' k" "st \<noteq> st'"
    and "call_hook (on_arrival (client_statbl ! st')) st' k = Inr k'"
  shows "arrived w a fd st' k'"
proof -
  from assms(2) have k: "around w a fd k" "session_ok (k_p3 k)" by (simp_all add: on_leave_def around_def)
  have upd: "around w a fd (k\<lparr>k_p3 := p\<rparr>) \<and> k_owner (k\<lparr>k_p3 := p\<rparr>) = k_owner k"
    if "client_fd p = client_fd (k_p3 k)" "selected_mail_fd p = selected_mail_fd (k_p3 k)" "session_ok p" for p
    by (rule around_step [OF k(1)]) (use that in simp_all)
  from table_cases [OF assms(1)] show ?thesis
  proof (elim insertE emptyE)
    assume st': "st' = AUTH"
    with assms(4) have "auth_init st' k = Inr k'" by (simp add: client_statbl_def no_state_def call_hook_def)
    from auth_init_eq [OF this k(2)] obtain b where
      b: "k' = k\<lparr>k_p3 := (k_p3 k)\<lparr>client := State_st, write_buffer := b\<rparr>\<rparr>" "buffer_inv b" by blast
    from upd [of "(k_p3 k)\<lparr>client := State_st, write_buffer := b\<rparr>"] b k(2) assms(2) st' show ?thesis
      by (simp add: arrived_def on_leave_def settled_def session_ok_def fit_def)
  next
    assume st': "st' = TRANSACTION"
    with assms(4) have k': "k' = k\<lparr>k_p3 := (k_p3 k)\<lparr>client := State_st\<rparr>\<rparr>"
      by (simp add: client_statbl_def no_state_def call_hook_def trans_init_def)
    from upd [of "(k_p3 k)\<lparr>client := State_st\<rparr>"] k' k(2) assms(2) st' show ?thesis
      by (simp add: arrived_def on_leave_def settled_def)
  next
    assume st': "st' = READING_MAIL"
    with assms(4) have "reading_init st' k = Inr k'" by (simp add: client_statbl_def no_state_def call_hook_def)
    from reading_init_arrives [OF this k(1)] assms(2,3) st' show ?thesis by (simp add: on_leave_def)
  next
    assume st': "st' = WRITING_MAIL"
    with assms(2,4) show ?thesis by (simp add: client_statbl_def no_state_def call_hook_def arrived_def on_leave_def)
  next
    assume st': "st' = UPDATE"
    with assms(4) have "delete_mails st' k = Inr k'" by (simp add: client_statbl_def no_state_def call_hook_def)
    with delete_mails_place [OF _ k(2)] have d: "same_place k k'" by blast
    from around_place [OF k(1) d] place_settled [OF d] assms(2) st' show ?thesis by (simp add: arrived_def on_leave_def)
  next
    assume st': "st' = DONE"
    with assms(2,4) show ?thesis
      by (simp add: client_statbl_def no_state_def call_hook_def close_connection_def arrived_def on_leave_def)
  next
    assume st': "st' = ERROR"
    with assms(2,4) show ?thesis
      by (simp add: client_statbl_def no_state_def call_hook_def error_function_def arrived_def on_leave_def)
  qed
qed

lemma first_arrives:
  assumes "at_rest w a fd None k" "call_hook (on_arrival (client_statbl ! AUTH)) AUTH k = Inr k'"
  shows "at_rest w a fd (Some AUTH) k'"
proof -
  from assms(1) have k: "around w a fd k" "session_ok (k_p3 k)" "k_self k = a" by (simp_all add: at_rest_def around_def)
  from assms(2) have "auth_init AUTH k = Inr k'" by (simp add: client_statbl_def no_state_def call_hook_def)
  from auth_init_eq [OF this k(2)] obtain b where
    b: "k' = k\<lparr>k_p3 := (k_p3 k)\<lparr>client := State_st, write_buffer := b\<rparr>\<rparr>" "buffer_inv b" by blast
  have "around w a fd k' \<and> k_owner k' = k_owner k"
    by (rule around_step [OF k(1)]) (use b k(2) in \<open>simp_all add: session_ok_def fit_def\<close>)
  moreover have "fair (k_io k) (k_owner k) (k_sessions k')"
  proof -
    have "k_sessions k' = (k_sessions k)(a \<mapsto> k_p3 k')" "k_sessions k a = Some (k_p3 k)"
      "selected_mail_fd (k_p3 k') = selected_mail_fd (k_p3 k)" using b k(3) by (simp_all add: k_sessions_def)
    with assms(1) show ?thesis by (auto simp: at_rest_def fair_def unclaimed_def)
  qed
  ultimately show ?thesis using assms(1) b by (simp add: at_rest_def settled_def)
qed

lemma read_leaves:
  assumes "st < length client_statbl" "at_rest w a fd (Some st) k" "on_read_ready (client_statbl ! st) = Some h"
    and "h st k = Inr (st', k')"
  shows "on_leave w a fd st st' k'"
proof -
  have over: "on_leave w a fd st DONE k" using assms(2) by (simp add: on_leave_def at_rest_def settled_over)
  from table_cases [OF assms(1)] assms(2-4) client_read_leave [of st k st' k'] filesystem_read_leave [of st k st' k'] over
  show ?thesis by (elim insertE emptyE) (auto simp: client_statbl_def no_state_def go_to_done_def)
qed

lemma write_leaves:
  assumes "st < length client_statbl" "at_rest w a fd (Some st) k" "on_write_ready (client_statbl ! st) = Some h"
    and "h st k = Inr (st', k')"
  shows "on_leave w a fd st st' k'"
  using table_cases [OF assms(1)] assms(2-4) client_write_leave [of st k st' k'] mail_write_leave [of st k st' k']
  by (elim insertE emptyE) (auto simp: client_statbl_def no_state_def)

interpretation own: event_machine client_statbl AUTH "at_rest w a fd None" "\<lambda>st. at_rest w a fd (Some st)"
    "on_leave w a fd" "arrived w a fd" for w :: world and a :: nat and fd :: int
proof unfold_locales
  fix k k'
  assume "at_rest w a fd None k" "call_hook (on_arrival (client_statbl ! AUTH)) AUTH k = Inr k'"
  then show "at_rest w a fd (Some AUTH) k'" by (rule first_arrives)
next
  fix st k h st' k'
  assume "st < length client_statbl" "at_rest w a fd (Some st) k" "on_read_ready (client_statbl ! st) = Some h"
    "h st k = Inr (st', k')"
  then show "on_leave w a fd st st' k'" by (rule read_leaves)
next
  fix st k h st' k'
  assume "st < length client_statbl" "at_rest w a fd (Some st) k" "on_write_ready (client_statbl ! st) = Some h"
    "h st k = Inr (st', k')"
  then show "on_leave w a fd st st' k'" by (rule write_leaves)
next
  fix st k h st' k'
  assume "st < length client_statbl" "on_block_ready (client_statbl ! st) = Some h"
  then show "on_leave w a fd st st' k'" using table_hooks(2) [of st] by simp
next
  fix st k
  assume "on_leave w a fd st st k"
  then show "arrived w a fd st k" by (simp add: on_leave_def arrived_def)
next
  fix st st' k k'
  assume "st < length client_statbl" "on_leave w a fd st st' k" "call_hook (on_departure (client_statbl ! st)) st k = Inr k'"
  then show "on_leave w a fd st st' k'" using table_hooks(1) [of st] by (simp add: call_hook_def)
next
  fix st st' k k'
  assume "st' < length client_statbl" "on_leave w a fd st st' k" "st \<noteq> st'"
    "call_hook (on_arrival (client_statbl ! st')) st' k = Inr k'"
  then show "arrived w a fd st' k'" by (rule arrives)
qed (fact sm.numbered, fact sm.init_lt)

end
