(* ===== verification/Server.thy ===== *)
theory Server
  imports Soundness
begin

text \<open>
  The server program (\<^verbatim>\<open>src/server.c\<close>): which callbacks the selector runs for each handler, a
  round of the event loop on the state of both services, and \<open>main\<close> from the arguments to the exit
  code. The answers of the system are arguments: for the start a record \<open>boot\<close>, for every round the
  result of \<open>pselect\<close> and, per descriptor, what the calls of its callbacks got. The program ends when
  a signal is delivered; the rounds given to \<open>main\<close> are those before it.
\<close>

section \<open>One round of the event loop\<close>

record answers =
  a_read :: "int \<Rightarrow> io"
  a_write :: "int \<Rightarrow> io"
  a_block :: "int \<Rightarrow> io"

definition on_world :: "(world \<Rightarrow> world res) \<Rightarrow> (fd_handler, attachment) fdselector \<Rightarrow> world
    \<Rightarrow> ((fd_handler, attachment) fdselector \<times> world) res" where
  "on_world f s w = rbind (f (w\<lparr>w_sel := s\<rparr>)) (\<lambda>w'. Inr (w_sel w', w'))"

definition reader :: "fd_handler \<Rightarrow> io \<Rightarrow> int \<Rightarrow> attachment option \<Rightarrow> world \<Rightarrow> world res" where
  "reader h io fd data =
     (case h of
       Pop3_passive \<Rightarrow> pop3_passive_accept io
     | Monitor_passive \<Rightarrow> monitor_passive_accept io
     | Monitor_handler \<Rightarrow> monitor_read io fd data
     | _ \<Rightarrow> pop3_read io fd data)"

definition writer :: "fd_handler \<Rightarrow> (io \<Rightarrow> int \<Rightarrow> attachment option \<Rightarrow> world \<Rightarrow> world res) option" where
  "writer h =
     (case h of
       Pop3_passive \<Rightarrow> None
     | Monitor_passive \<Rightarrow> None
     | Monitor_handler \<Rightarrow> Some monitor_write
     | _ \<Rightarrow> Some pop3_write)"

definition blocker :: "fd_handler \<Rightarrow> (io \<Rightarrow> int \<Rightarrow> attachment option \<Rightarrow> world \<Rightarrow> world res) option" where
  "blocker h = (case h of Pop3_handler \<Rightarrow> Some pop3_block | Mail_handler \<Rightarrow> Some pop3_block | _ \<Rightarrow> None)"

definition server_callbacks :: "answers \<Rightarrow> (fd_handler, attachment, world) callbacks" where
  "server_callbacks an =
   \<lparr>handle_read = (\<lambda>h. Some (\<lambda>fd data. on_world (reader h (a_read an fd) fd data))),
    handle_write = (\<lambda>h. map_option (\<lambda>f fd data. on_world (f (a_write an fd) fd data)) (writer h)),
    handle_block = (\<lambda>h. map_option (\<lambda>f fd data. on_world (f (a_block an fd) fd data)) (blocker h))\<rparr>"

definition serve_round :: "pselect_result \<Rightarrow> answers \<Rightarrow> world \<Rightarrow> (selector_status \<times> world) res" where
  "serve_round r an w =
     rbind (selector_select (server_callbacks an) r (w_sel w, w)) (\<lambda>(st, s, w'). Inr (st, w'\<lparr>w_sel := s\<rparr>))"

section \<open>Sockets\<close>

text \<open>
  An address has its port and its host in network order. What the system answers to \<open>bind\<close> may depend on
  the address. The calls made for the passive sockets are kept in order as a trace, since nothing else in
  the program tells which port a socket listens on.
\<close>

datatype address_family = AF_INET | AF_INET6

datatype sockaddr =
  Sockaddr_in (sin_addr: "byte list") (sin_port: "byte list")
| Sockaddr_in6 (sin6_addr: "byte list") (sin6_port: "byte list")

datatype sockopt = SO_REUSEADDR | IPV6_V6ONLY

datatype socket_call =
  Call_socket address_family
| Call_setsockopt int sockopt
| Call_bind int sockaddr
| Call_listen int nat

record socket_answers =
  so_socket :: int
  so_bind :: "sockaddr \<Rightarrow> bool"
  so_listen :: bool

definition INADDR_ANY :: u32 where "INADDR_ANY = 0"

definition in6addr_any :: "byte list" where "in6addr_any = replicate 16 0"

definition create_socket :: "address_family \<Rightarrow> socket_answers \<Rightarrow> socket_call list \<Rightarrow> int \<times> socket_call list" where
  "create_socket family so calls =
     (let s = so_socket so; calls = calls @ [Call_socket family]
      in if s < 0 then (- 1, calls) else (s, calls @ [Call_setsockopt s SO_REUSEADDR]))"

definition bind_socket :: "int \<Rightarrow> sockaddr \<Rightarrow> socket_answers \<Rightarrow> socket_call list \<Rightarrow> int \<times> socket_call list" where
  "bind_socket server address so calls =
     (let calls = calls @ [Call_bind server address]
      in if \<not> so_bind so address then (- 1, calls)
         else let calls = calls @ [Call_listen server 20]
              in if \<not> so_listen so then (- 1, calls) else (0, calls))"

definition bind_ipv4_socket :: "u32 \<Rightarrow> u32 \<Rightarrow> socket_answers \<Rightarrow> socket_call list \<Rightarrow> int \<times> socket_call list" where
  "bind_ipv4_socket bind_address port so calls =
     (let (server, calls) = create_socket AF_INET so calls;
          addr = Sockaddr_in (htonl bind_address) (htons (ucast port));
          (r, calls) = bind_socket server addr so calls
      in if r = - 1 then (- 1, calls) else (server, calls))"

definition bind_ipv6_socket :: "byte list \<Rightarrow> u32 \<Rightarrow> socket_answers \<Rightarrow> socket_call list \<Rightarrow> int \<times> socket_call list" where
  "bind_ipv6_socket bind_address port so calls =
     (let (server, calls) = create_socket AF_INET6 so calls;
          calls = calls @ [Call_setsockopt server IPV6_V6ONLY];
          addr = Sockaddr_in6 bind_address (htons (ucast port));
          (r, calls) = bind_socket server addr so calls
      in if r = - 1 then (- 1, calls) else (server, calls))"

section \<open>\<open>main\<close>\<close>

definition MAX_SOCKS :: nat where "MAX_SOCKS = 500"

definition IS_FD_USED :: "int \<Rightarrow> bool" where
  "IS_FD_USED fd \<longleftrightarrow> - 1 \<noteq> fd"

record boot =
  b_server_v4 :: socket_answers
  b_monitor_v4 :: socket_answers
  b_server_v6 :: socket_answers
  b_monitor_v6 :: socket_answers
  b_fcntl :: "int \<Rightarrow> u32 option \<times> bool"
  b_mask :: bool
  b_action :: bool
  b_mem :: bool

definition set_nio :: "boot \<Rightarrow> int \<Rightarrow> int" where
  "set_nio b fd = fst (selector_fd_set_nio (fst (b_fcntl b fd)) (snd (b_fcntl b fd)))"

record main_state =
  m_port :: u16
  m_calls :: "socket_call list"
  err_msg :: "string option"
  ss :: selector_status
  has_selector :: bool
  server_v4 :: int
  monitor_v4 :: int
  server_v6 :: int
  monitor_v6 :: int
  m_world :: world

text \<open>A part of \<open>main\<close> ends with \<open>goto finally\<close>, the left result, or goes on with the next.\<close>

type_synonym main_part = "main_state \<Rightarrow> (main_state + main_state) res"

fun in_order :: "main_part list \<Rightarrow> main_part" where
  "in_order [] m = Inr (Inr m)"
| "in_order (f # fs) m =
     rbind (f m) (\<lambda>r. case r of Inl m' \<Rightarrow> Inr (Inl m') | Inr m' \<Rightarrow> in_order fs m')"

definition stop_if :: "bool \<Rightarrow> string \<Rightarrow> main_part" where
  "stop_if b msg m = Inr (if b then Inl (m\<lparr>err_msg := Some msg\<rparr>) else Inr m)"

definition MONITOR_PORT :: u32 where "MONITOR_PORT = 1081"

definition main_sockets :: "boot \<Rightarrow> main_part list" where
  "main_sockets b =
     [\<lambda>m. let (fd, calls) = bind_ipv4_socket INADDR_ANY (ucast (m_port m)) (b_server_v4 b) (m_calls m);
              m = m\<lparr>m_calls := calls, server_v4 := fd\<rparr>
          in stop_if (server_v4 m < 0) ''unable to create IPv4 server socket'' m,
      \<lambda>m. let (fd, calls) = bind_ipv4_socket INADDR_ANY MONITOR_PORT (b_monitor_v4 b) (m_calls m);
              m = m\<lparr>m_calls := calls, monitor_v4 := fd\<rparr>
          in stop_if (monitor_v4 m < 0) ''unable to create IPv4 monitor socket'' m,
      \<lambda>m. let (fd, calls) = bind_ipv6_socket in6addr_any (ucast (m_port m)) (b_server_v6 b) (m_calls m);
              m = m\<lparr>m_calls := calls, server_v6 := fd\<rparr>
          in stop_if (server_v6 m < 0) ''unable to create IPv6 socket'' m,
      \<lambda>m. let (fd, calls) = bind_ipv6_socket in6addr_any MONITOR_PORT (b_monitor_v6 b) (m_calls m);
              m = m\<lparr>m_calls := calls, monitor_v6 := fd\<rparr>
          in stop_if (monitor_v6 m < 0) ''unable to create IPv6 socket'' m,
      \<lambda>m. stop_if (IS_FD_USED (server_v4 m) \<and> set_nio b (server_v4 m) = - 1) ''Getting pop3 server ipv4 socket flags'' m,
      \<lambda>m. stop_if (IS_FD_USED (server_v6 m) \<and> set_nio b (server_v6 m) = - 1) ''getting pop3 server ipv6 socket flags'' m,
      \<lambda>m. stop_if (IS_FD_USED (monitor_v4 m) \<and> set_nio b (monitor_v4 m) = - 1) ''getting monitor server ipv4 socket flags'' m,
      \<lambda>m. stop_if (IS_FD_USED (monitor_v6 m) \<and> set_nio b (monitor_v6 m) = - 1) ''Getting monitor server ipv6 socket flags'' m]"

definition main_selector :: "boot \<Rightarrow> main_part list" where
  "main_selector b =
     [stop_if (selector_init (b_mask b) (b_action b) \<noteq> SELECTOR_SUCCESS) ''initializing selector'',
      \<lambda>m. rbind (selector_new (b_mem b) MAX_SOCKS) (\<lambda>s.
          case s of
            None \<Rightarrow> stop_if True ''unable to create selector'' m
          | Some s \<Rightarrow> Inr (Inr (m\<lparr>has_selector := True, m_world := (m_world m)\<lparr>w_sel := s\<rparr>\<rparr>)))]"

definition main_register :: "boot \<Rightarrow> (main_state \<Rightarrow> int) \<Rightarrow> fd_handler \<Rightarrow> string \<Rightarrow> main_part" where
  "main_register b fd h msg m =
     (if IS_FD_USED (fd m) then
        rbind (register_fd (b_mem b) (fd m) h OP_READ None (m_world m)) (\<lambda>(st, w).
        stop_if (st \<noteq> SELECTOR_SUCCESS) msg (m\<lparr>ss := st, m_world := w\<rparr>))
      else Inr (Inr m))"

definition main_passives :: "boot \<Rightarrow> main_part list" where
  "main_passives b =
     [main_register b server_v4 Pop3_passive ''registering IPv4 socks fd'',
      main_register b server_v6 Pop3_passive ''registering IPv6 socks fd'',
      main_register b monitor_v4 Monitor_passive ''registering IPv4 monitor fd'',
      main_register b monitor_v6 Monitor_passive ''registering IPv6 monitor fd'']"

definition main_users :: main_part where
  "main_users m =
     rbind (register_user (w_users (m_world m)) (Some (str ''foo'')) (Some (str ''bar''))) (\<lambda>(_, db).
     rbind (add_new_admin (str ''root'' @ [0]) (str ''123456789abcdef1'' @ [0]) ((m_world m)\<lparr>w_users := db\<rparr>)) (\<lambda>(_, w).
     let m = m\<lparr>m_world := w\<rparr> in stop_if (ss m \<noteq> SELECTOR_SUCCESS) ''registering fd'' m))"

fun main_loop :: "(pselect_result \<times> answers) list \<Rightarrow> main_part" where
  "main_loop [] m = Inr (Inr m)"
| "main_loop ((r, an) # rounds) m =
     rbind (serve_round r an (m_world m)) (\<lambda>(st, w).
     let m = m\<lparr>err_msg := None, ss := st, m_world := w\<rparr>
     in if st \<noteq> SELECTOR_SUCCESS then stop_if True ''serving'' m else main_loop rounds m)"

definition main_end :: main_part where
  "main_end m = Inr (Inr (if err_msg m = None then m\<lparr>err_msg := Some ''closing''\<rparr> else m))"

text \<open>The pool of connections is freed node by node.\<close>

fun pool_free :: "(nat \<Rightarrow> admin_connection option) \<Rightarrow> nat list \<Rightarrow> (nat \<Rightarrow> admin_connection option) res" where
  "pool_free h [] = Inr h"
| "pool_free h (a # as) = (case h a of None \<Rightarrow> Inl UseAfterFree | Some _ \<Rightarrow> pool_free (h(a := None)) as)"

definition admin_connection_pool_destroy :: "world \<Rightarrow> world res" where
  "admin_connection_pool_destroy w = rbind (pool_free (w_admins w) (pool w)) (\<lambda>h. Inr (w\<lparr>w_admins := h\<rparr>))"

definition close_if :: "int \<Rightarrow> world \<Rightarrow> world" where
  "close_if fd w = (if fd \<ge> 0 then close_fd fd w else w)"

definition main_finally :: "main_state \<Rightarrow> (int \<times> world) res" where
  "main_finally m =
     (let ret = (if ss m \<noteq> SELECTOR_SUCCESS then 2 else if err_msg m \<noteq> None then 1 else 0)
      in rbind (if has_selector m then
             rbind (selector_destroy handle_close (w_sel (m_world m)) (m_world m)) (\<lambda>(s, w). Inr (w\<lparr>w_sel := s\<rparr>))
           else Inr (m_world m)) (\<lambda>w.
         rbind (admin_connection_pool_destroy w) (\<lambda>w.
         rbind (unregister_clients (w_users w)) (\<lambda>db.
         Inr (ret, (close_if (monitor_v6 m) \<circ> close_if (monitor_v4 m) \<circ> close_if (server_v6 m)
           \<circ> close_if (server_v4 m)) (w\<lparr>w_users := db\<rparr>))))))"

definition main_start :: "u16 \<Rightarrow> cstring \<Rightarrow> main_state" where
  "main_start port path =
   \<lparr>m_port = port, m_calls = [], err_msg = None, ss = SELECTOR_SUCCESS, has_selector = False, server_v4 = - 1, monitor_v4 = - 1,
    server_v6 = - 1, monitor_v6 = - 1, m_world = start_world\<lparr>w_maildir := snd (change_maildir INITIAL_PATH path)\<rparr>\<rparr>"

definition main_setup :: "boot \<Rightarrow> main_part" where
  "main_setup b = in_order (main_sockets b @ main_selector b @ main_passives b @ [main_users])"

definition main :: "boot \<Rightarrow> u16 \<Rightarrow> cstring \<Rightarrow> (pselect_result \<times> answers) list \<Rightarrow> (int \<times> world) res" where
  "main b port path rounds =
     rbind (in_order [main_setup b, main_loop rounds, main_end] (main_start port path)) (\<lambda>r.
     main_finally (case r of Inl m \<Rightarrow> m | Inr m \<Rightarrow> m))"

section \<open>The monitor leaves the sessions alone\<close>

definition apart :: "world \<Rightarrow> world \<Rightarrow> bool" where
  "apart w w' \<longleftrightarrow> w_conns w' = w_conns w \<and> w_sel w' = w_sel w"

lemma apart_ok: "apart w w' \<Longrightarrow> world_ok w \<Longrightarrow> world_ok w'"
  by (simp add: apart_def world_ok_def)

text \<open>What an administrator asks for changes no connection of the two services at all.\<close>

definition calm :: "world \<Rightarrow> world \<Rightarrow> bool" where
  "calm w w' \<longleftrightarrow> untouched w w' \<and> w_sel w' = w_sel w"

lemma calm_apart: "calm w w' \<Longrightarrow> apart w w'"
  by (simp add: calm_def apart_def untouched_def)

lemma add_new_admin_changes:
  assumes "add_new_admin u t w = Inr (e, w')"
  shows "w' = w \<or> (\<exists>x y. w' = w\<lparr>all_admin_data := x, current_admins := y\<rparr>)"
proof (rule ccontr)
  assume "\<not> ?thesis"
  with assms show False
    unfolding add_new_admin_def Let_def by (simp add: rbind_eq_Inr split: if_splits) metis
qed

lemma add_new_admin_calm: "add_new_admin u t w = Inr (e, w') \<Longrightarrow> calm w w'"
  by (auto simp: calm_def untouched_def dest!: add_new_admin_changes)

lemma remove_admin_calm: "remove_admin u w = Inr (e, w') \<Longrightarrow> calm w w'"
  by (auto simp: remove_admin_def rbind_eq_Inr calm_def untouched_def split: if_splits)

lemma config_action_calm: "config_action w m = Inr (st, e, w') \<Longrightarrow> calm w w'"
  by (auto simp: config_action_def Let_def rbind_eq_Inr calm_def untouched_def change_maildir_def split: if_splits
      dest!: add_new_admin_calm [unfolded calm_def untouched_def] remove_admin_calm [unfolded calm_def untouched_def])

lemma monitor_action_calm:
  assumes "monitor_action w d = Inr (w', d')"
  shows "calm w w' \<and> ac_fd d' = ac_fd d"
proof -
  let ?m = "mp_monitor (ac_parser d)"
  let ?act = "if \<not> check_monitor_admin w (m_token ?m) then Inr (monitor_status_invalid_auth, 1, No_data, 0, w)
         else if m_req_type ?m = monitor_type_data then
           (let (status, len, data) = data_action w (m_type ?m) in Inr (status, len, data, 0, w))
         else if m_req_type ?m = monitor_type_config then
           rbind (config_action w ?m) (\<lambda>(status, e, w1). Inr (status, 1, No_data, e, w1))
         else Inr (monitor_status_no_such_method, 1, No_data, 0, w)"
  obtain status len data e w1 where a: "?act = Inr (status, len, data, e, w1)"
    using assms by (cases ?act) (auto simp: monitor_action_def Let_def)
  have "calm w w1"
  proof (cases "check_monitor_admin w (m_token ?m) \<and> m_req_type ?m = monitor_type_config
      \<and> m_req_type ?m \<noteq> monitor_type_data")
    case True
    with a obtain s e1 where "config_action w ?m = Inr (s, e1, w1)" by (cases "config_action w ?m") auto
    then show ?thesis by (rule config_action_calm)
  next
    case False
    with a show ?thesis by (auto simp: calm_def untouched_def split: if_splits prod.splits)
  qed
  moreover from assms a have "w' = w1 \<and> ac_fd d' = ac_fd d"
    by (simp add: monitor_action_def Let_def) (auto simp: rbind_eq_Inr split: if_splits)
  ultimately show ?thesis by simp
qed

lemma admin_connection_destroy_apart: "apart w (admin_connection_destroy a w)"
  by (simp add: apart_def admin_connection_destroy_def split: option.split)

lemma monitor_fail_apart: "apart w (monitor_fail fd a w)"
  using admin_connection_destroy_apart [of "close_fd fd w" a] admin_connection_destroy_apart [of w a]
  by (simp add: monitor_fail_def apart_def close_fd_def)

lemma new_admin_connection_apart: "new_admin_connection mem fd w = (a, w') \<Longrightarrow> apart w w'"
  by (auto simp: new_admin_connection_def apart_def split: list.splits if_splits)

lemma put_admin_ok [simp]: "world_ok (put_admin a d w) = world_ok w"
  by (simp add: put_admin_def world_ok_def)

lemma monitor_end_closes: "monitor_end d w = Inr w' \<Longrightarrow> closes w w'"
  unfolding monitor_end_def by (rule unregister_then_close)

lemma monitor_passive_accept_ok:
  assumes "monitor_passive_accept io w = Inr w'" "world_ok w"
  shows "world_ok w'"
proof (cases "io_accept io = - 1 \<or> \<not> io_nio io")
  case True
  with assms apart_ok [OF monitor_fail_apart] show ?thesis by (auto simp: monitor_passive_accept_def Let_def)
next
  case False
  obtain a w1 where new: "new_admin_connection (io_mem io) (io_accept io) w = (a, w1)" by (cases "new_admin_connection (io_mem io) (io_accept io) w")
  have 1: "world_ok w1" using apart_ok [OF new_admin_connection_apart [OF new] assms(2)] .
  show ?thesis
  proof (cases a)
    case None
    with assms(1) False new 1 apart_ok [OF monitor_fail_apart] show ?thesis by (auto simp: monitor_passive_accept_def Let_def)
  next
    case (Some i)
    let ?reg = "register_fd (io_mem io) (io_accept io) Monitor_handler OP_READ (Some (Admin_data i)) w1"
    from assms(1) False new Some have run: "rbind ?reg (\<lambda>(st, w2).
            if st \<noteq> SELECTOR_SUCCESS then Inr (monitor_fail (io_accept io) (Some i) w2)
            else Inr (w2\<lparr>w_admins := (w_admins w2)(i := map_option monitor_init (w_admins w2 i))\<rparr>)) = Inr w'"
      by (simp add: monitor_passive_accept_def Let_def)
    then obtain st w2 where reg: "?reg = Inr (st, w2)" by (cases ?reg) auto
    from run have "(if st \<noteq> SELECTOR_SUCCESS then Inr (monitor_fail (io_accept io) (Some i) w2)
          else Inr (w2\<lparr>w_admins := (w_admins w2)(i := map_option monitor_init (w_admins w2 i))\<rparr>)) = (Inr w' :: world res)"
      unfolding reg by simp
    with register_fd_ok [OF reg 1] apart_ok [OF monitor_fail_apart] show ?thesis
      by (auto simp: world_ok_def split: if_splits)
  qed
qed

lemma monitor_read_ok:
  assumes "monitor_read io fd data w = Inr w'" "world_ok w"
  shows "world_ok w'"
proof -
  from assms(1) obtain a d count where a: "admin_at data w = Inr (a, d)" "buffer_write_ptr (ac_rb d) = Inr count"
    by (auto simp: monitor_read_def rbind_eq_Inr)
  let ?bs = "received (io_recv io) count"
  show ?thesis
  proof (cases "?bs = []")
    case True
    with assms(1) a have "monitor_end d w = Inr w'" by (simp add: monitor_read_def)
    from closes_ok [OF monitor_end_closes [OF this] assms(2)] show ?thesis .
  next
    case False
    with assms(1) a obtain b state g p b1 where
      c: "monitor_consume (w_globals w) b (ac_parser d) = Inr (state, g, p, b1)"
      and rest: "(let d = d\<lparr>ac_rb := b1, ac_parser := p\<rparr>; w = w\<lparr>w_globals := g\<rparr> in
       if monitor_has_finish state then
         rbind
           (if state \<noteq> monitor_finish then
              rbind (monitor_error_handler p (ac_wb d)) (\<lambda>(r, wb).
              if r = - 1 then Inl Aborted else Inr (w, d\<lparr>ac_wb := wb\<rparr>))
            else monitor_action w d) (\<lambda>(w, d).
         rbind (set_interest_key fd OP_WRITE (put_admin a d w)) (\<lambda>(_, w). Inr w))
       else Inr (put_admin a d w)) = Inr w'"
      by (auto simp: monitor_read_def Let_def rbind_eq_Inr)
    let ?w = "w\<lparr>w_globals := g\<rparr>" and ?d = "d\<lparr>ac_rb := b1, ac_parser := p\<rparr>"
    have g: "world_ok ?w" using assms(2) by (simp add: world_ok_def)
    show ?thesis
    proof (cases "monitor_has_finish state")
      case False
      with rest g have "w' = put_admin a ?d ?w" by (simp add: Let_def)
      with g show ?thesis by simp
    next
      case True
      with rest obtain w1 d1 st where
        1: "(if state \<noteq> monitor_finish then
              rbind (monitor_error_handler p (ac_wb ?d)) (\<lambda>(r, wb).
              if r = - 1 then Inl Aborted else Inr (?w, ?d\<lparr>ac_wb := wb\<rparr>))
            else monitor_action ?w ?d) = Inr (w1, d1)"
        and 2: "set_interest_key fd OP_WRITE (put_admin a d1 w1) = Inr (st, w')"
        by (auto simp: Let_def rbind_eq_Inr simp del: fun_upd_apply)
      from 1 g have "world_ok w1"
        using apart_ok [OF calm_apart [OF monitor_action_calm [THEN conjunct1]]] by (auto simp: rbind_eq_Inr split: if_splits)
      with set_interest_key_world_ok [OF 2] show ?thesis by simp
    qed
  qed
qed

lemma monitor_write_ok:
  assumes "monitor_write io fd data w = Inr w'" "world_ok w"
  shows "world_ok w'"
proof -
  from assms(1) obtain a d bytes where a: "admin_at data w = Inr (a, d)" "buffer_read_ptr (ac_wb d) = Inr bytes"
    by (auto simp: monitor_write_def rbind_eq_Inr)
  show ?thesis
  proof (cases "io_send io")
    case None
    with assms(1) a have "monitor_end d w = Inr w'" by (simp add: monitor_write_def)
    from closes_ok [OF monitor_end_closes [OF this] assms(2)] show ?thesis .
  next
    case (Some k)
    let ?w = "w\<lparr>w_sent := w_sent w @ [(fd, take (min k (length bytes)) bytes)]\<rparr>"
    from assms(1) a Some obtain wb where
      "(if \<not> buffer_can_read wb then monitor_end d (put_admin a (d\<lparr>ac_wb := wb\<rparr>) ?w)
        else Inr (put_admin a (d\<lparr>ac_wb := wb\<rparr>) ?w)) = Inr w'"
      by (auto simp: monitor_write_def Let_def rbind_eq_Inr)
    moreover have "world_ok ?w" using assms(2) by (simp add: world_ok_def)
    then have "world_ok (put_admin a (d\<lparr>ac_wb := wb\<rparr>) ?w)" by simp
    ultimately show ?thesis using closes_ok [OF monitor_end_closes] by (auto split: if_splits)
  qed
qed

section \<open>Every event keeps the world well-formed\<close>

lemma on_world_ok:
  assumes "on_world f s w = Inr (s', w')" "world_ok (w\<lparr>w_sel := s\<rparr>)"
    and "\<And>w1. f (w\<lparr>w_sel := s\<rparr>) = Inr w1 \<Longrightarrow> world_ok (w\<lparr>w_sel := s\<rparr>) \<Longrightarrow> world_ok w1"
  shows "world_ok (w'\<lparr>w_sel := s'\<rparr>)"
  using assms by (auto simp: on_world_def rbind_eq_Inr)

lemma reader_ok: "reader h io fd data w = Inr w' \<Longrightarrow> world_ok w \<Longrightarrow> world_ok w'"
  using pop3_passive_accept_ok monitor_passive_accept_ok monitor_read_ok pop3_read_ok
  by (cases h) (auto simp: reader_def)

lemma writer_ok: "writer h = Some f \<Longrightarrow> f io fd data w = Inr w' \<Longrightarrow> world_ok w \<Longrightarrow> world_ok w'"
  using monitor_write_ok pop3_write_ok by (cases h) (auto simp: writer_def)

lemma blocker_ok: "blocker h = Some f \<Longrightarrow> f io fd data w = Inr w' \<Longrightarrow> world_ok w \<Longrightarrow> world_ok w'"
  using pop3_block_ok by (cases h) (auto simp: blocker_def)

interpretation ev: event_loop "server_callbacks an" "\<lambda>s w. world_ok (w\<lparr>w_sel := s\<rparr>)" for an
proof unfold_locales
  fix h fd d s w s' and w' :: world
    and f :: "int \<Rightarrow> attachment option \<Rightarrow> (fd_handler, attachment) fdselector \<Rightarrow> world
      \<Rightarrow> ((fd_handler, attachment) fdselector \<times> world) res"
  assume ok: "world_ok (w\<lparr>w_sel := s\<rparr>)" and run: "f fd d s w = Inr (s', w')"
  show "world_ok (w'\<lparr>w_sel := s'\<rparr>)" if "handle_read (server_callbacks an) h = Some f"
    using that run by (intro on_world_ok [OF _ ok]) (auto simp: server_callbacks_def intro: reader_ok)
  show "world_ok (w'\<lparr>w_sel := s'\<rparr>)" if w: "handle_write (server_callbacks an) h = Some f"
  proof -
    from w obtain g where "writer h = Some g" "f = (\<lambda>fd data. on_world (g (a_write an fd) fd data))"
      by (auto simp: server_callbacks_def)
    with run show ?thesis by (intro on_world_ok [OF _ ok]) (auto intro: writer_ok)
  qed
  show "world_ok (w'\<lparr>w_sel := s'\<rparr>)" if b: "handle_block (server_callbacks an) h = Some f"
  proof -
    from b obtain g where "blocker h = Some g" "f = (\<lambda>fd data. on_world (g (a_block an fd) fd data))"
      by (auto simp: server_callbacks_def)
    with run show ?thesis by (intro on_world_ok [OF _ ok]) (auto intro: blocker_ok)
  qed
next
  fix s :: "(fd_handler, attachment) fdselector" and w
  assume "world_ok (w\<lparr>w_sel := s\<rparr>)"
  then show "world_ok (w\<lparr>w_sel := s\<lparr>resolution_jobs := []\<rparr>\<rparr>)"
    by (simp add: world_ok_def selector_inv_def table_ok_def items_ok_def interested_def)
qed

lemma serve_round_ok:
  assumes "serve_round r an w = Inr (st, w')" "world_ok w"
  shows "world_ok w'"
proof -
  from assms(1) obtain s w1 where "selector_select (server_callbacks an) r (w_sel w, w) = Inr (st, s, w1)"
    "w' = w1\<lparr>w_sel := s\<rparr>" by (auto simp: serve_round_def rbind_eq_Inr)
  with ev.select_good [of an r "w_sel w" w st s w1] assms(2) show ?thesis by simp
qed

section \<open>What \<open>main\<close> sets up\<close>

text \<open>A sequence of parts that went through went through each.\<close>

lemma went_through:
  "rbind x (\<lambda>r. case r of Inl m' \<Rightarrow> Inr (Inl m') | Inr m' \<Rightarrow> g m') = Inr (Inr m)
    \<longleftrightarrow> (\<exists>m1. x = Inr (Inr m1) \<and> g m1 = Inr (Inr m))"
proof (cases x)
  case (Inr r)
  then show ?thesis by (cases r) auto
qed simp

lemma in_order_append:
  "in_order (fs @ gs) m = rbind (in_order fs m) (\<lambda>r. case r of Inl m' \<Rightarrow> Inr (Inl m') | Inr m' \<Rightarrow> in_order gs m')"
proof (induction fs arbitrary: m)
  case (Cons f fs)
  show ?case
  proof (cases "f m")
    case (Inr r)
    with Cons show ?thesis by (cases r) simp_all
  qed simp
qed simp

lemma in_order_keeps:
  assumes "in_order fs m = Inr (Inr m')" "P m"
    and "\<forall>f \<in> set fs. \<forall>m m'. f m = Inr (Inr m') \<longrightarrow> P m \<longrightarrow> P m'"
  shows "P m'"
  using assms
proof (induction fs arbitrary: m)
  case (Cons f fs)
  from Cons.prems(1) obtain m1 where m1: "f m = Inr (Inr m1)" "in_order fs m1 = Inr (Inr m')"
    by (auto simp: went_through)
  from Cons.prems(2,3) m1(1) have "P m1" by auto
  with Cons.IH [OF m1(2)] Cons.prems(3) show ?case by simp
qed simp

lemma stop_if_Inr: "stop_if b msg m = Inr (Inr m') \<Longrightarrow> m' = m \<and> \<not> b"
  by (auto simp: stop_if_def split: if_splits)

lemma selector_new_inv:
  fixes s :: "('h, 'd) fdselector"
  assumes "selector_new mem MAX_SOCKS = Inr (Some s)"
  shows "selector_inv s"
proof (cases mem)
  case True
  from selector_new_ok [where 'h = 'h and 'd = 'd] obtain s' :: "('h, 'd) fdselector" where
    "selector_new True 500 = Inr (Some s')" "selector_inv s'" by blast
  with assms True show ?thesis by (simp add: MAX_SOCKS_def)
next
  case False
  with assms show ?thesis
    by (auto simp: selector_new_def ensure_capacity_def rbind_eq_Inr MAX_SOCKS_def ITEMS_MAX_SIZE_def)
qed

lemma main_setup_ok:
  assumes "main_setup b (main_start port path) = Inr (Inr m)"
  shows "world_ok (m_world m)"
proof -
  from assms obtain m1 m2 where
    1: "in_order (main_sockets b) (main_start port path) = Inr (Inr m1)"
    and 2: "in_order (main_selector b) m1 = Inr (Inr m2)"
    and 3: "in_order (main_passives b @ [main_users]) m2 = Inr (Inr m)"
    unfolding main_setup_def in_order_append [of "main_sockets b"] in_order_append [of "main_selector b"] went_through
    by blast
  have "w_conns (m_world m1) = Map.empty"
    by (rule in_order_keeps [OF 1])
      (auto simp: main_start_def start_world_def initial_world_def main_sockets_def Let_def dest!: stop_if_Inr split: prod.splits)
  moreover from 2 obtain s where "selector_new (b_mem b) MAX_SOCKS = Inr (Some s)"
    "m2 = m1\<lparr>has_selector := True, m_world := (m_world m1)\<lparr>w_sel := s\<rparr>\<rparr>"
    by (auto simp: main_selector_def went_through rbind_eq_Inr stop_if_def split: option.splits if_splits)
  ultimately have "world_ok (m_world m2)" using selector_new_inv by (auto simp: world_ok_def)
  with 3 show ?thesis
  proof (rule in_order_keeps, intro ballI allI impI)
    fix f m and m' :: main_state
    assume f: "f \<in> set (main_passives b @ [main_users])" "f m = Inr (Inr m')" "world_ok (m_world m)"
    have reg: "world_ok (m_world m')" if "main_register b fd h msg m = Inr (Inr m')" for fd h msg
      using that f(3) register_fd_ok
      by (auto simp: main_register_def rbind_eq_Inr dest!: stop_if_Inr split: if_splits)
    have users: "world_ok (m_world m')" if u: "main_users m = Inr (Inr m')"
    proof -
      from u obtain db e where "add_new_admin (str ''root'' @ [0]) (str ''123456789abcdef1'' @ [0])
          ((m_world m)\<lparr>w_users := db\<rparr>) = Inr (e, m_world m')"
        by (auto simp: main_users_def rbind_eq_Inr Let_def simp del: str_Cons dest!: stop_if_Inr)
      with apart_ok [OF calm_apart [OF add_new_admin_calm]] f(3) show ?thesis by (fastforce simp: world_ok_def)
    qed
    from f(1,2) reg users show "world_ok (m_world m')" by (auto simp: main_passives_def)
  qed
qed

interpretation sd: sound_loop "server_callbacks an" "\<lambda>s w. world_ok (w\<lparr>w_sel := s\<rparr>)" for an
  by unfold_locales (simp add: world_ok_def)

section \<open>Reachable states\<close>

text \<open>On whatever port the server listens.\<close>

inductive reachable :: "boot \<Rightarrow> cstring \<Rightarrow> world \<Rightarrow> bool" for b path where
  set_up: "main_setup b (main_start port path) = Inr (Inr m) \<Longrightarrow> reachable b path (m_world m)"
| round: "reachable b path w \<Longrightarrow> serve_round r an w = Inr (SELECTOR_SUCCESS, w') \<Longrightarrow> reachable b path w'"

lemma reachable_ok: "reachable b path w \<Longrightarrow> world_ok w"
  by (induction rule: reachable.induct) (auto intro: main_setup_ok serve_round_ok)

end
