(* ===== verification/Service.thy ===== *)
theory Service
  imports Server
begin

text \<open>
  What the whole server does, from \<open>main\<close> on: it starts with four listening sockets, the first user and
  the first administrator; whatever the clients send, the states it reaches are well-formed; a client that
  connects is greeted; and the exit code is never zero.
\<close>

section \<open>Starting\<close>

definition passive_item :: "int \<Rightarrow> fd_handler \<Rightarrow> (fd_handler, attachment) item" where
  "passive_item fd h = \<lparr>it_fd = fd, it_interest = OP_READ, it_handler = Some h, it_data = None\<rparr>"

text \<open>A boot that meets no obstacle, with the four descriptors it gets.\<close>

definition boots :: "boot \<Rightarrow> int \<Rightarrow> int \<Rightarrow> int \<Rightarrow> int \<Rightarrow> bool" where
  "boots b s4 m4 s6 m6 \<longleftrightarrow> b_mem b \<and> b_mask b \<and> b_action b
     \<and> b_server_v4 b = \<lparr>so_socket = s4, so_bind = (\<lambda>_. True), so_listen = True\<rparr>
     \<and> b_monitor_v4 b = \<lparr>so_socket = m4, so_bind = (\<lambda>_. True), so_listen = True\<rparr>
     \<and> b_server_v6 b = \<lparr>so_socket = s6, so_bind = (\<lambda>_. True), so_listen = True\<rparr>
     \<and> b_monitor_v6 b = \<lparr>so_socket = m6, so_bind = (\<lambda>_. True), so_listen = True\<rparr>
     \<and> distinct [s4, m4, s6, m6] \<and> (\<forall>fd \<in> {s4, m4, s6, m6}. set_nio b fd \<noteq> - 1 \<and> 0 \<le> fd \<and> fd < 513)"

lemma selector_new_size:
  "\<exists>s :: ('h, 'd) fdselector. selector_new True MAX_SOCKS = Inr (Some s) \<and> selector_inv s
    \<and> registered s = Map.empty \<and> s_fd_size s = 513 \<and> resolution_jobs s = []"
proof -
  obtain s :: "('h, 'd) fdselector" where
    s: "selector_new True 500 = Inr (Some s)" "selector_inv s" "registered s = Map.empty"
    using selector_new_ok by blast
  from s(1) have "s_fd_size s = 513" "resolution_jobs s = []"
    by (auto simp: selector_new_def ensure_capacity_def ITEMS_MAX_SIZE_def next_capacity_def bit_length.simps
        Let_def rassert_def)
  with s show ?thesis by (auto simp: MAX_SOCKS_def)
qed

lemma register_fd_run:
  assumes "selector_inv (w_sel w)" "usable_fd (w_sel w) fd" "registered (w_sel w) fd = None"
  shows "\<exists>s. register_fd True fd h i d w = Inr (SELECTOR_SUCCESS, w\<lparr>w_sel := s\<rparr>) \<and> selector_inv s
    \<and> grows (w_sel w) s
    \<and> registered s = (registered (w_sel w))(fd \<mapsto> \<lparr>it_fd = fd, it_interest = i, it_handler = Some h, it_data = d\<rparr>)"
proof -
  from assms(2) have "\<not> INVALID_FD fd" "fd \<noteq> int (s_fd_size (w_sel w))" by (simp_all add: usable_fd_def)
  from selector_register_ok [OF assms(1) this assms(3), of h i d] obtain s where
    s: "selector_register True (w_sel w) fd (Some h) i d = Inr (SELECTOR_SUCCESS, s)" "selector_inv s"
      "registered s = (registered (w_sel w))(fd \<mapsto> \<lparr>it_fd = fd, it_interest = i, it_handler = Some h, it_data = d\<rparr>)"
    by blast
  with register_grows [OF s(1)] show ?thesis by (auto simp: register_fd_def)
qed

text \<open>The state after some of the passive sockets have been registered, and one more.\<close>

definition listening :: "(int \<times> fd_handler) list \<Rightarrow> (fd_handler, attachment) fdselector \<Rightarrow> bool" where
  "listening l s \<longleftrightarrow> selector_inv s \<and> 513 \<le> s_fd_size s \<and> resolution_jobs s = []
     \<and> registered s = map_of (List.map (\<lambda>(fd, h). (fd, passive_item fd h)) l)"

lemma main_register_run:
  assumes "b_mem b" "listening l (w_sel (m_world m))" "0 \<le> fd m" "fd m < 513" "fd m \<notin> fst ` set l"
  shows "\<exists>s. main_register b fd h msg m = Inr (Inr (m\<lparr>ss := SELECTOR_SUCCESS, m_world := (m_world m)\<lparr>w_sel := s\<rparr>\<rparr>))
    \<and> listening ((fd m, h) # l) s"
proof -
  have "usable_fd (w_sel (m_world m)) (fd m)"
    using assms(2-4) by (auto simp: usable_fd_def listening_def INVALID_FD_def ITEMS_MAX_SIZE_def)
  moreover have "registered (w_sel (m_world m)) (fd m) = None"
    using assms(2,5) by (force simp: listening_def map_of_eq_None_iff)
  ultimately obtain s where s: "register_fd True (fd m) h OP_READ None (m_world m)
      = Inr (SELECTOR_SUCCESS, (m_world m)\<lparr>w_sel := s\<rparr>)" "selector_inv s" "grows (w_sel (m_world m)) s"
      "registered s = (registered (w_sel (m_world m)))(fd m \<mapsto>
        \<lparr>it_fd = fd m, it_interest = OP_READ, it_handler = Some h, it_data = None\<rparr>)"
    using register_fd_run assms(2) unfolding listening_def by blast
  from s(2-4) assms(2) have "listening ((fd m, h) # l) s"
    by (simp add: listening_def grows_def passive_item_def)
  moreover have "main_register b fd h msg m = Inr (Inr (m\<lparr>ss := SELECTOR_SUCCESS, m_world := (m_world m)\<lparr>w_sel := s\<rparr>\<rparr>))"
    using assms(1,3) s(1) by (simp add: main_register_def IS_FD_USED_def stop_if_def)
  ultimately show ?thesis by blast
qed

definition root_admin :: "cstring \<times> byte list" where
  "root_admin = (str ''root'', str ''123456789abcdef1'')"

lemma main_users_run:
  assumes "users_are (w_users (m_world m)) []" "admins_are (m_world m) []" "ss m = SELECTOR_SUCCESS"
  shows "\<exists>w. main_users m = Inr (Inr (m\<lparr>m_world := w\<rparr>)) \<and> users_are (w_users w) [(str ''foo'', str ''bar'')]
    \<and> admins_are w [root_admin] \<and> w_sel w = w_sel (m_world m) \<and> w_maildir w = w_maildir (m_world m)
    \<and> w_conns w = w_conns (m_world m) \<and> head_connection w = head_connection (m_world m)"
proof -
  from register_user_refines [OF assms(1), of "str ''foo''" "str ''bar''"] obtain db where
    db: "register_user (w_users (m_world m)) (Some (str ''foo'')) (Some (str ''bar'')) = Inr (0, db)"
      "users_are db [(str ''foo'', str ''bar'')]" by auto
  have "admins_are ((m_world m)\<lparr>w_users := db\<rparr>) []" using assms(2) by (simp add: admins_are_def)
  from add_new_admin_ok [OF this, of "str ''root''" "str ''123456789abcdef1''" "str ''root'' @ [0]"
      "str ''123456789abcdef1'' @ [0]"] obtain w where
    w: "add_new_admin (str ''root'' @ [0]) (str ''123456789abcdef1'' @ [0]) ((m_world m)\<lparr>w_users := db\<rparr>) = Inr (0, w)"
      "admins_are w [root_admin]"
      "w = (m_world m)\<lparr>w_users := db\<rparr>\<lparr>all_admin_data := all_admin_data w, current_admins := current_admins w\<rparr>"
    by (auto simp: root_admin_def)
  have "main_users m = Inr (Inr (m\<lparr>m_world := w\<rparr>))"
    using db(1) w(1) assms(3) by (simp add: main_users_def Let_def stop_if_def)
  moreover have "w_users w = db" "w_sel w = w_sel (m_world m)" "w_maildir w = w_maildir (m_world m)"
    "w_conns w = w_conns (m_world m)" "head_connection w = head_connection (m_world m)"
    by (subst w(3), simp)+
  ultimately show ?thesis using db(2) w(2) by auto
qed

text \<open>The four sockets, in the order they are registered.\<close>

definition sockets :: "int \<Rightarrow> int \<Rightarrow> int \<Rightarrow> int \<Rightarrow> (int \<times> fd_handler) list" where
  "sockets s4 m4 s6 m6 = [(m6, Monitor_passive), (m4, Monitor_passive), (s6, Pop3_passive), (s4, Pop3_passive)]"

text \<open>The calls that make a socket listen on a port of every address; a port travels with its high byte first.\<close>

definition network_port :: "nat \<Rightarrow> byte list" where
  "network_port n = [of_nat (n div 256), of_nat (n mod 256)]"

definition listen_v4 :: "int \<Rightarrow> nat \<Rightarrow> socket_call list" where
  "listen_v4 fd n = [Call_socket AF_INET, Call_setsockopt fd SO_REUSEADDR,
     Call_bind fd (Sockaddr_in [0, 0, 0, 0] (network_port n)), Call_listen fd 20]"

definition listen_v6 :: "int \<Rightarrow> nat \<Rightarrow> socket_call list" where
  "listen_v6 fd n = [Call_socket AF_INET6, Call_setsockopt fd SO_REUSEADDR, Call_setsockopt fd IPV6_V6ONLY,
     Call_bind fd (Sockaddr_in6 (replicate 16 0) (network_port n)), Call_listen fd 20]"

definition start_calls :: "int \<Rightarrow> int \<Rightarrow> int \<Rightarrow> int \<Rightarrow> u16 \<Rightarrow> socket_call list" where
  "start_calls s4 m4 s6 m6 port
    = listen_v4 s4 (unat port) @ listen_v4 m4 1081 @ listen_v6 s6 (unat port) @ listen_v6 m6 1081"

lemma htons_network_port: "htons p = network_port (unat p)"
  by (simp add: htons_def network_port_def)

lemma port_bits: "ucast (ucast (p :: u16) :: u32) = p"
  by transfer simp

lemma main_setup_run:
  assumes "boots b s4 m4 s6 m6"
  shows "\<exists>m. main_setup b (main_start port path) = Inr (Inr m) \<and> listening (sockets s4 m4 s6 m6) (w_sel (m_world m))
    \<and> ss m = SELECTOR_SUCCESS \<and> err_msg m = None \<and> has_selector m \<and> m_calls m = start_calls s4 m4 s6 m6 port
    \<and> users_are (w_users (m_world m)) [(str ''foo'', str ''bar'')] \<and> admins_are (m_world m) [root_admin]
    \<and> w_maildir (m_world m) = path \<and> w_conns (m_world m) = Map.empty \<and> head_connection (m_world m) = []"
proof -
  obtain s0 :: "(fd_handler, attachment) fdselector" where
    s0: "selector_new True MAX_SOCKS = Inr (Some s0)" "selector_inv s0" "registered s0 = Map.empty" "s_fd_size s0 = 513"
      "resolution_jobs s0 = []" using selector_new_size by blast
  let ?w = "m_world (main_start port path)"
  let ?m0 = "(main_start port path)\<lparr>m_calls := start_calls s4 m4 s6 m6 port, server_v4 := s4, monitor_v4 := m4, server_v6 := s6, monitor_v6 := m6,
    has_selector := True, m_world := ?w\<lparr>w_sel := s0\<rparr>\<rparr>"
  have "in_order (main_sockets b @ main_selector b) (main_start port path) = Inr (Inr ?m0)"
    using assms s0(1)
    by (auto simp: selector_init_def boots_def main_sockets_def main_selector_def stop_if_def bind_ipv4_socket_def bind_ipv6_socket_def
        bind_socket_def create_socket_def main_start_def start_calls_def listen_v4_def listen_v6_def htons_network_port MONITOR_PORT_def INADDR_ANY_def in6addr_any_def
        port_bits htonl_def Let_def)
  then have start: "main_setup b (main_start port path) = in_order (main_passives b @ [main_users]) ?m0"
    by (simp add: main_setup_def in_order_append [of "main_sockets b @ main_selector b", simplified])
  from assms have b: "b_mem b" and d: "distinct [s4, m4, s6, m6]" and r: "0 \<le> s4" "s4 < 513" "0 \<le> m4" "m4 < 513" "0 \<le> s6"
    "s6 < 513" "0 \<le> m6" "m6 < 513" by (simp_all add: boots_def)
  have "listening [] (w_sel (m_world ?m0))" using s0 by (simp add: listening_def)
  from main_register_run [OF b this, of server_v4 Pop3_passive "''registering IPv4 socks fd''"] r obtain s1 where
    s1: "main_register b server_v4 Pop3_passive ''registering IPv4 socks fd'' ?m0
      = Inr (Inr (?m0\<lparr>ss := SELECTOR_SUCCESS, m_world := ?w\<lparr>w_sel := s1\<rparr>\<rparr>))" "listening [(s4, Pop3_passive)] s1" by auto
  let ?m1 = "?m0\<lparr>ss := SELECTOR_SUCCESS, m_world := ?w\<lparr>w_sel := s1\<rparr>\<rparr>"
  from main_register_run [OF b, of _ ?m1 server_v6 Pop3_passive "''registering IPv6 socks fd''"] s1(2) r d obtain s2 where
    s2: "main_register b server_v6 Pop3_passive ''registering IPv6 socks fd'' ?m1
      = Inr (Inr (?m1\<lparr>m_world := ?w\<lparr>w_sel := s2\<rparr>\<rparr>))" "listening [(s6, Pop3_passive), (s4, Pop3_passive)] s2" by fastforce
  let ?m2 = "?m1\<lparr>m_world := ?w\<lparr>w_sel := s2\<rparr>\<rparr>"
  from main_register_run [OF b, of _ ?m2 monitor_v4 Monitor_passive "''registering IPv4 monitor fd''"] s2(2) r d obtain s3 where
    s3: "main_register b monitor_v4 Monitor_passive ''registering IPv4 monitor fd'' ?m2
      = Inr (Inr (?m2\<lparr>m_world := ?w\<lparr>w_sel := s3\<rparr>\<rparr>))"
      "listening [(m4, Monitor_passive), (s6, Pop3_passive), (s4, Pop3_passive)] s3" by fastforce
  let ?m3 = "?m2\<lparr>m_world := ?w\<lparr>w_sel := s3\<rparr>\<rparr>"
  from main_register_run [OF b, of _ ?m3 monitor_v6 Monitor_passive "''registering IPv6 monitor fd''"] s3(2) r d obtain s4' where
    s4: "main_register b monitor_v6 Monitor_passive ''registering IPv6 monitor fd'' ?m3
      = Inr (Inr (?m3\<lparr>m_world := ?w\<lparr>w_sel := s4'\<rparr>\<rparr>))" "listening (sockets s4 m4 s6 m6) s4'" by (fastforce simp: sockets_def)
  let ?m4 = "?m3\<lparr>m_world := ?w\<lparr>w_sel := s4'\<rparr>\<rparr>"
  have u: "users_are (w_users (m_world ?m4)) []" "admins_are (m_world ?m4) []"
    using users_are_empty admins_initial [of undefined]
    by (simp_all add: main_start_def start_world_def initial_world_def admins_are_def)
  from main_users_run [OF u] obtain w where w: "main_users ?m4 = Inr (Inr (?m4\<lparr>m_world := w\<rparr>))"
    "users_are (w_users w) [(str ''foo'', str ''bar'')]" "admins_are w [root_admin]" "w_sel w = s4'" "w_maildir w = path"
    "w_conns w = Map.empty" "head_connection w = []"
    by (auto simp: main_start_def start_world_def initial_world_def change_maildir_def)
  have "main_setup b (main_start port path) = Inr (Inr (?m4\<lparr>m_world := w\<rparr>))"
    by (simp only: start main_passives_def append_Cons append_Nil in_order.simps s1(1) s2(1) s3(1) s4(1) w(1)
        rbind_Inr sum.case)
  with w s4(2) show ?thesis by (intro exI [of _ "?m4\<lparr>m_world := w\<rparr>"]) (simp add: main_start_def)
qed

text \<open>Without any assumption on the system: a start that went through has made exactly these calls.\<close>

lemma bind_ipv4_calls:
  assumes "bind_ipv4_socket INADDR_ANY port so calls = (fd, calls')" "\<not> fd < 0"
  shows "fd = so_socket so \<and> calls' = calls @ listen_v4 fd (unat (ucast port :: u16))"
  using assms by (auto simp: bind_ipv4_socket_def create_socket_def bind_socket_def listen_v4_def htons_network_port INADDR_ANY_def htonl_def Let_def
      split: if_splits)

lemma bind_ipv6_calls:
  assumes "bind_ipv6_socket in6addr_any port so calls = (fd, calls')" "\<not> fd < 0"
  shows "fd = so_socket so \<and> calls' = calls @ listen_v6 fd (unat (ucast port :: u16))"
  using assms by (auto simp: bind_ipv6_socket_def create_socket_def bind_socket_def listen_v6_def htons_network_port in6addr_any_def Let_def
      split: if_splits)

lemma main_sockets_calls:
  assumes "in_order (main_sockets b) (main_start port path) = Inr (Inr m)"
  shows "m_calls m = start_calls (server_v4 m) (monitor_v4 m) (server_v6 m) (monitor_v6 m) port
    \<and> w_maildir (m_world m) = path"
proof -
  obtain s4 c1 where 1: "bind_ipv4_socket INADDR_ANY (ucast port) (b_server_v4 b) [] = (s4, c1)" by fastforce
  obtain m4 c2 where 2: "bind_ipv4_socket INADDR_ANY MONITOR_PORT (b_monitor_v4 b) c1 = (m4, c2)" by fastforce
  obtain s6 c3 where 3: "bind_ipv6_socket in6addr_any (ucast port) (b_server_v6 b) c2 = (s6, c3)" by fastforce
  obtain m6 c4 where 4: "bind_ipv6_socket in6addr_any MONITOR_PORT (b_monitor_v6 b) c3 = (m6, c4)" by fastforce
  from assms 1 2 3 4 have "\<not> s4 < 0" "\<not> m4 < 0" "\<not> s6 < 0" "\<not> m6 < 0"
    "m = (main_start port path)\<lparr>m_calls := c4, server_v4 := s4, monitor_v4 := m4, server_v6 := s6, monitor_v6 := m6\<rparr>"
    by (auto simp: main_sockets_def main_start_def Let_def stop_if_def went_through split: if_splits)
  with bind_ipv4_calls [OF 1] bind_ipv4_calls [OF 2] bind_ipv6_calls [OF 3] bind_ipv6_calls [OF 4] show ?thesis
    by (simp add: start_calls_def port_bits MONITOR_PORT_def main_start_def change_maildir_def)
qed

lemma main_setup_calls:
  assumes "main_setup b (main_start port path) = Inr (Inr m)"
  shows "m_calls m = start_calls (server_v4 m) (monitor_v4 m) (server_v6 m) (monitor_v6 m) port
    \<and> w_maildir (m_world m) = path"
proof -
  let ?P = "\<lambda>m. m_calls m = start_calls (server_v4 m) (monitor_v4 m) (server_v6 m) (monitor_v6 m) port
    \<and> w_maildir (m_world m) = path"
  from assms obtain m1 where
    1: "in_order (main_sockets b) (main_start port path) = Inr (Inr m1)"
    and 2: "in_order (main_selector b @ main_passives b @ [main_users]) m1 = Inr (Inr m)"
    unfolding main_setup_def in_order_append [of "main_sockets b"] went_through by blast
  from 2 main_sockets_calls [OF 1] show ?thesis
  proof (rule in_order_keeps, intro ballI allI impI)
    fix f m and m' :: main_state
    assume f: "f \<in> set (main_selector b @ main_passives b @ [main_users])" "f m = Inr (Inr m')" "?P m"
    have sel: "?P m'" if "f \<in> set (main_selector b)"
      using that f(2,3) by (auto simp: main_selector_def rbind_eq_Inr dest!: stop_if_Inr split: option.splits)
    have reg: "?P m'" if "main_register b fd h msg m = Inr (Inr m')" for fd h msg
      using that f(3) by (auto simp: main_register_def register_fd_def rbind_eq_Inr dest!: stop_if_Inr split: if_splits)
    have users: "?P m'" if u: "main_users m = Inr (Inr m')"
      using u f(3)
      by (auto simp: main_users_def rbind_eq_Inr Let_def simp del: str_Cons dest!: stop_if_Inr add_new_admin_changes)
    from f(1,2) sel reg users show "?P m'" by (auto simp: main_passives_def)
  qed
qed

section \<open>Greeting a client\<close>

lemma accept_run:
  assumes "selector_inv (w_sel w)" "io_accept io = fd" "fd \<noteq> - 1" "io_mem io" "io_nio io" "usable_fd (w_sel w) fd"
    and "registered (w_sel w) fd = None" "\<forall>b \<in> set (head_connection w). w_conns w b \<noteq> None"
  shows "\<exists>s. pop3_passive_accept io w = Inr (w\<lparr>w_next := Suc (w_next w), connections := connections w + 1,
      historic_connections := historic_connections w + 1, head_connection := head_connection w @ [w_next w],
      w_conns := (w_conns w)(w_next w \<mapsto> pop3_zero fd), w_sel := s\<rparr>)
    \<and> selector_inv s \<and> grows (w_sel w) s \<and> registered s = (registered (w_sel w))(fd \<mapsto>
      \<lparr>it_fd = fd, it_interest = OP_WRITE, it_handler = Some Pop3_handler, it_data = Some (Pop3_data (w_next w))\<rparr>)"
proof -
  have "stm_init (pop3_stm None) = Inr (pop3_stm None)"
    using sm.init_built [OF built_pop3, of None] by (simp add: pop3_stm_def)
  moreover have "(pop3_zero fd)\<lparr>p_stm := stm_current (pop3_stm None)\<rparr> = pop3_zero fd"
    by (simp add: pop3_zero_def pop3_stm_def)
  ultimately have new: "pop3_new True fd w = Inr (Some (w_next w), w\<lparr>w_next := Suc (w_next w),
      connections := connections w + 1, historic_connections := historic_connections w + 1,
      head_connection := head_connection w @ [w_next w], w_conns := (w_conns w)(w_next w \<mapsto> pop3_zero fd)\<rparr>)"
    using assms(8) by (auto simp: pop3_new_def Let_def)
  let ?w = "w\<lparr>w_next := Suc (w_next w),
      connections := connections w + 1, historic_connections := historic_connections w + 1,
      head_connection := head_connection w @ [w_next w], w_conns := (w_conns w)(w_next w \<mapsto> pop3_zero fd)\<rparr>"
  from register_fd_run [of ?w fd Pop3_handler OP_WRITE "Some (Pop3_data (w_next w))"] assms(1,6,7) obtain s where
    "register_fd True fd Pop3_handler OP_WRITE (Some (Pop3_data (w_next w))) ?w = Inr (SELECTOR_SUCCESS, ?w\<lparr>w_sel := s\<rparr>)"
    "selector_inv s" "grows (w_sel w) s" "registered s = (registered (w_sel w))(fd \<mapsto>
      \<lparr>it_fd = fd, it_interest = OP_WRITE, it_handler = Some Pop3_handler, it_data = Some (Pop3_data (w_next w))\<rparr>)"
    by auto
  with new assms(2-5) show ?thesis by (auto simp: pop3_passive_accept_def Let_def)
qed

text \<open>The first write event of a session: the machine enters \<open>AUTH\<close>, which fills the buffer, and sends it.\<close>

lemma first_write:
  assumes "selector_inv (w_sel w)" "registered (w_sel w) fd = Some it" "w_conns w a = Some (pop3_zero cfd)"
    and "io_send io = Some n" "length WELCOME \<le> n"
  shows "\<exists>s b t. pop3_write io fd (Some (Pop3_data a)) w = Inr (w\<lparr>w_sent := w_sent w @ [(fd, WELCOME)],
      transfer_bytes := t, w_sel := s,
      w_conns := (w_conns w)(a \<mapsto> (pop3_zero cfd)\<lparr>client := State_st, write_buffer := b, p_stm := Some AUTH\<rparr>)\<rparr>)
    \<and> drained b \<and> selector_inv s \<and> grows (w_sel w) s
    \<and> registered s = (registered (w_sel w))(fd \<mapsto> it\<lparr>it_interest := OP_READ\<rparr>)"
proof -
  let ?k = "\<lparr>k_fd = fd, k_self = a, k_io = io, k_p3 = pop3_zero cfd, k_world = w\<rparr>"
  let ?b = "write_buffer (pop3_zero cfd)"
  have b0: "buffer_inv ?b" "content ?b = []" "room ?b = BUFFER_SIZE" "b_limit ?b = BUFFER_SIZE"
    by (simp_all add: pop3_zero_def buffer_inv_init) (simp add: buffer_init_def)
  have len: "length WELCOME \<le> room ?b" unfolding b0(3) by (simp add: WELCOME_def BUFFER_SIZE_def)
  from buffer_fill_ok [OF b0(1) len] b0 obtain b1 b2 where
    b: "buffer_fill ?b WELCOME = Inr b1" "buffer_write_adv b1 (int (length WELCOME)) = Inr b2" "buffer_inv b2"
      "content b2 = WELCOME" "b_limit b2 = BUFFER_SIZE" by auto
  have "WELCOME \<noteq> []" by (simp add: WELCOME_def)
  with b(3-5) have st: "steady b2" by (simp add: steady_def)
  have "buffer_write_ptr ?b = Inr (room ?b)" using b0(1) by simp
  with b have wel: "welcome_on_connection ?b = Inr b2" by (simp add: welcome_on_connection_def)
  let ?k1 = "?k\<lparr>k_p3 := (pop3_zero cfd)\<lparr>client := State_st, write_buffer := b2\<rparr>\<rparr>"
  have "auth_init AUTH ?k = Inr ?k1" using wel by (simp add: auth_init_def Let_def)
  then have first: "handle_first (pop3_stm None) ?k = Inr (pop3_stm (Some AUTH), ?k1)"
    by (simp add: handle_first_def pop3_stm_def client_statbl_def no_state_def call_hook_def)
  from send_all [of ?k1 it n fd] assms(1,2,5) st b(4) obtain k2 b3 s t where
    snd: "send_buffer fd n ?k1 = Inr k2" "write_buffer (k_p3 k2) = b3" "drained b3" "\<not> buffer_can_read b3"
      "key_set_interest OP_READ k2 = Inr (SELECTOR_SUCCESS, ?k1\<lparr>k_p3 := (k_p3 ?k1)\<lparr>write_buffer := b3\<rparr>,
        k_world := w\<lparr>w_sent := w_sent w @ [(fd, WELCOME)], transfer_bytes := t, w_sel := s\<rparr>\<rparr>)"
      "selector_inv s" "grows (w_sel w) s" "registered s = (registered (w_sel w))(fd \<mapsto> it\<lparr>it_interest := OP_READ\<rparr>)"
    by auto
  let ?p = "(pop3_zero cfd)\<lparr>client := State_st, write_buffer := b3\<rparr>"
  let ?w = "w\<lparr>w_sent := w_sent w @ [(fd, WELCOME)], transfer_bytes := t, w_sel := s\<rparr>"
  have "client_write AUTH ?k1 = Inr (AUTH, ?k\<lparr>k_p3 := ?p, k_world := ?w\<rparr>)"
    using b(3) snd assms(4) by (simp add: client_write_def client_buffers_def)
  then have "stm_handler_write (pop3_stm None) ?k = Inr (AUTH, pop3_stm (Some AUTH), ?k\<lparr>k_p3 := ?p, k_world := ?w\<rparr>)"
    using first
    by (simp add: stm_handler_write_def stm_handler_def jump_def) (simp add: pop3_stm_def client_statbl_def no_state_def jump_def)
  then have "pop3_write io fd (Some (Pop3_data a)) w = Inr (?w\<lparr>w_conns := (w_conns w)(a \<mapsto> ?p\<lparr>p_stm := Some AUTH\<rparr>)\<rparr>)"
    using assms(3) by (simp add: pop3_write_def pop3_event_def Let_def) (simp add: pop3_zero_def pop3_stm_def)
  with snd(3,6-8) show ?thesis by (intro exI [of _ s] exI [of _ b3] exI [of _ t]) simp
qed

lemma serve_read:
  assumes "selector_inv (w_sel w)" "resolution_jobs (w_sel w) = []"
    and "registered (w_sel w) fd = Some it" "wants (it_interest it) OP_READ" "it_handler it = Some h"
    and "reader h (a_read an fd) fd (it_data it) w = Inr w'" "selector_inv (w_sel w')" "grows (w_sel w) (w_sel w')"
  shows "serve_round (Ready {fd} {}) an w = Inr (SELECTOR_SUCCESS, w')"
    and "handle_iteration (server_callbacks an) {fd} {} (w_sel w, w) = Inr (w_sel w', w')"
proof -
  from assms(1,3) have it: "it_fd it = fd" "item_at (w_sel w) fd = Inr it" "ITEM_USED it"
    using item_at_some [of "w_sel w" fd it] registered_range [of "w_sel w" fd it] by (auto simp: selector_inv_def items_ok_def)
  have "w\<lparr>w_sel := w_sel w\<rparr> = w" by simp
  with it assms(4-6) have run: "iteration_step (server_callbacks an) {fd} {} fd (w_sel w, w) = Inr (w_sel w', w')"
    by (simp add: iteration_step_def server_callbacks_def on_world_def)
  from only_ready [OF assms(1,7) _ assms(3) _ _ run] assms(8)
  show "handle_iteration (server_callbacks an) {fd} {} (w_sel w, w) = Inr (w_sel w', w')" by (simp add: grows_def)
  from select_only_ready [OF assms(1,7) _ _ assms(3) _ _ run] assms(2,8)
  have "selector_select (server_callbacks an) (Ready {fd} {}) (w_sel w, w) = Inr (SELECTOR_SUCCESS, w_sel w', w')"
    by (simp add: grows_def)
  then show "serve_round (Ready {fd} {}) an w = Inr (SELECTOR_SUCCESS, w')" by (simp add: serve_round_def)
qed

lemma serve_write:
  assumes "selector_inv (w_sel w)" "resolution_jobs (w_sel w) = []"
    and "registered (w_sel w) fd = Some it" "wants (it_interest it) OP_WRITE" "it_handler it = Some h"
    and "writer h = Some f" "f (a_write an fd) fd (it_data it) w = Inr w'" "selector_inv (w_sel w')"
    and "grows (w_sel w) (w_sel w')"
  shows "serve_round (Ready {} {fd}) an w = Inr (SELECTOR_SUCCESS, w')"
proof -
  from assms(1,3) have it: "it_fd it = fd" "item_at (w_sel w) fd = Inr it" "ITEM_USED it"
    using item_at_some [of "w_sel w" fd it] registered_range [of "w_sel w" fd it] by (auto simp: selector_inv_def items_ok_def)
  have "w\<lparr>w_sel := w_sel w\<rparr> = w" by simp
  with it assms(4-7) have run: "iteration_step (server_callbacks an) {} {fd} fd (w_sel w, w) = Inr (w_sel w', w')"
    by (simp add: iteration_step_def server_callbacks_def on_world_def)
  from select_only_ready [OF assms(1,8) _ _ assms(3) _ _ run] assms(2,9)
  have "selector_select (server_callbacks an) (Ready {} {fd}) (w_sel w, w) = Inr (SELECTOR_SUCCESS, w_sel w', w')"
    by (simp add: grows_def)
  then show ?thesis by (simp add: serve_round_def)
qed

text \<open>The answers of the two rounds in which a client on descriptor \<open>fd\<close> arrives and is written to.\<close>

definition arrives :: "answers \<Rightarrow> int \<Rightarrow> int \<Rightarrow> bool" where
  "arrives an s4 fd \<longleftrightarrow> io_accept (a_read an s4) = fd \<and> io_mem (a_read an s4) \<and> io_nio (a_read an s4)"

definition takes :: "answers \<Rightarrow> int \<Rightarrow> nat \<Rightarrow> bool" where
  "takes an fd n \<longleftrightarrow> (\<exists>k \<ge> n. io_send (a_write an fd) = Some k)"

definition greeted :: "int \<Rightarrow> world \<Rightarrow> world \<Rightarrow> bool" where
  "greeted fd w w' \<longleftrightarrow> w_sent w' = w_sent w @ [(fd, WELCOME)] \<and> connections w' = connections w + 1
     \<and> registered (w_sel w') = (registered (w_sel w))(fd \<mapsto> \<lparr>it_fd = fd, it_interest = OP_READ,
          it_handler = Some Pop3_handler, it_data = Some (Pop3_data (w_next w))\<rparr>)
     \<and> (\<exists>p. w_conns w' (w_next w) = Some p \<and> p_stm p = Some AUTH \<and> client_fd p = fd \<and> content (write_buffer p) = [])"

lemma greet_rounds:
  assumes "selector_inv (w_sel w)" "resolution_jobs (w_sel w) = []" "\<forall>b \<in> set (head_connection w). w_conns w b \<noteq> None"
    and "registered (w_sel w) s4 = Some (passive_item s4 Pop3_passive)"
    and "arrives an1 s4 fd" "fd \<noteq> - 1" "usable_fd (w_sel w) fd" "registered (w_sel w) fd = None"
    and "takes an2 fd (length WELCOME)"
  shows "\<exists>w1 s b t. serve_round (Ready {s4} {}) an1 w = Inr (SELECTOR_SUCCESS, w1)
    \<and> serve_round (Ready {} {fd}) an2 w1 = Inr (SELECTOR_SUCCESS, w\<lparr>w_next := Suc (w_next w), connections := connections w + 1,
        historic_connections := historic_connections w + 1, head_connection := head_connection w @ [w_next w],
        w_sent := w_sent w @ [(fd, WELCOME)], transfer_bytes := t, w_sel := s, w_conns := (w_conns w)(w_next w \<mapsto>
          (pop3_zero fd)\<lparr>client := State_st, write_buffer := b, p_stm := Some AUTH\<rparr>)\<rparr>)
    \<and> drained b \<and> selector_inv s \<and> grows (w_sel w) s
    \<and> registered s = (registered (w_sel w))(fd \<mapsto> \<lparr>it_fd = fd, it_interest = OP_READ,
        it_handler = Some Pop3_handler, it_data = Some (Pop3_data (w_next w))\<rparr>)"
proof -
  from accept_run [OF assms(1) _ assms(6) _ _ assms(7,8,3), of "a_read an1 s4"] assms(5) obtain s where
    a: "pop3_passive_accept (a_read an1 s4) w = Inr (w\<lparr>w_next := Suc (w_next w), connections := connections w + 1,
      historic_connections := historic_connections w + 1, head_connection := head_connection w @ [w_next w],
      w_conns := (w_conns w)(w_next w \<mapsto> pop3_zero fd), w_sel := s\<rparr>)" "selector_inv s" "grows (w_sel w) s"
      "registered s = (registered (w_sel w))(fd \<mapsto>
      \<lparr>it_fd = fd, it_interest = OP_WRITE, it_handler = Some Pop3_handler, it_data = Some (Pop3_data (w_next w))\<rparr>)"
    unfolding arrives_def by blast
  let ?w1 = "w\<lparr>w_next := Suc (w_next w), connections := connections w + 1,
      historic_connections := historic_connections w + 1, head_connection := head_connection w @ [w_next w],
      w_conns := (w_conns w)(w_next w \<mapsto> pop3_zero fd), w_sel := s\<rparr>"
  let ?it = "\<lparr>it_fd = fd, it_interest = OP_WRITE, it_handler = Some Pop3_handler, it_data = Some (Pop3_data (w_next w))\<rparr>"
  have 1: "serve_round (Ready {s4} {}) an1 w = Inr (SELECTOR_SUCCESS, ?w1)"
    by (rule serve_read(1) [OF assms(1,2,4), of Pop3_passive]) (use a in \<open>simp_all add: passive_item_def reader_def\<close>)
  from assms(9) obtain n where n: "io_send (a_write an2 fd) = Some n" "length WELCOME \<le> n" by (auto simp: takes_def)
  have r: "registered (w_sel ?w1) fd = Some ?it" "selector_inv (w_sel ?w1)" using a by simp_all
  from first_write [OF r(2,1) _ n, of "w_next w" fd] a(4) obtain s2 b t where
    p: "pop3_write (a_write an2 fd) fd (Some (Pop3_data (w_next w))) ?w1 = Inr (?w1\<lparr>w_sent := w_sent w @ [(fd, WELCOME)],
        transfer_bytes := t, w_sel := s2, w_conns := (w_conns ?w1)(w_next w \<mapsto>
          (pop3_zero fd)\<lparr>client := State_st, write_buffer := b, p_stm := Some AUTH\<rparr>)\<rparr>)"
      "drained b" "selector_inv s2" "grows s s2" "registered s2 = (registered s)(fd \<mapsto> ?it\<lparr>it_interest := OP_READ\<rparr>)" by auto
  let ?w2 = "?w1\<lparr>w_sent := w_sent w @ [(fd, WELCOME)], transfer_bytes := t, w_sel := s2, w_conns := (w_conns ?w1)(w_next w \<mapsto>
    (pop3_zero fd)\<lparr>client := State_st, write_buffer := b, p_stm := Some AUTH\<rparr>)\<rparr>"
  have 2: "serve_round (Ready {} {fd}) an2 ?w1 = Inr (SELECTOR_SUCCESS, ?w2)"
    by (rule serve_write [OF r(2) _ r(1), of Pop3_handler pop3_write])
      (use p a(3) assms(2) in \<open>simp_all add: writer_def grows_def\<close>)
  with 1 p(2-5) a(4) grows_trans [OF a(3) p(4)] show ?thesis
    by (intro exI [of _ ?w1] exI [of _ s2] exI [of _ b] exI [of _ t]) simp
qed

section \<open>Properties\<close>

text \<open>
  C40. When nothing goes wrong \<open>main\<close> listens on its four sockets, those of the monitor included, knows the
  first user and the first administrator, and serves the mail directory it was given; the sockets are
  bound to the port it was given and to the monitor's, and listen.
\<close>

theorem server_starts:
  assumes "boots b s4 m4 s6 m6"
  shows "\<exists>m. main_setup b (main_start port path) = Inr (Inr m) \<and> selector_inv (w_sel (m_world m))
    \<and> registered (w_sel (m_world m)) = [s4 \<mapsto> passive_item s4 Pop3_passive, s6 \<mapsto> passive_item s6 Pop3_passive,
        m4 \<mapsto> passive_item m4 Monitor_passive, m6 \<mapsto> passive_item m6 Monitor_passive]
    \<and> users_are (w_users (m_world m)) [(str ''foo'', str ''bar'')] \<and> admins_are (m_world m) [root_admin]
    \<and> w_maildir (m_world m) = path \<and> m_calls m = start_calls s4 m4 s6 m6 port"
  using main_setup_run [OF assms, of port path] by (auto simp: listening_def sockets_def)

definition example_boot :: boot where
  "example_boot =
   \<lparr>b_server_v4 = \<lparr>so_socket = 3, so_bind = (\<lambda>_. True), so_listen = True\<rparr>,
    b_monitor_v4 = \<lparr>so_socket = 4, so_bind = (\<lambda>_. True), so_listen = True\<rparr>,
    b_server_v6 = \<lparr>so_socket = 5, so_bind = (\<lambda>_. True), so_listen = True\<rparr>,
    b_monitor_v6 = \<lparr>so_socket = 6, so_bind = (\<lambda>_. True), so_listen = True\<rparr>, b_fcntl = (\<lambda>fd. (Some 1, True)),
    b_mask = True, b_action = True, b_mem = True\<rparr>"

lemma example_boots: "boots example_boot 3 4 5 6"
  by (simp add: boots_def example_boot_def set_nio_def selector_fd_set_nio_def)

theorem server_starts_witness:
  "\<exists>m. main_setup example_boot (main_start 1110 INITIAL_PATH) = Inr (Inr m) \<and> selector_inv (w_sel (m_world m))
    \<and> registered (w_sel (m_world m)) = [3 \<mapsto> passive_item 3 Pop3_passive, 5 \<mapsto> passive_item 5 Pop3_passive,
        4 \<mapsto> passive_item 4 Monitor_passive, 6 \<mapsto> passive_item 6 Monitor_passive]
    \<and> users_are (w_users (m_world m)) [(str ''foo'', str ''bar'')] \<and> admins_are (m_world m) [root_admin]
    \<and> w_maildir (m_world m) = INITIAL_PATH \<and> m_calls m = start_calls 3 4 5 6 1110"
  by (rule server_starts [OF example_boots])

text \<open>
  C34. A client that connects is greeted: after the round in which its connection is accepted and the
  round in which its socket takes bytes, exactly the welcome line has been sent to it, and its session
  waits for the first command.
\<close>

theorem client_is_greeted:
  assumes "selector_inv (w_sel w)" "resolution_jobs (w_sel w) = []" "\<forall>b \<in> set (head_connection w). w_conns w b \<noteq> None"
    and "registered (w_sel w) s4 = Some (passive_item s4 Pop3_passive)"
    and "arrives an1 s4 fd" "fd \<noteq> - 1" "usable_fd (w_sel w) fd" "registered (w_sel w) fd = None"
    and "takes an2 fd (length WELCOME)"
  shows "\<exists>w1 w2. serve_round (Ready {s4} {}) an1 w = Inr (SELECTOR_SUCCESS, w1)
    \<and> serve_round (Ready {} {fd}) an2 w1 = Inr (SELECTOR_SUCCESS, w2) \<and> selector_inv (w_sel w2) \<and> greeted fd w w2"
proof -
  from greet_rounds [OF assms] obtain w1 s b t where
    g: "serve_round (Ready {s4} {}) an1 w = Inr (SELECTOR_SUCCESS, w1)" and
    w2: "serve_round (Ready {} {fd}) an2 w1 = Inr (SELECTOR_SUCCESS, w\<lparr>w_next := Suc (w_next w), connections := connections w + 1,
        historic_connections := historic_connections w + 1, head_connection := head_connection w @ [w_next w],
        w_sent := w_sent w @ [(fd, WELCOME)], transfer_bytes := t, w_sel := s, w_conns := (w_conns w)(w_next w \<mapsto>
          (pop3_zero fd)\<lparr>client := State_st, write_buffer := b, p_stm := Some AUTH\<rparr>)\<rparr>)"
      (is "_ = Inr (_, ?w2)") and
    s: "drained b" "selector_inv s" "registered s = (registered (w_sel w))(fd \<mapsto> \<lparr>it_fd = fd, it_interest = OP_READ,
        it_handler = Some Pop3_handler, it_data = Some (Pop3_data (w_next w))\<rparr>)" by blast
  have "greeted fd w ?w2" using s drainedD [OF s(1)] by (simp add: greeted_def pop3_zero_def)
  with g w2 s(2) show ?thesis by (intro exI [of _ w1] exI [of _ ?w2]) simp
qed

text \<open>A state reached at the start, and answers with which a client arrives on descriptor 9.\<close>

definition example_answers :: answers where
  "example_answers = \<lparr>a_read = (\<lambda>fd. example_io []), a_write = (\<lambda>fd. example_io []), a_block = (\<lambda>fd. example_io [])\<rparr>"

lemma example_arrives: "arrives example_answers s4 9" "takes example_answers 9 (length WELCOME)"
  by (simp_all add: arrives_def takes_def example_answers_def example_io_def WELCOME_def)

lemma example_listening:
  "\<exists>w. reachable example_boot INITIAL_PATH w \<and> selector_inv (w_sel w) \<and> resolution_jobs (w_sel w) = []
    \<and> head_connection w = [] \<and> registered (w_sel w) 3 = Some (passive_item 3 Pop3_passive)
    \<and> usable_fd (w_sel w) 9 \<and> registered (w_sel w) 9 = None"
proof -
  from main_setup_run [OF example_boots, of 1110 INITIAL_PATH] obtain m where
    m: "main_setup example_boot (main_start 1110 INITIAL_PATH) = Inr (Inr m)" "listening (sockets 3 4 5 6) (w_sel (m_world m))"
      "head_connection (m_world m) = []" by blast
  from reachable.set_up [OF m(1)] m(2,3) show ?thesis
    by (intro exI [of _ "m_world m"])
      (simp add: listening_def sockets_def usable_fd_def INVALID_FD_def ITEMS_MAX_SIZE_def)
qed

theorem client_is_greeted_witness:
  "\<exists>w w1 w2. serve_round (Ready {3} {}) example_answers w = Inr (SELECTOR_SUCCESS, w1)
    \<and> serve_round (Ready {} {9}) example_answers w1 = Inr (SELECTOR_SUCCESS, w2) \<and> selector_inv (w_sel w2)
    \<and> greeted 9 w w2"
proof -
  from example_listening obtain w where
    w: "reachable example_boot INITIAL_PATH w" "selector_inv (w_sel w)" "resolution_jobs (w_sel w) = []"
      "head_connection w = []" "registered (w_sel w) 3 = Some (passive_item 3 Pop3_passive)" "usable_fd (w_sel w) 9" "registered (w_sel w) 9 = None"
    by blast
  from w(4) have "\<forall>b \<in> set (head_connection w). w_conns w b \<noteq> None" by simp
  from client_is_greeted [OF w(2,3) this w(5) example_arrives(1) _ w(6,7) example_arrives(2)] show ?thesis by auto
qed

text \<open>
  C1. Whatever the clients and the system do, in every state the server reaches the selector is well-formed
  and so is every session: its buffers keep their pointers in order and inside their arrays, its array of
  mails holds live mails up to its last index, and the union member in use is the one its state needs.
\<close>

theorem sessions_stay_sound:
  assumes "reachable b path w"
  shows "selector_inv (w_sel w) \<and> (\<forall>p \<in> ran (w_conns w). live p)"
  using reachable_ok [OF assms] by (auto simp: world_ok_def ran_def)

lemma example_accepted: "\<exists>w a p. reachable example_boot INITIAL_PATH w \<and> w_conns w a = Some p"
proof -
  from example_listening obtain w where
    w: "reachable example_boot INITIAL_PATH w" "selector_inv (w_sel w)" "resolution_jobs (w_sel w) = []" "head_connection w = []"
      "registered (w_sel w) 3 = Some (passive_item 3 Pop3_passive)" "usable_fd (w_sel w) 9" "registered (w_sel w) 9 = None"
    by blast
  have io: "io_accept (a_read example_answers 3) = 9" "io_mem (a_read example_answers 3)" "io_nio (a_read example_answers 3)"
    using example_arrives(1) [of 3] by (simp_all add: arrives_def)
  from accept_run [OF w(2) io(1) _ io(2,3) w(6,7)] w(4) obtain w' where
    w': "pop3_passive_accept (a_read example_answers 3) w = Inr w'" "selector_inv (w_sel w')"
      "grows (w_sel w) (w_sel w')" "w_conns w' (w_next w) = Some (pop3_zero 9)" by fastforce
  have "serve_round (Ready {3} {}) example_answers w = Inr (SELECTOR_SUCCESS, w')"
    by (rule serve_read(1) [OF w(2,3,5), of Pop3_passive]) (use w' in \<open>simp_all add: passive_item_def reader_def\<close>)
  from reachable.round [OF w(1) this] w'(4) show ?thesis by blast
qed

theorem sessions_stay_sound_witness:
  "\<exists>w a p. reachable example_boot INITIAL_PATH w \<and> selector_inv (w_sel w) \<and> w_conns w a = Some p \<and> live p"
proof -
  from example_accepted obtain w a p where w: "reachable example_boot INITIAL_PATH w" "w_conns w a = Some p" by blast
  from sessions_stay_sound [OF w(1)] w(2) have "selector_inv (w_sel w)" "live p" by (auto simp: ran_def)
  with w show ?thesis by blast
qed

text \<open>
  C18. In a round the server calls back, in the order of the descriptors and a read before a write, each time a
  descriptor that is reported ready and is at that moment registered with that interest, and none twice; and
  every descriptor that was ready and registered with the interest when the round began is called, unless an
  earlier callback of the same round (which may register, remove and change descriptors) has changed its
  registration. The log beside the state shows the calls; it changes nothing of the round.
\<close>

theorem round_serves_ready:
  assumes "reachable b path w" "handle_iteration (server_callbacks an) R W (w_sel w, w) = Inr (s', w')"
  shows "\<exists>l. handle_iteration (logged (server_callbacks an)) R W (w_sel w, w, []) = Inr (s', w', l)
    \<and> linked (w_sel w) l s' \<and> sorted_wrt (\<lambda>c c'. earlier (call_event c) (call_event c')) l
    \<and> (\<forall>c \<in> set l. due R W (c_before c) (c_fd c) (c_op c))
    \<and> (\<forall>fd op. due R W (w_sel w) fd op \<longrightarrow> heeded l fd op)"
proof -
  have ok: "world_ok w" using assms(1) by (rule reachable_ok)
  then have "world_ok (w\<lparr>w_sel := w_sel w\<rparr>)" by simp
  from sd.round_log [OF assms(2) this] obtain l where
    l: "handle_iteration (logged (server_callbacks an)) R W (w_sel w, w, []) = Inr (s', w', l)"
      "fair_log R W [0..s_max_fd (w_sel w)] (w_sel w) l s'" by blast
  have "fd \<in> set [0..s_max_fd (w_sel w)]" if "due R W (w_sel w) fd op" for fd op
    using due_in_table [OF that] ok by (simp add: world_ok_def)
  with l show ?thesis unfolding fair_log_def by blast
qed

theorem round_serves_ready_witness:
  "\<exists>w s' w' l. handle_iteration (server_callbacks example_answers) {3} {} (w_sel w, w) = Inr (s', w')
    \<and> handle_iteration (logged (server_callbacks example_answers)) {3} {} (w_sel w, w, []) = Inr (s', w', l)
    \<and> s' \<noteq> w_sel w \<and> (\<exists>c \<in> set l. call_event c = (3, OP_READ))"
proof -
  from example_listening obtain w where
    w: "reachable example_boot INITIAL_PATH w" "selector_inv (w_sel w)" "resolution_jobs (w_sel w) = []" "head_connection w = []"
      "registered (w_sel w) 3 = Some (passive_item 3 Pop3_passive)" "usable_fd (w_sel w) 9" "registered (w_sel w) 9 = None"
    by blast
  have io: "io_accept (a_read example_answers 3) = 9" "io_mem (a_read example_answers 3)" "io_nio (a_read example_answers 3)"
    using example_arrives(1) [of 3] by (simp_all add: arrives_def)
  from accept_run [OF w(2) io(1) _ io(2,3) w(6,7)] w(4) obtain w' where
    w': "pop3_passive_accept (a_read example_answers 3) w = Inr w'" "selector_inv (w_sel w')"
      "grows (w_sel w) (w_sel w')" "registered (w_sel w') 9 \<noteq> None" by fastforce
  have 1: "handle_iteration (server_callbacks example_answers) {3} {} (w_sel w, w) = Inr (w_sel w', w')"
    by (rule serve_read(2) [OF w(2,3,5), of Pop3_passive]) (use w' in \<open>simp_all add: passive_item_def reader_def\<close>)
  from round_serves_ready [OF w(1) 1] obtain l where
    l: "handle_iteration (logged (server_callbacks example_answers)) {3} {} (w_sel w, w, []) = Inr (w_sel w', w', l)"
      "\<forall>c \<in> set l. due {3} {} (c_before c) (c_fd c) (c_op c)" "\<forall>fd op. due {3} {} (w_sel w) fd op \<longrightarrow> heeded l fd op"
    by blast
  have "due {3} {} (w_sel w) 3 OP_READ" using w(5) by (simp add: due_def interested_def passive_item_def)
  with l(3) have "heeded l 3 OP_READ" by blast
  with l(2) have "\<exists>c \<in> set l. call_event c = (3, OP_READ)"
    by (auto simp: heeded_def earlier_def call_event_def due_def OP_READ_def OP_WRITE_def)
  moreover have "w_sel w' \<noteq> w_sel w" using w'(4) w(7) by auto
  ultimately show ?thesis using 1 l(1) by blast
qed

section \<open>Ending\<close>

lemma stop_if_Inl: "stop_if b msg m = Inr (Inl m') \<Longrightarrow> err_msg m' = Some msg"
  by (auto simp: stop_if_def split: if_splits)

lemma in_order_stops:
  assumes "in_order fs m = Inr (Inl m')" "\<forall>f \<in> set fs. \<forall>m m'. f m = Inr (Inl m') \<longrightarrow> err_msg m' \<noteq> None"
  shows "err_msg m' \<noteq> None"
  using assms
proof (induction fs arbitrary: m)
  case (Cons f fs)
  from Cons.prems(1) obtain r where r: "f m = Inr r" by (cases "f m") auto
  show ?case
  proof (cases r)
    case (Inl m1)
    with r Cons.prems show ?thesis by auto
  next
    case (Inr m1)
    with r Cons.prems(1) have "in_order fs m1 = Inr (Inl m')" by simp
    from Cons.IH [OF this] Cons.prems(2) show ?thesis by simp
  qed
qed simp

lemma main_loop_stops: "main_loop rounds m = Inr (Inl m') \<Longrightarrow> err_msg m' \<noteq> None"
  by (induction rounds m rule: main_loop.induct)
    (auto simp: rbind_eq_Inr Let_def dest: stop_if_Inl split: if_splits)

lemma main_setup_stops: "main_setup b m = Inr (Inl m') \<Longrightarrow> err_msg m' \<noteq> None"
  unfolding main_setup_def
  by (erule in_order_stops)
    (auto simp: main_sockets_def main_selector_def main_passives_def main_register_def main_users_def rbind_eq_Inr Let_def
      dest: stop_if_Inl split: option.splits if_splits prod.splits)

text \<open>
  C37. The exit code tells a failure of the selector (2) from everything else (1): it is never zero, also
  when the server was stopped by a signal and nothing went wrong.
\<close>

theorem main_never_returns_zero:
  assumes "main b port path rounds = Inr (ret, w)"
  shows "ret = 1 \<or> ret = 2"
proof -
  from assms obtain r where r: "in_order [main_setup b, main_loop rounds, main_end] (main_start port path) = Inr r"
    and f: "main_finally (case r of Inl m \<Rightarrow> m | Inr m \<Rightarrow> m) = Inr (ret, w)"
    by (auto simp: main_def rbind_eq_Inr simp del: in_order.simps)
  have "err_msg (case r of Inl m \<Rightarrow> m | Inr m \<Rightarrow> m) \<noteq> None"
  proof (cases r)
    case (Inl m)
    have "err_msg m \<noteq> None"
      by (rule in_order_stops [OF r [unfolded Inl]]) (auto simp: main_end_def dest: main_setup_stops main_loop_stops)
    with Inl show ?thesis by simp
  next
    case (Inr m)
    with r obtain m1 where "main_end m1 = Inr (Inr m)" by (auto simp: went_through)
    then have "err_msg m \<noteq> None" by (auto simp: main_end_def)
    with Inr show ?thesis by simp
  qed
  with f show ?thesis by (auto simp: main_finally_def Let_def rbind_eq_Inr split: if_splits)
qed

theorem main_never_returns_zero_witness:
  "\<exists>w ret. main (example_boot\<lparr>b_server_v4 := \<lparr>so_socket = 3, so_bind = (\<lambda>_. False), so_listen = True\<rparr>\<rparr>) 1110 INITIAL_PATH []
    = Inr (ret, w) \<and> (ret = 1 \<or> ret = 2)"
proof -
  let ?b = "example_boot\<lparr>b_server_v4 := \<lparr>so_socket = 3, so_bind = (\<lambda>_. False), so_listen = True\<rparr>\<rparr>"
  have "\<exists>w. main ?b 1110 INITIAL_PATH [] = Inr (1, w)"
    by (simp add: main_def main_setup_def main_sockets_def main_finally_def stop_if_def example_boot_def bind_ipv4_socket_def create_socket_def
        bind_socket_def main_start_def start_world_def initial_world_def admin_connection_pool_destroy_def
        unregister_clients_def no_users_def Let_def)
  then obtain w where w: "main ?b 1110 INITIAL_PATH [] = Inr (1, w)" by blast
  from main_never_returns_zero [OF w] w show ?thesis by blast
qed

end
