(* ===== verification/Custody.thy ===== *)
theory Custody
  imports Ownership Service
begin

text \<open>
  Every event of the server keeps every registered descriptor with its owner: those of the sessions,
  by the theory \<open>Ownership\<close>, and those of the administrators' connections, which go back to a pool and
  are used again. A round whose callbacks get honest answers from the system therefore calls back only
  connections that are live and know the descriptor.
\<close>

section \<open>Descriptors and their owners\<close>

definition listed :: "world \<Rightarrow> bool" where
  "listed w \<longleftrightarrow> distinct (head_connection w) \<and> (\<forall>a \<in> set (head_connection w). w_conns w a \<noteq> None)
     \<and> (\<forall>a. w_conns w a \<noteq> None \<longrightarrow> a < w_next w)"

definition admin_owned :: "world \<Rightarrow> int \<Rightarrow> attachment option \<Rightarrow> bool" where
  "admin_owned w fd d \<longleftrightarrow> (\<exists>a ac. d = Some (Admin_data a) \<and> w_admins w a = Some ac \<and> ac_fd ac = fd \<and> a \<notin> set (pool w))"

text \<open>The connections of the pool are live and different; no registered one is among them.\<close>

definition admins_owned :: "world \<Rightarrow> bool" where
  "admins_owned w \<longleftrightarrow> (\<forall>fd d. owner (w_sel w) fd = Some (Some Monitor_handler, d) \<longrightarrow> admin_owned w fd d)
     \<and> distinct (pool w) \<and> (\<forall>a \<in> set (pool w). w_admins w a \<noteq> None) \<and> (\<forall>a. w_admins w a \<noteq> None \<longrightarrow> a < w_next w)"

definition housed :: "world \<Rightarrow> bool" where
  "housed w \<longleftrightarrow> owned (owner (w_sel w)) (w_conns w) \<and> all_settled (owner (w_sel w)) (w_conns w)
     \<and> listed w \<and> admins_owned w"

text \<open>What an event may do to an owner: leave it, or remove the descriptor.\<close>

definition lessened :: "owners \<Rightarrow> owners \<Rightarrow> bool" where
  "lessened ow ow' \<longleftrightarrow> (\<forall>fd. ow' fd = ow fd \<or> ow' fd = None)"

lemma lessened_trans: "lessened ow ow1 \<Longrightarrow> lessened ow1 ow2 \<Longrightarrow> lessened ow ow2"
  unfolding lessened_def by metis

lemma lessened_simps [simp]: "lessened ow ow" "lessened ow (ow(fd := None))"
  by (simp_all add: lessened_def)

lemma lessened_some: "lessened ow ow' \<Longrightarrow> ow' fd = Some x \<Longrightarrow> ow fd = Some x"
  unfolding lessened_def by (metis option.distinct(1))

lemma no_mail_lessened: "lessened ow ow' \<Longrightarrow> no_mail ow a \<Longrightarrow> no_mail ow' a"
  using lessened_some [of ow ow'] unfolding no_mail_def by blast

lemma settled_lessened: "lessened ow ow' \<Longrightarrow> settled ow a p st \<Longrightarrow> settled ow' a p st"
  using no_mail_lessened [of ow ow' a] by (auto simp: settled_def)

lemma listed_less:
  assumes "listed w" "w_next w' = w_next w" "w_conns w' = w_conns w \<and> head_connection w' = head_connection w
      \<or> (\<exists>b. w_conns w' = (w_conns w)(b := None) \<and> head_connection w' = remove1 b (head_connection w))"
  shows "listed w'"
  using assms by (auto simp: listed_def split: if_splits)

text \<open>Sessions that are freed leave the list; the administrators stay.\<close>

lemma housed_less:
  assumes "housed w" "owned (owner (w_sel w')) (w_conns w')" "lessened (owner (w_sel w)) (owner (w_sel w'))"
    and "w_conns w' = w_conns w \<and> head_connection w' = head_connection w
      \<or> (\<exists>b. w_conns w' = (w_conns w)(b := None) \<and> head_connection w' = remove1 b (head_connection w))"
    and "w_admins w' = w_admins w" "pool w' = pool w" "w_next w' = w_next w"
  shows "housed w'"
proof -
  have sub: "w_conns w' b = Some q \<Longrightarrow> w_conns w b = Some q" for b q
    using assms(4) by (auto split: if_splits)
  have "all_settled (owner (w_sel w')) (w_conns w')"
    using assms(1) settled_lessened [OF assms(3)] sub by (auto simp: housed_def all_settled_def)
  moreover have "listed w'"
    by (rule listed_less [OF _ assms(7,4)]) (use assms(1) in \<open>simp add: housed_def\<close>)
  moreover have "admins_owned w'"
    using assms(1,5-7) lessened_some [OF assms(3)] by (auto simp: housed_def admins_owned_def admin_owned_def)
  ultimately show ?thesis using assms(2) by (simp add: housed_def)
qed

section \<open>The end of a session\<close>

lemma remove_client_rec_owned:
  assumes "remove_client_rec c as fd = Inr (c', as')"
  shows "c' = c \<and> as' = as \<or> (\<exists>b q. b \<in> set as \<and> c b = Some q \<and> client_fd q = fd \<and> c' = c(b := None) \<and> as' = remove1 b as)"
  using assms
proof (induction as arbitrary: as')
  case (Cons x xs)
  from Cons.prems obtain p where p: "c x = Some p" by (auto split: option.splits)
  show ?case
  proof (cases "client_fd p = fd")
    case True
    with Cons.prems p have "c' = c(x := None)" "as' = xs" by auto
    with p True show ?thesis by (intro disjI2 exI [of _ x] exI [of _ p]) simp
  next
    case False
    with Cons.prems p obtain ys where ys: "remove_client_rec c xs fd = Inr (c', ys)" "as' = x # ys"
      by (auto simp: rbind_eq_Inr)
    from Cons.IH [OF ys(1)] show ?thesis
    proof (elim disjE exE conjE)
      fix b q
      assume b: "b \<in> set xs" "c b = Some q" "client_fd q = fd" "c' = c(b := None)" "ys = remove1 b xs"
      with p False have "b \<noteq> x" by auto
      with b ys(2) show ?thesis by (intro disjI2 exI [of _ b] exI [of _ q]) simp
    qed (use ys(2) in simp)
  qed
qed simp

text \<open>At most one session is freed, one with the given socket.\<close>

definition frees :: "int \<Rightarrow> world \<Rightarrow> world \<Rightarrow> bool" where
  "frees fd w w' \<longleftrightarrow> w_sel w' = w_sel w \<and> w_admins w' = w_admins w \<and> pool w' = pool w \<and> w_next w' = w_next w
     \<and> (w_conns w' = w_conns w \<and> head_connection w' = head_connection w
       \<or> (\<exists>b q. w_conns w b = Some q \<and> client_fd q = fd \<and> w_conns w' = (w_conns w)(b := None)
            \<and> head_connection w' = remove1 b (head_connection w)))"

lemma pop3_destroy_frees:
  assumes "pop3_destroy a w = Inr w'" "w_conns w a = Some p"
  shows "frees (client_fd p) w w'"
proof -
  from assms obtain c l where "remove_client_rec (w_conns w) (head_connection w) (client_fd p) = Inr (c, l)"
    "w' = w\<lparr>w_conns := c, head_connection := l, connections := connections w - 1\<rparr>"
    by (auto simp: pop3_destroy_def remove_client_def rbind_eq_Inr)
  with remove_client_rec_owned [of "w_conns w" "head_connection w" "client_fd p" c l] show ?thesis
    by (auto simp: frees_def)
qed

lemma pop3_close_frees:
  "pop3_close fd (Some (Pop3_data a)) w = Inr w' \<Longrightarrow> w_conns w a = Some p \<Longrightarrow> frees (client_fd p) w w'"
  using pop3_destroy_frees by (fastforce simp: pop3_close_def frees_def split: if_splits)

lemma housed_frees:
  assumes "housed w" "frees fd w w'" "\<And>d. owner (w_sel w) fd \<noteq> Some (Some Pop3_handler, d)"
  shows "housed w'"
proof (rule housed_less [OF assms(1)])
  show "owned (owner (w_sel w')) (w_conns w')"
    using assms owned_free by (auto simp: frees_def housed_def)
qed (use assms(2) in \<open>auto simp: frees_def\<close>)

lemma close_fd_sel [simp]: "w_sel (close_fd fd w) = w_sel w" "w_conns (close_fd fd w) = w_conns w"
  by (simp_all add: close_fd_def)

lemma housed_upd [simp]:
  "housed (close_fd fd w) = housed w" "housed (w\<lparr>w_sent := x\<rparr>) = housed w" "housed (w\<lparr>w_globals := g\<rparr>) = housed w"
  by (simp_all add: housed_def listed_def admins_owned_def admin_owned_def close_fd_def)

text \<open>A registered descriptor is a valid one.\<close>

lemma owner_valid:
  assumes "selector_inv s" "owner s fd \<noteq> None"
  shows "0 \<le> fd"
proof -
  from assms(2) obtain it where "registered s fd = Some it" by (auto simp: owner_def)
  with assms(1) have "\<not> INVALID_FD fd" by (auto simp: selector_inv_def items_ok_def)
  then show ?thesis by (simp add: INVALID_FD_def)
qed

lemma socket_closed:
  assumes "unregister_fd fd w = Inr (st, w')" "selector_inv (w_sel w)" "housed w" "w_conns w a = Some p" "client_fd p = fd"
    and "owner (w_sel w) fd = Some (socket_of a)" "no_mail (owner (w_sel w)) a"
  shows "housed w' \<and> lessened (owner (w_sel w)) (owner (w_sel w'))"
proof -
  from assms(1) obtain s w1 where s: "selector_unregister_fd handle_close (w_sel w) fd w = Inr (st, s, w1)"
    "w' = w1\<lparr>w_sel := s\<rparr>" by (auto simp: unregister_fd_def rbind_eq_Inr)
  from unregister_owner [OF s(1) assms(2)] assms(6) have
    c: "pop3_close fd (Some (Pop3_data a)) w = Inr w1" "owner s = (owner (w_sel w))(fd := None)"
    by (auto simp: handle_close_def)
  let ?w = "w\<lparr>w_sel := s\<rparr>"
  from assms(3) have "owned (owner (w_sel w)) (w_conns w)" by (simp add: housed_def)
  from owned_close [OF this assms(6,7)] have "housed ?w"
    by (intro housed_less [OF assms(3)]) (simp_all add: c(2))
  moreover have "frees fd ?w w'"
    using pop3_close_frees [OF c(1) assms(4)] assms(5) s(2) by (auto simp: frees_def)
  ultimately have "housed w'" by (rule housed_frees) (simp add: c(2))
  then show ?thesis using c(2) s(2) by simp
qed

lemma mail_removed:
  assumes "(if selected_mail_fd p \<noteq> 0 then unregister_fd (selected_mail_fd p) w else Inr (SELECTOR_SUCCESS, w)) = Inr (st, w1)"
    and "selector_inv (w_sel w)" "housed w" "w_conns w a = Some p" "owner (w_sel w) (client_fd p) = Some (socket_of a)"
  shows "housed w1 \<and> selector_inv (w_sel w1) \<and> w1 = w\<lparr>w_sel := w_sel w1\<rparr> \<and> no_mail (owner (w_sel w1)) a
    \<and> lessened (owner (w_sel w)) (owner (w_sel w1)) \<and> owner (w_sel w1) (client_fd p) = Some (socket_of a)"
proof -
  let ?fd = "client_fd p" and ?sel = "selected_mail_fd p"
  have owned: "owned (owner (w_sel w)) (w_conns w)" using assms(3) by (simp add: housed_def)
  show ?thesis
  proof (cases "?sel = 0")
    case True
    have "no_mail (owner (w_sel w)) a"
      using owned_mail [OF owned] assms(4) True unfolding no_mail_def by force
    with True assms show ?thesis by simp
  next
    case False
    with assms(1) unregister_selection [OF _ assms(2) owned assms(4)] obtain s where
      s: "w1 = w\<lparr>w_sel := s\<rparr>" "selector_inv s" "owner s = (owner (w_sel w))(?sel := None)" by auto
    from selection_handler [OF owned assms(4)] assms(5) have ne: "?fd \<noteq> ?sel" by auto
    have "owned (owner s) (w_conns w)"
      unfolding s(3) using selection_handler [OF owned assms(4)] by (intro owned_drop [OF owned]) auto
    then have "housed w1" by (intro housed_less [OF assms(3)]) (simp_all add: s)
    with s ne assms(5) no_mail_left [OF owned assms(4)] show ?thesis by simp
  qed
qed

lemma pop3_done_housed:
  assumes "pop3_done a w = Inr w'" "selector_inv (w_sel w)" "housed w" "w_conns w a = Some p"
    and "owner (w_sel w) (client_fd p) = Some (socket_of a)"
  shows "housed w' \<and> lessened (owner (w_sel w)) (owner (w_sel w'))"
proof -
  let ?fd = "client_fd p" and ?sel = "selected_mail_fd p"
  from assms(1,4) obtain st w1 where
    w1: "(if ?sel \<noteq> 0 then unregister_fd ?sel w else Inr (SELECTOR_SUCCESS, w)) = Inr (st, w1)"
    and rest: "(if ?fd \<noteq> - 1 then
           rbind (unregister_fd ?fd w1) (\<lambda>(st, w).
           if st \<noteq> SELECTOR_SUCCESS then Inl Aborted else Inr (close_fd ?fd w))
         else Inr w1) = Inr w'"
    by (auto simp: pop3_done_def rbind_eq_Inr)
  note mail = mail_removed [OF w1 assms(2-5)]
  from owner_valid [of "w_sel w1" ?fd] mail have "?fd \<noteq> - 1" by auto
  with rest obtain st' w2 where w2: "unregister_fd ?fd w1 = Inr (st', w2)" "w' = close_fd ?fd w2"
    by (auto simp: rbind_eq_Inr split: if_splits)
  have "w_conns w1 a = Some p" using mail assms(4) by (metis world.select_convs(4) world.surjective world.update_convs(1))
  with socket_closed [OF w2(1)] mail have "housed w2 \<and> lessened (owner (w_sel w1)) (owner (w_sel w2))" by blast
  with mail w2(2) lessened_trans show ?thesis by auto
qed

section \<open>An event of a session\<close>

text \<open>\<open>keeps_own\<close>: after the event the descriptor is as it was, or removed.\<close>

definition keeps_own :: "int \<Rightarrow> world \<Rightarrow> world \<Rightarrow> bool" where
  "keeps_own fd w w' \<longleftrightarrow> owner (w_sel w') fd = owner (w_sel w) fd \<or> owner (w_sel w') fd = None"

lemma keeps_own_lessened: "keeps_own fd w w1 \<Longrightarrow> lessened (owner (w_sel w1)) (owner (w_sel w')) \<Longrightarrow> keeps_own fd w w'"
  unfolding keeps_own_def lessened_def by metis

text \<open>The world with the session put back.\<close>

definition put_back :: "key \<Rightarrow> nat \<Rightarrow> world" where
  "put_back k st = (k_world k)\<lparr>w_conns := (w_conns (k_world k))(k_self k \<mapsto> (k_p3 k)\<lparr>p_stm := Some st\<rparr>)\<rparr>"

lemma arrived_housed:
  assumes "arrived w a fd st k" "housed w" "w_conns w a = Some p"
  shows "housed (put_back k st) \<and> keeps_own fd w (put_back k st) \<and> selector_inv (w_sel (put_back k st))
    \<and> owner (w_sel (put_back k st)) (client_fd (k_p3 k)) = Some (socket_of a)"
proof -
  let ?w = "put_back k st"
  from assms(1) have k: "k_self k = a" "selector_inv (w_sel (k_world k))" "same_lists w (k_world k)"
    "\<And>b. b \<noteq> a \<Longrightarrow> w_conns (k_world k) b = w_conns w b" "k_owner k (client_fd (k_p3 k)) = Some (socket_of a)"
    "owned (k_owner k) (k_sessions k)" "\<And>g x. k_owner k g = Some x \<Longrightarrow> owner (w_sel w) g = Some x \<or> x = mail_of_session a"
    "k_owner k fd \<in> {owner (w_sel w) fd, None}" "settled (k_owner k) a (k_p3 k) (Some st)"
    unfolding arrived_def around_def by blast+
  have ow: "owner (w_sel ?w) = k_owner k" by (simp add: put_back_def k_owner_def)
  have c: "w_conns ?w = (k_sessions k)(a \<mapsto> (k_p3 k)\<lparr>p_stm := Some st\<rparr>)" "k_sessions k a = Some (k_p3 k)"
    using k(1) by (simp_all add: put_back_def k_sessions_def)
  have "owned (owner (w_sel ?w)) (w_conns ?w)"
    unfolding ow c(1) by (rule owned_same_fds [OF k(6) c(2)]) simp_all
  moreover have "all_settled (owner (w_sel ?w)) (w_conns ?w)"
    unfolding all_settled_def
  proof (intro allI impI)
    fix b q
    assume q: "w_conns ?w b = Some q"
    show "settled (owner (w_sel ?w)) b q (p_stm q)"
    proof (cases "b = a")
      case True
      with q c(1) k(9) show ?thesis unfolding ow by (auto simp: settled_def)
    next
      case False
      with q k(1,4) have "w_conns w b = Some q" by (simp add: put_back_def)
      with assms(2) have "settled (owner (w_sel w)) b q (p_stm q)" by (simp add: housed_def all_settled_def)
      moreover have "no_mail (k_owner k) b" if "no_mail (owner (w_sel w)) b"
        unfolding no_mail_def
      proof (intro allI impI notI)
        fix g
        assume g: "g \<noteq> 0" "k_owner k g = Some (mail_of_session b)"
        from k(7) [OF g(2)] False have "owner (w_sel w) g = Some (mail_of_session b)" by simp
        with that g(1) show False by (simp add: no_mail_def)
      qed
      ultimately show ?thesis unfolding ow by (auto simp: settled_def)
    qed
  qed
  moreover have "listed ?w"
  proof -
    have "w_conns ?w b \<noteq> None \<longleftrightarrow> w_conns w b \<noteq> None" for b
      using k(1) k(4) [of b] assms(3) by (cases "b = a") (simp_all add: put_back_def)
    with assms(2) k(3) show ?thesis by (simp add: housed_def listed_def same_lists_def put_back_def)
  qed
  moreover have "admins_owned ?w"
  proof -
    have "owner (w_sel w) g = Some (Some Monitor_handler, d)" if "k_owner k g = Some (Some Monitor_handler, d)" for g d
      using k(7) [OF that] by auto
    with assms(2) k(3) ow show ?thesis by (simp add: housed_def admins_owned_def admin_owned_def same_lists_def put_back_def)
  qed
  ultimately show ?thesis
    using k(2,5,8) ow by (auto simp: housed_def keeps_own_def put_back_def)
qed

lemma pop3_event_housed:
  assumes "pop3_event handler io fd data w = Inr w'" "world_ok w" "housed w" "honest io w" "fd \<noteq> 0"
    and "owner (w_sel w) fd = Some (Some h, data)" "h \<in> {Pop3_handler, Mail_handler}"
    and after: "\<And>a stm k ret stm' k'. own.sound w a fd stm k \<Longrightarrow> handler stm k = Inr (ret, stm', k') \<Longrightarrow>
      own.built stm' \<and> stm_current stm' = Some ret \<and> ret < length client_statbl \<and> arrived w a fd ret k'"
  shows "housed w' \<and> keeps_own fd w w'"
proof -
  from assms(3) have owned: "owned (owner (w_sel w)) (w_conns w)" by (simp add: housed_def)
  from assms(7) have "\<exists>a p. data = Some (Pop3_data a) \<and> w_conns w a = Some p \<and> owner (w_sel w) (client_fd p) = Some (socket_of a)"
  proof (elim insertE emptyE)
    assume h: "h = Pop3_handler"
    from owned_socket [OF owned assms(6) [unfolded h]] assms(6) h show ?thesis by auto
  next
    assume h: "h = Mail_handler"
    from owned_mail [OF owned assms(5) assms(6) [unfolded h]] show ?thesis by blast
  qed
  then obtain a p where a: "data = Some (Pop3_data a)" "w_conns w a = Some p" "owner (w_sel w) (client_fd p) = Some (socket_of a)"
    by blast
  let ?k = "\<lparr>k_fd = fd, k_self = a, k_io = io, k_p3 = p, k_world = w\<rparr>"
  from assms(1) a obtain ret stm k where h: "handler (pop3_stm (p_stm p)) ?k = Inr (ret, stm, k)"
    and w': "(if ret = ERROR \<or> ret = DONE
        then pop3_done a ((k_world k)\<lparr>w_conns := (w_conns (k_world k))(a \<mapsto> (k_p3 k)\<lparr>p_stm := stm_current stm\<rparr>)\<rparr>)
        else Inr ((k_world k)\<lparr>w_conns := (w_conns (k_world k))(a \<mapsto> (k_p3 k)\<lparr>p_stm := stm_current stm\<rparr>)\<rparr>)) = Inr w'"
    by (auto simp: pop3_event_def rbind_eq_Inr Let_def)
  from assms(2) a(2) have l: "live p" "selector_inv (w_sel w)" by (auto simp: world_ok_def)
  have same: "k_sessions ?k = w_conns w" "k_owner ?k = owner (w_sel w)"
    using a(2) by (simp_all add: k_sessions_def k_owner_def fun_upd_idem)
  have "around w a fd ?k"
    unfolding around_def same using l a assms(5,6) owned by (simp add: live_def same_lists_def)
  moreover have "settled (owner (w_sel w)) a p (p_stm p)" using assms(3) a(2) by (simp add: housed_def all_settled_def)
  ultimately have "at_rest w a fd (p_stm p) ?k"
    unfolding at_rest_def same using assms(4,6) by (simp add: honest_def)
  moreover have "p_stm p = Some st \<Longrightarrow> st < length client_statbl" for st using l(1) by (auto simp: live_def)
  ultimately have "own.sound w a fd (pop3_stm (p_stm p)) ?k"
    unfolding own.sound_def using built_pop3 [of "p_stm p"]
    by (auto simp: pop3_stm_def split: option.splits)
  from after [OF this h] have s: "stm_current stm = Some ret" "arrived w a fd ret k" by simp_all
  then have "k_self k = a" by (simp add: arrived_def around_def)
  have w': "(if ret = ERROR \<or> ret = DONE then pop3_done a (put_back k ret) else Inr (put_back k ret)) = Inr w'"
    using w' unfolding put_back_def s(1) \<open>k_self k = a\<close> .
  from arrived_housed [OF s(2) assms(3) a(2)] have b: "housed (put_back k ret)" "keeps_own fd w (put_back k ret)"
    "selector_inv (w_sel (put_back k ret))" "owner (w_sel (put_back k ret)) (client_fd (k_p3 k)) = Some (socket_of a)"
    by simp_all
  show ?thesis
  proof (cases "ret = ERROR \<or> ret = DONE")
    case True
    with w' have d: "pop3_done a (put_back k ret) = Inr w'" by simp
    have "w_conns (put_back k ret) a = Some ((k_p3 k)\<lparr>p_stm := Some ret\<rparr>)"
      using \<open>k_self k = a\<close> by (simp add: put_back_def)
    from pop3_done_housed [OF d b(3,1) this] b(2,4) keeps_own_lessened show ?thesis by auto
  qed (use w' b in simp)
qed

section \<open>New connections\<close>

lemma no_mail_added:
  assumes "ow fd = None" "h \<noteq> Mail_handler"
  shows "no_mail (ow(fd \<mapsto> (Some h, d))) a = no_mail ow a"
proof -
  have "(ow(fd \<mapsto> (Some h, d))) g = Some (mail_of_session a) \<longleftrightarrow> ow g = Some (mail_of_session a)" for g
    using assms by auto
  then show ?thesis by (simp only: no_mail_def)
qed

lemma settled_added:
  assumes "ow fd = None" "h \<noteq> Mail_handler"
  shows "settled (ow(fd \<mapsto> (Some h, d))) a p st = settled ow a p st"
  unfolding settled_def no_mail_added [where ow = ow and fd = fd and h = h, OF assms] ..

lemma housed_sel: "owner s = owner (w_sel w) \<Longrightarrow> housed (w\<lparr>w_sel := s\<rparr>) = housed w"
  by (simp add: housed_def listed_def admins_owned_def admin_owned_def)

text \<open>What is left of a world when neither the sessions nor the list change.\<close>

lemma housedI:
  assumes "housed w" "owned (owner (w_sel w')) (w_conns w)" "\<And>a p st. settled (owner (w_sel w)) a p st \<Longrightarrow> settled (owner (w_sel w')) a p st"
    and "w_conns w' = w_conns w" "head_connection w' = head_connection w" "w_next w \<le> w_next w'" "admins_owned w'"
  shows "housed w'"
proof -
  have "listed w'" using assms(1,4-6) by (auto simp: housed_def listed_def intro: less_le_trans)
  with assms show ?thesis by (simp add: housed_def all_settled_def)
qed

lemma housed_calm: "calm w w' \<Longrightarrow> housed w \<Longrightarrow> housed w'"
  by (simp add: calm_def untouched_def housed_def listed_def admins_owned_def admin_owned_def)

lemma housed_interest:
  assumes "set_interest_key fd i w = Inr (st, w')" "selector_inv (w_sel w)" "housed w"
  shows "housed w' \<and> owner (w_sel w') = owner (w_sel w)"
proof -
  from assms(1) obtain s where s: "selector_set_interest_key (w_sel w) fd i = Inr (st, s)" "w' = w\<lparr>w_sel := s\<rparr>"
    by (auto simp: set_interest_key_def rbind_eq_Inr)
  from set_interest_owners [OF s(1)] assms(2) have "owner s = owner (w_sel w)" by (simp add: same_owners_def)
  with s(2) assms(3) housed_sel [of s w] show ?thesis by simp
qed

lemma pop3_new_eq:
  assumes "pop3_new mem fd w = Inr (Some i, w')"
  shows "i = w_next w \<and> w' = w\<lparr>w_next := Suc (w_next w), connections := connections w + 1,
      historic_connections := historic_connections w + 1, head_connection := head_connection w @ [w_next w],
      w_conns := (w_conns w)(w_next w \<mapsto> (pop3_zero fd)\<lparr>p_stm := None\<rparr>)\<rparr>"
proof -
  from sm.init_built [OF built_pop3, of None]
  have "stm_init (pop3_stm None) = Inr (pop3_stm None\<lparr>stm_current := None\<rparr>)" .
  with assms show ?thesis by (auto simp: pop3_new_def Let_def split: if_splits)
qed

lemma pop3_new_housed:
  assumes "pop3_new mem fd w = Inr (Some i, w')" "housed w"
  shows "housed w' \<and> w_sel w' = w_sel w \<and> w_conns w' = (w_conns w)(i \<mapsto> (pop3_zero fd)\<lparr>p_stm := None\<rparr>)"
proof -
  from pop3_new_eq [OF assms(1)] have i: "i = w_next w" "w_sel w' = w_sel w" "w_next w' = Suc i"
    "w_conns w' = (w_conns w)(i \<mapsto> (pop3_zero fd)\<lparr>p_stm := None\<rparr>)"
    "head_connection w' = head_connection w @ [i]" "w_admins w' = w_admins w" "pool w' = pool w" by simp_all
  from assms(2) have w: "owned (owner (w_sel w)) (w_conns w)" "listed w" "admins_owned w"
    "all_settled (owner (w_sel w)) (w_conns w)" by (simp_all add: housed_def)
  from w(2) i(1) have free: "w_conns w i = None" by (auto simp: listed_def)
  have z: "selected_mail_fd ((pop3_zero fd)\<lparr>p_stm := None\<rparr>) = 0" by (simp add: pop3_zero_def)
  have "owned (owner (w_sel w')) (w_conns w')"
    unfolding i(2,4) by (rule owned_born [OF w(1) free z])
  moreover have "no_mail (owner (w_sel w)) i"
    using owned_mail [OF w(1)] free unfolding no_mail_def by force
  then have "all_settled (owner (w_sel w')) (w_conns w')"
    using w(4) unfolding i(2,4) by (simp add: all_settled_def settled_def)
  moreover have "listed w'"
    using w(2) free i(1,3-5) by (auto simp: listed_def less_Suc_eq)
  moreover have "admins_owned w'"
    using w(3) i by (auto simp: admins_owned_def admin_owned_def less_Suc_eq)
  ultimately show ?thesis using i(2,4) by (simp add: housed_def)
qed

lemma pop3_passive_accept_housed:
  assumes "pop3_passive_accept io w = Inr w'" "selector_inv (w_sel w)" "housed w" "honest io w" "owner (w_sel w) g \<noteq> None"
  shows "housed w' \<and> keeps_own g w w'"
proof -
  let ?fd = "io_accept io" and ?o = "owner (w_sel w)"
  from assms(1) have ok: "?fd \<noteq> - 1" "io_nio io"
    by (auto simp: pop3_passive_accept_def pop3_fail_def Let_def split: if_splits)
  with assms(4) have u: "unclaimed ?o (w_conns w) ?fd" by (simp add: honest_def fair_def handed_out_def)
  let ?reg = "\<lambda>i w1. rbind (register_fd (io_mem io) ?fd Pop3_handler OP_WRITE (Some (Pop3_data i)) w1) (\<lambda>(st, w).
            if st \<noteq> SELECTOR_SUCCESS then pop3_fail ?fd (Some i) w else Inr w)"
  from assms(1) ok obtain x w1 where new': "pop3_new (io_mem io) ?fd w = Inr (x, w1)"
    and run: "(case x of None \<Rightarrow> pop3_fail ?fd None w1 | Some i \<Rightarrow> ?reg i w1) = Inr w'"
    by (auto simp: pop3_passive_accept_def Let_def rbind_eq_Inr)
  from run obtain i where x: "x = Some i" by (cases x) (simp_all add: pop3_fail_def Let_def)
  note new = new' [unfolded x]
  from pop3_new_housed [OF new assms(3)] have w1: "housed w1" "w_sel w1 = w_sel w"
    "w_conns w1 = (w_conns w)(i \<mapsto> (pop3_zero ?fd)\<lparr>p_stm := None\<rparr>)" by simp_all
  from run x have "?reg i w1 = Inr w'" by simp
  then obtain st w2 where
    w2: "register_fd (io_mem io) ?fd Pop3_handler OP_WRITE (Some (Pop3_data i)) w1 = Inr (st, w2)"
    and rest: "(if st \<noteq> SELECTOR_SUCCESS then pop3_fail ?fd (Some i) w2 else Inr w2) = Inr w'"
    by (auto simp: rbind_eq_Inr)
  have inv1: "selector_inv (w_sel w1)" using w1(2) assms(2) by simp
  from register_owners [OF w2 inv1] w1(2) obtain s where s: "w2 = w1\<lparr>w_sel := s\<rparr>"
    "owner s = ?o \<and> st \<noteq> SELECTOR_SUCCESS \<or> owner s = ?o(?fd \<mapsto> socket_of i) \<and> st = SELECTOR_SUCCESS" by auto
  from s(2) show ?thesis
  proof (elim disjE conjE)
    assume o: "owner s = ?o" "st \<noteq> SELECTOR_SUCCESS"
    have h2: "housed w2" using w1(1,2) housed_sel [of s w1] s(1) o(1) by simp
    from rest o(2) have "pop3_destroy i (close_fd ?fd w2) = Inr w'" using ok(1) by (simp add: pop3_fail_def)
    from pop3_destroy_frees [OF this, of "(pop3_zero ?fd)\<lparr>p_stm := None\<rparr>"] have
      f: "frees ?fd (close_fd ?fd w2) w'" using s(1) w1(3) by (simp add: pop3_zero_def)
    with housed_frees [OF _ f] h2 u o(1) s(1) have "housed w'" by (simp add: unclaimed_def)
    moreover from f s(1) o(1) have "owner (w_sel w') = ?o" by (simp add: frees_def)
    ultimately show ?thesis by (simp add: keeps_own_def)
  next
    assume o: "owner s = ?o(?fd \<mapsto> socket_of i)" "st = SELECTOR_SUCCESS"
    with rest s(1) have w': "w' = w1\<lparr>w_sel := s\<rparr>" by simp
    have c: "owned ?o (w_conns w1)" using w1(1,2) by (simp add: housed_def)
    have u1: "unclaimed ?o (w_conns w1) ?fd" using u w1(3) by (auto simp: unclaimed_def pop3_zero_def)
    have "housed w'"
    proof (rule housedI [OF w1(1)])
      show "owned (owner (w_sel w')) (w_conns w1)"
        unfolding w' using owned_connect [OF c _ _ u1, of i "(pop3_zero ?fd)\<lparr>p_stm := None\<rparr>"] w1(3) o(1)
        by (simp add: pop3_zero_def)
      show "admins_owned w'" using w1(1,2) w' o(1) by (simp add: housed_def admins_owned_def admin_owned_def)
    qed (use w' o(1) u w1(2) in \<open>simp_all add: settled_added unclaimed_def\<close>)
    moreover have "keeps_own g w w'" using w' o(1) assms(5) u by (auto simp: keeps_own_def unclaimed_def)
    ultimately show ?thesis by simp
  qed
qed

section \<open>Administrators\<close>

abbreviation admin_of :: "nat \<Rightarrow> fd_handler option \<times> attachment option" where
  "admin_of a \<equiv> (Some Monitor_handler, Some (Admin_data a))"

text \<open>A connection in nobody's hands: live, not in the pool, and not registered.\<close>

definition loose :: "world \<Rightarrow> nat \<Rightarrow> bool" where
  "loose w a \<longleftrightarrow> w_admins w a \<noteq> None \<and> a \<notin> set (pool w) \<and> (\<forall>fd. owner (w_sel w) fd \<noteq> Some (admin_of a))"

lemma owned_admin: "housed w \<Longrightarrow> owner (w_sel w) fd = Some (Some Monitor_handler, d) \<Longrightarrow>
    \<exists>a ac. d = Some (Admin_data a) \<and> w_admins w a = Some ac \<and> ac_fd ac = fd \<and> a \<notin> set (pool w)"
  by (simp add: housed_def admins_owned_def admin_owned_def)

lemma housed_admins:
  assumes "housed w" "w_sel w' = w_sel w" "w_conns w' = w_conns w" "head_connection w' = head_connection w"
    and "w_next w \<le> w_next w'" "admins_owned w'"
  shows "housed w'"
  by (rule housedI [OF assms(1)]) (use assms in \<open>simp_all add: housed_def\<close>)

lemma new_admin_housed:
  assumes "new_admin_connection mem fd w = (x, w')" "housed w"
  shows "housed w' \<and> w_sel w' = w_sel w \<and> w_conns w' = w_conns w
    \<and> (case x of None \<Rightarrow> w' = w | Some a \<Rightarrow> loose w' a \<and> w_admins w' a = Some (zero_connection fd))"
proof -
  have adm: "distinct (pool w)" "\<And>a. a \<in> set (pool w) \<Longrightarrow> w_admins w a \<noteq> None" "\<And>a. w_admins w a \<noteq> None \<Longrightarrow> a < w_next w"
    using assms(2) by (auto simp: housed_def admins_owned_def)
  show ?thesis
  proof (cases "pool w")
    case Nil
    show ?thesis
    proof (cases mem)
      case False
      with assms Nil show ?thesis by (simp add: new_admin_connection_def)
    next
      case True
      with assms(1) Nil have w': "x = Some (w_next w)"
        "w' = w\<lparr>w_next := Suc (w_next w), w_admins := (w_admins w)(w_next w \<mapsto> zero_connection fd)\<rparr>"
        by (simp_all add: new_admin_connection_def)
      have ne: "w_next w \<noteq> a" if "w_admins w a \<noteq> None" for a using adm(3) [OF that] by simp
      have "owner (w_sel w) g \<noteq> Some (admin_of (w_next w))" for g
        using owned_admin [OF assms(2), of g "Some (Admin_data (w_next w))"] ne [of "w_next w"] by auto
      then have "loose w' (w_next w)" using Nil w'(2) by (simp add: loose_def)
      moreover have "admins_owned w'"
        unfolding admins_owned_def
      proof (intro conjI allI impI)
        fix g d
        assume "owner (w_sel w') g = Some (Some Monitor_handler, d)"
        with w'(2) owned_admin [OF assms(2), of g d] ne show "admin_owned w' g d"
          by (auto simp: admin_owned_def)
      qed (use w'(2) Nil adm(3) in \<open>auto simp: less_Suc_eq split: if_splits\<close>)
      then have "housed w'" by (intro housed_admins [OF assms(2)]) (simp_all add: w'(2))
      ultimately show ?thesis using w' by simp
    qed
  next
    case (Cons a as)
    with assms(1) have w': "x = Some a" "w' = w\<lparr>pool := as, w_admins := (w_admins w)(a \<mapsto> zero_connection fd)\<rparr>"
      by (simp_all add: new_admin_connection_def)
    have item: "\<exists>b ac. d = Some (Admin_data b) \<and> w_admins w b = Some ac \<and> ac_fd ac = g \<and> b \<noteq> a \<and> b \<notin> set as"
      if "owner (w_sel w) g = Some (Some Monitor_handler, d)" for g d
      using owned_admin [OF assms(2) that] Cons by auto
    then have "loose w' a" using w'(2) adm(1) Cons by (fastforce simp: loose_def)
    moreover have "admins_owned w'"
      unfolding admins_owned_def
    proof (intro conjI allI impI)
      fix g d
      assume "owner (w_sel w') g = Some (Some Monitor_handler, d)"
      with w'(2) item [of g d] show "admin_owned w' g d" by (auto simp: admin_owned_def)
    qed (use w'(2) Cons adm(1) adm(2) adm(3) in \<open>auto split: if_splits\<close>)
    then have "housed w'" by (intro housed_admins [OF assms(2)]) (simp_all add: w'(2))
    ultimately show ?thesis using w' by simp
  qed
qed

text \<open>A loose connection goes to the pool or is freed.\<close>

lemma admin_destroy_owned:
  assumes "admins_owned w" "loose w a"
  shows "admins_owned (admin_connection_destroy (Some a) w)"
proof -
  have adm: "distinct (pool w)" "\<And>b. b \<in> set (pool w) \<Longrightarrow> w_admins w b \<noteq> None" "\<And>b. w_admins w b \<noteq> None \<Longrightarrow> b < w_next w"
    using assms(1) by (auto simp: admins_owned_def)
  have item: "\<exists>b ac. d = Some (Admin_data b) \<and> w_admins w b = Some ac \<and> ac_fd ac = g \<and> b \<noteq> a \<and> b \<notin> set (pool w)"
    if "owner (w_sel w) g = Some (Some Monitor_handler, d)" for g d
    using assms that unfolding admins_owned_def admin_owned_def loose_def by blast
  let ?w = "admin_connection_destroy (Some a) w"
  show ?thesis
    unfolding admins_owned_def
  proof (intro conjI allI impI)
    fix g d
    assume "owner (w_sel ?w) g = Some (Some Monitor_handler, d)"
    then have "owner (w_sel w) g = Some (Some Monitor_handler, d)" by (simp add: admin_connection_destroy_def split: if_splits)
    from item [OF this] show "admin_owned ?w g d" by (auto simp: admin_owned_def admin_connection_destroy_def)
  qed (use adm assms(2) in \<open>auto simp: admin_connection_destroy_def loose_def split: if_splits\<close>)
qed

lemma admin_destroy_housed:
  assumes "housed w" "loose w a"
  shows "housed (admin_connection_destroy (Some a) w)"
proof -
  have "admins_owned w" using assms(1) by (simp add: housed_def)
  from admin_destroy_owned [OF this assms(2)] show ?thesis
    by (rule housed_admins [OF assms(1), rotated 4]) (simp_all add: admin_connection_destroy_def)
qed

lemma monitor_fail_housed:
  assumes "housed w" "case x of None \<Rightarrow> True | Some a \<Rightarrow> loose w a"
  shows "housed (monitor_fail fd x w) \<and> w_sel (monitor_fail fd x w) = w_sel w"
proof (cases x)
  case None
  with assms(1) show ?thesis by (simp add: monitor_fail_def admin_connection_destroy_def)
next
  case (Some a)
  let ?w = "if fd \<noteq> - 1 then close_fd fd w else w"
  have "housed ?w" using assms(1) by simp
  moreover have "loose ?w a" using assms(2) Some by (simp add: loose_def close_fd_def)
  ultimately have d: "housed ?w" "loose ?w a" .
  from admin_destroy_housed [OF d] Some show ?thesis
    by (simp add: monitor_fail_def admin_connection_destroy_def)
qed

lemma put_admin_housed:
  assumes "housed w" "w_admins w a = Some ac" "ac_fd d = ac_fd ac"
  shows "housed (put_admin a d w)"
proof -
  have "admins_owned (put_admin a d w)"
    unfolding admins_owned_def
  proof (intro conjI allI impI)
    fix g x
    assume "owner (w_sel (put_admin a d w)) g = Some (Some Monitor_handler, x)"
    with owned_admin [OF assms(1), of g x] assms(2,3) show "admin_owned (put_admin a d w) g x"
      unfolding put_admin_def admin_owned_def by auto
  qed (use assms(1,2) in \<open>auto simp: housed_def admins_owned_def put_admin_def split: if_splits\<close>)
  then show ?thesis by (rule housed_admins [OF assms(1), rotated 4]) (simp_all add: put_admin_def)
qed

lemma admin_connected:
  assumes "housed w" "w_admins w a = Some ac" "a \<notin> set (pool w)" "ac_fd ac = fd" "unclaimed (owner (w_sel w)) (w_conns w) fd"
    and "owner s = (owner (w_sel w))(fd \<mapsto> admin_of a)"
  shows "housed (w\<lparr>w_sel := s\<rparr>)"
proof (rule housedI [OF assms(1)])
  show "owned (owner (w_sel (w\<lparr>w_sel := s\<rparr>))) (w_conns w)"
    using owned_arrival [OF _ assms(5)] assms(1) by (simp add: housed_def assms(6))
  show "admins_owned (w\<lparr>w_sel := s\<rparr>)"
    unfolding admins_owned_def
  proof (intro conjI allI impI)
    fix g x
    assume "owner (w_sel (w\<lparr>w_sel := s\<rparr>)) g = Some (Some Monitor_handler, x)"
    then have "g = fd \<and> x = Some (Admin_data a) \<or> owner (w_sel w) g = Some (Some Monitor_handler, x)"
      by (cases "g = fd") (simp_all add: assms(6))
    with owned_admin [OF assms(1), of g x] assms(2-4) show "admin_owned (w\<lparr>w_sel := s\<rparr>) g x"
      by (auto simp: admin_owned_def)
  qed (use assms(1) in \<open>auto simp: housed_def admins_owned_def\<close>)
qed (use assms(5,6) in \<open>simp_all add: settled_added unclaimed_def\<close>)

section \<open>Events of an administrator's connection\<close>

lemma monitor_passive_accept_housed:
  assumes "monitor_passive_accept io w = Inr w'" "selector_inv (w_sel w)" "housed w" "honest io w" "owner (w_sel w) g \<noteq> None"
  shows "housed w' \<and> keeps_own g w w'"
proof (cases "io_accept io = - 1 \<or> \<not> io_nio io")
  case True
  with assms(1) have "w' = monitor_fail (io_accept io) None w" by (auto simp: monitor_passive_accept_def Let_def)
  with monitor_fail_housed [OF assms(3), of None "io_accept io"] show ?thesis by (simp add: keeps_own_def)
next
  case False
  let ?fd = "io_accept io" and ?o = "owner (w_sel w)"
  from False have "handed_out io ?fd" by (simp add: handed_out_def)
  with assms(4) have u: "unclaimed ?o (w_conns w) ?fd" by (simp add: honest_def fair_def)
  obtain x w1 where new: "new_admin_connection (io_mem io) ?fd w = (x, w1)"
    by (cases "new_admin_connection (io_mem io) (io_accept io) w")
  from new_admin_housed [OF new assms(3)] have w1: "housed w1" "w_sel w1 = w_sel w" "w_conns w1 = w_conns w"
    "case x of None \<Rightarrow> w1 = w | Some a \<Rightarrow> loose w1 a \<and> w_admins w1 a = Some (zero_connection ?fd)" by simp_all
  show ?thesis
  proof (cases x)
    case None
    with assms(1) False new have "w' = monitor_fail ?fd None w1" by (auto simp: monitor_passive_accept_def Let_def)
    with monitor_fail_housed [OF w1(1), of None ?fd] w1(2) show ?thesis by (simp add: keeps_own_def)
  next
    case (Some a)
    with w1(4) have a: "loose w1 a" "w_admins w1 a = Some (zero_connection ?fd)" by simp_all
    let ?reg = "register_fd (io_mem io) ?fd Monitor_handler OP_READ (Some (Admin_data a)) w1"
    from assms(1) False new Some have run: "rbind ?reg (\<lambda>(st, w2).
            if st \<noteq> SELECTOR_SUCCESS then Inr (monitor_fail ?fd (Some a) w2)
            else Inr (w2\<lparr>w_admins := (w_admins w2)(a := map_option monitor_init (w_admins w2 a))\<rparr>)) = Inr w'"
      by (simp add: monitor_passive_accept_def Let_def)
    then obtain st w2 where reg: "?reg = Inr (st, w2)" by (cases ?reg) auto
    from run have rest: "(if st \<noteq> SELECTOR_SUCCESS then Inr (monitor_fail ?fd (Some a) w2)
          else Inr (w2\<lparr>w_admins := (w_admins w2)(a := map_option monitor_init (w_admins w2 a))\<rparr>)) = (Inr w' :: world res)"
      unfolding reg by simp
    have inv1: "selector_inv (w_sel w1)" using w1(2) assms(2) by simp
    from register_owners [OF reg inv1] w1(2) obtain s where s: "w2 = w1\<lparr>w_sel := s\<rparr>"
      "owner s = ?o \<and> st \<noteq> SELECTOR_SUCCESS \<or> owner s = ?o(?fd \<mapsto> admin_of a) \<and> st = SELECTOR_SUCCESS" by auto
    from s(2) show ?thesis
    proof (elim disjE conjE)
      assume o: "owner s = ?o" "st \<noteq> SELECTOR_SUCCESS"
      have "housed w2" "loose w2 a" using w1(1,2) a(1) housed_sel [of s w1] s(1) o(1) by (simp_all add: loose_def)
      with monitor_fail_housed [of w2 "Some a" ?fd] rest o s(1) show ?thesis by (simp add: keeps_own_def)
    next
      assume o: "owner s = ?o(?fd \<mapsto> admin_of a)" "st = SELECTOR_SUCCESS"
      have "housed w2"
        unfolding s(1) by (rule admin_connected [OF w1(1) a(2), of ?fd])
          (use a(1) u w1(2,3) o(1) in \<open>simp_all add: loose_def zero_connection_def\<close>)
      moreover from rest o(2) s(1) a(2) have "w' = put_admin a (monitor_init (zero_connection ?fd)) w2"
        by (simp add: put_admin_def)
      moreover have "w_admins w2 a = Some (zero_connection ?fd)" using s(1) a(2) by simp
      ultimately have "housed w'" "w_sel w' = s"
        using put_admin_housed [of w2 a "zero_connection ?fd" "monitor_init (zero_connection ?fd)"] s(1)
        by (simp_all add: monitor_init_def put_admin_def)
      with o(1) u assms(5) show ?thesis by (auto simp: keeps_own_def unclaimed_def)
    qed
  qed
qed

lemma monitor_end_housed:
  assumes "monitor_end d w = Inr w'" "selector_inv (w_sel w)" "housed w" "w_admins w a = Some ac" "ac_fd ac = ac_fd d"
    and "owner (w_sel w) (ac_fd d) = Some (admin_of a)"
  shows "housed w' \<and> lessened (owner (w_sel w)) (owner (w_sel w'))"
proof -
  let ?fd = "ac_fd d"
  from owner_valid [OF assms(2), of ?fd] assms(6) have "?fd \<noteq> - 1" by auto
  with assms(1) obtain st w2 where w2: "unregister_fd ?fd w = Inr (st, w2)" "w' = close_fd ?fd w2"
    by (auto simp: monitor_end_def rbind_eq_Inr split: if_splits)
  from w2(1) obtain s w1 where s: "selector_unregister_fd handle_close (w_sel w) ?fd w = Inr (st, s, w1)"
    "w2 = w1\<lparr>w_sel := s\<rparr>" by (auto simp: unregister_fd_def rbind_eq_Inr)
  from unregister_owner [OF s(1) assms(2)] assms(6) have
    c: "w1 = admin_connection_destroy (Some a) w" "owner s = (owner (w_sel w))(?fd := None)"
    by (auto simp: handle_close_def monitor_close_def)
  let ?w = "w\<lparr>w_sel := s\<rparr>"
  from assms(3) have "owned (owner (w_sel w)) (w_conns w)" by (simp add: housed_def)
  then have "owned (owner s) (w_conns w)" unfolding c(2) by (rule owned_drop) (simp add: assms(6))
  then have h: "housed ?w" by (intro housed_less [OF assms(3)]) (simp_all add: c(2))
  have "loose ?w a"
    unfolding loose_def
  proof (intro conjI allI notI)
    fix g
    assume "owner (w_sel ?w) g = Some (admin_of a)"
    then have g: "g \<noteq> ?fd" "owner (w_sel w) g = Some (admin_of a)" by (auto simp: c(2) split: if_splits)
    from owned_admin [OF assms(3) g(2)] assms(4,5) g(1) show False by auto
  qed (use assms(4) owned_admin [OF assms(3,6)] in auto)
  from admin_destroy_housed [OF h this] have "housed (admin_connection_destroy (Some a) ?w)" .
  moreover have "w2 = admin_connection_destroy (Some a) ?w"
    unfolding s(2) c(1) by (simp add: admin_connection_destroy_def)
  moreover have "owner (w_sel w') = (owner (w_sel w))(?fd := None)" using w2(2) c(2) s(2) by simp
  ultimately show ?thesis using w2(2) by simp
qed

lemma monitor_read_housed:
  assumes "monitor_read io fd data w = Inr w'" "selector_inv (w_sel w)" "housed w"
    and "owner (w_sel w) fd = Some (Some Monitor_handler, data)"
  shows "housed w' \<and> keeps_own fd w w'"
proof -
  from owned_admin [OF assms(3,4)] obtain a d where
    a: "data = Some (Admin_data a)" "w_admins w a = Some d" "ac_fd d = fd" by blast
  then have at: "admin_at data w = Inr (a, d)" by (simp add: admin_at_def)
  with assms(1) obtain count where n: "buffer_write_ptr (ac_rb d) = Inr count"
    by (auto simp: monitor_read_def rbind_eq_Inr)
  let ?bs = "received (io_recv io) count"
  show ?thesis
  proof (cases "?bs = []")
    case True
    with assms(1) at n have "monitor_end d w = Inr w'" by (simp add: monitor_read_def)
    from monitor_end_housed [OF this assms(2,3) a(2)] a assms(4) have
      "housed w'" "lessened (owner (w_sel w)) (owner (w_sel w'))" by simp_all
    then show ?thesis by (simp add: keeps_own_def lessened_def)
  next
    case False
    with assms(1) at n obtain b state g p b1 where
      c: "monitor_consume (w_globals w) b (ac_parser d) = Inr (state, g, p, b1)"
      and rest: "(let d = d\<lparr>ac_rb := b1, ac_parser := p\<rparr>; w = w\<lparr>w_globals := g\<rparr> in
       if monitor_has_finish state then
         rbind
           (if state \<noteq> monitor_finish then
              rbind (monitor_error_handler p (ac_wb d)) (\<lambda>(r, wb).
              if r = - 1 then Inl Aborted else Inr (w, d\<lparr>ac_wb := wb\<rparr>))
            else monitor_action w d) (\<lambda>(w, d).
         rbind (set_interest_key fd OP_WRITE (put_admin a d w)) (\<lambda>(_, w). Inr w))
       else Inr (put_admin a d w)) = Inr w'"
      by (auto simp: monitor_read_def Let_def rbind_eq_Inr)
    let ?w = "w\<lparr>w_globals := g\<rparr>" and ?d = "d\<lparr>ac_rb := b1, ac_parser := p\<rparr>"
    show ?thesis
    proof (cases "monitor_has_finish state")
      case False
      with rest have "w' = put_admin a ?d ?w" by (simp add: Let_def)
      with put_admin_housed [of ?w a d ?d] assms(3) a(2) show ?thesis by (simp add: keeps_own_def put_admin_def)
    next
      case True
      with rest obtain w1 d1 st where
        1: "(if state \<noteq> monitor_finish then
              rbind (monitor_error_handler p (ac_wb ?d)) (\<lambda>(r, wb).
              if r = - 1 then Inl Aborted else Inr (?w, ?d\<lparr>ac_wb := wb\<rparr>))
            else monitor_action ?w ?d) = Inr (w1, d1)"
        and 2: "set_interest_key fd OP_WRITE (put_admin a d1 w1) = Inr (st, w')"
        by (auto simp: Let_def rbind_eq_Inr simp del: fun_upd_apply)
      from 1 monitor_action_calm [of ?w ?d w1 d1] have c: "calm ?w w1" "ac_fd d1 = ac_fd d"
        by (auto simp: rbind_eq_Inr calm_def split: if_splits)
      from housed_calm [OF c(1)] assms(3) have "housed w1" by simp
      moreover from c(1) a(2) have "w_admins w1 a = Some d" "w_sel w1 = w_sel w" by (simp_all add: calm_def untouched_def)
      ultimately have "housed (put_admin a d1 w1)" "w_sel (put_admin a d1 w1) = w_sel w"
        using put_admin_housed c(2) by (auto simp: put_admin_def)
      with housed_interest [OF 2] assms(2) show ?thesis by (simp add: keeps_own_def)
    qed
  qed
qed

lemma monitor_write_housed:
  assumes "monitor_write io fd data w = Inr w'" "selector_inv (w_sel w)" "housed w"
    and "owner (w_sel w) fd = Some (Some Monitor_handler, data)"
  shows "housed w' \<and> keeps_own fd w w'"
proof -
  from owned_admin [OF assms(3,4)] obtain a d where
    a: "data = Some (Admin_data a)" "w_admins w a = Some d" "ac_fd d = fd" by blast
  then have at: "admin_at data w = Inr (a, d)" by (simp add: admin_at_def)
  have ends: "housed w' \<and> keeps_own fd w w'" if "monitor_end d v = Inr w'" "housed v" "w_sel v = w_sel w"
    "w_admins v a = Some ac" "ac_fd ac = fd" for v ac
  proof -
    from monitor_end_housed [OF that(1) _ that(2,4)] that(3,5) assms(2,4) a have
      "housed w'" "lessened (owner (w_sel w)) (owner (w_sel w'))" by simp_all
    then show ?thesis by (simp add: keeps_own_def lessened_def)
  qed
  from assms(1) at obtain bytes where n: "buffer_read_ptr (ac_wb d) = Inr bytes"
    by (auto simp: monitor_write_def rbind_eq_Inr)
  show ?thesis
  proof (cases "io_send io")
    case None
    with assms(1) at n have "monitor_end d w = Inr w'" by (simp add: monitor_write_def)
    from ends [OF this assms(3) refl a(2,3)] show ?thesis .
  next
    case (Some k)
    let ?w = "w\<lparr>w_sent := w_sent w @ [(fd, take (min k (length bytes)) bytes)]\<rparr>"
    from assms(1) at n Some obtain wb where
      wb: "(if \<not> buffer_can_read wb then monitor_end d (put_admin a (d\<lparr>ac_wb := wb\<rparr>) ?w)
        else Inr (put_admin a (d\<lparr>ac_wb := wb\<rparr>) ?w)) = Inr w'"
      by (auto simp: monitor_write_def Let_def rbind_eq_Inr)
    let ?v = "put_admin a (d\<lparr>ac_wb := wb\<rparr>) ?w"
    have v: "housed ?v" "w_sel ?v = w_sel w" "w_admins ?v a = Some (d\<lparr>ac_wb := wb\<rparr>)"
      using put_admin_housed [of ?w a d "d\<lparr>ac_wb := wb\<rparr>"] assms(3) a(2) by (simp_all add: put_admin_def)
    show ?thesis
    proof (cases "buffer_can_read wb")
      case True
      with wb v show ?thesis by (auto simp: keeps_own_def)
    next
      case False
      with wb have "monitor_end d ?v = Inr w'" by simp
      from ends [OF this v] a(3) show ?thesis by simp
    qed
  qed
qed

section \<open>Rounds with an honest system\<close>

definition home :: "world \<Rightarrow> bool" where
  "home w \<longleftrightarrow> world_ok w \<and> housed w"

lemma reader_housed:
  assumes "reader h io fd data w = Inr w'" "home w" "honest io w" "fd \<noteq> 0" "owner (w_sel w) fd = Some (Some h, data)"
  shows "housed w' \<and> keeps_own fd w w'"
proof -
  from assms(2) have w: "world_ok w" "selector_inv (w_sel w)" "housed w" by (simp_all add: home_def world_ok_def)
  have session: "housed w' \<and> keeps_own fd w w'" if "h \<in> {Pop3_handler, Mail_handler}"
  proof -
    from assms(1) that have "pop3_event stm_handler_read io fd data w = Inr w'" by (auto simp: reader_def pop3_read_def)
    from pop3_event_housed [OF this w(1,3) assms(3-5) that] own.read_after show ?thesis by blast
  qed
  show ?thesis
  proof (cases h)
    case Pop3_passive
    with assms pop3_passive_accept_housed [OF _ w(2,3) assms(3), of w' fd] show ?thesis by (simp add: reader_def)
  next
    case Monitor_passive
    with assms monitor_passive_accept_housed [OF _ w(2,3) assms(3), of w' fd] show ?thesis by (simp add: reader_def)
  next
    case Monitor_handler
    with assms monitor_read_housed [OF _ w(2,3), of io fd data w'] show ?thesis by (simp add: reader_def)
  qed (use session in simp_all)
qed

lemma writer_housed:
  assumes "writer h = Some f" "f io fd data w = Inr w'" "home w" "honest io w" "fd \<noteq> 0" "owner (w_sel w) fd = Some (Some h, data)"
  shows "housed w'"
proof -
  from assms(3) have w: "world_ok w" "selector_inv (w_sel w)" "housed w" by (simp_all add: home_def world_ok_def)
  show ?thesis
  proof (cases "h = Monitor_handler")
    case True
    with assms monitor_write_housed [OF _ w(2,3), of io fd data w'] show ?thesis by (simp add: writer_def)
  next
    case False
    with assms(1,2) have h: "h \<in> {Pop3_handler, Mail_handler}" "pop3_event stm_handler_write io fd data w = Inr w'"
      by (cases h; auto simp: writer_def pop3_write_def)+
    from pop3_event_housed [OF h(2) w(1,3) assms(4-6) h(1)] own.write_after show ?thesis by blast
  qed
qed

lemma blocker_housed:
  assumes "blocker h = Some f" "f io fd data w = Inr w'" "home w" "honest io w" "fd \<noteq> 0" "owner (w_sel w) fd = Some (Some h, data)"
  shows "housed w'"
proof -
  from assms(3) have w: "world_ok w" "housed w" by (simp_all add: home_def)
  from assms(1,2) have h: "h \<in> {Pop3_handler, Mail_handler}" "pop3_event stm_handler_block io fd data w = Inr w'"
    by (cases h; auto simp: blocker_def pop3_block_def)+
  from pop3_event_housed [OF h(2) w assms(4-6) h(1)] own.block_after show ?thesis by blast
qed

text \<open>
  The callbacks of the server, but stopping when the answers they would get are not honest, or when they
  are called for the standard input.
\<close>

definition trusted :: "int \<Rightarrow> io \<Rightarrow> world \<Rightarrow> bool" where
  "trusted fd io w \<longleftrightarrow> fd \<noteq> 0 \<and> honest io w"

definition watch :: "(int \<Rightarrow> io) \<Rightarrow> (int \<Rightarrow> attachment option \<Rightarrow> (fd_handler, attachment) fdselector \<Rightarrow> world
    \<Rightarrow> ((fd_handler, attachment) fdselector \<times> world) res)
    \<Rightarrow> int \<Rightarrow> attachment option \<Rightarrow> (fd_handler, attachment) fdselector \<Rightarrow> world
    \<Rightarrow> ((fd_handler, attachment) fdselector \<times> world) res" where
  "watch ios f fd d s w = (if trusted fd (ios fd) (w\<lparr>w_sel := s\<rparr>) then f fd d s w else Inl Aborted)"

definition watched :: "answers \<Rightarrow> (fd_handler, attachment, world) callbacks" where
  "watched an =
   \<lparr>handle_read = map_option (watch (a_read an)) \<circ> handle_read (server_callbacks an),
    handle_write = map_option (watch (a_write an)) \<circ> handle_write (server_callbacks an),
    handle_block = map_option (watch (a_block an)) \<circ> handle_block (server_callbacks an)\<rparr>"

text \<open>In the round every callback gets honest answers.\<close>

definition honest_round :: "pselect_result \<Rightarrow> answers \<Rightarrow> world \<Rightarrow> bool" where
  "honest_round r an w \<longleftrightarrow>
     selector_select (watched an) r (w_sel w, w) = selector_select (server_callbacks an) r (w_sel w, w)"

lemma watch_Inr:
  "watch ios f fd d s w = Inr x \<Longrightarrow> f fd d s w = Inr x \<and> fd \<noteq> 0 \<and> honest (ios fd) (w\<lparr>w_sel := s\<rparr>)"
  by (simp add: watch_def trusted_def split: if_splits)

lemma watched_read:
  assumes "handle_read (watched an) h = Some f" "f fd d s w = Inr (s', w')" "home (w\<lparr>w_sel := s\<rparr>)" "owner s fd = Some (Some h, d)"
  shows "home (w'\<lparr>w_sel := s'\<rparr>) \<and> (owner s' fd = owner s fd \<or> owner s' fd = None)"
proof -
  from assms(1) have "f = watch (a_read an) (\<lambda>fd d. on_world (reader h (a_read an fd) fd d))"
    by (simp add: watched_def server_callbacks_def comp_def eq_commute)
  with watch_Inr assms(2) have f: "on_world (reader h (a_read an fd) fd d) s w = Inr (s', w')" "fd \<noteq> 0"
    "honest (a_read an fd) (w\<lparr>w_sel := s\<rparr>)" by blast+
  from f(1) have r: "reader h (a_read an fd) fd d (w\<lparr>w_sel := s\<rparr>) = Inr w'" "s' = w_sel w'"
    by (auto simp: on_world_def rbind_eq_Inr)
  from reader_housed [OF r(1) assms(3) f(3,2)] reader_ok [OF r(1)] assms(3,4) r(2)
  show ?thesis by (auto simp: home_def keeps_own_def)
qed

lemma watched_write:
  assumes "handle_write (watched an) h = Some f" "f fd d s w = Inr (s', w')" "home (w\<lparr>w_sel := s\<rparr>)" "owner s fd = Some (Some h, d)"
  shows "home (w'\<lparr>w_sel := s'\<rparr>)"
proof -
  from assms(1) obtain g where g: "writer h = Some g"
    "f = watch (a_write an) (\<lambda>fd d. on_world (g (a_write an fd) fd d))"
    by (auto simp: watched_def server_callbacks_def)
  with watch_Inr assms(2) have f: "on_world (g (a_write an fd) fd d) s w = Inr (s', w')" "fd \<noteq> 0"
    "honest (a_write an fd) (w\<lparr>w_sel := s\<rparr>)" by blast+
  from f(1) have r: "g (a_write an fd) fd d (w\<lparr>w_sel := s\<rparr>) = Inr w'" "s' = w_sel w'"
    by (auto simp: on_world_def rbind_eq_Inr)
  from writer_housed [OF g(1) r(1) assms(3) f(3,2)] writer_ok [OF g(1) r(1)] assms(3,4) r(2)
  show ?thesis by (auto simp: home_def)
qed

lemma watched_block:
  assumes "handle_block (watched an) h = Some f" "f fd d s w = Inr (s', w')" "home (w\<lparr>w_sel := s\<rparr>)" "owner s fd = Some (Some h, d)"
  shows "home (w'\<lparr>w_sel := s'\<rparr>)"
proof -
  from assms(1) obtain g where g: "blocker h = Some g"
    "f = watch (a_block an) (\<lambda>fd d. on_world (g (a_block an fd) fd d))"
    by (auto simp: watched_def server_callbacks_def)
  with watch_Inr assms(2) have f: "on_world (g (a_block an fd) fd d) s w = Inr (s', w')" "fd \<noteq> 0"
    "honest (a_block an fd) (w\<lparr>w_sel := s\<rparr>)" by blast+
  from f(1) have r: "g (a_block an fd) fd d (w\<lparr>w_sel := s\<rparr>) = Inr w'" "s' = w_sel w'"
    by (auto simp: on_world_def rbind_eq_Inr)
  from blocker_housed [OF g(1) r(1) assms(3) f(3,2)] blocker_ok [OF g(1) r(1)] assms(3,4) r(2)
  show ?thesis by (auto simp: home_def)
qed

interpretation wd: guarded_loop "watched an" "\<lambda>s w. home (w\<lparr>w_sel := s\<rparr>)" "\<lambda>s fd h d. owner s fd = Some (Some h, d)" for an
proof unfold_locales
  fix s w i h and it :: "(fd_handler, attachment) item"
  assume i: "home (w\<lparr>w_sel := s\<rparr>)" "item_at s i = Inr it" "ITEM_USED it" "it_handler it = Some h"
  then have inv: "selector_inv s" by (simp add: home_def world_ok_def)
  from cell_at [OF inv i(2)] i(3,4) show o: "owner s (it_fd it) = Some (Some h, it_data it)" by simp
  fix f s' w' h' and it' :: "(fd_handler, attachment) item"
  assume f: "handle_read (watched an) h = Some f" "f (it_fd it) (it_data it) s w = Inr (s', w')"
    and it': "item_at s' i = Inr it'" "wants (it_interest it') OP_WRITE" "it_handler it' = Some h'"
  from watched_read [OF f i(1) o] have s': "home (w'\<lparr>w_sel := s'\<rparr>)"
    "owner s' (it_fd it) = Some (Some h, it_data it) \<or> owner s' (it_fd it) = None" using o by auto
  from s'(1) have inv': "selector_inv s'" by (simp add: home_def world_ok_def)
  from cell_at [OF inv i(2)] i(3) have "it_fd it = i" by simp
  with cell_at [OF inv' it'(1)] it'(2,3) s'(2) show "owner s' (it_fd it) = Some (Some h', it_data it)"
    by (auto simp: item_unused_def split: if_splits)
next
  fix s :: "(fd_handler, attachment) fdselector" and w
  assume "home (w\<lparr>w_sel := s\<rparr>)"
  moreover have "owner (s\<lparr>resolution_jobs := []\<rparr>) = owner s" by (simp add: owner_def fun_eq_iff registered_def)
  ultimately show "home (w\<lparr>w_sel := s\<lparr>resolution_jobs := []\<rparr>\<rparr>)"
    by (simp add: home_def world_ok_def selector_inv_def table_ok_def items_ok_def interested_def registered_def
        housed_def listed_def admins_owned_def admin_owned_def)
qed (fact watched_read [THEN conjunct1], fact watched_write, fact watched_block)

lemma honest_round_home:
  assumes "serve_round r an w = Inr (st, w')" "honest_round r an w" "home w"
  shows "home w'"
proof -
  from assms(1) obtain s w1 where s: "selector_select (server_callbacks an) r (w_sel w, w) = Inr (st, s, w1)"
    "w' = w1\<lparr>w_sel := s\<rparr>" by (auto simp: serve_round_def rbind_eq_Inr)
  with assms(2) have "selector_select (watched an) r (w_sel w, w) = Inr (st, s, w1)" by (simp add: honest_round_def)
  from wd.select_good [OF this] assms(3) s(2) show ?thesis by simp
qed

section \<open>From the start\<close>

text \<open>Before the first round there are no connections, and only the passive sockets are registered.\<close>

definition bare :: "world \<Rightarrow> bool" where
  "bare w \<longleftrightarrow> selector_inv (w_sel w) \<and> w_conns w = Map.empty \<and> head_connection w = [] \<and> w_admins w = Map.empty
     \<and> pool w = [] \<and> (\<forall>fd h d. owner (w_sel w) fd = Some (h, d) \<longrightarrow> h \<in> {Some Pop3_passive, Some Monitor_passive})"

lemma bare_housed:
  assumes "bare w"
  shows "housed w"
proof -
  have "owner (w_sel w) fd \<noteq> Some (Some h, d)" if "h \<in> {Pop3_handler, Mail_handler, Monitor_handler}" for fd h d
    using assms that by (force simp: bare_def)
  with assms show ?thesis
    by (simp add: housed_def owned_def all_settled_def listed_def admins_owned_def bare_def)
qed

lemma main_setup_housed:
  assumes "main_setup b (main_start port path) = Inr (Inr m)"
  shows "housed (m_world m)"
proof -
  let ?none = "\<lambda>w. w_conns w = Map.empty \<and> head_connection w = [] \<and> w_admins w = Map.empty \<and> pool w = []"
  from assms obtain m1 m2 where
    1: "in_order (main_sockets b) (main_start port path) = Inr (Inr m1)"
    and 2: "in_order (main_selector b) m1 = Inr (Inr m2)"
    and 3: "in_order (main_passives b @ [main_users]) m2 = Inr (Inr m)"
    unfolding main_setup_def in_order_append [of "main_sockets b"] in_order_append [of "main_selector b"] went_through
    by blast
  have "?none (m_world m1)"
    by (rule in_order_keeps [OF 1])
      (auto simp: main_start_def start_world_def initial_world_def main_sockets_def Let_def dest!: stop_if_Inr split: prod.splits)
  moreover from 2 obtain s where s: "selector_new (b_mem b) MAX_SOCKS = Inr (Some s)"
    "m2 = m1\<lparr>has_selector := True, m_world := (m_world m1)\<lparr>w_sel := s\<rparr>\<rparr>"
    by (auto simp: main_selector_def went_through rbind_eq_Inr stop_if_def split: option.splits if_splits)
  moreover have "selector_inv s \<and> owner s = Map.empty"
  proof (cases "b_mem b")
    case True
    with s(1) selector_new_ok [where 'h = fd_handler and 'd = attachment] show ?thesis
      by (auto simp: MAX_SOCKS_def owner_def)
  next
    case False
    with s(1) show ?thesis
      by (auto simp: selector_new_def ensure_capacity_def rbind_eq_Inr MAX_SOCKS_def ITEMS_MAX_SIZE_def)
  qed
  ultimately have "bare (m_world m2)" by (simp add: bare_def)
  with 3 have "bare (m_world m)"
  proof (rule in_order_keeps, intro ballI allI impI)
    fix f m and m' :: main_state
    assume f: "f \<in> set (main_passives b @ [main_users])" "f m = Inr (Inr m')" "bare (m_world m)"
    have reg: "bare (m_world m')" if "main_register b fd h msg m = Inr (Inr m')" "h \<in> {Pop3_passive, Monitor_passive}" for fd h msg
    proof (cases "IS_FD_USED (fd m)")
      case False
      with that f(3) show ?thesis by (simp add: main_register_def)
    next
      case True
      with that(1) obtain st where "register_fd (b_mem b) (fd m) h OP_READ None (m_world m) = Inr (st, m_world m')"
        by (auto simp: main_register_def rbind_eq_Inr dest!: stop_if_Inr)
      from register_owners [OF this] f(3) obtain s where s: "m_world m' = (m_world m)\<lparr>w_sel := s\<rparr>" "selector_inv s"
        "owner s = owner (w_sel (m_world m)) \<or> owner s = (owner (w_sel (m_world m)))(fd m \<mapsto> (Some h, None))"
        by (auto simp: bare_def)
      have "x \<in> {Some Pop3_passive, Some Monitor_passive}" if o: "owner s g = Some (x, d)" for g x d
      proof (cases "owner (w_sel (m_world m)) g = Some (x, d)")
        case True
        with f(3) show ?thesis unfolding bare_def by blast
      next
        case False
        with o s(3) have "x = Some h" by (auto split: if_splits)
        with \<open>h \<in> {Pop3_passive, Monitor_passive}\<close> show ?thesis by auto
      qed
      with s(1,2) f(3) show ?thesis by (simp add: bare_def)
    qed
    have users: "bare (m_world m')" if u: "main_users m = Inr (Inr m')"
    proof -
      from u obtain db e where "add_new_admin (str ''root'' @ [0]) (str ''123456789abcdef1'' @ [0])
          ((m_world m)\<lparr>w_users := db\<rparr>) = Inr (e, m_world m')"
        by (auto simp: main_users_def rbind_eq_Inr Let_def simp del: str_Cons dest!: stop_if_Inr)
      from add_new_admin_calm [OF this] f(3) show ?thesis by (simp add: bare_def calm_def untouched_def)
    qed
    from f(1,2) reg users show "bare (m_world m')" by (auto simp: main_passives_def)
  qed
  then show ?thesis by (rule bare_housed)
qed

inductive served :: "boot \<Rightarrow> cstring \<Rightarrow> world \<Rightarrow> bool" for b path where
  start: "main_setup b (main_start port path) = Inr (Inr m) \<Longrightarrow> served b path (m_world m)"
| round: "served b path w \<Longrightarrow> honest_round r an w \<Longrightarrow> serve_round r an w = Inr (SELECTOR_SUCCESS, w') \<Longrightarrow>
    served b path w'"

lemma served_home: "served b path w \<Longrightarrow> home w"
  by (induction rule: served.induct) (simp_all add: home_def main_setup_ok main_setup_housed honest_round_home [unfolded home_def])

lemma served_reachable: "served b path w \<Longrightarrow> reachable b path w"
  by (induction rule: served.induct) (auto intro: reachable.intros)

end
