(* ===== verification/Closing.thy ===== *)
theory Closing
  imports Custody
begin

text \<open>
  What the ownership of descriptors gives: in every state that rounds with an honest system lead to,
  the connection behind a registered descriptor is live and knows it, a session can be ended, and the
  server can be shut down, without an \<open>abort()\<close> and without a use of freed memory.
\<close>

section \<open>Ending a session\<close>

lemma remove_client_rec_ok: "\<forall>a \<in> set as. c a \<noteq> None \<Longrightarrow> \<exists>c' as'. remove_client_rec c as fd = Inr (c', as')"
  by (induction as) (auto split: option.splits)

lemma pop3_close_ok:
  assumes "listed w" "live p" "w_conns w a = Some p"
  shows "\<exists>w'. pop3_close fd (Some (Pop3_data a)) w = Inr w' \<and> w_closed w' = w_closed w \<and> w_users w' = w_users w"
proof -
  from assms(2) have "mailbox_inv p" by (simp add: live_def session_ok_def fit_def)
  from free_mails_ok [OF this] obtain q where q: "(if mails p \<noteq> None then free_mails p else Inr p) = Inr q"
    by (cases "mails p") auto
  from assms(1) have "\<forall>b \<in> set (head_connection w). w_conns w b \<noteq> None" by (simp add: listed_def)
  from remove_client_rec_ok [OF this] obtain c l where
    "remove_client_rec (w_conns w) (head_connection w) (client_fd p) = Inr (c, l)" by blast
  with assms(3) q show ?thesis by (simp add: pop3_close_def pop3_destroy_def remove_client_def)
qed

lemma selection_removed:
  assumes "home w" "w_conns w a = Some p" "selected_mail_fd p < int (s_fd_size (w_sel w))"
  shows "\<exists>st s. unregister_fd (selected_mail_fd p) w = Inr (st, w\<lparr>w_sel := s\<rparr>)"
proof -
  let ?fd = "selected_mail_fd p"
  from assms(1) have w: "selector_inv (w_sel w)" "owned (owner (w_sel w)) (w_conns w)"
    by (simp_all add: home_def world_ok_def housed_def)
  have "\<exists>st s. selector_unregister_fd handle_close (w_sel w) ?fd w = Inr (st, s, w)"
  proof (cases "registered (w_sel w) ?fd")
    case None
    from unregister_unregistered [where close = handle_close and w = w, OF w(1) None assms(3)] show ?thesis by blast
  next
    case (Some it)
    with w(1) have "it_handler it \<noteq> None" unfolding selector_inv_def items_ok_def by blast
    then obtain h where h: "it_handler it = Some h" by blast
    with Some selection_handler [OF w(2) assms(2), of "it_data it"] have "h \<notin> {Pop3_handler, Monitor_handler}"
      by (auto simp: owner_def)
    from no_close [OF this] h unregister_ok [where close = handle_close and w = w and w' = w, OF w(1) Some] show ?thesis by auto
  qed
  then show ?thesis by (auto simp: unregister_fd_def)
qed

lemma pop3_done_ok:
  assumes "home w" "w_conns w a = Some p" "owner (w_sel w) (client_fd p) = Some (socket_of a)"
    and "selected_mail_fd p < int (s_fd_size (w_sel w))"
  shows "\<exists>w'. pop3_done a w = Inr w' \<and> owner (w_sel w') (client_fd p) = None \<and> w_closed w' = w_closed w @ [client_fd p]
    \<and> no_mail (owner (w_sel w')) a"
proof -
  let ?fd = "client_fd p" and ?sel = "selected_mail_fd p"
  from assms(1) have w: "selector_inv (w_sel w)" "housed w" "world_ok w" by (simp_all add: home_def world_ok_def)
  obtain st w1 where run: "(if ?sel \<noteq> 0 then unregister_fd ?sel w else Inr (SELECTOR_SUCCESS, w)) = Inr (st, w1)"
    using selection_removed [OF assms(1,2,4)] by (cases "?sel = 0") auto
  from mail_removed [OF run w(1,2) assms(2,3)] obtain s where
    w1: "w1 = w\<lparr>w_sel := s\<rparr>" "housed w1" "selector_inv s" "no_mail (owner s) a" "owner s ?fd = Some (socket_of a)"
    by (metis world.select_convs(1) world.update_convs(1) world.surjective)
  from w(3) assms(2) have ok: "live p" by (auto simp: world_ok_def)
  from w1(2) have "listed w1" by (simp add: housed_def)
  from pop3_close_ok [OF this ok, where a = a and fd = ?fd] assms(2) w1(1) obtain w2 where
    c: "pop3_close ?fd (Some (Pop3_data a)) w1 = Inr w2" "w_closed w2 = w_closed w" by auto
  from w1(5) obtain it where it: "registered s ?fd = Some it" "it_handler it = Some Pop3_handler" "it_data it = Some (Pop3_data a)"
    by (auto simp: owner_def)
  with unregister_ok [where close = handle_close and w = w1 and w' = w2, OF w1(3) it(1)] c(1) obtain t where
    t: "selector_unregister_fd handle_close s ?fd w1 = Inr (SELECTOR_SUCCESS, t, w2)" "registered t = (registered s)(?fd := None)"
    by (auto simp: handle_close_def)
  from t(2) have ow: "owner t = (owner s)(?fd := None)" by (auto simp: owner_def fun_eq_iff)
  from owner_valid [OF w1(3), of ?fd] w1(5) have "?fd \<noteq> - 1" by auto
  with run t(1) w1(1) assms(2) have "pop3_done a w = Inr (close_fd ?fd (w2\<lparr>w_sel := t\<rparr>))"
    by (simp add: pop3_done_def unregister_fd_def)
  with ow c(2) no_mail_lessened [OF _ w1(4), of "owner t"] show ?thesis by (simp add: close_fd_def)
qed

section \<open>Shutting down\<close>

text \<open>
  The selector is destroyed descriptor by descriptor, so that a client's socket can go before its mail.
  What is left of ownership meanwhile is enough for the close callbacks.
\<close>

definition closable :: "world \<Rightarrow> bool" where
  "closable w \<longleftrightarrow> world_ok w \<and> listed w \<and> admins_owned w
     \<and> (\<forall>fd d. owner (w_sel w) fd = Some (Some Pop3_handler, d) \<longrightarrow> socket_owned (w_conns w) fd d)"

lemma home_closable: "home w \<Longrightarrow> closable w"
  by (simp add: home_def housed_def closable_def owned_def)

lemma closable_socket:
  assumes "closable w" "owner (w_sel w) fd = Some (Some Pop3_handler, d)"
  shows "\<exists>a p. d = Some (Pop3_data a) \<and> w_conns w a = Some p \<and> client_fd p = fd"
  using assms unfolding closable_def socket_owned_def by blast

lemma closable_sel: "closable (w\<lparr>w_sel := s\<rparr>) \<longleftrightarrow> selector_inv s \<and> (\<forall>a p. w_conns w a = Some p \<longrightarrow> live p) \<and> listed w
    \<and> admins_owned (w\<lparr>w_sel := s\<rparr>) \<and> (\<forall>fd d. owner s fd = Some (Some Pop3_handler, d) \<longrightarrow> socket_owned (w_conns w) fd d)"
  by (auto simp: closable_def world_ok_def listed_def)

text \<open>
  The close callback of an item returns, and the rest of the world stays in order: \<open>r\<close> is the selector
  before, \<open>s\<close> after the item is gone.
\<close>

lemma session_closed:
  assumes "closable (w\<lparr>w_sel := r\<rparr>)" "owner r fd = Some (Some Pop3_handler, d)" "owner s = (owner r)(fd := None)" "selector_inv s"
  shows "\<exists>w'. pop3_close fd d w = Inr w' \<and> closable (w'\<lparr>w_sel := s\<rparr>) \<and> w_users w' = w_users w"
proof -
  from closable_socket [OF assms(1), of fd d] assms(2) obtain a p where
    a: "d = Some (Pop3_data a)" "w_conns w a = Some p" "client_fd p = fd" by auto
  from assms(1) have w: "listed w" "admins_owned (w\<lparr>w_sel := r\<rparr>)" "\<And>b q. w_conns w b = Some q \<Longrightarrow> live q"
    by (auto simp: closable_sel)
  from pop3_close_ok [OF w(1) w(3) [OF a(2)] a(2), of fd] obtain w' where
    w': "pop3_close fd d w = Inr w'" "w_users w' = w_users w" by (auto simp: a(1))
  from pop3_close_frees [OF w'(1) [unfolded a(1)] a(2)] a(3) have f: "frees fd w w'" by simp
  have sub: "w_conns w' b = Some q \<Longrightarrow> w_conns w b = Some q" for b q
    using f by (auto simp: frees_def split: if_splits)
  have "listed w'" by (rule listed_less [OF w(1)]) (use f in \<open>auto simp: frees_def\<close>)
  moreover have "admins_owned (w'\<lparr>w_sel := s\<rparr>)"
    using w(2) f by (simp add: admins_owned_def admin_owned_def frees_def assms(3))
  moreover have "socket_owned (w_conns w') g e" if "owner s g = Some (Some Pop3_handler, e)" for g e
  proof -
    from that have g: "g \<noteq> fd" "owner r g = Some (Some Pop3_handler, e)" by (auto simp: assms(3) split: if_splits)
    with closable_socket [OF assms(1), of g e] obtain b q where
      b: "e = Some (Pop3_data b)" "w_conns w b = Some q" "client_fd q = g" by auto
    with f g(1) have "w_conns w' b = Some q" by (auto simp: frees_def)
    with b show ?thesis by (simp add: socket_owned_def)
  qed
  ultimately have "closable (w'\<lparr>w_sel := s\<rparr>)" using assms(4) w(3) sub unfolding closable_sel by blast
  with w' show ?thesis by blast
qed

lemma admin_closed:
  assumes "closable (w\<lparr>w_sel := r\<rparr>)" "owner r fd = Some (Some Monitor_handler, d)" "owner s = (owner r)(fd := None)" "selector_inv s"
  shows "\<exists>w'. monitor_close fd d w = Inr w' \<and> closable (w'\<lparr>w_sel := s\<rparr>) \<and> w_users w' = w_users w"
proof -
  have mine: "admin_owned w g e" if "owner r g = Some (Some Monitor_handler, e)" for g e
    using assms(1) that by (simp add: closable_sel admins_owned_def admin_owned_def)
  from mine [OF assms(2)] obtain a ac where
    a: "d = Some (Admin_data a)" "w_admins w a = Some ac" "ac_fd ac = fd" "a \<notin> set (pool w)"
    unfolding admin_owned_def by blast
  let ?v = "w\<lparr>w_sel := s\<rparr>" and ?d = "admin_connection_destroy (Some a)"
  have o: "owner s g = Some x \<Longrightarrow> g \<noteq> fd \<and> owner r g = Some x" for g x by (simp add: assms(3) split: if_splits)
  have v: "admins_owned ?v" using assms(1) by (simp add: closable_sel admins_owned_def admin_owned_def assms(3))
  have "loose ?v a"
    unfolding loose_def
  proof (intro conjI allI notI)
    fix g
    assume "owner (w_sel ?v) g = Some (admin_of a)"
    with o [of g] have g: "g \<noteq> fd" "owner r g = Some (admin_of a)" by simp_all
    from mine [OF g(2)] a(2,3) g(1) show False by (simp add: admin_owned_def)
  qed (use a in simp_all)
  from admin_destroy_owned [OF v this] have "admins_owned (?d ?v)" .
  moreover have "?d ?v = (?d w)\<lparr>w_sel := s\<rparr>" by (simp add: admin_connection_destroy_def)
  moreover have "w_conns (?d w) = w_conns w" "listed (?d w) = listed w" "w_users (?d w) = w_users w"
    by (simp_all add: admin_connection_destroy_def listed_def)
  ultimately have "closable ((?d w)\<lparr>w_sel := s\<rparr>)"
    using assms(1,4) o by (simp add: closable_sel)
  then show ?thesis using a(1) by (simp add: monitor_close_def admin_connection_destroy_def)
qed

lemma item_closed:
  assumes "closable (w\<lparr>w_sel := r\<rparr>)" "owner r fd = Some (Some h, d)" "owner s = (owner r)(fd := None)" "selector_inv s"
  shows "\<exists>w'. (case handle_close h of None \<Rightarrow> Inr w | Some f \<Rightarrow> f fd d w) = Inr w' \<and> closable (w'\<lparr>w_sel := s\<rparr>)
    \<and> w_users w' = w_users w"
proof (cases "h \<in> {Pop3_handler, Monitor_handler}")
  case True
  with session_closed [OF assms(1) _ assms(3,4)] admin_closed [OF assms(1) _ assms(3,4)] assms(2)
  show ?thesis by (auto simp: handle_close_def)
next
  case False
  have o: "owner s g = Some x \<Longrightarrow> owner r g = Some x" for g x by (simp add: assms(3) split: if_splits)
  with assms(1,4) have "closable (w\<lparr>w_sel := s\<rparr>)"
    by (simp add: closable_sel admins_owned_def admin_owned_def)
  with no_close [OF False] show ?thesis by auto
qed

text \<open>One turn of the loop of \<open>selector_destroy\<close>, and the loop.\<close>

definition destroy_item :: "int \<Rightarrow> (fd_handler, attachment) fdselector \<times> world \<Rightarrow> ((fd_handler, attachment) fdselector \<times> world) res" where
  "destroy_item i = (\<lambda>(s, w). rbind (item_at s i) (\<lambda>item.
     if ITEM_USED item then rbind (selector_unregister_fd handle_close s i w) (\<lambda>(_, s, w). Inr (s, w)) else Inr (s, w)))"

lemma destroy_item_ok:
  assumes "closable (w\<lparr>w_sel := s\<rparr>)" "0 \<le> i" "i < int (s_fd_size s)"
  shows "\<exists>s' w'. destroy_item i (s, w) = Inr (s', w') \<and> closable (w'\<lparr>w_sel := s'\<rparr>) \<and> s_fd_size s' = s_fd_size s
    \<and> w_users w' = w_users w"
proof -
  from assms(1) have inv: "selector_inv s" by (simp add: closable_sel)
  then have t: "table_ok s" and io: "items_ok s" by (simp_all add: selector_inv_def)
  from item_at_registered [OF t assms(2,3)] obtain it where
    it: "item_at s i = Inr it" "registered s i = (if ITEM_USED it then Some it else None)" by blast
  show ?thesis
  proof (cases "ITEM_USED it")
    case False
    with it assms(1) show ?thesis by (simp add: destroy_item_def)
  next
    case True
    with it have r: "registered s i = Some it" by simp
    with io obtain h where h: "it_handler it = Some h" unfolding items_ok_def by blast
    with r have o: "owner s i = Some (Some h, it_data it)" by (simp add: owner_def)
    from unregister_ok [where close = "\<lambda>_. None" and w = w and w' = w, OF inv r] obtain u where
      u: "selector_inv u" "registered u = (registered s)(i := None)" by auto
    then have "owner u = (owner s)(i := None)" by (auto simp: owner_def fun_eq_iff)
    from item_closed [OF assms(1) o this u(1)] obtain w' where
      w': "(case handle_close h of None \<Rightarrow> Inr w | Some f \<Rightarrow> f i (it_data it) w) = Inr w'" by blast
    from unregister_ok [where close = handle_close and w = w and w' = w', OF inv r] h w' obtain s' where
      s': "selector_unregister_fd handle_close s i w = Inr (SELECTOR_SUCCESS, s', w')" "selector_inv s'"
        "registered s' = (registered s)(i := None)" "s_fd_size s' = s_fd_size s" by auto
    from s'(3) have "owner s' = (owner s)(i := None)" by (auto simp: owner_def fun_eq_iff)
    from item_closed [OF assms(1) o this s'(2)] w' have "closable (w'\<lparr>w_sel := s'\<rparr>)" "w_users w' = w_users w" by auto
    with it(1) True s'(1,4) show ?thesis by (simp add: destroy_item_def)
  qed
qed

lemma destroy_items_ok:
  assumes "closable (w\<lparr>w_sel := s\<rparr>)" "\<forall>i \<in> set is. 0 \<le> i \<and> i < int (s_fd_size s)"
  shows "\<exists>s' w'. iterate_from destroy_item is (s, w) = Inr (s', w') \<and> closable (w'\<lparr>w_sel := s'\<rparr>) \<and> w_users w' = w_users w"
  using assms
proof (induction "is" arbitrary: s w)
  case (Cons i "is")
  from Cons.prems destroy_item_ok [where w = w and s = s and i = i] obtain s1 w1 where
    1: "destroy_item i (s, w) = Inr (s1, w1)" "closable (w1\<lparr>w_sel := s1\<rparr>)" "s_fd_size s1 = s_fd_size s" "w_users w1 = w_users w"
    by auto
  with Cons.IH [OF 1(2)] Cons.prems(2) show ?case by simp
qed simp

lemma pool_free_ok: "distinct as \<Longrightarrow> \<forall>a \<in> set as. c a \<noteq> None \<Longrightarrow> \<exists>c'. pool_free c as = Inr c'"
proof (induction as arbitrary: c)
  case (Cons a as)
  from Cons.prems obtain ac where ac: "c a = Some ac" by auto
  have "\<exists>c'. pool_free (c(a := None)) as = Inr c'" by (rule Cons.IH) (use Cons.prems in auto)
  with ac show ?case by simp
qed simp

lemma destroy_ok:
  assumes "closable w"
  shows "\<exists>s w'. selector_destroy handle_close (w_sel w) w = Inr (s, w') \<and> w_users w' = w_users w
    \<and> (\<exists>w''. admin_connection_pool_destroy (w'\<lparr>w_sel := s\<rparr>) = Inr w'' \<and> w_users w'' = w_users w)"
proof -
  have "w\<lparr>w_sel := w_sel w\<rparr> = w" by simp
  with assms have c: "closable (w\<lparr>w_sel := w_sel w\<rparr>)" by simp
  then have "selector_inv (w_sel w)" unfolding closable_sel by blast
  then obtain fds where fds: "s_fds (w_sel w) = Some fds" by (auto simp: selector_inv_def table_ok_def)
  from destroy_items_ok [OF c, of "[0..int (s_fd_size (w_sel w)) - 1]"] obtain s w' where
    s: "iterate_from destroy_item [0..int (s_fd_size (w_sel w)) - 1] (w_sel w, w) = Inr (s, w')"
      "closable (w'\<lparr>w_sel := s\<rparr>)" "w_users w' = w_users w" by auto
  from s(2) have "distinct (pool w')" "\<forall>a \<in> set (pool w'). w_admins w' a \<noteq> None"
    by (simp_all add: closable_sel admins_owned_def)
  from pool_free_ok [OF this] obtain ad where "pool_free (w_admins w') (pool w') = Inr ad" by blast
  with s(1,3) fds show ?thesis
    by (simp add: selector_destroy_def destroy_item_def [abs_def] admin_connection_pool_destroy_def)
qed

section \<open>A state with a client\<close>

lemma honest_read:
  assumes "selector_inv (w_sel w)" "resolution_jobs (w_sel w) = []"
    and "registered (w_sel w) fd = Some it" "wants (it_interest it) OP_READ" "it_handler it = Some h"
    and "reader h (a_read an fd) fd (it_data it) w = Inr w'" "selector_inv (w_sel w')" "grows (w_sel w) (w_sel w')"
    and "trusted fd (a_read an fd) w"
  shows "honest_round (Ready {fd} {}) an w"
proof -
  from assms(1,3) have it: "it_fd it = fd" "item_at (w_sel w) fd = Inr it" "ITEM_USED it"
    using item_at_some [of "w_sel w" fd it] registered_range [of "w_sel w" fd it] by (auto simp: selector_inv_def items_ok_def)
  have w: "w\<lparr>w_sel := w_sel w\<rparr> = w" by simp
  from it w assms(4-6) have 1: "iteration_step (server_callbacks an) {fd} {} fd (w_sel w, w) = Inr (w_sel w', w')"
    by (simp add: iteration_step_def server_callbacks_def on_world_def)
  from it w assms(4-6,9) have 2: "iteration_step (watched an) {fd} {} fd (w_sel w, w) = Inr (w_sel w', w')"
    by (simp add: iteration_step_def watched_def server_callbacks_def on_world_def watch_def)
  from select_only_ready [OF assms(1,7) _ _ assms(3) _ _ 1] select_only_ready [OF assms(1,7) _ _ assms(3) _ _ 2] assms(2,8)
  show ?thesis by (simp add: honest_round_def grows_def)
qed

lemma example_handed_out: "handed_out (example_io bs) fd \<longleftrightarrow> fd = 9"
  by (auto simp: handed_out_def example_io_def example_os_def)

lemma example_client:
  "\<exists>w a. served example_boot INITIAL_PATH w \<and> w_conns w a = Some (pop3_zero 9) \<and> owner (w_sel w) 9 = Some (socket_of a)"
proof -
  from main_setup_run [OF example_boots, of 1110 INITIAL_PATH] obtain m where
    m: "main_setup example_boot (main_start 1110 INITIAL_PATH) = Inr (Inr m)" "listening (sockets 3 4 5 6) (w_sel (m_world m))"
      "w_conns (m_world m) = Map.empty" "head_connection (m_world m) = []" by blast
  let ?w = "m_world m" and ?an = "example_answers" and ?io = "example_io []"
  from m(2) have w: "selector_inv (w_sel ?w)" "resolution_jobs (w_sel ?w) = []"
    "registered (w_sel ?w) 3 = Some (passive_item 3 Pop3_passive)" "usable_fd (w_sel ?w) 9" "registered (w_sel ?w) 9 = None"
    by (simp_all add: listening_def sockets_def usable_fd_def INVALID_FD_def ITEMS_MAX_SIZE_def)
  have an: "a_read ?an 3 = ?io" "io_accept ?io = 9" "io_mem ?io" "io_nio ?io"
    by (simp_all add: example_answers_def example_io_def)
  from accept_run [OF w(1) an(2) _ an(3,4) w(4,5)] m(4) obtain s where
    a: "pop3_passive_accept ?io ?w = Inr (?w\<lparr>w_next := Suc (w_next ?w), connections := connections ?w + 1,
      historic_connections := historic_connections ?w + 1, head_connection := head_connection ?w @ [w_next ?w],
      w_conns := (w_conns ?w)(w_next ?w \<mapsto> pop3_zero 9), w_sel := s\<rparr>)" "selector_inv s" "grows (w_sel ?w) s"
    "registered s = (registered (w_sel ?w))(9 \<mapsto>
      \<lparr>it_fd = 9, it_interest = OP_WRITE, it_handler = Some Pop3_handler, it_data = Some (Pop3_data (w_next ?w))\<rparr>)"
    by auto
  have t: "trusted 3 (a_read ?an 3) ?w"
    using w(5) m(3) an(1) by (simp add: trusted_def honest_def fair_def example_handed_out unclaimed_def owner_def)
  let ?v = "?w\<lparr>w_next := Suc (w_next ?w), connections := connections ?w + 1,
      historic_connections := historic_connections ?w + 1, head_connection := head_connection ?w @ [w_next ?w],
      w_conns := (w_conns ?w)(w_next ?w \<mapsto> pop3_zero 9), w_sel := s\<rparr>"
  have r: "reader Pop3_passive (a_read ?an 3) 3 (it_data (passive_item 3 Pop3_passive)) ?w = Inr ?v"
    using a(1) an(1) by (simp add: reader_def)
  have p: "wants (it_interest (passive_item 3 Pop3_passive)) OP_READ" "it_handler (passive_item 3 Pop3_passive) = Some Pop3_passive"
    by (simp_all add: passive_item_def)
  have "honest_round (Ready {3} {}) ?an ?w"
    by (rule honest_read [OF w(1-3) p r _ _ t]) (use a(2,3) in simp_all)
  moreover have "serve_round (Ready {3} {}) ?an ?w = Inr (SELECTOR_SUCCESS, ?v)"
    by (rule serve_read(1) [OF w(1-3) p r]) (use a(2,3) in simp_all)
  ultimately have "served example_boot INITIAL_PATH ?v" using served.intros [where b = example_boot] m(1) by blast
  moreover have "owner (w_sel ?v) 9 = Some (socket_of (w_next ?w))" using a(4) by (simp add: owner_def)
  ultimately show ?thesis by (intro exI [of _ ?v] exI [of _ "w_next ?w"]) simp
qed

section \<open>Properties\<close>

text \<open>
  C2. As long as the system never hands out a descriptor in use, the data pointer of every registered
  descriptor but the standard input is that of a live connection that knows the descriptor: of a client's
  socket, the session with that socket; of a mail, the session that selected it and whose socket is
  registered, and no other session has selected it; of an administrator's socket, a connection that is
  not in the pool of free ones.
\<close>

theorem registered_descriptors_are_owned:
  assumes "served b path w" "owner (w_sel w) fd = Some (Some h, d)" "fd \<noteq> 0"
  shows "case h of
      Pop3_handler \<Rightarrow> \<exists>a p. d = Some (Pop3_data a) \<and> w_conns w a = Some p \<and> client_fd p = fd
    | Mail_handler \<Rightarrow> \<exists>a p. d = Some (Pop3_data a) \<and> w_conns w a = Some p \<and> selected_mail_fd p = fd
        \<and> owner (w_sel w) (client_fd p) = Some (Some Pop3_handler, d)
        \<and> (\<forall>b q. w_conns w b = Some q \<longrightarrow> selected_mail_fd q = fd \<longrightarrow> b = a)
    | Monitor_handler \<Rightarrow> \<exists>a ac. d = Some (Admin_data a) \<and> w_admins w a = Some ac \<and> ac_fd ac = fd \<and> a \<notin> set (pool w)
    | _ \<Rightarrow> True"
proof -
  from served_home [OF assms(1)] have w: "housed w" "owned (owner (w_sel w)) (w_conns w)"
    by (simp_all add: home_def housed_def)
  show ?thesis
  proof (cases h)
    case Pop3_handler
    from owned_socket [OF w(2)] assms(2) show ?thesis unfolding Pop3_handler fd_handler.case by blast
  next
    case Mail_handler
    from owned_mail [OF w(2) assms(3)] assms(2) obtain a p where
      a: "d = Some (Pop3_data a)" "w_conns w a = Some p" "selected_mail_fd p = fd" "owner (w_sel w) (client_fd p) = Some (socket_of a)"
      unfolding Mail_handler by blast
    from a(3) assms(3) have "selected_mail_fd p \<noteq> 0" by simp
    from owned_selected [OF w(2) a(2) this] have "\<forall>b q. w_conns w b = Some q \<longrightarrow> selected_mail_fd q = fd \<longrightarrow> b = a"
      unfolding selection_owned_def a(3) by (rule conjunct2)
    with a show ?thesis unfolding Mail_handler fd_handler.case by blast
  next
    case Monitor_handler
    from owned_admin [OF w(1)] assms(2) show ?thesis unfolding Monitor_handler fd_handler.case by blast
  qed simp_all
qed

theorem registered_descriptors_are_owned_witness:
  "\<exists>w a p. served example_boot INITIAL_PATH w \<and> owner (w_sel w) 9 = Some (Some Pop3_handler, Some (Pop3_data a))
    \<and> w_conns w a = Some p \<and> client_fd p = 9"
proof -
  from example_client obtain w a where w: "served example_boot INITIAL_PATH w" "owner (w_sel w) 9 = Some (socket_of a)" by blast
  from registered_descriptors_are_owned [OF w] w show ?thesis by auto
qed

text \<open>
  C2. In such a state the session behind a registered client's socket can be ended, provided the descriptor of
  its mail is inside the table: \<open>pop3_done\<close> does not abort, closes exactly that socket, and neither the
  socket nor a mail of the session is registered afterwards.
\<close>

theorem session_can_end:
  assumes "served b path w" "owner (w_sel w) fd = Some (Some Pop3_handler, Some (Pop3_data a))"
    and "w_conns w a = Some p" "selected_mail_fd p < int (s_fd_size (w_sel w))"
  shows "\<exists>w'. pop3_done a w = Inr w' \<and> owner (w_sel w') fd = None \<and> w_closed w' = w_closed w @ [fd]
    \<and> (\<forall>g. g \<noteq> 0 \<longrightarrow> owner (w_sel w') g \<noteq> Some (Some Mail_handler, Some (Pop3_data a)))"
proof -
  note h = served_home [OF assms(1)]
  then have "owned (owner (w_sel w)) (w_conns w)" by (simp add: home_def housed_def)
  from owned_socket [OF this assms(2)] assms(3) have "client_fd p = fd" by simp
  with pop3_done_ok [OF h assms(3) _ assms(4)] assms(2) show ?thesis by (auto simp: no_mail_def)
qed

theorem session_can_end_witness:
  "\<exists>w a w'. served example_boot INITIAL_PATH w \<and> owner (w_sel w) 9 = Some (Some Pop3_handler, Some (Pop3_data a))
    \<and> pop3_done a w = Inr w' \<and> owner (w_sel w') 9 = None \<and> w_closed w' = w_closed w @ [9]"
proof -
  from example_client obtain w a where
    w: "served example_boot INITIAL_PATH w" "w_conns w a = Some (pop3_zero 9)" "owner (w_sel w) 9 = Some (socket_of a)" by blast
  from served_home [OF w(1)] have "table_ok (w_sel w)" by (simp add: home_def world_ok_def selector_inv_def)
  then have "selected_mail_fd (pop3_zero 9) < int (s_fd_size (w_sel w))" by (simp add: pop3_zero_def table_ok_def)
  from session_can_end [OF w(1,3,2) this] w(1,3) show ?thesis by blast
qed

text \<open>
  C4. From such a state the server can be shut down, whatever is still open, as long as its list of users is
  intact: every close callback and the freeing of the pool of administrators' connections and of the users
  return, and the exit code is the one of the last status and message.
\<close>

theorem server_shuts_down:
  assumes "served b path (m_world m)" "has_selector m" "users_are (w_users (m_world m)) xs"
  shows "\<exists>w. main_finally m = Inr (if ss m \<noteq> SELECTOR_SUCCESS then 2 else if err_msg m \<noteq> None then 1 else 0, w)"
proof -
  from destroy_ok [OF home_closable [OF served_home [OF assms(1)]]] obtain s w1 w2 where
    w: "selector_destroy handle_close (w_sel (m_world m)) (m_world m) = Inr (s, w1)"
      "admin_connection_pool_destroy (w1\<lparr>w_sel := s\<rparr>) = Inr w2" "w_users w2 = w_users (m_world m)" by blast
  from unregister_clients_ok [OF assms(3)] obtain db where "unregister_clients (w_users (m_world m)) = Inr db" by blast
  with w assms(2) show ?thesis by (simp add: main_finally_def Let_def)
qed

theorem server_shuts_down_witness:
  "\<exists>m w. main_setup example_boot (main_start 1110 INITIAL_PATH) = Inr (Inr m) \<and> main_finally m = Inr (0, w)"
proof -
  from main_setup_run [OF example_boots, of 1110 INITIAL_PATH] obtain m where
    m: "main_setup example_boot (main_start 1110 INITIAL_PATH) = Inr (Inr m)" "has_selector m" "ss m = SELECTOR_SUCCESS"
      "err_msg m = None" "users_are (w_users (m_world m)) [(str ''foo'', str ''bar'')]" by blast
  from server_shuts_down [OF served.start [OF m(1)] m(2,5)] m show ?thesis by auto
qed

end
