(* ===== verification/Turns.thy ===== *)
theory Turns
  imports Service Delivery
begin

text \<open>
  One event of a session in exact terms: what \<open>pop3_read\<close> and \<open>pop3_write\<close> make of the program when whole
  lines arrive, a reply goes out, a mail is opened, read and sent.
\<close>

section \<open>Turns\<close>

definition env_of :: "io \<Rightarrow> world \<Rightarrow> command_env" where
  "env_of io w = \<lparr>ce_os = io_os io, ce_users = w_users w, ce_maildir = w_maildir w\<rparr>"

definition client_item :: "int \<Rightarrow> fd_interest \<Rightarrow> nat \<Rightarrow> (fd_handler, attachment) item" where
  "client_item fd i a = \<lparr>it_fd = fd, it_interest = i, it_handler = Some Pop3_handler, it_data = Some (Pop3_data a)\<rparr>"

definition mail_item :: "int \<Rightarrow> fd_interest \<Rightarrow> nat \<Rightarrow> (fd_handler, attachment) item" where
  "mail_item m i a = \<lparr>it_fd = m, it_interest = i, it_handler = Some Mail_handler, it_data = Some (Pop3_data a)\<rparr>"

text \<open>
  Between two events: the session \<open>a\<close> behind the socket \<open>fd\<close> is \<open>p\<close>, in the state \<open>st\<close>, and the
  socket has the interest \<open>i\<close>.
\<close>

definition stands :: "int \<Rightarrow> fd_interest \<Rightarrow> nat \<Rightarrow> nat \<Rightarrow> world \<Rightarrow> pop3 \<Rightarrow> bool" where
  "stands fd i a st w p \<longleftrightarrow> selector_inv (w_sel w) \<and> resolution_jobs (w_sel w) = []
     \<and> registered (w_sel w) fd = Some (client_item fd i a) \<and> w_conns w a = Some p \<and> p_stm p = Some st
     \<and> client_fd p = fd"

text \<open>The server waits for the next command.\<close>

definition at_prompt :: "int \<Rightarrow> nat \<Rightarrow> nat \<Rightarrow> world \<Rightarrow> pop3 \<Rightarrow> bool" where
  "at_prompt fd a st w p \<longleftrightarrow> stands fd OP_READ a st w p \<and> client p = State_st \<and> p_parser p = create_parser
     \<and> drained (read_buffer p) \<and> drained (write_buffer p)"

definition lines_of :: "byte list list \<Rightarrow> byte list" where
  "lines_of ls = concat (List.map (\<lambda>l. l @ crlf) ls)"

text \<open>Whole lines arrive at the prompt.\<close>

lemma read_turn:
  assumes "at_prompt fd a st w p" "io_recv io = Some (lines_of ls)" "ls \<noteq> []" "\<forall>l \<in> set ls. CR \<notin> set l"
    and "length (lines_of ls) \<le> BUFFER_SIZE" "run_lines (env_of io w) st ls (st, p) = Inr (nx, q)"
  shows "\<exists>s b. client_read st \<lparr>k_fd = fd, k_self = a, k_io = io, k_p3 = p, k_world = w\<rparr>
      = Inr (nx, \<lparr>k_fd = fd, k_self = a, k_io = io, k_p3 = q\<lparr>read_buffer := b\<rparr>, k_world = w\<lparr>w_sel := s\<rparr>\<rparr>)
    \<and> drained b \<and> selector_inv s \<and> grows (w_sel w) s
    \<and> registered s = (registered (w_sel w))(fd \<mapsto> client_item fd OP_WRITE a)"
proof -
  let ?k = "\<lparr>k_fd = fd, k_self = a, k_io = io, k_p3 = p, k_world = w\<rparr>"
  from assms(1) have p: "selector_inv (w_sel w)" "registered (w_sel w) fd = Some (client_item fd OP_READ a)"
    "client p = State_st" "p_parser p = create_parser" "drained (read_buffer p)"
    by (simp_all add: at_prompt_def stands_def)
  have rb: "buffer_inv (read_buffer p)" "content (read_buffer p) = []" "room (read_buffer p) = BUFFER_SIZE"
    using drainedD [OF p(5)] by simp_all
  have arr: "lines_arrived ?k ls"
    using p rb assms(2-5) by (simp add: lines_arrived_def selectable_def lines_of_def)
  have env: "key_env ?k = env_of io w" by (simp add: key_env_def env_of_def)
  from lines_read [OF arr, of st] assms(6) obtain b k' where
    r: "client_read st ?k = Inr (nx, k')" "content b = []" "waiting_to_write ?k (q\<lparr>read_buffer := b\<rparr>) k'"
    unfolding env by auto
  from r(3) obtain s where
    s: "k' = ?k\<lparr>k_p3 := q\<lparr>read_buffer := b\<rparr>, k_world := w\<lparr>w_sel := s\<rparr>\<rparr>" "selector_inv s" "grows (w_sel w) s"
      "registered s = (registered (w_sel w))(fd \<mapsto> (client_item fd OP_READ a)\<lparr>it_interest := OP_WRITE\<rparr>)"
    unfolding waiting_to_write_def using p(2) by auto
  have "steady b" using client_read_steady [OF r(1)] p(5) s(1) by (simp add: drained_def)
  with r(2) have "drained b" by (simp add: drained_def)
  with r(1) s show ?thesis by (intro exI [of _ s] exI [of _ b]) (simp add: client_item_def)
qed

text \<open>One event of the machine whose callback returns; a session that does not end stays in the heap.\<close>

lemma machine_turn:
  assumes "cur \<le> ERROR" "callback (client_statbl ! cur) = Some h" "h cur k = Inr (ret, k1)" "ret \<le> ERROR"
    and "if ret = cur then k2 = k1 else call_hook (on_arrival (client_statbl ! ret)) ret k1 = Inr k2"
  shows "stm_handler callback (pop3_stm (Some cur)) k = Inr (ret, pop3_stm (Some ret), k2)"
proof -
  have tbl: "length client_statbl = 7" by (simp add: client_statbl_def)
  have num: "sd_state (client_statbl ! i) = i" if "i \<le> ERROR" for i using that tbl sm.numbered [of i] by simp
  have dep: "on_departure (client_statbl ! cur) = None"
    using assms(1) by (auto simp: client_statbl_def no_state_def nth_Cons split: nat.split)
  have "jump (pop3_stm (Some cur)) ret k1 = Inr (pop3_stm (Some ret), k2)"
    using assms(1,4,5) tbl num [of ret] dep
    by (auto simp: jump_def pop3_stm_def load_at_def call_hook_def split: if_splits option.splits)
  then show ?thesis
    using assms(1-3) tbl num [of cur]
    by (simp add: stm_handler_def handle_first_def) (simp add: pop3_stm_def load_at_def)
qed

lemma turn:
  assumes "w_conns w a = Some p" "p_stm p = Some cur" "cur \<le> ERROR" "callback (client_statbl ! cur) = Some h"
    and "h cur \<lparr>k_fd = fd, k_self = a, k_io = io, k_p3 = p, k_world = w\<rparr> = Inr (ret, k1)" "ret < DONE"
    and "if ret = cur then k2 = k1 else call_hook (on_arrival (client_statbl ! ret)) ret k1 = Inr k2"
  shows "pop3_event (stm_handler callback) io fd (Some (Pop3_data a)) w
    = Inr ((k_world k2)\<lparr>w_conns := (w_conns (k_world k2))(a \<mapsto> (k_p3 k2)\<lparr>p_stm := Some ret\<rparr>)\<rparr>)"
  using machine_turn [where callback = callback and h = h, OF assms(3-5) _ assms(7)] assms(1,2,6)
  by (simp add: pop3_event_def Let_def) (simp add: pop3_stm_def)

lemma last_turn:
  assumes "w_conns w a = Some p" "p_stm p = Some cur" "cur < DONE" "callback (client_statbl ! cur) = Some h"
    and "h cur \<lparr>k_fd = fd, k_self = a, k_io = io, k_p3 = p, k_world = w\<rparr> = Inr (DONE, k1)"
  shows "pop3_event (stm_handler callback) io fd (Some (Pop3_data a)) w
    = pop3_done a ((k_world k1)\<lparr>w_conns := (w_conns (k_world k1))(a \<mapsto> (k_p3 k1)\<lparr>p_stm := Some DONE\<rparr>)\<rparr>)"
proof -
  have "if DONE = cur then k1 = k1 else call_hook (on_arrival (client_statbl ! DONE)) DONE k1 = Inr k1"
    by (simp add: client_statbl_def call_hook_def close_connection_def)
  with machine_turn [where callback = callback and h = h, OF _ assms(4,5)] assms(1-3) show ?thesis
    by (simp add: pop3_event_def Let_def) (simp add: pop3_stm_def)
qed

text \<open>Commands that stay, and the one that logs in.\<close>

lemma command_turn:
  assumes "at_prompt fd a st w p" "io_recv io = Some (lines_of ls)" "ls \<noteq> []" "\<forall>l \<in> set ls. CR \<notin> set l"
    and "length (lines_of ls) \<le> BUFFER_SIZE" "run_lines (env_of io w) st ls (st, p) = Inr (nx, q)"
    and "st = nx \<and> st < 2 \<or> st = AUTH \<and> nx = TRANSACTION" "client q = State_st"
  shows "\<exists>s b. pop3_read io fd (Some (Pop3_data a)) w
      = Inr (w\<lparr>w_sel := s, w_conns := (w_conns w)(a \<mapsto> q\<lparr>read_buffer := b, p_stm := Some nx\<rparr>)\<rparr>)
    \<and> drained b \<and> selector_inv s \<and> grows (w_sel w) s
    \<and> registered s = (registered (w_sel w))(fd \<mapsto> client_item fd OP_WRITE a)"
proof -
  from read_turn [OF assms(1-6)] obtain s b where
    r: "client_read st \<lparr>k_fd = fd, k_self = a, k_io = io, k_p3 = p, k_world = w\<rparr>
      = Inr (nx, \<lparr>k_fd = fd, k_self = a, k_io = io, k_p3 = q\<lparr>read_buffer := b\<rparr>, k_world = w\<lparr>w_sel := s\<rparr>\<rparr>)"
      "drained b" "selector_inv s" "grows (w_sel w) s"
      "registered s = (registered (w_sel w))(fd \<mapsto> client_item fd OP_WRITE a)" by blast
  let ?k1 = "\<lparr>k_fd = fd, k_self = a, k_io = io, k_p3 = q\<lparr>read_buffer := b\<rparr>, k_world = w\<lparr>w_sel := s\<rparr>\<rparr>"
  from assms(1) have p: "w_conns w a = Some p" "p_stm p = Some st" by (simp_all add: at_prompt_def stands_def)
  have h: "on_read_ready (client_statbl ! st) = Some client_read"
    using assms(7) by (auto simp: client_statbl_def nth_Cons less_Suc_eq numeral_2_eq_2)
  have "(k_p3 ?k1)\<lparr>client := State_st\<rparr> = k_p3 ?k1" using assms(8) by simp
  then have j: "if nx = st then ?k1 = ?k1 else call_hook (on_arrival (client_statbl ! nx)) nx ?k1 = Inr ?k1"
    using assms(7) by (auto simp: client_statbl_def call_hook_def trans_init_def)
  have "st \<le> ERROR" "nx < DONE" using assms(7) by auto
  from turn [where callback = on_read_ready and h = client_read, OF p this(1) h r(1) this(2) j] r(2-5) show ?thesis
    by (intro exI [of _ s] exI [of _ b]) (simp add: pop3_read_def stm_handler_read_def)
qed

text \<open>What a session and the selector are after the answer has gone out.\<close>

definition answered :: "int \<Rightarrow> nat \<Rightarrow> pop3 \<Rightarrow> world \<Rightarrow> world \<Rightarrow> bool" where
  "answered fd a p w w' \<longleftrightarrow> (\<exists>s b t. w' = w\<lparr>w_sent := w_sent w @ [(fd, content (write_buffer p))], transfer_bytes := t,
       w_sel := s, w_conns := (w_conns w)(a \<mapsto> p\<lparr>write_buffer := b\<rparr>)\<rparr>
     \<and> drained b \<and> selector_inv s \<and> grows (w_sel w) s
     \<and> registered s = (registered (w_sel w))(fd \<mapsto> client_item fd OP_READ a))"

lemma write_turn:
  assumes "stands fd OP_WRITE a st w p" "steady (write_buffer p)" "io_send io = Some n" "length (content (write_buffer p)) \<le> n"
    and "st < 2 \<and> client p = State_st \<or> st = READING_MAIL \<and> client p = Mail_st m fd \<and> mail_done p = 0"
  shows "\<exists>w'. pop3_write io fd (Some (Pop3_data a)) w = Inr w' \<and> answered fd a p w w'"
proof -
  let ?k = "\<lparr>k_fd = fd, k_self = a, k_io = io, k_p3 = p, k_world = w\<rparr>" and ?c = "content (write_buffer p)"
  from assms(1) have p: "w_conns w a = Some p" "p_stm p = Some st" "selector_inv (w_sel w)"
    "registered (w_sel w) fd = Some (client_item fd OP_WRITE a)" by (simp_all add: stands_def)
  have inv: "buffer_inv (write_buffer p)" using assms(2) by (simp add: steady_def)
  from send_all [of ?k "client_item fd OP_WRITE a" n fd] p(3,4) assms(2,4) obtain k1 b s t where
    snd: "send_buffer fd n ?k = Inr k1" "write_buffer (k_p3 k1) = b" "drained b" "\<not> buffer_can_read b"
      "key_set_interest OP_READ k1 = Inr (SELECTOR_SUCCESS, ?k\<lparr>k_p3 := p\<lparr>write_buffer := b\<rparr>,
        k_world := w\<lparr>w_sent := w_sent w @ [(fd, ?c)], transfer_bytes := t, w_sel := s\<rparr>\<rparr>)"
      "selector_inv s" "grows (w_sel w) s" "registered s = (registered (w_sel w))(fd \<mapsto> client_item fd OP_READ a)"
    by (auto simp: client_item_def)
  let ?k2 = "?k\<lparr>k_p3 := p\<lparr>write_buffer := b\<rparr>, k_world := w\<lparr>w_sent := w_sent w @ [(fd, ?c)], transfer_bytes := t, w_sel := s\<rparr>\<rparr>"
  have st: "st \<le> ERROR" "st < DONE" using assms(5) by auto
  have "\<exists>h. on_write_ready (client_statbl ! st) = Some h \<and> h st ?k = Inr (st, ?k2)"
    using assms(5)
  proof
    assume s: "st < 2 \<and> client p = State_st"
    then have "on_write_ready (client_statbl ! st) = Some client_write"
      by (auto simp: client_statbl_def nth_Cons less_Suc_eq numeral_2_eq_2)
    moreover have "client_write st ?k = Inr (st, ?k2)"
      using s assms(3) inv snd by (simp add: client_write_def client_buffers_def)
    ultimately show ?thesis by blast
  next
    assume s: "st = READING_MAIL \<and> client p = Mail_st m fd \<and> mail_done p = 0"
    then have "on_write_ready (client_statbl ! st) = Some mail_write" by (simp add: client_statbl_def)
    moreover have "mail_write st ?k = Inr (st, ?k2)"
      using s assms(3) inv snd by (simp add: mail_write_def client_mail_def)
    ultimately show ?thesis by blast
  qed
  then obtain h where h: "on_write_ready (client_statbl ! st) = Some h" "h st ?k = Inr (st, ?k2)" by blast
  have "p\<lparr>write_buffer := b, p_stm := Some st\<rparr> = p\<lparr>write_buffer := b\<rparr>" using p(2) by simp
  with turn [where callback = on_write_ready and h = h, OF p(1,2) st(1) h st(2), of ?k2] snd(3,6-8) show ?thesis
    by (auto simp: pop3_write_def stm_handler_write_def answered_def)
qed

section \<open>A mail\<close>

text \<open>A descriptor inside the table that nothing is registered for.\<close>

definition free_fd :: "int \<Rightarrow> (fd_handler, attachment) fdselector \<Rightarrow> bool" where
  "free_fd m s \<longleftrightarrow> \<not> INVALID_FD m \<and> m < int (s_fd_size s) \<and> registered s m = None"

text \<open>The command that opens a mail registers the mail's descriptor.\<close>

lemma retr_turn:
  assumes "at_prompt fd a TRANSACTION w p" "io_recv io = Some (lines_of ls)" "ls \<noteq> []" "\<forall>l \<in> set ls. CR \<notin> set l"
    and "length (lines_of ls) \<le> BUFFER_SIZE" "run_lines (env_of io w) TRANSACTION ls (TRANSACTION, p) = Inr (READING_MAIL, q)"
    and "selected_mail_fd q = m" "client_fd q = fd" "io_mem io" "free_fd m (w_sel w)"
  shows "\<exists>s b. pop3_read io fd (Some (Pop3_data a)) w
      = Inr (w\<lparr>w_sel := s, w_conns := (w_conns w)(a \<mapsto> q\<lparr>read_buffer := b, client := Mail_st m fd, mail_done := 0,
          byte_stuffing_st := 0, p_stm := Some READING_MAIL\<rparr>)\<rparr>)
    \<and> drained b \<and> selector_inv s \<and> grows (w_sel w) s
    \<and> registered s = (registered (w_sel w))(fd \<mapsto> client_item fd OP_WRITE a, m \<mapsto> mail_item m OP_READ a)"
proof -
  let ?k = "\<lparr>k_fd = fd, k_self = a, k_io = io, k_p3 = p, k_world = w\<rparr>"
  from read_turn [OF assms(1-6)] obtain s b where
    r: "client_read TRANSACTION ?k = Inr (READING_MAIL, ?k\<lparr>k_p3 := q\<lparr>read_buffer := b\<rparr>, k_world := w\<lparr>w_sel := s\<rparr>\<rparr>)"
      "drained b" "selector_inv s" "grows (w_sel w) s"
      "registered s = (registered (w_sel w))(fd \<mapsto> client_item fd OP_WRITE a)" by auto
  let ?k1 = "?k\<lparr>k_p3 := q\<lparr>read_buffer := b\<rparr>, k_world := w\<lparr>w_sel := s\<rparr>\<rparr>"
  from assms(1) have p: "w_conns w a = Some p" "p_stm p = Some TRANSACTION"
    "registered (w_sel w) fd = Some (client_item fd OP_READ a)" by (simp_all add: at_prompt_def stands_def)
  with assms(10) have "m \<noteq> fd" by (auto simp: free_fd_def)
  then have "usable_fd s m" "registered s m = None"
    using assms(10) r(4,5) by (auto simp: free_fd_def usable_fd_def grows_def)
  with register_fd_run [of "w\<lparr>w_sel := s\<rparr>" m Mail_handler OP_READ "Some (Pop3_data a)"] r(3) obtain s2 where
    s2: "register_fd True m Mail_handler OP_READ (Some (Pop3_data a)) (w\<lparr>w_sel := s\<rparr>) = Inr (SELECTOR_SUCCESS, w\<lparr>w_sel := s2\<rparr>)"
      "selector_inv s2" "grows s s2" "registered s2 = (registered s)(m \<mapsto> mail_item m OP_READ a)"
    by (auto simp: mail_item_def)
  let ?k2 = "?k\<lparr>k_p3 := q\<lparr>read_buffer := b, client := Mail_st m fd, mail_done := 0, byte_stuffing_st := 0\<rparr>,
    k_world := w\<lparr>w_sel := s2\<rparr>\<rparr>"
  have "call_hook (on_arrival (client_statbl ! READING_MAIL)) READING_MAIL ?k1 = Inr ?k2"
    using s2(1) assms(7-9) by (simp add: client_statbl_def call_hook_def reading_init_def Let_def)
  then have j: "if READING_MAIL = TRANSACTION then ?k2 = ?k1
    else call_hook (on_arrival (client_statbl ! READING_MAIL)) READING_MAIL ?k1 = Inr ?k2" by simp
  have h: "TRANSACTION \<le> ERROR" "on_read_ready (client_statbl ! TRANSACTION) = Some client_read" "READING_MAIL < DONE"
    by (simp_all add: client_statbl_def)
  from turn [where callback = on_read_ready and h = client_read, OF p(1,2) h(1,2) r(1) h(3) j] s2 r(2,5) grows_trans [OF r(4) s2(3)]
  show ?thesis by (intro exI [of _ s2] exI [of _ b]) (simp add: pop3_read_def stm_handler_read_def)
qed

text \<open>The file gives the whole mail in one read.\<close>

definition whole_mail :: "byte list list \<Rightarrow> bool" where
  "whole_mail ls \<longleftrightarrow> (\<forall>l \<in> set ls. CR \<notin> set l \<and> l \<noteq> [DOT]) \<and> (\<exists>l \<in> set ls. l \<noteq> []) \<and> even (blank_tail ls)
     \<and> length (mail_text ls) \<le> BUFFER_SIZE"

lemma filesystem_read_steady:
  assumes "filesystem_read cur k = Inr (nx, k')" "steady (read_buffer (k_p3 k))" "file_read k bs"
    and "content (read_buffer (k_p3 k')) = []"
  shows "drained (read_buffer (k_p3 k'))"
proof -
  let ?b = "read_buffer (k_p3 k)"
  from assms(3) have f: "received (io_read (k_io k)) (room ?b) = bs" "bs \<noteq> []" "length bs \<le> room ?b"
    by (simp_all add: file_read_def received_def)
  have ptr: "buffer_write_ptr ?b = Inr (room ?b)" using assms(2) by (simp add: steady_def)
  from assms(1) f ptr obtain b1 b2 where b: "buffer_fill ?b bs = Inr b1" "buffer_write_adv b1 (int (length bs)) = Inr b2"
    "\<exists>st k1. key_set_interest OP_WRITE (k\<lparr>k_p3 := (k_p3 k)\<lparr>read_buffer := b2\<rparr>\<rparr>) = Inr (st, k1)
      \<and> (if st = SELECTOR_SUCCESS then
         rbind (consume_buffer mail_byte (read_buffer (k_p3 k1)) (k_p3 k1)) (\<lambda>(p, b).
         Inr (WRITING_MAIL, k1\<lparr>k_p3 := p\<lparr>read_buffer := b\<rparr>\<rparr>)) else Inr (WRITING_MAIL, k1)) = Inr (nx, k')"
    by (auto simp: filesystem_read_def rbind_eq_Inr Let_def)
  note b2 = buffer_fill_steady [OF assms(2) f(2,3) b(1,2)]
  from b(3) obtain st k1 where k1: "key_set_interest OP_WRITE (k\<lparr>k_p3 := (k_p3 k)\<lparr>read_buffer := b2\<rparr>\<rparr>) = Inr (st, k1)"
    "(if st = SELECTOR_SUCCESS then
         rbind (consume_buffer mail_byte (read_buffer (k_p3 k1)) (k_p3 k1)) (\<lambda>(p, b).
         Inr (WRITING_MAIL, k1\<lparr>k_p3 := p\<lparr>read_buffer := b\<rparr>\<rparr>)) else Inr (WRITING_MAIL, k1)) = Inr (nx, k')" by blast
  from key_set_interest_rest [OF k1(1)] b2 have "steady (read_buffer (k_p3 k1))" by simp
  with k1(2) consume_buffer_steady have "steady (read_buffer (k_p3 k'))"
    by (fastforce simp: rbind_eq_Inr split: if_splits)
  with assms(4) show ?thesis by (simp add: drained_def)
qed

text \<open>The session and the selector after that read.\<close>

definition copied :: "int \<Rightarrow> int \<Rightarrow> nat \<Rightarrow> byte list list \<Rightarrow> pop3 \<Rightarrow> world \<Rightarrow> world \<Rightarrow> bool" where
  "copied fd m a ls p w w' \<longleftrightarrow> (\<exists>s rb wb st. w' = w\<lparr>w_sel := s, w_conns := (w_conns w)(a \<mapsto> p\<lparr>read_buffer := rb,
       write_buffer := wb, byte_stuffing_st := st, mail_done := 1, p_stm := Some WRITING_MAIL\<rparr>)\<rparr>
     \<and> drained rb \<and> steady wb \<and> content wb = mail_text ls \<and> selector_inv s \<and> grows (w_sel w) s
     \<and> registered s = (registered (w_sel w))(m \<mapsto> mail_item m OP_WRITE a))"

lemma filesystem_read_mail:
  assumes "file_read k (mail_text ls)" "whole_mail ls" "steady (read_buffer (k_p3 k))" "drained (write_buffer (k_p3 k))"
    and "byte_stuffing_st (k_p3 k) = 0" "registered (w_sel (k_world k)) (k_fd k) = Some it"
  shows "\<exists>s rb wb st. filesystem_read cur k = Inr (WRITING_MAIL, k\<lparr>k_p3 := (k_p3 k)\<lparr>read_buffer := rb, write_buffer := wb,
        byte_stuffing_st := st, mail_done := 1\<rparr>, k_world := (k_world k)\<lparr>w_sel := s\<rparr>\<rparr>)
    \<and> drained rb \<and> steady wb \<and> content wb = mail_text ls \<and> selector_inv s \<and> grows (w_sel (k_world k)) s
    \<and> registered s = (registered (w_sel (k_world k)))(k_fd k \<mapsto> it\<lparr>it_interest := OP_WRITE\<rparr>)"
proof -
  let ?p = "k_p3 k"
  from filesystem_read_eq [OF assms(1), of cur] obtain b1 b2 k1 where
    w: "waiting_to_write k (?p\<lparr>read_buffer := b1\<rparr>) k1" and
    k1: "filesystem_read cur k = rbind (feed_until mail_byte (mail_text ls) (?p\<lparr>read_buffer := b1\<rparr>)) (\<lambda>(p, rest).
        Inr (WRITING_MAIL, k1\<lparr>k_p3 := p\<lparr>read_buffer := b2\<rparr>\<rparr>))"
      "\<And>s rest. feed_until mail_byte (mail_text ls) (?p\<lparr>read_buffer := b1\<rparr>) = Inr (s, rest) \<Longrightarrow> content b2 = rest"
    by blast
  note wb = drainedD [OF assms(4)]
  have "buffer_inv (write_buffer (?p\<lparr>read_buffer := b1\<rparr>))" "length (mail_text ls) \<le> room (write_buffer (?p\<lparr>read_buffer := b1\<rparr>))"
    "stuff_inv (byte_stuffing_st (?p\<lparr>read_buffer := b1\<rparr>)) (content (write_buffer (?p\<lparr>read_buffer := b1\<rparr>)))"
    using assms(2,5) wb by (simp_all add: whole_mail_def stuff_inv_def)
  moreover from assms(2) have "armed False ls" using armed_blank [of ls False] by (auto simp: whole_mail_def)
  with stuff_mail [of ls] assms(2) have "stuffer_run 0 (mail_text ls) = Inr []" by (simp add: whole_mail_def)
  ultimately obtain b st where
    b: "feed_until mail_byte (mail_text ls) (?p\<lparr>read_buffer := b1\<rparr>)
        = Inr (?p\<lparr>read_buffer := b1, write_buffer := b, byte_stuffing_st := st, mail_done := 1\<rparr>, [])"
      "content b = mail_text ls" "buffer_inv b" "b_limit b = BUFFER_SIZE"
    using mail_bytes_ok [of "?p\<lparr>read_buffer := b1\<rparr>" "mail_text ls"] assms(5) wb by auto
  from b(1) k1(1) have run: "filesystem_read cur k = Inr (WRITING_MAIL, k1\<lparr>k_p3 := ?p\<lparr>read_buffer := b2, write_buffer := b,
        byte_stuffing_st := st, mail_done := 1\<rparr>\<rparr>)" by simp
  from filesystem_read_steady [OF run assms(3,1)] k1(2) [OF b(1)] have "drained b2" by simp
  moreover have "steady b" using b(2-4) by (simp add: steady_def mail_text_def)
  moreover from w assms(6) obtain s where "k1 = k\<lparr>k_p3 := ?p\<lparr>read_buffer := b1\<rparr>, k_world := (k_world k)\<lparr>w_sel := s\<rparr>\<rparr>"
    "selector_inv s" "grows (w_sel (k_world k)) s"
    "registered s = (registered (w_sel (k_world k)))(k_fd k \<mapsto> it\<lparr>it_interest := OP_WRITE\<rparr>)"
    by (auto simp: waiting_to_write_def)
  ultimately show ?thesis using run b(2)
    by (intro exI [of _ s] exI [of _ b2] exI [of _ b] exI [of _ st]) simp
qed

lemma mail_read_turn:
  assumes "stands fd i a READING_MAIL w p" "client p = Mail_st m fd" "registered (w_sel w) m = Some (mail_item m OP_READ a)"
    and "drained (read_buffer p)" "drained (write_buffer p)" "byte_stuffing_st p = 0"
    and "io_read io = Some (mail_text ls)" "whole_mail ls"
  shows "\<exists>w'. pop3_read io m (Some (Pop3_data a)) w = Inr w' \<and> copied fd m a ls p w w'"
proof -
  let ?k = "\<lparr>k_fd = m, k_self = a, k_io = io, k_p3 = p, k_world = w\<rparr>"
  from assms(1) have p: "w_conns w a = Some p" "p_stm p = Some READING_MAIL" "selector_inv (w_sel w)"
    by (simp_all add: stands_def)
  note rb = drainedD [OF assms(4)] and wb = drainedD [OF assms(5)]
  have f: "file_read ?k (mail_text ls)"
    using assms(2,3,7,8) p(3) rb wb by (simp add: file_read_def selectable_def whole_mail_def mail_text_def)
  from filesystem_read_mail [OF f assms(8), of "mail_item m OP_READ a" READING_MAIL] assms(3-6) obtain s rb wb st where
    r: "filesystem_read READING_MAIL ?k = Inr (WRITING_MAIL, ?k\<lparr>k_p3 := p\<lparr>read_buffer := rb, write_buffer := wb,
        byte_stuffing_st := st, mail_done := 1\<rparr>, k_world := w\<lparr>w_sel := s\<rparr>\<rparr>)"
      "drained rb" "steady wb" "content wb = mail_text ls" "selector_inv s" "grows (w_sel w) s"
      "registered s = (registered (w_sel w))(m \<mapsto> mail_item m OP_WRITE a)"
    by (auto simp: drained_def mail_item_def)
  let ?k1 = "?k\<lparr>k_p3 := p\<lparr>read_buffer := rb, write_buffer := wb, byte_stuffing_st := st, mail_done := 1\<rparr>, k_world := w\<lparr>w_sel := s\<rparr>\<rparr>"
  have h: "READING_MAIL \<le> ERROR" "on_read_ready (client_statbl ! READING_MAIL) = Some filesystem_read" "WRITING_MAIL < DONE"
    "if WRITING_MAIL = READING_MAIL then ?k1 = ?k1
      else call_hook (on_arrival (client_statbl ! WRITING_MAIL)) WRITING_MAIL ?k1 = Inr ?k1"
    by (simp_all add: client_statbl_def no_state_def call_hook_def)
  from turn [where callback = on_read_ready and h = filesystem_read, OF p(1,2) h(1,2) r(1) h(3,4)] r(2-7)
  show ?thesis by (auto simp: pop3_read_def stm_handler_read_def copied_def)
qed

text \<open>The mail goes out, its descriptor leaves the selector, and the session is back at the prompt.\<close>

definition delivered :: "int \<Rightarrow> int \<Rightarrow> nat \<Rightarrow> pop3 \<Rightarrow> world \<Rightarrow> world \<Rightarrow> bool" where
  "delivered fd m a p w w' \<longleftrightarrow> (\<exists>s b rb t. w' = w\<lparr>w_sent := w_sent w @ [(fd, content (write_buffer p))], transfer_bytes := t,
       w_sel := s, w_conns := (w_conns w)(a \<mapsto> p\<lparr>write_buffer := b, read_buffer := rb, mail_done := 0, client := State_st,
         p_stm := Some TRANSACTION\<rparr>)\<rparr>
     \<and> drained b \<and> drained rb \<and> selector_inv s \<and> grows (w_sel w) s \<and> registered s = (registered (w_sel w))(m := None))"

lemma drained_reset: "steady b \<Longrightarrow> drained (buffer_reset b)"
  by (auto simp: drained_def steady_def) (simp_all add: buffer_reset_def)

lemma mail_write_turn:
  assumes "stands fd i a WRITING_MAIL w p" "client p = Mail_st m fd" "registered (w_sel w) m = Some (mail_item m OP_WRITE a)"
    and "steady (read_buffer p)" "steady (write_buffer p)" "mail_done p = 1" "io_send io = Some n"
    and "length (content (write_buffer p)) \<le> n"
  shows "\<exists>w'. pop3_write io m (Some (Pop3_data a)) w = Inr w' \<and> delivered fd m a p w w'"
proof -
  let ?k = "\<lparr>k_fd = m, k_self = a, k_io = io, k_p3 = p, k_world = w\<rparr>" and ?c = "content (write_buffer p)"
  from assms(1) have p: "w_conns w a = Some p" "p_stm p = Some WRITING_MAIL" "selector_inv (w_sel w)"
    by (simp_all add: stands_def)
  have inv: "buffer_inv (write_buffer p)" using assms(5) by (simp add: steady_def)
  from send_all [of ?k "mail_item m OP_WRITE a" n fd] p(3) assms(3,5,8) obtain k1 b s t where
    snd: "send_buffer fd n ?k = Inr k1" "write_buffer (k_p3 k1) = b" "drained b" "\<not> buffer_can_read b"
      "key_set_interest OP_READ k1 = Inr (SELECTOR_SUCCESS, ?k\<lparr>k_p3 := p\<lparr>write_buffer := b\<rparr>,
        k_world := w\<lparr>w_sent := w_sent w @ [(fd, ?c)], transfer_bytes := t, w_sel := s\<rparr>\<rparr>)"
      "selector_inv s" "grows (w_sel w) s" "registered s = (registered (w_sel w))(m \<mapsto> mail_item m OP_READ a)"
    by (auto simp: mail_item_def)
  let ?w = "w\<lparr>w_sent := w_sent w @ [(fd, ?c)], transfer_bytes := t, w_sel := s\<rparr>"
  let ?k2 = "?k\<lparr>k_p3 := p\<lparr>write_buffer := b\<rparr>, k_world := ?w\<rparr>"
  from mail_fd_unregistered [of ?k2 m "mail_item m OP_READ a"] snd(6,8) obtain s2 where
    s2: "key_unregister m ?k2 = Inr (SELECTOR_SUCCESS, ?k2\<lparr>k_world := ?w\<lparr>w_conns := (w_conns w)(a \<mapsto> p\<lparr>write_buffer := b\<rparr>),
        w_sel := s2\<rparr>\<rparr>)" "selector_inv s2" "grows s s2" "registered s2 = (registered (w_sel w))(m := None)"
    by (auto simp: mail_item_def)
  let ?p3 = "p\<lparr>write_buffer := buffer_reset b, read_buffer := buffer_reset (read_buffer p), mail_done := 0\<rparr>"
  let ?k3 = "?k2\<lparr>k_p3 := ?p3, k_world := ?w\<lparr>w_conns := (w_conns w)(a \<mapsto> p\<lparr>write_buffer := b\<rparr>), w_sel := s2\<rparr>\<rparr>"
  have run: "mail_write WRITING_MAIL ?k = Inr (TRANSACTION, ?k3)"
    using assms(2,6,7) inv snd s2(1) by (simp add: mail_write_def client_mail_def Let_def)
  let ?k4 = "?k3\<lparr>k_p3 := ?p3\<lparr>client := State_st\<rparr>\<rparr>"
  have h: "WRITING_MAIL \<le> ERROR" "on_write_ready (client_statbl ! WRITING_MAIL) = Some mail_write" "TRANSACTION < DONE"
    "if TRANSACTION = WRITING_MAIL then ?k4 = ?k3
      else call_hook (on_arrival (client_statbl ! TRANSACTION)) TRANSACTION ?k3 = Inr ?k4"
    by (simp_all add: client_statbl_def no_state_def call_hook_def trans_init_def)
  have d: "drained (buffer_reset b)" "drained (buffer_reset (read_buffer p))"
    using drained_reset [of b] snd(3) drained_reset [OF assms(4)] by (simp_all add: drained_def)
  from turn [where callback = on_write_ready and h = mail_write, OF p(1,2) h(1,2) run h(3,4)] s2 d grows_trans [OF snd(7) s2(3)]
  show ?thesis unfolding delivered_def
    by (intro exI [of _ "?w\<lparr>w_sel := s2, w_conns := (w_conns w)(a \<mapsto> ?p3\<lparr>client := State_st, p_stm := Some TRANSACTION\<rparr>)\<rparr>"] conjI
        exI [of _ s2] exI [of _ "buffer_reset b"] exI [of _ "buffer_reset (read_buffer p)"] exI [of _ t])
      (simp_all add: pop3_write_def stm_handler_write_def)
qed

end
