(* ===== verification/Dialogue.thy ===== *)
theory Dialogue
  imports Turns
begin

text \<open>
  A client's whole visit, as rounds of the server's loop: it is greeted, logs in, asks for a mail and
  gets it, and the server waits for its next command.
\<close>

section \<open>Lines of a visit\<close>

text \<open>A word the lexer reads whole: it is not empty, not longer than the array, and keeps clear of the bytes that end it.\<close>

definition arg_word :: "cstring \<Rightarrow> bool" where
  "arg_word x \<longleftrightarrow> x \<noteq> [] \<and> length x \<le> 40 \<and> SP \<notin> set x \<and> CR \<notin> set x \<and> 0 \<notin> set x"

definition command_line :: "string \<Rightarrow> cstring \<Rightarrow> byte list" where
  "command_line c x = str c @ SP # x"

lemma line_words:
  assumes "SP \<notin> set (str c)" "0 \<notin> set (str c)" "length (str c) = 4" "arg_word x"
  shows "cut_zero (line_command (command_line c x)) = str c" "map_option cut_zero (line_arg1 (command_line c x)) = Some x"
proof -
  have w: "word1 (ys @ SP # zs) = ys \<and> after1 (ys @ SP # zs) = zs" if "SP \<notin> set ys" for ys zs
    using that by (induction ys) (auto simp: word1_def after1_def)
  have x: "word1 x = x" "take 40 x = x" "cut_zero x = x" "x \<noteq> []"
    using assms(4) by (auto simp: arg_word_def word1_def cut_zero_def takeWhile_eq_all_conv)
  have "cut_zero (str c) = str c" using assms(2) by (auto simp: cut_zero_def takeWhile_eq_all_conv)
  with w [OF assms(1), of x] x assms(3)
  show "cut_zero (line_command (command_line c x)) = str c" "map_option cut_zero (line_arg1 (command_line c x)) = Some x"
    by (simp_all add: command_line_def line_command_def line_arg1_def nonempty_def)
qed

lemma run_command_line:
  assumes "SP \<notin> set (str c)" "0 \<notin> set (str c)" "length (str c) = 4" "arg_word x" "st < 2"
    and "find_command (str c) (commands_per_state ! st) = h"
    and "\<And>a2. command_handler h env cur (Some x) a2 (p\<lparr>p_parser := line_parser (command_line c x)\<rparr>) = Inr (nx, q)"
  shows "run_line env cur (command_line c x) (st, p) = Inr (nx, q\<lparr>p_parser := create_parser\<rparr>)"
proof -
  from line_words(2) [OF assms(1-4)] obtain z where "line_arg1 (command_line c x) = Some z" "cut_zero z = x" by auto
  with assms(5-7) line_words(1) [OF assms(1-4)] show ?thesis by (simp add: run_line_def comparator_line)
qed

lemma said_steady:
  assumes "said s b b'" "b_limit b = BUFFER_SIZE" "length s \<le> room b" "s \<noteq> []"
  shows "steady b'" "content b' = content b @ s" "room b' = room b - length s"
  using assms by (simp_all add: said_def steady_def)

lemma login_lines:
  assumes "arg_word u" "arg_word v" "drained (write_buffer p)" "users_are (ce_users env) xs" "(u, v) \<in> set xs"
  shows "\<exists>b. run_lines env AUTH [command_line ''USER'' u, command_line ''PASS'' v] (AUTH, p)
      = Inr (TRANSACTION, p\<lparr>cred_user := Some u, cred_pass := Some v, write_buffer := b, p_parser := create_parser\<rparr>)
    \<and> steady b \<and> content b = POSITIVE_MSG @ LOGIN_MSG"
proof -
  note wb = drainedD [OF assms(3)]
  have fits: "length POSITIVE_MSG + length LOGIN_MSG \<le> BUFFER_SIZE" "POSITIVE_MSG \<noteq> []" "LOGIN_MSG \<noteq> []"
    by (simp_all add: POSITIVE_MSG_def LOGIN_MSG_def BUFFER_SIZE_def)
  let ?p1 = "p\<lparr>p_parser := line_parser (command_line ''USER'' u), cred_user := Some u\<rparr>"
  from reply_ok [of ?p1 POSITIVE_MSG] wb obtain b1 where
    b1: "reply POSITIVE_MSG ?p1 = Inr (?p1\<lparr>write_buffer := b1\<rparr>)" "said POSITIVE_MSG (write_buffer p) b1" by auto
  note s1 = said_steady [OF b1(2)]
  have user: "run_line env AUTH (command_line ''USER'' u) (AUTH, p)
      = Inr (AUTH, (?p1\<lparr>write_buffer := b1\<rparr>)\<lparr>p_parser := create_parser\<rparr>)"
    by (rule run_command_line [where h = User])
      (use assms(1) b1(1) in \<open>simp_all add: commands_per_state_def auth_commands_def user_handler_def\<close>)
  let ?p2 = "p\<lparr>cred_user := Some u, write_buffer := b1, p_parser := line_parser (command_line ''PASS'' v)\<rparr>"
  have "buffer_inv (write_buffer ?p2)" "cred_user ?p2 = Some u" using said_inv [OF b1(2)] by simp_all
  moreover from this have "\<exists>b'. reply LOGIN_MSG (?p2\<lparr>cred_pass := Some v\<rparr>) = Inr (?p2\<lparr>cred_pass := Some v, write_buffer := b'\<rparr>)
      \<and> said LOGIN_MSG b1 b'" using reply_ok [of "?p2\<lparr>cred_pass := Some v\<rparr>" LOGIN_MSG] by simp
  ultimately obtain b2 where
    b2: "pass_handler env (Some v) ?p2 = Inr (TRANSACTION, ?p2\<lparr>cred_pass := Some v, write_buffer := b2\<rparr>)" "said LOGIN_MSG b1 b2"
    using validate_user_refines [OF assms(4), of u v] assms(5) by (auto simp: pass_handler_def)
  have pass: "run_line env AUTH (command_line ''PASS'' v) (AUTH, (?p1\<lparr>write_buffer := b1\<rparr>)\<lparr>p_parser := create_parser\<rparr>)
      = Inr (TRANSACTION, (?p2\<lparr>cred_pass := Some v, write_buffer := b2\<rparr>)\<lparr>p_parser := create_parser\<rparr>)"
    by (rule run_command_line [where h = Pass])
      (use assms(2) b2(1) in \<open>simp_all add: commands_per_state_def auth_commands_def\<close>)
  have "b_limit b1 = BUFFER_SIZE" using s1(1) wb fits by (simp add: steady_def)
  with said_steady [OF b2(2)] s1 wb fits have "steady b2" "content b2 = POSITIVE_MSG @ LOGIN_MSG" by simp_all
  with user pass show ?thesis by (intro exI [of _ b2]) simp
qed

text \<open>The state of the session after a RETR that opens the mail \<open>m\<close>.\<close>

definition opened :: "int \<Rightarrow> pop3 \<Rightarrow> pop3 \<Rightarrow> bool" where
  "opened m p q \<longleftrightarrow> selected_mail_fd q = m \<and> client_fd q = client_fd p \<and> cred_user q = cred_user p
     \<and> dele_flags q = dele_flags p \<and> mailbox_inv q \<and> steady (write_buffer q) \<and> content (write_buffer q) = POSITIVE_MSG
     \<and> p_parser q = create_parser"

lemma retr_line:
  assumes "loadable env p ms" "arg_word x" "msg_ref (dele_flags p) (length ms) (Some x) = Message i"
    and "open_mail (ce_os env) (file_path (ms ! i)) = m" "0 \<le> m" "drained (write_buffer p)"
  shows "\<exists>q. run_lines env TRANSACTION [command_line ''RETR'' x] (TRANSACTION, p) = Inr (READING_MAIL, q) \<and> opened m p q"
proof -
  let ?p = "p\<lparr>p_parser := line_parser (command_line ''RETR'' x)\<rparr>"
  note wb = drainedD [OF assms(6)]
  have "loadable env ?p ms" using assms(1) by (simp add: loadable_def)
  from retr_outcome [OF this, where cur = TRANSACTION and ?arg1.0 = "Some x"] assms(3-5) obtain p1 b where
    r: "loaded ?p ms p1" "said POSITIVE_MSG (write_buffer p) b"
      "retr_handler env TRANSACTION (Some x) ?p
        = Inr (READING_MAIL, p1\<lparr>selected_mail := of_nat i, write_buffer := b, selected_mail_fd := m\<rparr>)"
    by (auto simp: Let_def)
  let ?q = "p1\<lparr>selected_mail := of_nat i, write_buffer := b, selected_mail_fd := m\<rparr>"
  have run: "run_line env TRANSACTION (command_line ''RETR'' x) (TRANSACTION, p) = Inr (READING_MAIL, ?q\<lparr>p_parser := create_parser\<rparr>)"
    by (rule run_command_line [where h = Retr])
      (use assms(2) r(3) in \<open>simp_all add: commands_per_state_def transaction_commands_def\<close>)
  have p1: "p1 = ?p\<lparr>mails := mails p1, mail_qty := mail_qty p1, total_octates := total_octates p1,
        original_total_octates := original_total_octates p1, max_index := max_index p1\<rparr>" "mailbox_inv p1"
    using r(1) unfolding loaded_def by blast+
  have f: "client_fd p1 = client_fd p" "cred_user p1 = cred_user p" "dele_flags p1 = dele_flags p" by (subst p1(1), simp)+
  have "length POSITIVE_MSG \<le> room (write_buffer p)" "POSITIVE_MSG \<noteq> []" "b_limit (write_buffer p) = BUFFER_SIZE"
    using wb by (simp_all add: POSITIVE_MSG_def BUFFER_SIZE_def)
  with said_steady [OF r(2)] wb have "steady b" "content b = POSITIVE_MSG" by simp_all
  with f p1(2) have "opened m p (?q\<lparr>p_parser := create_parser\<rparr>)" by (simp add: opened_def)
  with run show ?thesis by (intro exI [of _ "?q\<lparr>p_parser := create_parser\<rparr>"]) simp
qed

section \<open>Rounds\<close>

fun leads :: "world \<Rightarrow> (pselect_result \<times> answers) list \<Rightarrow> world \<Rightarrow> bool" where
  "leads w [] w' \<longleftrightarrow> w' = w"
| "leads w ((r, an) # rs) w' \<longleftrightarrow> (\<exists>w1. serve_round r an w = Inr (SELECTOR_SUCCESS, w1) \<and> leads w1 rs w')"

lemma leads_append: "leads w (rs @ qs) w' \<longleftrightarrow> (\<exists>w1. leads w rs w1 \<and> leads w1 qs w')"
  by (induction w rs w' rule: leads.induct) auto

lemma leads_main_loop:
  "leads (m_world m) rs w' \<Longrightarrow> rs \<noteq> [] \<Longrightarrow>
    main_loop rs m = Inr (Inr (m\<lparr>err_msg := None, ss := SELECTOR_SUCCESS, m_world := w'\<rparr>))"
proof (induction rs arbitrary: m)
  case (Cons x rs)
  obtain r an where x: "x = (r, an)" by (cases x)
  with Cons.prems(1) obtain w1 where w1: "serve_round r an (m_world m) = Inr (SELECTOR_SUCCESS, w1)" "leads w1 rs w'" by auto
  let ?m = "m\<lparr>err_msg := None, ss := SELECTOR_SUCCESS, m_world := w1\<rparr>"
  show ?case
  proof (cases "rs = []")
    case True
    with x w1 show ?thesis by (simp add: Let_def)
  next
    case False
    from Cons.IH [of ?m] w1(2) False have "main_loop rs ?m = Inr (Inr (?m\<lparr>err_msg := None, ss := SELECTOR_SUCCESS, m_world := w'\<rparr>))"
      by simp
    with x w1(1) show ?thesis by (simp add: Let_def)
  qed
qed simp

definition says :: "answers \<Rightarrow> int \<Rightarrow> byte list list \<Rightarrow> bool" where
  "says an fd ls \<longleftrightarrow> io_recv (a_read an fd) = Some (lines_of ls)"

text \<open>Rounds in which one descriptor is ready, and leaves the session in the table.\<close>

lemma read_round:
  assumes "selector_inv (w_sel w)" "resolution_jobs (w_sel w) = []" "registered (w_sel w) fd = Some it"
    and "it = client_item fd OP_READ a \<or> it = mail_item fd OP_READ a"
    and "pop3_read (a_read an fd) fd (Some (Pop3_data a)) w = Inr w'" "selector_inv (w_sel w')" "grows (w_sel w) (w_sel w')"
  shows "serve_round (Ready {fd} {}) an w = Inr (SELECTOR_SUCCESS, w')"
proof -
  from assms(4) have "\<exists>h. it_handler it = Some h \<and> reader h (a_read an fd) fd (it_data it) w = Inr w'"
    using assms(5) by (auto simp: client_item_def mail_item_def reader_def)
  then obtain h where h: "it_handler it = Some h" "reader h (a_read an fd) fd (it_data it) w = Inr w'" by blast
  have "wants (it_interest it) OP_READ" using assms(4) by (auto simp: client_item_def mail_item_def)
  from serve_read(1) [OF assms(1-3) this h assms(6,7)] show ?thesis .
qed

lemma write_round:
  assumes "selector_inv (w_sel w)" "resolution_jobs (w_sel w) = []" "registered (w_sel w) fd = Some it"
    and "it = client_item fd OP_WRITE a \<or> it = mail_item fd OP_WRITE a"
    and "pop3_write (a_write an fd) fd (Some (Pop3_data a)) w = Inr w'" "selector_inv (w_sel w')" "grows (w_sel w) (w_sel w')"
  shows "serve_round (Ready {} {fd}) an w = Inr (SELECTOR_SUCCESS, w')"
proof -
  from assms(4) have "\<exists>h. it_handler it = Some h \<and> writer h = Some pop3_write \<and> it_data it = Some (Pop3_data a)"
    by (auto simp: client_item_def mail_item_def writer_def)
  then obtain h where h: "it_handler it = Some h" "writer h = Some pop3_write" "it_data it = Some (Pop3_data a)" by blast
  have "wants (it_interest it) OP_WRITE" using assms(4) by (auto simp: client_item_def mail_item_def)
  from serve_write [OF assms(1-3) this h(1,2) _ assms(6,7)] assms(5) h(3) show ?thesis by simp
qed

text \<open>Whole lines in, the replies to them out: the state of the program after these two rounds.\<close>

lemma exchange:
  assumes "at_prompt fd a st w p" "says an1 fd ls" "ls \<noteq> []" "\<forall>l \<in> set ls. CR \<notin> set l" "length (lines_of ls) \<le> BUFFER_SIZE"
    and "run_lines (env_of (a_read an1 fd) w) st ls (st, p) = Inr (nx, q)" "st = nx \<and> st < 2 \<or> st = AUTH \<and> nx = TRANSACTION"
    and "client q = State_st" "p_parser q = create_parser" "client_fd q = fd" "steady (write_buffer q)"
    and "takes an2 fd (length (content (write_buffer q)))"
  shows "\<exists>s t q'. leads w [(Ready {fd} {}, an1), (Ready {} {fd}, an2)] (w\<lparr>w_sent := w_sent w @ [(fd, content (write_buffer q))],
        transfer_bytes := t, w_sel := s, w_conns := (w_conns w)(a \<mapsto> q')\<rparr>)
    \<and> q' = q\<lparr>read_buffer := read_buffer q', write_buffer := write_buffer q', p_stm := Some nx\<rparr>
    \<and> at_prompt fd a nx (w\<lparr>w_sent := w_sent w @ [(fd, content (write_buffer q))],
        transfer_bytes := t, w_sel := s, w_conns := (w_conns w)(a \<mapsto> q')\<rparr>) q'
    \<and> grows (w_sel w) s \<and> registered s = registered (w_sel w)"
proof -
  let ?io = "a_read an1 fd" and ?c = "content (write_buffer q)"
  from assms(1) have p: "selector_inv (w_sel w)" "resolution_jobs (w_sel w) = []"
    "registered (w_sel w) fd = Some (client_item fd OP_READ a)"
    by (simp_all add: at_prompt_def stands_def)
  from command_turn [OF assms(1) _ assms(3-8)] assms(2) obtain s rb where
    r: "pop3_read ?io fd (Some (Pop3_data a)) w = Inr (w\<lparr>w_sel := s, w_conns := (w_conns w)(a \<mapsto>
        q\<lparr>read_buffer := rb, p_stm := Some nx\<rparr>)\<rparr>)" "drained rb" "selector_inv s" "grows (w_sel w) s"
      "registered s = (registered (w_sel w))(fd \<mapsto> client_item fd OP_WRITE a)" by (auto simp: says_def)
  let ?q1 = "q\<lparr>read_buffer := rb, p_stm := Some nx\<rparr>"
  let ?w1 = "w\<lparr>w_sel := s, w_conns := (w_conns w)(a \<mapsto> ?q1)\<rparr>"
  have 1: "serve_round (Ready {fd} {}) an1 w = Inr (SELECTOR_SUCCESS, ?w1)"
    by (rule read_round [OF p _ r(1)]) (use r in simp_all)
  have st: "stands fd OP_WRITE a nx ?w1 ?q1" "nx < 2 \<and> client ?q1 = State_st" "steady (write_buffer ?q1)"
    using r p(2) assms(7,8,10,11) by (auto simp: stands_def grows_def)
  from assms(12) obtain n where n: "io_send (a_write an2 fd) = Some n" "length (content (write_buffer ?q1)) \<le> n"
    unfolding takes_def by auto
  from write_turn [OF st(1,3) n disjI1 [OF st(2)]] obtain w' where
    w': "pop3_write (a_write an2 fd) fd (Some (Pop3_data a)) ?w1 = Inr w'" "answered fd a ?q1 ?w1 w'" by blast
  from w'(2) obtain s2 b2 t where
    d: "w' = w\<lparr>w_sent := w_sent w @ [(fd, ?c)], transfer_bytes := t, w_sel := s2,
        w_conns := (w_conns w)(a \<mapsto> ?q1\<lparr>write_buffer := b2\<rparr>)\<rparr>"
      "drained b2" "selector_inv s2" "grows s s2" "registered s2 = (registered s)(fd \<mapsto> client_item fd OP_READ a)"
    by (auto simp: answered_def)
  have 2: "serve_round (Ready {} {fd}) an2 ?w1 = Inr (SELECTOR_SUCCESS, w')"
    by (rule write_round [where it = "client_item fd OP_WRITE a", OF _ _ _ _ w'(1)])
      (use r d p(2) in \<open>simp_all add: grows_def\<close>)
  let ?q2 = "?q1\<lparr>write_buffer := b2\<rparr>"
  have reg: "registered s2 = registered (w_sel w)" using d(5) r(5) p(3) by auto
  have "at_prompt fd a nx w' ?q2"
    using d r(2,4) p(2,3) reg assms(8-10) by (simp add: at_prompt_def stands_def grows_def)
  moreover have "leads w [(Ready {fd} {}, an1), (Ready {} {fd}, an2)] w'" using 1 2 by simp
  moreover have "?q2 = q\<lparr>read_buffer := read_buffer ?q2, write_buffer := write_buffer ?q2, p_stm := Some nx\<rparr>" by simp
  ultimately show ?thesis using reg grows_trans [OF r(4) d(4)] unfolding d(1) by blast
qed

lemma login_rounds:
  assumes "at_prompt fd a AUTH w p" "arg_word u" "arg_word v" "users_are (w_users w) xs" "(u, v) \<in> set xs"
    and "says an1 fd [command_line ''USER'' u, command_line ''PASS'' v]" "takes an2 fd (length (POSITIVE_MSG @ LOGIN_MSG))"
  shows "\<exists>w' q. leads w [(Ready {fd} {}, an1), (Ready {} {fd}, an2)] w' \<and> at_prompt fd a TRANSACTION w' q
    \<and> w_sent w' = w_sent w @ [(fd, POSITIVE_MSG @ LOGIN_MSG)] \<and> cred_user q = Some u \<and> cred_pass q = Some v
    \<and> dele_flags q = dele_flags p \<and> mailbox_inv q = mailbox_inv p \<and> w_maildir w' = w_maildir w
    \<and> grows (w_sel w) (w_sel w') \<and> registered (w_sel w') = registered (w_sel w) \<and> w_closed w' = w_closed w"
proof -
  let ?ls = "[command_line ''USER'' u, command_line ''PASS'' v]" and ?io = "a_read an1 fd"
  from assms(1) have p: "client_fd p = fd" "client p = State_st" "drained (write_buffer p)"
    by (simp_all add: at_prompt_def stands_def)
  have "users_are (ce_users (env_of ?io w)) xs" using assms(4) by (simp add: env_of_def)
  from login_lines [OF assms(2,3) p(3) this assms(5)] obtain b where
    b: "run_lines (env_of ?io w) AUTH ?ls (AUTH, p)
      = Inr (TRANSACTION, p\<lparr>cred_user := Some u, cred_pass := Some v, write_buffer := b, p_parser := create_parser\<rparr>)"
      "steady b" "content b = POSITIVE_MSG @ LOGIN_MSG" by blast
  let ?q = "p\<lparr>cred_user := Some u, cred_pass := Some v, write_buffer := b, p_parser := create_parser\<rparr>"
  have l: "?ls \<noteq> []" "\<forall>l \<in> set ?ls. CR \<notin> set l" "length (lines_of ?ls) \<le> BUFFER_SIZE"
    using assms(2,3) by (auto simp: arg_word_def command_line_def lines_of_def crlf_def BUFFER_SIZE_def)
  have q: "client ?q = State_st" "p_parser ?q = create_parser" "client_fd ?q = fd" "steady (write_buffer ?q)"
    "content (write_buffer ?q) = POSITIVE_MSG @ LOGIN_MSG" using p b by simp_all
  let ?w = "\<lambda>s t q'. w\<lparr>w_sent := w_sent w @ [(fd, POSITIVE_MSG @ LOGIN_MSG)], transfer_bytes := t, w_sel := s,
      w_conns := (w_conns w)(a \<mapsto> q')\<rparr>"
  from exchange [OF assms(1,6) l b(1) _ q(1-4)] assms(7) obtain s t q' where
    e: "leads w [(Ready {fd} {}, an1), (Ready {} {fd}, an2)] (?w s t q')"
      "q' = ?q\<lparr>read_buffer := read_buffer q', write_buffer := write_buffer q', p_stm := Some TRANSACTION\<rparr>"
      "at_prompt fd a TRANSACTION (?w s t q') q'" "grows (w_sel w) s" "registered s = registered (w_sel w)"
    unfolding q(5) by blast
  have "cred_user q' = Some u" "cred_pass q' = Some v" "dele_flags q' = dele_flags p" "mailbox_inv q' = mailbox_inv p"
    by (subst e(2), simp add: mailbox_inv_def mail_at_def)+
  with e(1,3-5) show ?thesis by (intro exI [of _ "?w s t q'"] exI [of _ q']) simp
qed

text \<open>The answers of the four rounds of a RETR with the argument \<open>x\<close>.\<close>

definition asks :: "int \<Rightarrow> cstring \<Rightarrow> answers \<Rightarrow> answers \<Rightarrow> bool" where
  "asks fd x an1 an2 \<longleftrightarrow> arg_word x \<and> says an1 fd [command_line ''RETR'' x] \<and> io_mem (a_read an1 fd)
     \<and> takes an2 fd (length POSITIVE_MSG)"

definition retrieves :: "int \<Rightarrow> int \<Rightarrow> cstring \<Rightarrow> byte list list \<Rightarrow> answers \<Rightarrow> answers \<Rightarrow> answers \<Rightarrow> answers \<Rightarrow> bool" where
  "retrieves fd m x ls an1 an2 an3 an4 \<longleftrightarrow> asks fd x an1 an2
     \<and> io_read (a_read an3 m) = Some (mail_text ls) \<and> whole_mail ls \<and> takes an4 m (length (mail_text ls))"

definition retr_schedule :: "int \<Rightarrow> int \<Rightarrow> answers \<Rightarrow> answers \<Rightarrow> answers \<Rightarrow> answers \<Rightarrow> (pselect_result \<times> answers) list" where
  "retr_schedule fd m an1 an2 an3 an4 = [(Ready {fd} {}, an1), (Ready {} {fd}, an2), (Ready {m} {}, an3), (Ready {} {m}, an4)]"

text \<open>The mail \<open>m\<close> is open and the reply to the command has gone out.\<close>

definition reading :: "int \<Rightarrow> int \<Rightarrow> nat \<Rightarrow> world \<Rightarrow> pop3 \<Rightarrow> bool" where
  "reading fd m a w p \<longleftrightarrow> stands fd OP_READ a READING_MAIL w p \<and> registered (w_sel w) m = Some (mail_item m OP_READ a)
     \<and> client p = Mail_st m fd \<and> selected_mail_fd p = m \<and> byte_stuffing_st p = 0 \<and> p_parser p = create_parser
     \<and> drained (read_buffer p) \<and> drained (write_buffer p)"

lemma open_rounds:
  assumes "at_prompt fd a TRANSACTION w p" "loadable (env_of (a_read an1 fd) w) p ms" "asks fd x an1 an2"
    and "msg_ref (dele_flags p) (length ms) (Some x) = Message i" "open_mail (io_os (a_read an1 fd)) (file_path (ms ! i)) = m"
    and "free_fd m (w_sel w)"
  shows "\<exists>w' q. leads w [(Ready {fd} {}, an1), (Ready {} {fd}, an2)] w' \<and> reading fd m a w' q \<and> mail_done q = 0
    \<and> w_sent w' = w_sent w @ [(fd, POSITIVE_MSG)] \<and> cred_user q = cred_user p \<and> dele_flags q = dele_flags p
    \<and> registered (w_sel w') = (registered (w_sel w))(m \<mapsto> mail_item m OP_READ a) \<and> grows (w_sel w) (w_sel w') \<and> w_closed w' = w_closed w"
proof -
  let ?io = "a_read an1 fd" and ?ls = "[command_line ''RETR'' x]"
  from assms(1) have p: "selector_inv (w_sel w)" "resolution_jobs (w_sel w) = []" "client_fd p = fd"
    "registered (w_sel w) fd = Some (client_item fd OP_READ a)" "drained (write_buffer p)"
    by (simp_all add: at_prompt_def stands_def)
  from assms(3) have x: "arg_word x" "io_recv ?io = Some (lines_of ?ls)" "io_mem ?io" "takes an2 fd (length POSITIVE_MSG)"
    by (simp_all add: asks_def says_def)
  from assms(6) p(4) have m: "0 \<le> m" "m \<noteq> fd" by (auto simp: free_fd_def INVALID_FD_def)
  from retr_line [OF assms(2) x(1) assms(4) _ m(1) p(5)] assms(5) obtain q where
    q: "run_lines (env_of ?io w) TRANSACTION ?ls (TRANSACTION, p) = Inr (READING_MAIL, q)" "opened m p q"
    by (auto simp: env_of_def simp del: run_lines.simps)
  from q(2) have q': "selected_mail_fd q = m" "client_fd q = fd" "steady (write_buffer q)" "content (write_buffer q) = POSITIVE_MSG"
    "cred_user q = cred_user p" "dele_flags q = dele_flags p" "p_parser q = create_parser"
    using p(3) by (simp_all add: opened_def)
  have l: "?ls \<noteq> []" "\<forall>l \<in> set ?ls. CR \<notin> set l" "length (lines_of ?ls) \<le> BUFFER_SIZE"
    using x(1) by (auto simp: arg_word_def command_line_def lines_of_def crlf_def BUFFER_SIZE_def)
  from retr_turn [OF assms(1) x(2) l q(1) q'(1,2) x(3) assms(6)] obtain s1 b1 where
    r1: "pop3_read ?io fd (Some (Pop3_data a)) w
      = Inr (w\<lparr>w_sel := s1, w_conns := (w_conns w)(a \<mapsto> q\<lparr>read_buffer := b1, client := Mail_st m fd, mail_done := 0,
          byte_stuffing_st := 0, p_stm := Some READING_MAIL\<rparr>)\<rparr>)" "drained b1" "selector_inv s1" "grows (w_sel w) s1"
      "registered s1 = (registered (w_sel w))(fd \<mapsto> client_item fd OP_WRITE a, m \<mapsto> mail_item m OP_READ a)" by blast
  let ?q1 = "q\<lparr>read_buffer := b1, client := Mail_st m fd, mail_done := 0, byte_stuffing_st := 0, p_stm := Some READING_MAIL\<rparr>"
  let ?w1 = "w\<lparr>w_sel := s1, w_conns := (w_conns w)(a \<mapsto> ?q1)\<rparr>"
  have 1: "serve_round (Ready {fd} {}) an1 w = Inr (SELECTOR_SUCCESS, ?w1)"
    by (rule read_round [OF p(1,2,4) _ r1(1)]) (use r1 in simp_all)
  have st1: "stands fd OP_WRITE a READING_MAIL ?w1 ?q1" using r1 p(2) q' m(2) by (simp add: stands_def grows_def)
  from x(4) obtain n where n: "io_send (a_write an2 fd) = Some n" "length POSITIVE_MSG \<le> n" unfolding takes_def by blast
  have wb: "steady (write_buffer ?q1)" "length (content (write_buffer ?q1)) \<le> n" "write_buffer ?q1 = write_buffer q"
    using q' n(2) by simp_all
  from write_turn [OF st1 wb(1) n(1) wb(2), of m] obtain w2 where
    w2: "pop3_write (a_write an2 fd) fd (Some (Pop3_data a)) ?w1 = Inr w2" "answered fd a ?q1 ?w1 w2" by auto
  from w2(2) obtain s2 b2 t2 where
    r2: "w2 = ?w1\<lparr>w_sent := w_sent w @ [(fd, POSITIVE_MSG)], transfer_bytes := t2, w_sel := s2,
        w_conns := (w_conns w)(a \<mapsto> ?q1\<lparr>write_buffer := b2\<rparr>)\<rparr>"
      "drained b2" "selector_inv s2" "grows s1 s2" "registered s2 = (registered s1)(fd \<mapsto> client_item fd OP_READ a)"
    unfolding answered_def wb(3) q'(4) by auto
  have 2: "serve_round (Ready {} {fd}) an2 ?w1 = Inr (SELECTOR_SUCCESS, w2)"
    by (rule write_round [where it = "client_item fd OP_WRITE a", OF _ _ _ _ w2(1)])
      (use r1 r2 p(2) m(2) in \<open>simp_all add: grows_def\<close>)
  have reg2: "registered s2 = (registered (w_sel w))(m \<mapsto> mail_item m OP_READ a)"
    using r2(5) r1(5) p(4) m(2) by (auto simp: fun_eq_iff)
  let ?q2 = "?q1\<lparr>write_buffer := b2\<rparr>"
  have "reading fd m a w2 ?q2"
    using r2(1-4) r1(2,4) reg2 p(2,4) q'(1,2,7) m(2) by (simp add: reading_def stands_def grows_def)
  with 1 2 r2(1) reg2 q'(5,6) grows_trans [OF r1(4) r2(4)] show ?thesis by (intro exI [of _ w2] exI [of _ ?q2]) simp
qed

lemma mail_rounds:
  assumes "reading fd m a w p" "io_read (a_read an1 m) = Some (mail_text ls)" "whole_mail ls" "takes an2 m (length (mail_text ls))"
    and "m \<noteq> fd"
  shows "\<exists>w' q. leads w [(Ready {m} {}, an1), (Ready {} {m}, an2)] w' \<and> at_prompt fd a TRANSACTION w' q
    \<and> w_sent w' = w_sent w @ [(fd, mail_text ls)] \<and> cred_user q = cred_user p \<and> dele_flags q = dele_flags p
    \<and> registered (w_sel w') = (registered (w_sel w))(m := None) \<and> grows (w_sel w) (w_sel w') \<and> w_closed w' = w_closed w"
proof -
  from assms(1) have st: "stands fd OP_READ a READING_MAIL w p" "client p = Mail_st m fd"
    "registered (w_sel w) m = Some (mail_item m OP_READ a)" "drained (read_buffer p)" "drained (write_buffer p)"
    "byte_stuffing_st p = 0" "p_parser p = create_parser" by (simp_all add: reading_def)
  then have p: "selector_inv (w_sel w)" "resolution_jobs (w_sel w) = []" "client_fd p = fd"
    "registered (w_sel w) fd = Some (client_item fd OP_READ a)" by (simp_all add: stands_def)
  from mail_read_turn [OF st(1-6) assms(2,3)] obtain w1 where
    w1: "pop3_read (a_read an1 m) m (Some (Pop3_data a)) w = Inr w1" "copied fd m a ls p w w1" by blast
  from w1(2) obtain s1 rb wb z where
    r1: "w1 = w\<lparr>w_sel := s1, w_conns := (w_conns w)(a \<mapsto> p\<lparr>read_buffer := rb, write_buffer := wb,
        byte_stuffing_st := z, mail_done := 1, p_stm := Some WRITING_MAIL\<rparr>)\<rparr>"
      "drained rb" "steady wb" "content wb = mail_text ls" "selector_inv s1" "grows (w_sel w) s1"
      "registered s1 = (registered (w_sel w))(m \<mapsto> mail_item m OP_WRITE a)" unfolding copied_def by blast
  let ?p1 = "p\<lparr>read_buffer := rb, write_buffer := wb, byte_stuffing_st := z, mail_done := 1, p_stm := Some WRITING_MAIL\<rparr>"
  have 1: "serve_round (Ready {m} {}) an1 w = Inr (SELECTOR_SUCCESS, w1)"
    by (rule read_round [OF p(1,2) st(3) _ w1(1)]) (use r1 in simp_all)
  have st1: "stands fd OP_READ a WRITING_MAIL w1 ?p1" "registered (w_sel w1) m = Some (mail_item m OP_WRITE a)"
    using r1 p assms(5) by (simp_all add: stands_def grows_def)
  from assms(4) obtain k where k: "io_send (a_write an2 m) = Some k" "length (mail_text ls) \<le> k" unfolding takes_def by blast
  have b: "steady (read_buffer ?p1)" "steady (write_buffer ?p1)" "length (content (write_buffer ?p1)) \<le> k"
    using r1(2-4) k(2) by (simp_all add: drained_def)
  from mail_write_turn [OF st1(1) _ st1(2) b(1,2) _ k(1) b(3)] st(2) obtain w2 where
    w2: "pop3_write (a_write an2 m) m (Some (Pop3_data a)) w1 = Inr w2" "delivered fd m a ?p1 w1 w2" by auto
  from w2(2) obtain s2 b2 rb2 t where
    r2: "w2 = w1\<lparr>w_sent := w_sent w1 @ [(fd, mail_text ls)], transfer_bytes := t, w_sel := s2,
        w_conns := (w_conns w1)(a \<mapsto> ?p1\<lparr>write_buffer := b2, read_buffer := rb2, mail_done := 0, client := State_st,
          p_stm := Some TRANSACTION\<rparr>)\<rparr>"
      "drained b2" "drained rb2" "selector_inv s2" "grows (w_sel w1) s2" "registered s2 = (registered (w_sel w1))(m := None)"
    using r1(4) unfolding delivered_def by auto
  let ?p2 = "?p1\<lparr>write_buffer := b2, read_buffer := rb2, mail_done := 0, client := State_st, p_stm := Some TRANSACTION\<rparr>"
  have s1: "w_sel w1 = s1" using r1(1) by simp
  have 2: "serve_round (Ready {} {m}) an2 w1 = Inr (SELECTOR_SUCCESS, w2)"
    by (rule write_round [OF _ _ st1(2) _ w2(1)]) (use r1(5,6) r2 s1 p(2) in \<open>simp_all add: grows_def\<close>)
  have reg: "registered s2 = (registered (w_sel w))(m := None)" using r2(6) r1(7) unfolding s1 by simp
  have "at_prompt fd a TRANSACTION w2 ?p2"
    using r2(1-5) r1(6) reg p(2-4) st(7) s1 assms(5) by (simp add: at_prompt_def stands_def grows_def)
  moreover have "w_sent w2 = w_sent w @ [(fd, mail_text ls)]" by (simp add: r2(1)) (simp add: r1(1))
  moreover have "grows (w_sel w) s2" "w_closed w1 = w_closed w" using grows_trans [OF r1(6)] r2(5) s1 r1(1) by simp_all
  ultimately show ?thesis using 1 2 r2(1) reg by (intro exI [of _ w2] exI [of _ ?p2]) simp
qed

lemma retr_rounds:
  assumes "at_prompt fd a TRANSACTION w p" "loadable (env_of (a_read an1 fd) w) p ms" "retrieves fd m x ls an1 an2 an3 an4"
    and "msg_ref (dele_flags p) (length ms) (Some x) = Message i" "open_mail (io_os (a_read an1 fd)) (file_path (ms ! i)) = m"
    and "free_fd m (w_sel w)"
  shows "\<exists>w' q. leads w (retr_schedule fd m an1 an2 an3 an4) w' \<and> at_prompt fd a TRANSACTION w' q
    \<and> w_sent w' = w_sent w @ [(fd, POSITIVE_MSG), (fd, mail_text ls)] \<and> cred_user q = cred_user p
    \<and> dele_flags q = dele_flags p \<and> registered (w_sel w') = registered (w_sel w) \<and> grows (w_sel w) (w_sel w') \<and> w_closed w' = w_closed w"
proof -
  from assms(1,6) have m: "registered (w_sel w) m = None" "m \<noteq> fd"
    by (auto simp: at_prompt_def stands_def free_fd_def)
  from assms(3) have x: "io_read (a_read an3 m) = Some (mail_text ls)" "whole_mail ls" "takes an4 m (length (mail_text ls))"
    and ask: "asks fd x an1 an2" by (simp_all add: retrieves_def)
  from open_rounds [OF assms(1,2) ask assms(4-6)] obtain w1 q1 where
    1: "leads w [(Ready {fd} {}, an1), (Ready {} {fd}, an2)] w1" "reading fd m a w1 q1"
      "w_sent w1 = w_sent w @ [(fd, POSITIVE_MSG)]" "cred_user q1 = cred_user p" "dele_flags q1 = dele_flags p"
      "registered (w_sel w1) = (registered (w_sel w))(m \<mapsto> mail_item m OP_READ a)"
      "grows (w_sel w) (w_sel w1)" "w_closed w1 = w_closed w" by blast
  from mail_rounds [OF 1(2) x m(2)] obtain w2 q2 where
    2: "leads w1 [(Ready {m} {}, an3), (Ready {} {m}, an4)] w2" "at_prompt fd a TRANSACTION w2 q2"
      "w_sent w2 = w_sent w1 @ [(fd, mail_text ls)]" "cred_user q2 = cred_user q1" "dele_flags q2 = dele_flags q1"
      "registered (w_sel w2) = (registered (w_sel w1))(m := None)" "grows (w_sel w1) (w_sel w2)" "w_closed w2 = w_closed w1" by blast
  have "leads w (retr_schedule fd m an1 an2 an3 an4) w2"
    using leads_append [of w "[(Ready {fd} {}, an1), (Ready {} {fd}, an2)]" "[(Ready {m} {}, an3), (Ready {} {m}, an4)]" w2]
      1(1) 2(1) by (auto simp: retr_schedule_def)
  moreover have "registered (w_sel w2) = registered (w_sel w)" using 1(6) 2(6) m(1) by auto
  ultimately show ?thesis using 1(3-5,8) 2(2-5,8) grows_trans [OF 1(7) 2(7)] by (intro exI [of _ w2] exI [of _ q2]) simp
qed

section \<open>A visit\<close>

text \<open>The mails a session of the user \<open>u\<close> will load: its directory can be read and is not empty.\<close>

definition has_mails :: "os \<Rightarrow> cstring \<Rightarrow> cstring \<Rightarrow> mail_t list \<Rightarrow> bool" where
  "has_mails os path u ms \<longleftrightarrow> (\<exists>names. opendir os (path @ u @ CUR) = Some names \<and> stats_known os path u names
     \<and> mail_files names \<noteq> [] \<and> ms = inbox os path u names)"

lemma has_mails_loadable:
  assumes "has_mails (io_os io) (w_maildir w) u ms" "mailbox_inv p" "drained (write_buffer p)" "cred_user p = Some u"
  shows "loadable (env_of io w) p ms"
  using assms drainedD [OF assms(3)] unfolding has_mails_def loadable_def env_of_def by auto

lemma has_mails_length: "has_mails os path u ms \<Longrightarrow> length ms \<le> 30"
  using length_inbox by (auto simp: has_mails_def MAX_MAILS_def)

lemma has_mails_nonempty: "has_mails os path u ms \<Longrightarrow> 0 < length ms"
  by (auto simp: has_mails_def inbox_Nil_iff)

text \<open>The answers of the eight rounds: the client arrives, logs in with \<open>u\<close> and \<open>v\<close>, and sends RETR \<open>x\<close>.\<close>

definition enters :: "int \<Rightarrow> int \<Rightarrow> cstring \<Rightarrow> cstring \<Rightarrow> (nat \<Rightarrow> answers) \<Rightarrow> bool" where
  "enters s4 fd u v an \<longleftrightarrow> arrives (an 0) s4 fd \<and> takes (an 1) fd (length WELCOME) \<and> arg_word u \<and> arg_word v
     \<and> says (an 2) fd [command_line ''USER'' u, command_line ''PASS'' v] \<and> takes (an 3) fd (length (POSITIVE_MSG @ LOGIN_MSG))"

definition entry_schedule :: "int \<Rightarrow> int \<Rightarrow> (nat \<Rightarrow> answers) \<Rightarrow> (pselect_result \<times> answers) list" where
  "entry_schedule s4 fd an = [(Ready {s4} {}, an 0), (Ready {} {fd}, an 1), (Ready {fd} {}, an 2), (Ready {} {fd}, an 3)]"

definition visitor :: "int \<Rightarrow> int \<Rightarrow> int \<Rightarrow> cstring \<Rightarrow> cstring \<Rightarrow> cstring \<Rightarrow> byte list list \<Rightarrow> (nat \<Rightarrow> answers) \<Rightarrow> bool" where
  "visitor s4 fd m u v x ls an \<longleftrightarrow> enters s4 fd u v an \<and> retrieves fd m x ls (an 4) (an 5) (an 6) (an 7)"

definition visit_schedule :: "int \<Rightarrow> int \<Rightarrow> int \<Rightarrow> (nat \<Rightarrow> answers) \<Rightarrow> (pselect_result \<times> answers) list" where
  "visit_schedule s4 fd m an = entry_schedule s4 fd an @ retr_schedule fd m (an 4) (an 5) (an 6) (an 7)"

lemma free_fd_grows: "free_fd m s \<Longrightarrow> grows s s' \<Longrightarrow> registered s' m = None \<Longrightarrow> free_fd m s'"
  by (auto simp: free_fd_def grows_def)

lemma greet_prompt:
  assumes "selector_inv (w_sel w)" "resolution_jobs (w_sel w) = []" "\<forall>b \<in> set (head_connection w). w_conns w b \<noteq> None"
    and "registered (w_sel w) s4 = Some (passive_item s4 Pop3_passive)" "free_fd fd (w_sel w)"
    and "arrives an1 s4 fd" "takes an2 fd (length WELCOME)"
  shows "\<exists>w' p. leads w [(Ready {s4} {}, an1), (Ready {} {fd}, an2)] w' \<and> at_prompt fd (w_next w) AUTH w' p
    \<and> w_sent w' = w_sent w @ [(fd, WELCOME)] \<and> mailbox_inv p \<and> dele_flags p = replicate 30 0
    \<and> w_closed w' = w_closed w \<and> w_users w' = w_users w \<and> w_maildir w' = w_maildir w \<and> grows (w_sel w) (w_sel w')
    \<and> registered (w_sel w') = (registered (w_sel w))(fd \<mapsto> client_item fd OP_READ (w_next w))"
proof -
  from assms(5) have fd: "fd \<noteq> - 1" "usable_fd (w_sel w) fd" "registered (w_sel w) fd = None"
    by (auto simp: free_fd_def usable_fd_def INVALID_FD_def)
  let ?a = "w_next w" and ?p = "\<lambda>b. (pop3_zero fd)\<lparr>client := State_st, write_buffer := b, p_stm := Some AUTH\<rparr>"
  from greet_rounds [OF assms(1-4,6) fd assms(7)] obtain w1 s b t where
    g: "serve_round (Ready {s4} {}) an1 w = Inr (SELECTOR_SUCCESS, w1)"
      "serve_round (Ready {} {fd}) an2 w1 = Inr (SELECTOR_SUCCESS, w\<lparr>w_next := Suc ?a, connections := connections w + 1,
        historic_connections := historic_connections w + 1, head_connection := head_connection w @ [?a],
        w_sent := w_sent w @ [(fd, WELCOME)], transfer_bytes := t, w_sel := s, w_conns := (w_conns w)(?a \<mapsto> ?p b)\<rparr>)"
      (is "_ = Inr (_, ?w)")
    and s: "drained b" "selector_inv s" "grows (w_sel w) s"
      "registered s = (registered (w_sel w))(fd \<mapsto> client_item fd OP_READ ?a)"
    unfolding client_item_def by blast
  have "drained (read_buffer (?p b))"
    by (simp add: pop3_zero_def drained_def steady_def) (simp add: buffer_init_def)
  then have "at_prompt fd ?a AUTH ?w (?p b)"
    using s assms(2) by (simp add: at_prompt_def stands_def grows_def) (simp add: pop3_zero_def)
  moreover have "mailbox_inv (?p b)" "dele_flags (?p b) = replicate 30 0"
    by (simp_all add: mailbox_inv_def pop3_zero_def MAX_MAILS_def)
  ultimately show ?thesis using g s(3,4) by (intro exI [of _ ?w] exI [of _ "?p b"]) simp
qed

text \<open>The client is logged in, its mailbox can be loaded, and the mail \<open>i\<close> it may ask for is there.\<close>

definition can_ask :: "int \<Rightarrow> nat \<Rightarrow> int \<Rightarrow> io \<Rightarrow> cstring \<Rightarrow> mail_t list \<Rightarrow> nat \<Rightarrow> world \<Rightarrow> pop3 \<Rightarrow> bool" where
  "can_ask fd a m io x ms i w p \<longleftrightarrow> at_prompt fd a TRANSACTION w p \<and> loadable (env_of io w) p ms
     \<and> msg_ref (dele_flags p) (length ms) (Some x) = Message i \<and> free_fd m (w_sel w)"

lemma entry_rounds:
  assumes "selector_inv (w_sel w)" "resolution_jobs (w_sel w) = []" "\<forall>b \<in> set (head_connection w). w_conns w b \<noteq> None"
    and "registered (w_sel w) s4 = Some (passive_item s4 Pop3_passive)" "free_fd fd (w_sel w)" "free_fd m (w_sel w)" "m \<noteq> fd"
    and "users_are (w_users w) xs" "(u, v) \<in> set xs" "enters s4 fd u v an" "has_mails (io_os io) (w_maildir w) u ms"
    and "i < length ms" "unat (atoi x) = Suc i"
  shows "\<exists>w' p. leads w (entry_schedule s4 fd an) w' \<and> can_ask fd (w_next w) m io x ms i w' p
    \<and> w_sent w' = w_sent w @ [(fd, WELCOME), (fd, POSITIVE_MSG @ LOGIN_MSG)] \<and> w_closed w' = w_closed w"
proof -
  let ?a = "w_next w"
  from assms(10) have v: "arrives (an 0) s4 fd" "takes (an 1) fd (length WELCOME)" "arg_word u" "arg_word v"
    "says (an 2) fd [command_line ''USER'' u, command_line ''PASS'' v]" "takes (an 3) fd (length (POSITIVE_MSG @ LOGIN_MSG))"
    unfolding enters_def by blast+
  from greet_prompt [OF assms(1-5) v(1,2)] obtain w1 p1 where
    1: "leads w [(Ready {s4} {}, an 0), (Ready {} {fd}, an 1)] w1" "at_prompt fd ?a AUTH w1 p1"
      "w_sent w1 = w_sent w @ [(fd, WELCOME)]" "mailbox_inv p1" "dele_flags p1 = replicate 30 0" "w_users w1 = w_users w"
      "w_maildir w1 = w_maildir w" "grows (w_sel w) (w_sel w1)"
      "registered (w_sel w1) = (registered (w_sel w))(fd \<mapsto> client_item fd OP_READ ?a)" "w_closed w1 = w_closed w" by blast
  from 1(6) assms(8) have "users_are (w_users w1) xs" by simp
  from login_rounds [OF 1(2) v(3,4) this assms(9) v(5,6)] obtain w2 p2 where
    2: "leads w1 [(Ready {fd} {}, an 2), (Ready {} {fd}, an 3)] w2" "at_prompt fd ?a TRANSACTION w2 p2"
      "w_sent w2 = w_sent w1 @ [(fd, POSITIVE_MSG @ LOGIN_MSG)]" "cred_user p2 = Some u" "dele_flags p2 = dele_flags p1"
      "mailbox_inv p2 = mailbox_inv p1" "w_maildir w2 = w_maildir w1" "grows (w_sel w1) (w_sel w2)"
      "registered (w_sel w2) = registered (w_sel w1)" "w_closed w2 = w_closed w1" by blast
  from 2(2) have "drained (write_buffer p2)" by (simp add: at_prompt_def)
  with has_mails_loadable [of io w2 u ms p2] assms(11) 1(4,7) 2(4,6,7) have "loadable (env_of io w2) p2 ms" by simp
  moreover have "msg_ref (dele_flags p2) (length ms) (Some x) = Message i"
    using assms(12,13) has_mails_length [OF assms(11)] 1(5) 2(5) by (simp add: msg_ref_def Let_def)
  moreover have "registered (w_sel w2) m = None" using 1(9) 2(9) assms(6,7) by (simp add: free_fd_def)
  with free_fd_grows [OF assms(6) grows_trans [OF 1(8) 2(8)]] have "free_fd m (w_sel w2)" by simp
  moreover have "leads w (entry_schedule s4 fd an) w2"
    using leads_append [of w "[(Ready {s4} {}, an 0), (Ready {} {fd}, an 1)]" "[(Ready {fd} {}, an 2), (Ready {} {fd}, an 3)]" w2]
      1(1) 2(1) by (auto simp: entry_schedule_def)
  ultimately show ?thesis using 1(3,10) 2(2,3,10)
    by (intro exI [of _ w2] exI [of _ p2]) (simp add: can_ask_def)
qed

section \<open>Properties\<close>

text \<open>
  C5. A client gets its mail: from any state of the loop in which the server listens and two descriptors are free, the
  eight rounds in which a client connects, sends the name and the password of a registered user in one read,
  then RETR with the number of one of that user's mails, are all served, and the loop goes on. What has then been sent to
  the client is the welcome line, the two replies to the login, the reply to RETR and the bytes of the mail's
  file up to its terminator; its session waits for the next command. The mail's descriptor is out of the selector, but it has not been
  closed.
\<close>

theorem client_gets_its_mail:
  assumes "selector_inv (w_sel (m_world M))" "resolution_jobs (w_sel (m_world M)) = []"
    and "\<forall>b \<in> set (head_connection (m_world M)). w_conns (m_world M) b \<noteq> None"
    and "registered (w_sel (m_world M)) s4 = Some (passive_item s4 Pop3_passive)"
    and "free_fd fd (w_sel (m_world M))" "free_fd m (w_sel (m_world M))" "m \<noteq> fd"
    and "users_are (w_users (m_world M)) xs" "(u, v) \<in> set xs" "visitor s4 fd m u v x ls an"
    and "has_mails (io_os (a_read (an 4) fd)) (w_maildir (m_world M)) u ms" "i < length ms" "unat (atoi x) = Suc i"
    and "open_mail (io_os (a_read (an 4) fd)) (file_path (ms ! i)) = m"
  shows "\<exists>M' p. main_loop (visit_schedule s4 fd m an) M = Inr (Inr M') \<and> ss M' = SELECTOR_SUCCESS
    \<and> w_sent (m_world M') = w_sent (m_world M)
        @ [(fd, WELCOME), (fd, POSITIVE_MSG @ LOGIN_MSG), (fd, POSITIVE_MSG), (fd, mail_text ls)]
    \<and> at_prompt fd (w_next (m_world M)) TRANSACTION (m_world M') p \<and> free_fd m (w_sel (m_world M'))
    \<and> w_closed (m_world M') = w_closed (m_world M)"
proof -
  let ?w = "m_world M" and ?a = "w_next (m_world M)" and ?io = "a_read (an 4) fd"
  from assms(10) have v: "enters s4 fd u v an" "retrieves fd m x ls (an 4) (an 5) (an 6) (an 7)" by (simp_all add: visitor_def)
  from entry_rounds [OF assms(1-9) v(1) assms(11-13)] obtain w1 p1 where
    1: "leads ?w (entry_schedule s4 fd an) w1" "can_ask fd ?a m ?io x ms i w1 p1"
      "w_sent w1 = w_sent ?w @ [(fd, WELCOME), (fd, POSITIVE_MSG @ LOGIN_MSG)]" "w_closed w1 = w_closed ?w" by blast
  from 1(2) have a: "at_prompt fd ?a TRANSACTION w1 p1" "loadable (env_of ?io w1) p1 ms"
    "msg_ref (dele_flags p1) (length ms) (Some x) = Message i" "free_fd m (w_sel w1)" by (simp_all add: can_ask_def)
  from retr_rounds [OF a(1,2) v(2) a(3) assms(14) a(4)] obtain w3 p3 where
    3: "leads w1 (retr_schedule fd m (an 4) (an 5) (an 6) (an 7)) w3" "at_prompt fd ?a TRANSACTION w3 p3"
      "w_sent w3 = w_sent w1 @ [(fd, POSITIVE_MSG), (fd, mail_text ls)]" "registered (w_sel w3) = registered (w_sel w1)"
      "grows (w_sel w1) (w_sel w3)" "w_closed w3 = w_closed w1" by blast
  have "leads ?w (visit_schedule s4 fd m an) w3"
    using 1(1) 3(1) unfolding visit_schedule_def leads_append by blast
  moreover have "visit_schedule s4 fd m an \<noteq> []" by (simp add: visit_schedule_def entry_schedule_def)
  ultimately have "main_loop (visit_schedule s4 fd m an) M
      = Inr (Inr (M\<lparr>err_msg := None, ss := SELECTOR_SUCCESS, m_world := w3\<rparr>))" by (rule leads_main_loop)
  moreover have "free_fd m (w_sel w3)"
    using free_fd_grows [OF a(4) 3(5)] 3(4) a(4) by (simp add: free_fd_def)
  ultimately show ?thesis using 1(3,4) 3(2,3,6)
    by (intro exI [of _ "M\<lparr>err_msg := None, ss := SELECTOR_SUCCESS, m_world := w3\<rparr>"] exI [of _ p3]) simp
qed

definition example_visit :: "nat \<Rightarrow> answers" where
  "example_visit j = \<lparr>a_read = (\<lambda>fd. (example_io (if j = 2 then lines_of [command_line ''USER'' (str ''foo''), command_line ''PASS'' (str ''bar'')]
       else lines_of [command_line ''RETR'' (str ''1'')]))\<lparr>io_os := example_os\<lparr>open_mail := \<lambda>path. 12\<rparr>,
         io_read := Some (mail_text [str ''a''])\<rparr>),
     a_write = (\<lambda>fd. example_io []), a_block = (\<lambda>fd. example_io [])\<rparr>"

lemma example_visitor: "visitor 3 9 12 (str ''foo'') (str ''bar'') (str ''1'') [str ''a''] example_visit"
proof -
  have "arg_word (str ''foo'')" "arg_word (str ''bar'')" "arg_word (str ''1'')" by (simp_all add: arg_word_def)
  moreover have "whole_mail [str ''a'']"
    by (simp add: whole_mail_def blank_tail_def mail_text_def terminator_def crlf_def BUFFER_SIZE_def)
  moreover have "length (mail_text [str ''a'']) \<le> 100" "length WELCOME \<le> 100" "length POSITIVE_MSG \<le> 100"
    "length (POSITIVE_MSG @ LOGIN_MSG) \<le> 100"
    by (simp_all add: mail_text_def terminator_def crlf_def WELCOME_def POSITIVE_MSG_def LOGIN_MSG_def)
  ultimately show ?thesis
    unfolding visitor_def enters_def retrieves_def asks_def arrives_def takes_def says_def example_visit_def example_io_def
    by (simp del: str_Cons)
qed

lemma example_has_mails:
  "has_mails (io_os (a_read (example_visit 4) 9)) INITIAL_PATH (str ''foo'')
    (inbox (example_os\<lparr>open_mail := \<lambda>path. 12\<rparr>) INITIAL_PATH (str ''foo'') [str ''.'', str ''a'', str ''..'', str ''b''])"
proof -
  let ?os = "example_os\<lparr>open_mail := \<lambda>path. 12\<rparr>"
  have "io_os (a_read (example_visit 4) 9) = ?os" by (simp add: example_visit_def)
  moreover have "opendir ?os (INITIAL_PATH @ str ''foo'' @ CUR) = Some [str ''.'', str ''a'', str ''..'', str ''b'']"
    using example_dir by simp
  moreover have "stats_known ?os INITIAL_PATH (str ''foo'') [str ''.'', str ''a'', str ''..'', str ''b'']"
    using example_stats by (simp add: stats_known_def example_os_def del: str_Cons)
  moreover have "mail_files [str ''.'', str ''a'', str ''..'', str ''b''] \<noteq> []" unfolding example_files by simp
  ultimately show ?thesis unfolding has_mails_def by metis
qed

theorem client_gets_its_mail_witness:
  "\<exists>M M' p. main_setup example_boot (main_start 1110 INITIAL_PATH) = Inr (Inr M)
    \<and> main_loop (visit_schedule 3 9 12 example_visit) M = Inr (Inr M')
    \<and> w_sent (m_world M') = w_sent (m_world M)
        @ [(9, WELCOME), (9, POSITIVE_MSG @ LOGIN_MSG), (9, POSITIVE_MSG), (9, mail_text [str ''a''])]
    \<and> at_prompt 9 (w_next (m_world M)) TRANSACTION (m_world M') p"
proof -
  from main_setup_run [OF example_boots, of 1110 INITIAL_PATH] obtain M where
    m: "main_setup example_boot (main_start 1110 INITIAL_PATH) = Inr (Inr M)" "listening (sockets 3 4 5 6) (w_sel (m_world M))"
      "users_are (w_users (m_world M)) [(str ''foo'', str ''bar'')]" "w_maildir (m_world M) = INITIAL_PATH"
      "head_connection (m_world M) = []" by blast
  let ?w = "m_world M" and ?ms = "inbox (example_os\<lparr>open_mail := \<lambda>path. 12\<rparr>) INITIAL_PATH (str ''foo'') [str ''.'', str ''a'', str ''..'', str ''b'']"
  from m(2) have w: "selector_inv (w_sel ?w)" "resolution_jobs (w_sel ?w) = []"
    "registered (w_sel ?w) 3 = Some (passive_item 3 Pop3_passive)" "free_fd 9 (w_sel ?w)" "free_fd 12 (w_sel ?w)"
    by (simp_all add: listening_def sockets_def free_fd_def INVALID_FD_def ITEMS_MAX_SIZE_def)
  have heads: "\<forall>b \<in> set (head_connection ?w). w_conns ?w b \<noteq> None" using m(5) by simp
  have ms: "has_mails (io_os (a_read (example_visit 4) 9)) (w_maildir ?w) (str ''foo'') ?ms"
    using example_has_mails m(4) by simp
  note i = has_mails_nonempty [OF ms]
  have n: "unat (atoi (str ''1'')) = Suc 0" unfolding example_numbers by simp
  have o: "open_mail (io_os (a_read (example_visit 4) 9)) (file_path (?ms ! 0)) = 12" by (simp add: example_visit_def)
  have u: "(str ''foo'', str ''bar'') \<in> set [(str ''foo'', str ''bar'')]" by simp
  from client_gets_its_mail [OF w(1,2) heads w(3-5) _ m(3) u example_visitor ms i n o] m(1) show ?thesis by auto
qed

end
