(* ===== verification/Farewell.thy ===== *)
theory Farewell
  imports Dialogue
begin

text \<open>
  The end of a client's visit, as rounds of the server's loop: the mails it has marked are removed when
  it says QUIT, and its session is freed and its socket closed.
\<close>

section \<open>Marking a mail\<close>

lemma dele_line:
  assumes "loadable env p ms" "arg_word x" "msg_ref (dele_flags p) (length ms) (Some x) = Message i" "drained (write_buffer p)"
  shows "\<exists>p1 b. run_lines env TRANSACTION [command_line ''DELE'' x] (TRANSACTION, p)
      = Inr (TRANSACTION, p1\<lparr>dele_flags := (dele_flags p)[i := 1], write_buffer := b, p_parser := create_parser\<rparr>)
    \<and> loaded (p\<lparr>p_parser := line_parser (command_line ''DELE'' x)\<rparr>) ms p1 \<and> steady b \<and> content b = DELE_MSG"
proof -
  let ?p = "p\<lparr>p_parser := line_parser (command_line ''DELE'' x)\<rparr>"
  note wb = drainedD [OF assms(4)]
  have "loadable env ?p ms" using assms(1) by (simp add: loadable_def)
  from dele_outcome [OF this, where cur = TRANSACTION and ?arg1.0 = "Some x"] assms(3) obtain p1 b where
    r: "loaded ?p ms p1" "said DELE_MSG (write_buffer p) b"
      "dele_handler env TRANSACTION (Some x) ?p = Inr (TRANSACTION, p1\<lparr>dele_flags := (dele_flags p)[i := 1], write_buffer := b\<rparr>)"
    by auto
  have run: "run_line env TRANSACTION (command_line ''DELE'' x) (TRANSACTION, p)
      = Inr (TRANSACTION, (p1\<lparr>dele_flags := (dele_flags p)[i := 1], write_buffer := b\<rparr>)\<lparr>p_parser := create_parser\<rparr>)"
    by (rule run_command_line [where h = Dele])
      (use assms(2) r(3) in \<open>simp_all add: commands_per_state_def transaction_commands_def\<close>)
  have "length DELE_MSG \<le> room (write_buffer p)" "DELE_MSG \<noteq> []" "b_limit (write_buffer p) = BUFFER_SIZE"
    using wb by (simp_all add: DELE_MSG_def BUFFER_SIZE_def)
  with said_steady [OF r(2)] wb have "steady b" "content b = DELE_MSG" by simp_all
  with run r(1) show ?thesis by (intro exI [of _ p1] exI [of _ b]) simp
qed

text \<open>A session whose mails are \<open>ms\<close>, as the last command loaded them.\<close>

definition holds_mails :: "pop3 \<Rightarrow> mail_t list \<Rightarrow> bool" where
  "holds_mails p ms \<longleftrightarrow> mailbox_inv p \<and> holds p 0 ms \<and> length ms = Suc (unat (max_index p))"

lemma holds_cong: "mails q = mails p \<Longrightarrow> holds q i ms = holds p i ms"
  by (simp add: holds_def mail_at_def)

lemma dele_rounds:
  assumes "at_prompt fd a TRANSACTION w p" "loadable (env_of (a_read an1 fd) w) p ms" "arg_word x"
    and "msg_ref (dele_flags p) (length ms) (Some x) = Message i" "says an1 fd [command_line ''DELE'' x]"
    and "takes an2 fd (length DELE_MSG)"
  shows "\<exists>s t q. leads w [(Ready {fd} {}, an1), (Ready {} {fd}, an2)] (w\<lparr>w_sent := w_sent w @ [(fd, DELE_MSG)],
        transfer_bytes := t, w_sel := s, w_conns := (w_conns w)(a \<mapsto> q)\<rparr>)
    \<and> at_prompt fd a TRANSACTION (w\<lparr>w_sent := w_sent w @ [(fd, DELE_MSG)], transfer_bytes := t, w_sel := s,
        w_conns := (w_conns w)(a \<mapsto> q)\<rparr>) q
    \<and> holds_mails q ms \<and> dele_flags q = (dele_flags p)[i := 1] \<and> selected_mail_fd q = selected_mail_fd p \<and> mail_done q = mail_done p
    \<and> grows (w_sel w) s \<and> registered s = registered (w_sel w)"
proof -
  let ?ls = "[command_line ''DELE'' x]" and ?env = "env_of (a_read an1 fd) w"
  from assms(1) have p: "client_fd p = fd" "client p = State_st" "drained (write_buffer p)"
    by (simp_all add: at_prompt_def stands_def)
  from dele_line [OF assms(2-4) p(3)] obtain p1 b where
    b: "run_lines ?env TRANSACTION ?ls (TRANSACTION, p)
      = Inr (TRANSACTION, p1\<lparr>dele_flags := (dele_flags p)[i := 1], write_buffer := b, p_parser := create_parser\<rparr>)"
      "loaded (p\<lparr>p_parser := line_parser (command_line ''DELE'' x)\<rparr>) ms p1" "steady b" "content b = DELE_MSG" by blast
  let ?q = "p1\<lparr>dele_flags := (dele_flags p)[i := 1], write_buffer := b, p_parser := create_parser\<rparr>"
  have ld: "mailbox_inv p1" "holds p1 0 ms" "max_index p1 = of_nat (length ms - 1)"
    using b(2) unfolding loaded_def by blast+
  have p1: "p1 = p\<lparr>p_parser := line_parser (command_line ''DELE'' x), mails := mails p1, mail_qty := mail_qty p1,
      total_octates := total_octates p1, original_total_octates := original_total_octates p1, max_index := max_index p1\<rparr>"
    using b(2) unfolding loaded_def by (elim conjE)
  have f: "client_fd p1 = fd" "client p1 = State_st" "selected_mail_fd p1 = selected_mail_fd p" "mail_done p1 = mail_done p"
    "dele_flags p1 = dele_flags p" by (subst p1, simp add: p)+
  have l: "?ls \<noteq> []" "\<forall>l \<in> set ?ls. CR \<notin> set l" "length (lines_of ?ls) \<le> BUFFER_SIZE"
    using assms(3) by (auto simp: arg_word_def command_line_def lines_of_def crlf_def BUFFER_SIZE_def)
  have q: "client ?q = State_st" "p_parser ?q = create_parser" "client_fd ?q = fd" "steady (write_buffer ?q)"
    "content (write_buffer ?q) = DELE_MSG" using f b by simp_all
  let ?w = "\<lambda>s t q'. w\<lparr>w_sent := w_sent w @ [(fd, DELE_MSG)], transfer_bytes := t, w_sel := s, w_conns := (w_conns w)(a \<mapsto> q')\<rparr>"
  have stay: "TRANSACTION = TRANSACTION \<and> TRANSACTION < 2 \<or> TRANSACTION = AUTH \<and> TRANSACTION = TRANSACTION" by simp
  from exchange [OF assms(1,5) l b(1) stay q(1-4)] assms(6) obtain s t q' where
    e: "leads w [(Ready {fd} {}, an1), (Ready {} {fd}, an2)] (?w s t q')"
      "q' = ?q\<lparr>read_buffer := read_buffer q', write_buffer := write_buffer q', p_stm := Some TRANSACTION\<rparr>"
      "at_prompt fd a TRANSACTION (?w s t q') q'" "grows (w_sel w) s" "registered s = registered (w_sel w)"
    unfolding q(5) by blast
  have q': "selected_mail_fd q' = selected_mail_fd p" "mail_done q' = mail_done p" "dele_flags q' = (dele_flags p)[i := 1]"
    "mails q' = mails p1" "max_index q' = max_index p1"
    by (subst e(2), simp add: f)+
  have "mailbox_inv q'" using ld(1) q' f(5) by (simp add: mailbox_inv_def mail_at_def)
  moreover have "holds q' 0 ms" using ld(2) holds_cong [OF q'(4)] by simp
  moreover have "unat (of_nat (length ms - 1) :: u32) = length ms - 1"
    by (rule unat_of_nat_u32) (use loadable_length [OF assms(2)] in auto)
  then have "unat (max_index q') = length ms - 1" unfolding q'(5) ld(3) .
  then have "length ms = Suc (unat (max_index q'))" using loadable_length [OF assms(2)] by simp
  ultimately show ?thesis using e(1,3-5) q'(1-3)
    by (intro exI [of _ s] exI [of _ t] exI [of _ q']) (simp add: holds_mails_def)
qed

section \<open>Leaving\<close>

lemma quit_line:
  assumes "drained (write_buffer p)"
  shows "\<exists>b. run_lines env TRANSACTION [str ''QUIT''] (TRANSACTION, p)
      = Inr (UPDATE, p\<lparr>write_buffer := b, p_parser := create_parser\<rparr>) \<and> steady b \<and> content b = POSITIVE_MSG"
proof -
  let ?p = "p\<lparr>p_parser := line_parser (str ''QUIT'')\<rparr>"
  note wb = drainedD [OF assms]
  have "comparator (line_event (str ''QUIT'')) TRANSACTION = Inr Trans_quit"
    by (simp add: comparator_line line_command_def word1_def cut_zero_def commands_per_state_def transaction_commands_def)
  moreover obtain b where b: "reply POSITIVE_MSG ?p = Inr (?p\<lparr>write_buffer := b\<rparr>)" "said POSITIVE_MSG (write_buffer p) b"
    using reply_ok [of ?p POSITIVE_MSG] wb by auto
  moreover have "length POSITIVE_MSG \<le> room (write_buffer p)" "POSITIVE_MSG \<noteq> []" "b_limit (write_buffer p) = BUFFER_SIZE"
    using wb by (simp_all add: POSITIVE_MSG_def BUFFER_SIZE_def)
  with said_steady [OF b(2)] wb have "steady b" "content b = POSITIVE_MSG" by simp_all
  ultimately show ?thesis by (intro exI [of _ b]) (simp add: run_line_def trans_quit_handler_def del: str_Cons)
qed

text \<open>The read event of QUIT removes the marked mails.\<close>

lemma quit_turn:
  assumes "at_prompt fd a TRANSACTION w p" "io_recv io = Some (lines_of [str ''QUIT''])" "holds_mails p ms"
  shows "\<exists>s b rb. pop3_read io fd (Some (Pop3_data a)) w = Inr (w\<lparr>w_sel := s, w_removed := w_removed w
          @ List.map file_path (marked (dele_flags p) 0 ms),
        w_conns := (w_conns w)(a \<mapsto> p\<lparr>write_buffer := b, read_buffer := rb, p_stm := Some UPDATE\<rparr>)\<rparr>)
    \<and> steady b \<and> content b = POSITIVE_MSG \<and> selector_inv s \<and> grows (w_sel w) s
    \<and> registered s = (registered (w_sel w))(fd \<mapsto> client_item fd OP_WRITE a)"
proof -
  let ?k = "\<lparr>k_fd = fd, k_self = a, k_io = io, k_p3 = p, k_world = w\<rparr>"
  from assms(1) have p: "w_conns w a = Some p" "p_stm p = Some TRANSACTION" "drained (write_buffer p)" "p_parser p = create_parser"
    by (simp_all add: at_prompt_def stands_def)
  from quit_line [OF p(3)] obtain b where
    b: "run_lines (env_of io w) TRANSACTION [str ''QUIT''] (TRANSACTION, p)
      = Inr (UPDATE, p\<lparr>write_buffer := b, p_parser := create_parser\<rparr>)" "steady b" "content b = POSITIVE_MSG" by blast
  have l: "[str ''QUIT''] \<noteq> []" "\<forall>l \<in> set [str ''QUIT'']. CR \<notin> set l" "length (lines_of [str ''QUIT'']) \<le> BUFFER_SIZE"
    by (simp_all add: lines_of_def crlf_def BUFFER_SIZE_def)
  have pp: "p\<lparr>write_buffer := b, p_parser := create_parser\<rparr> = p\<lparr>write_buffer := b\<rparr>" using p(4) by simp
  from read_turn [OF assms(1,2) l b(1)] obtain s rb where
    r: "client_read TRANSACTION ?k = Inr (UPDATE, ?k\<lparr>k_p3 := p\<lparr>write_buffer := b, read_buffer := rb\<rparr>, k_world := w\<lparr>w_sel := s\<rparr>\<rparr>)"
      "selector_inv s" "grows (w_sel w) s" "registered s = (registered (w_sel w))(fd \<mapsto> client_item fd OP_WRITE a)"
    unfolding pp by auto
  let ?q = "p\<lparr>write_buffer := b, read_buffer := rb\<rparr>"
  let ?k1 = "?k\<lparr>k_p3 := ?q, k_world := w\<lparr>w_sel := s\<rparr>\<rparr>"
  let ?k2 = "?k1\<lparr>k_world := w\<lparr>w_sel := s, w_removed := w_removed w @ List.map file_path (marked (dele_flags p) 0 ms)\<rparr>\<rparr>"
  have "mailbox_inv ?q" "holds ?q 0 ms" "length ms = Suc (unat (max_index ?q))"
    using assms(3) by (simp_all add: holds_mails_def holds_cong [of ?q p] mailbox_inv_def mail_at_def)
  with delete_mails_removes [of ?k1 ms UPDATE] have "delete_mails UPDATE ?k1 = Inr ?k2" by simp
  then have j: "if UPDATE = TRANSACTION then ?k2 = ?k1
      else call_hook (on_arrival (client_statbl ! UPDATE)) UPDATE ?k1 = Inr ?k2"
    by (simp add: client_statbl_def call_hook_def no_state_def)
  have h: "TRANSACTION \<le> ERROR" "on_read_ready (client_statbl ! TRANSACTION) = Some client_read" "UPDATE < DONE"
    by (simp_all add: client_statbl_def)
  from turn [where callback = on_read_ready and h = client_read, OF p(1,2) h(1,2) r(1) h(3) j]
  have "pop3_read io fd (Some (Pop3_data a)) w = Inr (w\<lparr>w_sel := s, w_removed := w_removed w
          @ List.map file_path (marked (dele_flags p) 0 ms),
        w_conns := (w_conns w)(a \<mapsto> p\<lparr>write_buffer := b, read_buffer := rb, p_stm := Some UPDATE\<rparr>)\<rparr>)"
    by (simp add: pop3_read_def stm_handler_read_def)
  with b(2,3) r(2-4) show ?thesis by blast
qed

section \<open>The session's end\<close>

text \<open>The first session with the descriptor leaves the list.\<close>

lemma remove_client_at:
  assumes "\<forall>b \<in> set xs. \<exists>r. c b = Some r \<and> client_fd r \<noteq> fd" "c a = Some p" "client_fd p = fd"
  shows "remove_client_rec c (xs @ a # ys) fd = Inr (c(a := None), xs @ ys)"
  using assms(1)
proof (induction xs)
  case Nil
  with assms(2,3) show ?case by (simp add: fun_upd_def)
next
  case (Cons b xs)
  then obtain r where "c b = Some r" "client_fd r \<noteq> fd" by auto
  with Cons show ?case by simp
qed

text \<open>
  The session is the first one in the list with its socket, no mail of its own is registered, and no terminator
  is waiting to be sent.
\<close>

definition can_leave :: "int \<Rightarrow> nat \<Rightarrow> nat list \<Rightarrow> nat list \<Rightarrow> world \<Rightarrow> pop3 \<Rightarrow> bool" where
  "can_leave fd a xs ys w p \<longleftrightarrow> head_connection w = xs @ a # ys \<and> a \<notin> set xs
     \<and> (\<forall>b \<in> set xs. \<exists>r. w_conns w b = Some r \<and> client_fd r \<noteq> fd) \<and> mail_done p = 0
     \<and> (selected_mail_fd p = 0 \<or> registered (w_sel w) (selected_mail_fd p) = None \<and> selected_mail_fd p < int (s_fd_size (w_sel w)))"

lemma done_run:
  assumes "stands fd i a st w p" "mailbox_inv p" "can_leave fd a xs ys w p"
  shows "\<exists>s. pop3_done a w = Inr (w\<lparr>w_sel := s, w_conns := (w_conns w)(a := None), head_connection := xs @ ys,
        connections := connections w - 1, w_closed := w_closed w @ [fd]\<rparr>)
    \<and> selector_inv s \<and> grows (w_sel w) s \<and> registered s = (registered (w_sel w))(fd := None)"
proof -
  from assms(1) have w: "selector_inv (w_sel w)" "registered (w_sel w) fd = Some (client_item fd i a)" "w_conns w a = Some p"
    "client_fd p = fd" by (simp_all add: stands_def)
  from assms(3) have l: "head_connection w = xs @ a # ys" "\<forall>b \<in> set xs. \<exists>r. w_conns w b = Some r \<and> client_fd r \<noteq> fd"
    "mail_done p = 0" by (simp_all add: can_leave_def)
  have sel: "\<exists>st. (if selected_mail_fd p \<noteq> 0 then unregister_fd (selected_mail_fd p) w else Inr (SELECTOR_SUCCESS, w)) = Inr (st, w)"
    using assms(3) unregister_unregistered [where close = handle_close and w = w, OF w(1)]
    by (auto simp: can_leave_def unregister_fd_def)
  let ?w = "w\<lparr>w_conns := (w_conns w)(a := None), head_connection := xs @ ys, connections := connections w - 1\<rparr>"
  from free_mails_ok [OF assms(2)] obtain q where "(if mails p \<noteq> None then free_mails p else Inr p) = Inr q"
    by (cases "mails p") auto
  with w(3,4) l remove_client_at [OF l(2) w(3,4), of ys]
  have close: "pop3_close fd (Some (Pop3_data a)) w = Inr ?w"
    by (simp add: pop3_close_def pop3_destroy_def remove_client_def)
  then have "(case handle_close (the (it_handler (client_item fd i a))) of None \<Rightarrow> Inr w
      | Some f \<Rightarrow> f fd (it_data (client_item fd i a)) w) = Inr ?w"
    by (simp add: client_item_def handle_close_def)
  from unregister_ok [where close = handle_close and w = w, OF w(1,2) this] obtain s where
    s: "selector_unregister_fd handle_close (w_sel w) fd w = Inr (SELECTOR_SUCCESS, s, ?w)" "selector_inv s"
      "registered s = (registered (w_sel w))(fd := None)" by blast
  have "fd \<noteq> - 1" using registered_range [of "w_sel w" fd] w(1,2) by (auto simp: selector_inv_def)
  with w(3,4) sel s(1) have "pop3_done a w = Inr (close_fd fd (?w\<lparr>w_sel := s\<rparr>))"
    by (auto simp: pop3_done_def unregister_fd_def)
  with s(2,3) unregister_grows [OF s(1)] show ?thesis
    by (intro exI [of _ s]) (simp add: close_fd_def)
qed

lemma can_leave_step:
  assumes "can_leave fd a xs ys w p" "registered (w_sel w) fd = Some it" "head_connection w' = head_connection w"
    and "\<And>b. b \<noteq> a \<Longrightarrow> w_conns w' b = w_conns w b" "grows (w_sel w) (w_sel w')"
    and "\<And>g. g \<noteq> fd \<Longrightarrow> registered (w_sel w') g = registered (w_sel w) g"
    and "mail_done q = mail_done p" "selected_mail_fd q = selected_mail_fd p"
  shows "can_leave fd a xs ys w' q"
proof -
  have "\<forall>b \<in> set xs. \<exists>r. w_conns w' b = Some r \<and> client_fd r \<noteq> fd"
  proof
    fix b
    assume b: "b \<in> set xs"
    with assms(1) have "b \<noteq> a" "\<exists>r. w_conns w b = Some r \<and> client_fd r \<noteq> fd" by (auto simp: can_leave_def)
    with assms(4) show "\<exists>r. w_conns w' b = Some r \<and> client_fd r \<noteq> fd" by simp
  qed
  moreover have "selected_mail_fd p = 0 \<or> registered (w_sel w') (selected_mail_fd p) = None
      \<and> selected_mail_fd p < int (s_fd_size (w_sel w'))"
    using assms(1,2,5) assms(6) [of "selected_mail_fd p"] by (cases "selected_mail_fd p = fd") (auto simp: can_leave_def grows_def)
  ultimately show ?thesis using assms(1,3,7,8) by (simp add: can_leave_def)
qed

text \<open>The last write: the reply goes out and the session ends.\<close>

lemma leave_turn:
  assumes "stands fd OP_WRITE a UPDATE w p" "client p = State_st" "steady (write_buffer p)" "mailbox_inv p"
    and "can_leave fd a xs ys w p" "io_send io = Some n" "length (content (write_buffer p)) \<le> n"
  shows "\<exists>s t. pop3_write io fd (Some (Pop3_data a)) w = Inr (w\<lparr>w_sent := w_sent w @ [(fd, content (write_buffer p))],
        transfer_bytes := t, w_sel := s, w_conns := (w_conns w)(a := None), head_connection := xs @ ys,
        connections := connections w - 1, w_closed := w_closed w @ [fd]\<rparr>)
    \<and> selector_inv s \<and> grows (w_sel w) s \<and> registered s = (registered (w_sel w))(fd := None)"
proof -
  let ?k = "\<lparr>k_fd = fd, k_self = a, k_io = io, k_p3 = p, k_world = w\<rparr>" and ?c = "content (write_buffer p)"
  from assms(1) have p: "w_conns w a = Some p" "p_stm p = Some UPDATE" "selector_inv (w_sel w)"
    "registered (w_sel w) fd = Some (client_item fd OP_WRITE a)" "client_fd p = fd" "resolution_jobs (w_sel w) = []"
    by (simp_all add: stands_def)
  have inv: "buffer_inv (write_buffer p)" using assms(3) by (simp add: steady_def)
  from send_all [of ?k "client_item fd OP_WRITE a" n fd] p(3,4) assms(3,7) obtain k1 b s t where
    snd: "send_buffer fd n ?k = Inr k1" "write_buffer (k_p3 k1) = b" "drained b" "\<not> buffer_can_read b"
      "key_set_interest OP_READ k1 = Inr (SELECTOR_SUCCESS, ?k\<lparr>k_p3 := p\<lparr>write_buffer := b\<rparr>,
        k_world := w\<lparr>w_sent := w_sent w @ [(fd, ?c)], transfer_bytes := t, w_sel := s\<rparr>\<rparr>)"
      "selector_inv s" "grows (w_sel w) s" "registered s = (registered (w_sel w))(fd \<mapsto> client_item fd OP_READ a)"
    by (auto simp: client_item_def)
  let ?k2 = "?k\<lparr>k_p3 := p\<lparr>write_buffer := b\<rparr>, k_world := w\<lparr>w_sent := w_sent w @ [(fd, ?c)], transfer_bytes := t, w_sel := s\<rparr>\<rparr>"
  have run: "client_write UPDATE ?k = Inr (DONE, ?k2)"
    using assms(2,6) inv snd by (simp add: client_write_def client_buffers_def)
  have h: "UPDATE < DONE" "on_write_ready (client_statbl ! UPDATE) = Some client_write" by (simp_all add: client_statbl_def)
  let ?q = "p\<lparr>write_buffer := b, p_stm := Some DONE\<rparr>"
  let ?w = "w\<lparr>w_sent := w_sent w @ [(fd, ?c)], transfer_bytes := t, w_sel := s, w_conns := (w_conns w)(a \<mapsto> ?q)\<rparr>"
  from last_turn [where callback = on_write_ready and h = client_write, OF p(1,2) h run]
  have ev: "pop3_write io fd (Some (Pop3_data a)) w = pop3_done a ?w" by (simp add: pop3_write_def stm_handler_write_def)
  have st: "stands fd OP_READ a DONE ?w ?q" using snd(6-8) p(5,6) by (simp add: stands_def grows_def)
  have q: "mailbox_inv ?q" using assms(4) by (simp add: mailbox_inv_def mail_at_def)
  have "can_leave fd a xs ys ?w ?q" by (rule can_leave_step [OF assms(5) p(4)]) (use snd(7,8) in simp_all)
  from done_run [OF st q this] obtain s2 where
    s2: "pop3_done a ?w = Inr (?w\<lparr>w_sel := s2, w_conns := (w_conns ?w)(a := None), head_connection := xs @ ys,
        connections := connections ?w - 1, w_closed := w_closed ?w @ [fd]\<rparr>)" "selector_inv s2" "grows s s2"
      "registered s2 = (registered s)(fd := None)" by auto
  have "registered s2 = (registered (w_sel w))(fd := None)" using s2(4) snd(8) by simp
  with ev s2(1,2) grows_trans [OF snd(7) s2(3)] show ?thesis by (intro exI [of _ s2] exI [of _ t]) simp
qed

lemma quit_rounds:
  assumes "at_prompt fd a TRANSACTION w p" "says an1 fd [str ''QUIT'']" "takes an2 fd (length POSITIVE_MSG)"
    and "holds_mails p ms" "can_leave fd a xs ys w p"
  shows "\<exists>s t. leads w [(Ready {fd} {}, an1), (Ready {} {fd}, an2)] (w\<lparr>w_sent := w_sent w @ [(fd, POSITIVE_MSG)],
        w_removed := w_removed w @ List.map file_path (marked (dele_flags p) 0 ms),
        transfer_bytes := t, w_sel := s, w_conns := (w_conns w)(a := None), head_connection := xs @ ys,
        connections := connections w - 1, w_closed := w_closed w @ [fd]\<rparr>)
    \<and> selector_inv s \<and> grows (w_sel w) s \<and> registered s = (registered (w_sel w))(fd := None)"
proof -
  from assms(1) have p: "selector_inv (w_sel w)" "resolution_jobs (w_sel w) = []"
    "registered (w_sel w) fd = Some (client_item fd OP_READ a)" "client_fd p = fd" "client p = State_st"
    by (simp_all add: at_prompt_def stands_def)
  from quit_turn [OF assms(1) _ assms(4)] assms(2) obtain s b rb where
    r: "pop3_read (a_read an1 fd) fd (Some (Pop3_data a)) w = Inr (w\<lparr>w_sel := s, w_removed := w_removed w
          @ List.map file_path (marked (dele_flags p) 0 ms),
        w_conns := (w_conns w)(a \<mapsto> p\<lparr>write_buffer := b, read_buffer := rb, p_stm := Some UPDATE\<rparr>)\<rparr>)"
      "steady b" "content b = POSITIVE_MSG" "selector_inv s" "grows (w_sel w) s"
      "registered s = (registered (w_sel w))(fd \<mapsto> client_item fd OP_WRITE a)" unfolding says_def by blast
  let ?q = "p\<lparr>write_buffer := b, read_buffer := rb, p_stm := Some UPDATE\<rparr>"
  let ?w = "w\<lparr>w_sel := s, w_removed := w_removed w @ List.map file_path (marked (dele_flags p) 0 ms),
    w_conns := (w_conns w)(a \<mapsto> ?q)\<rparr>"
  have 1: "serve_round (Ready {fd} {}) an1 w = Inr (SELECTOR_SUCCESS, ?w)"
    by (rule read_round [OF p(1-3) _ r(1)]) (use r in simp_all)
  have st: "stands fd OP_WRITE a UPDATE ?w ?q" using r(4-6) p(2,4) by (simp add: stands_def grows_def)
  have q: "client ?q = State_st" "steady (write_buffer ?q)" "mailbox_inv ?q"
    using p(5) r(2) assms(4) by (simp_all add: holds_mails_def mailbox_inv_def mail_at_def)
  have cl: "can_leave fd a xs ys ?w ?q" by (rule can_leave_step [OF assms(5) p(3)]) (use r(5,6) in simp_all)
  from assms(3) obtain n where n: "io_send (a_write an2 fd) = Some n" "length (content (write_buffer ?q)) \<le> n"
    using r(3) by (auto simp: takes_def)
  from leave_turn [OF st q cl n] r(3) obtain s2 t where
    l: "pop3_write (a_write an2 fd) fd (Some (Pop3_data a)) ?w = Inr (?w\<lparr>w_sent := w_sent w @ [(fd, POSITIVE_MSG)],
        transfer_bytes := t, w_sel := s2, w_conns := (w_conns ?w)(a := None), head_connection := xs @ ys,
        connections := connections w - 1, w_closed := w_closed w @ [fd]\<rparr>)"
      "selector_inv s2" "grows s s2" "registered s2 = (registered s)(fd := None)" by auto
  have 2: "serve_round (Ready {} {fd}) an2 ?w = Inr (SELECTOR_SUCCESS, ?w\<lparr>w_sent := w_sent w @ [(fd, POSITIVE_MSG)],
        transfer_bytes := t, w_sel := s2, w_conns := (w_conns ?w)(a := None), head_connection := xs @ ys,
        connections := connections w - 1, w_closed := w_closed w @ [fd]\<rparr>)"
    by (rule write_round [where it = "client_item fd OP_WRITE a", OF _ _ _ _ l(1)])
      (use r(4-6) l(2,3) p(2) in \<open>simp_all add: grows_def\<close>)
  have "registered s2 = (registered (w_sel w))(fd := None)" using l(4) r(6) by simp
  with 1 2 l(2) grows_trans [OF r(5) l(3)] show ?thesis by (intro exI [of _ s2] exI [of _ t]) simp
qed

section \<open>Properties\<close>

lemma marked_one:
  "\<forall>j < length ms. k + j \<noteq> i \<longrightarrow> flags ! (k + j) = 0 \<Longrightarrow> k \<le> i \<Longrightarrow> flags ! i \<noteq> 0 \<Longrightarrow>
    marked flags k ms = (if i < k + length ms then [ms ! (i - k)] else [])"
proof (induction ms arbitrary: k)
  case Nil
  then show ?case by (simp add: marked_def)
next
  case (Cons x ms)
  have step: "\<forall>j < length ms. Suc k + j \<noteq> i \<longrightarrow> flags ! (Suc k + j) = 0"
    using Cons.prems(1) by (auto dest: spec [of _ "Suc _"])
  show ?case
  proof (cases "k = i")
    case True
    have "\<forall>j < length ms. flags ! (Suc k + j) = 0" using step True by simp
    then have "flags ! c = 0" if "(c, b) \<in> set (enumerate (Suc k) ms)" for c b
      using that by (auto simp: in_set_enumerate_eq dest!: spec [of _ "c - Suc k"])
    then have "marked flags (Suc k) ms = []" by (auto simp: marked_def filter_empty_conv)
    with True Cons.prems(3) show ?thesis by (simp add: marked_Cons)
  next
    case False
    with Cons.prems have "flags ! k = 0" "Suc k \<le> i" by (auto dest: spec [of _ 0])
    with Cons.IH [OF step] Cons.prems(3) show ?thesis by (auto simp: marked_Cons nth_Cons')
  qed
qed

definition goodbye_schedule :: "int \<Rightarrow> (nat \<Rightarrow> answers) \<Rightarrow> (pselect_result \<times> answers) list" where
  "goodbye_schedule fd an = [(Ready {fd} {}, an 0), (Ready {} {fd}, an 1), (Ready {fd} {}, an 2), (Ready {} {fd}, an 3)]"

definition deletes :: "int \<Rightarrow> cstring \<Rightarrow> (nat \<Rightarrow> answers) \<Rightarrow> bool" where
  "deletes fd x an \<longleftrightarrow> arg_word x \<and> says (an 0) fd [command_line ''DELE'' x] \<and> takes (an 1) fd (length DELE_MSG)
     \<and> says (an 2) fd [str ''QUIT''] \<and> takes (an 3) fd (length POSITIVE_MSG)"

text \<open>
  C6. A mail is removed by DELE and QUIT: when a session that is logged in and has marked nothing sends DELE
  with the number of one of its mails and then QUIT, the four rounds are served, the file of that mail and no other is
  removed, after both replies the session is out of the list and freed, and its socket is out of the selector and
  closed; the other sessions are as they were.
\<close>

theorem marked_mail_is_removed:
  assumes "at_prompt fd a TRANSACTION (m_world M) p" "mailbox_inv p" "cred_user p = Some u"
    and "has_mails (io_os (a_read (an 0) fd)) (w_maildir (m_world M)) u ms" "\<forall>j < length ms. dele_flags p ! j = 0"
    and "deletes fd x an" "i < length ms" "unat (atoi x) = Suc i" "can_leave fd a xs ys (m_world M) p"
  shows "\<exists>M'. main_loop (goodbye_schedule fd an) M = Inr (Inr M') \<and> ss M' = SELECTOR_SUCCESS
    \<and> w_removed (m_world M') = w_removed (m_world M) @ [file_path (ms ! i)]
    \<and> w_sent (m_world M') = w_sent (m_world M) @ [(fd, DELE_MSG), (fd, POSITIVE_MSG)]
    \<and> w_closed (m_world M') = w_closed (m_world M) @ [fd]
    \<and> registered (w_sel (m_world M')) = (registered (w_sel (m_world M)))(fd := None)
    \<and> w_conns (m_world M') = (w_conns (m_world M))(a := None) \<and> head_connection (m_world M') = xs @ ys"
proof -
  let ?w = "m_world M"
  from assms(1) have p: "drained (write_buffer p)" "registered (w_sel ?w) fd = Some (client_item fd OP_READ a)"
    by (simp_all add: at_prompt_def stands_def)
  from assms(6) have d: "arg_word x" "says (an 0) fd [command_line ''DELE'' x]" "takes (an 1) fd (length DELE_MSG)"
    "says (an 2) fd [str ''QUIT'']" "takes (an 3) fd (length POSITIVE_MSG)" unfolding deletes_def by blast+
  note l = has_mails_loadable [OF assms(4,2) p(1) assms(3)]
  have "msg_ref (dele_flags p) (length ms) (Some x) = Message i" using assms(5,7,8) by (simp add: msg_ref_def Let_def)
  from dele_rounds [OF assms(1) l d(1) this d(2,3)] obtain s t q where
    1: "leads ?w [(Ready {fd} {}, an 0), (Ready {} {fd}, an 1)] (?w\<lparr>w_sent := w_sent ?w @ [(fd, DELE_MSG)],
        transfer_bytes := t, w_sel := s, w_conns := (w_conns ?w)(a \<mapsto> q)\<rparr>)" (is "leads _ _ ?v")
    and q: "at_prompt fd a TRANSACTION (?w\<lparr>w_sent := w_sent ?w @ [(fd, DELE_MSG)], transfer_bytes := t, w_sel := s,
        w_conns := (w_conns ?w)(a \<mapsto> q)\<rparr>) q" "holds_mails q ms" "dele_flags q = (dele_flags p)[i := 1]"
      "selected_mail_fd q = selected_mail_fd p" "mail_done q = mail_done p" "grows (w_sel ?w) s" "registered s = registered (w_sel ?w)"
    by blast
  let ?w1 = "?w\<lparr>w_sent := w_sent ?w @ [(fd, DELE_MSG)], transfer_bytes := t, w_sel := s, w_conns := (w_conns ?w)(a \<mapsto> q)\<rparr>"
  have "can_leave fd a xs ys ?w1 q" by (rule can_leave_step [OF assms(9) p(2)]) (use q(4-7) in simp_all)
  from quit_rounds [OF q(1) d(4,5) q(2) this] obtain s2 t2 where
    2: "leads ?w1 [(Ready {fd} {}, an 2), (Ready {} {fd}, an 3)] (?w1\<lparr>w_sent := w_sent ?w1 @ [(fd, POSITIVE_MSG)],
        w_removed := w_removed ?w @ List.map file_path (marked (dele_flags q) 0 ms),
        transfer_bytes := t2, w_sel := s2, w_conns := (w_conns ?w1)(a := None), head_connection := xs @ ys,
        connections := connections ?w - 1, w_closed := w_closed ?w @ [fd]\<rparr>)" (is "leads _ _ ?z")
    and s2: "registered s2 = (registered s)(fd := None)" by auto
  let ?w2 = "?w1\<lparr>w_sent := w_sent ?w1 @ [(fd, POSITIVE_MSG)],
        w_removed := w_removed ?w @ List.map file_path (marked (dele_flags q) 0 ms),
        transfer_bytes := t2, w_sel := s2, w_conns := (w_conns ?w1)(a := None), head_connection := xs @ ys,
        connections := connections ?w - 1, w_closed := w_closed ?w @ [fd]\<rparr>"
  have "leads ?w (goodbye_schedule fd an) ?w2"
    using leads_append [of ?w "[(Ready {fd} {}, an 0), (Ready {} {fd}, an 1)]" "[(Ready {fd} {}, an 2), (Ready {} {fd}, an 3)]" ?w2]
      1 2 unfolding goodbye_schedule_def by auto
  then have run: "main_loop (goodbye_schedule fd an) M = Inr (Inr (M\<lparr>err_msg := None, ss := SELECTOR_SUCCESS, m_world := ?w2\<rparr>))"
    by (rule leads_main_loop) (simp add: goodbye_schedule_def)
  have len: "length ms \<le> length (dele_flags p)"
    using has_mails_length [OF assms(4)] assms(2) by (simp add: mailbox_inv_def MAX_MAILS_def)
  have "\<forall>j < length ms. 0 + j \<noteq> i \<longrightarrow> dele_flags q ! (0 + j) = 0" "dele_flags q ! i \<noteq> 0"
    using assms(5,7) len q(3) by simp_all
  with marked_one [of ms 0 i "dele_flags q"] assms(7) have "marked (dele_flags q) 0 ms = [ms ! i]" by simp
  with run s2 q(7) show ?thesis
    by (intro exI [of _ "M\<lparr>err_msg := None, ss := SELECTOR_SUCCESS, m_world := ?w2\<rparr>"]) simp
qed

text \<open>A session of the example's user at the prompt, alone in the server.\<close>

definition example_logged_in :: pop3 where
  "example_logged_in = (pop3_zero 8)\<lparr>cred_user := Some (str ''foo''), cred_pass := Some (str ''bar''), client := State_st,
     p_stm := Some TRANSACTION\<rparr>"

definition example_goodbye :: "nat \<Rightarrow> answers" where
  "example_goodbye j = \<lparr>a_read = (\<lambda>fd. example_io (lines_of [if j = 0 then command_line ''DELE'' (str ''1'') else str ''QUIT''])),
     a_write = (\<lambda>fd. example_io []), a_block = (\<lambda>fd. example_io [])\<rparr>"

lemma example_deletes: "deletes 8 (str ''1'') example_goodbye"
proof -
  have "arg_word (str ''1'')" by (simp add: arg_word_def)
  moreover have "length DELE_MSG \<le> 100" "length POSITIVE_MSG \<le> 100" by (simp_all add: DELE_MSG_def POSITIVE_MSG_def crlf_def)
  ultimately show ?thesis
    unfolding deletes_def takes_def says_def example_goodbye_def example_io_def by (simp del: str_Cons)
qed

lemma example_at_prompt:
  "\<exists>M :: main_state. at_prompt 8 0 TRANSACTION (m_world M) example_logged_in \<and> w_maildir (m_world M) = INITIAL_PATH
    \<and> can_leave 8 0 [] [] (m_world M) example_logged_in"
proof -
  obtain s0 :: "(fd_handler, attachment) fdselector" where
    s0: "selector_inv s0" "registered s0 = Map.empty" "s_fd_size s0 = 513" "resolution_jobs s0 = []"
    using selector_new_size by blast
  then have v: "\<not> INVALID_FD 8" "(8 :: int) \<noteq> int (s_fd_size s0)" "registered s0 8 = None"
    by (simp_all add: INVALID_FD_def ITEMS_MAX_SIZE_def)
  from selector_register_ok [OF s0(1) v, of Pop3_handler OP_READ "Some (Pop3_data 0)"] obtain s where
    s: "selector_register True s0 8 (Some Pop3_handler) OP_READ (Some (Pop3_data 0)) = Inr (SELECTOR_SUCCESS, s)" "selector_inv s"
      "registered s = [8 \<mapsto> client_item 8 OP_READ 0]" by (auto simp: s0(2) client_item_def)
  let ?w = "(initial_world s)\<lparr>w_conns := [0 \<mapsto> example_logged_in], head_connection := [0]\<rparr>"
  let ?M = "(main_start 1110 INITIAL_PATH)\<lparr>m_world := ?w\<rparr>"
  have b: "drained (buffer_init BUFFER_SIZE (replicate BUFFER_SIZE 0))"
    by (simp add: drained_def steady_def) (simp add: buffer_init_def room_def)
  have "resolution_jobs s = []" using register_grows [OF s(1)] s0(4) by (simp add: grows_def)
  with s(2,3) b have "at_prompt 8 0 TRANSACTION ?w example_logged_in"
    by (simp add: at_prompt_def stands_def initial_world_def example_logged_in_def pop3_zero_def)
  moreover have "can_leave 8 0 [] [] ?w example_logged_in"
    by (simp add: can_leave_def example_logged_in_def pop3_zero_def)
  ultimately show ?thesis by (intro exI [of _ ?M]) (simp add: initial_world_def)
qed

theorem marked_mail_is_removed_witness:
  "\<exists>M M'. main_loop (goodbye_schedule 8 example_goodbye) M = Inr (Inr M')
    \<and> w_removed (m_world M') = w_removed (m_world M) @ [str ''./directories/foo/cur/a'']
    \<and> w_closed (m_world M') = w_closed (m_world M) @ [8] \<and> head_connection (m_world M') = []"
proof -
  from example_at_prompt obtain M :: main_state where
    m: "at_prompt 8 0 TRANSACTION (m_world M) example_logged_in" "w_maildir (m_world M) = INITIAL_PATH"
      "can_leave 8 0 [] [] (m_world M) example_logged_in" by blast
  have p: "mailbox_inv example_logged_in" "cred_user example_logged_in = Some (str ''foo'')"
    "dele_flags example_logged_in = replicate 30 0"
    by (simp_all add: example_logged_in_def pop3_zero_def mailbox_inv_def MAX_MAILS_def)
  have os: "io_os (a_read (example_goodbye 0) 8) = example_os" by (simp add: example_goodbye_def example_io_def)
  have "example_mails = inbox example_os INITIAL_PATH (str ''foo'') [str ''.'', str ''a'', str ''..'', str ''b'']"
    unfolding example_mails_def inbox_def example_files MAX_MAILS_def by simp
  moreover have "mail_files [str ''.'', str ''a'', str ''..'', str ''b''] \<noteq> []" unfolding example_files by simp
  ultimately have ms: "has_mails (io_os (a_read (example_goodbye 0) 8)) (w_maildir (m_world M)) (str ''foo'') example_mails"
    unfolding has_mails_def os m(2) using example_dir example_stats by blast
  have flags: "\<forall>j < length example_mails. dele_flags example_logged_in ! j = 0"
    using has_mails_length [OF ms] p(3) by simp
  have n: "unat (atoi (str ''1'')) = Suc 0" unfolding example_numbers by simp
  have f: "file_path (example_mails ! 0) = str ''./directories/foo/cur/a''"
    by (simp add: example_mails_def mail_of_def INITIAL_PATH_def CUR_def)
  from marked_mail_is_removed [OF m(1) p(1,2) ms flags example_deletes has_mails_nonempty [OF ms] n m(3)] show ?thesis
    unfolding f by auto
qed

end
