(* ===== verification/Pieces.thy ===== *)
theory Pieces
  imports Dialogue
begin

text \<open>
  A mail that is read from its file in more than one piece. Every piece is sent before the next one is
  read, and the machine then enters \<^verbatim>\<open>READING_MAIL\<close> anew, so that \<^verbatim>\<open>reading_init\<close> of
  \<^verbatim>\<open>src/server/pop3nio.c\<close> puts the automaton that looks for the terminator back to its start.
\<close>

section \<open>The automaton over a piece\<close>

lemma stuffer_run_hit:
  assumes "stuff_inv st out" "stuffer_run st cs = Inr rest"
  shows "length terminator \<le> length out + length cs - length rest \<and> length rest \<le> length cs"
  using assms
proof (induction cs arbitrary: st out)
  case Nil
  then show ?case by simp
next
  case (Cons c cs)
  obtain st' found where st': "byte_stuffer c st = (st', found)" by (cases "byte_stuffer c st")
  note inv = stuffer_step [OF Cons.prems(1) st']
  show ?case
  proof (cases found)
    case True
    with inv obtain xs where "out @ [c] = xs @ terminator" by auto
    then have "length terminator \<le> length (out @ [c])" by simp
    with True st' Cons.prems(2) show ?thesis by simp
  next
    case False
    with inv Cons.IH [of st' "out @ [c]"] st' Cons.prems(2) show ?thesis by auto
  qed
qed

text \<open>A piece of less than five bytes never shows a terminator, nor does one that ends before the end of the mail.\<close>

lemma short_piece: "length cs < length terminator \<Longrightarrow> \<exists>st. stuffer_run 0 cs = Inl st"
  using stuffer_run_hit [of 0 "[]" cs] by (cases "stuffer_run 0 cs") (force simp: stuff_inv_def)+

lemma first_piece:
  assumes "\<forall>l \<in> set ls. CR \<notin> set l \<and> l \<noteq> [DOT]" "n < length (mail_text ls)"
  shows "\<exists>st. stuffer_run 0 (take n (mail_text ls)) = Inl st"
proof (cases "stuffer_run 0 (take n (mail_text ls))")
  case (Inr rest)
  with stuffer_run_append [of 0 "take n (mail_text ls)" "drop n (mail_text ls)"] stuff_mail [OF assms(1)] assms(2)
  show ?thesis by (simp split: if_splits)
qed simp

section \<open>A piece is read\<close>

lemma filesystem_read_piece:
  assumes "file_read k bs" "stuffer_run 0 bs = Inl st" "steady (read_buffer (k_p3 k))" "drained (write_buffer (k_p3 k))"
    and "length bs \<le> BUFFER_SIZE" "byte_stuffing_st (k_p3 k) = 0" "registered (w_sel (k_world k)) (k_fd k) = Some it"
  shows "\<exists>s rb wb. filesystem_read cur k = Inr (WRITING_MAIL, k\<lparr>k_p3 := (k_p3 k)\<lparr>read_buffer := rb, write_buffer := wb,
        byte_stuffing_st := st\<rparr>, k_world := (k_world k)\<lparr>w_sel := s\<rparr>\<rparr>)
    \<and> drained rb \<and> steady wb \<and> content wb = bs \<and> selector_inv s \<and> grows (w_sel (k_world k)) s
    \<and> registered s = (registered (w_sel (k_world k)))(k_fd k \<mapsto> it\<lparr>it_interest := OP_WRITE\<rparr>)"
proof -
  let ?p = "k_p3 k"
  from filesystem_read_eq [OF assms(1), of cur] obtain b1 b2 k1 where
    w: "waiting_to_write k (?p\<lparr>read_buffer := b1\<rparr>) k1" and
    k1: "filesystem_read cur k = rbind (feed_until mail_byte bs (?p\<lparr>read_buffer := b1\<rparr>)) (\<lambda>(p, rest).
        Inr (WRITING_MAIL, k1\<lparr>k_p3 := p\<lparr>read_buffer := b2\<rparr>\<rparr>))"
      "\<And>s rest. feed_until mail_byte bs (?p\<lparr>read_buffer := b1\<rparr>) = Inr (s, rest) \<Longrightarrow> content b2 = rest"
    by blast
  note wb = drainedD [OF assms(4)]
  have "buffer_inv (write_buffer (?p\<lparr>read_buffer := b1\<rparr>))" "length bs \<le> room (write_buffer (?p\<lparr>read_buffer := b1\<rparr>))"
    "stuff_inv (byte_stuffing_st (?p\<lparr>read_buffer := b1\<rparr>)) (content (write_buffer (?p\<lparr>read_buffer := b1\<rparr>)))"
    using assms(5,6) wb by (simp_all add: stuff_inv_def)
  from mail_bytes_ok [OF this] assms(2,6) wb obtain b where
    b: "feed_until mail_byte bs (?p\<lparr>read_buffer := b1\<rparr>)
        = Inr (?p\<lparr>read_buffer := b1, write_buffer := b, byte_stuffing_st := st\<rparr>, [])"
      "content b = bs" "buffer_inv b" "b_limit b = BUFFER_SIZE" by auto
  from b(1) k1(1) have run: "filesystem_read cur k = Inr (WRITING_MAIL, k1\<lparr>k_p3 := ?p\<lparr>read_buffer := b2, write_buffer := b,
        byte_stuffing_st := st\<rparr>\<rparr>)" by simp
  from filesystem_read_steady [OF run assms(3,1)] k1(2) [OF b(1)] have "drained b2" by simp
  moreover have "bs \<noteq> []" using assms(1) by (simp add: file_read_def)
  with b(2-4) have "steady b" by (simp add: steady_def)
  moreover from w assms(7) obtain s where "k1 = k\<lparr>k_p3 := ?p\<lparr>read_buffer := b1\<rparr>, k_world := (k_world k)\<lparr>w_sel := s\<rparr>\<rparr>"
    "selector_inv s" "grows (w_sel (k_world k)) s"
    "registered s = (registered (w_sel (k_world k)))(k_fd k \<mapsto> it\<lparr>it_interest := OP_WRITE\<rparr>)"
    by (auto simp: waiting_to_write_def)
  ultimately show ?thesis using run b(2)
    by (intro exI [of _ s] exI [of _ b2] exI [of _ b]) simp
qed

text \<open>The session and the selector after that read.\<close>

definition copied_piece :: "int \<Rightarrow> int \<Rightarrow> nat \<Rightarrow> byte list \<Rightarrow> pop3 \<Rightarrow> world \<Rightarrow> world \<Rightarrow> bool" where
  "copied_piece fd m a bs p w w' \<longleftrightarrow> (\<exists>s rb wb st. w' = w\<lparr>w_sel := s, w_conns := (w_conns w)(a \<mapsto> p\<lparr>read_buffer := rb,
       write_buffer := wb, byte_stuffing_st := st, p_stm := Some WRITING_MAIL\<rparr>)\<rparr>
     \<and> drained rb \<and> steady wb \<and> content wb = bs \<and> selector_inv s \<and> grows (w_sel w) s
     \<and> registered s = (registered (w_sel w))(m \<mapsto> mail_item m OP_WRITE a))"

lemma piece_read_turn:
  assumes "stands fd i a READING_MAIL w p" "client p = Mail_st m fd" "registered (w_sel w) m = Some (mail_item m OP_READ a)"
    and "drained (read_buffer p)" "drained (write_buffer p)" "byte_stuffing_st p = 0"
    and "io_read io = Some bs" "bs \<noteq> []" "length bs \<le> BUFFER_SIZE" "stuffer_run 0 bs = Inl st"
  shows "\<exists>w'. pop3_read io m (Some (Pop3_data a)) w = Inr w' \<and> copied_piece fd m a bs p w w'"
proof -
  let ?k = "\<lparr>k_fd = m, k_self = a, k_io = io, k_p3 = p, k_world = w\<rparr>"
  from assms(1) have p: "w_conns w a = Some p" "p_stm p = Some READING_MAIL" "selector_inv (w_sel w)"
    by (simp_all add: stands_def)
  note rb = drainedD [OF assms(4)] and wb = drainedD [OF assms(5)]
  have f: "file_read ?k bs"
    using assms(2,3,7-9) p(3) rb wb by (simp add: file_read_def selectable_def)
  from filesystem_read_piece [OF f assms(10), of "mail_item m OP_READ a" READING_MAIL] assms(3-6,9) obtain s rb wb where
    r: "filesystem_read READING_MAIL ?k = Inr (WRITING_MAIL, ?k\<lparr>k_p3 := p\<lparr>read_buffer := rb, write_buffer := wb,
        byte_stuffing_st := st\<rparr>, k_world := w\<lparr>w_sel := s\<rparr>\<rparr>)"
      "drained rb" "steady wb" "content wb = bs" "selector_inv s" "grows (w_sel w) s"
      "registered s = (registered (w_sel w))(m \<mapsto> mail_item m OP_WRITE a)"
    by (auto simp: drained_def mail_item_def)
  let ?k1 = "?k\<lparr>k_p3 := p\<lparr>read_buffer := rb, write_buffer := wb, byte_stuffing_st := st\<rparr>, k_world := w\<lparr>w_sel := s\<rparr>\<rparr>"
  have h: "READING_MAIL \<le> ERROR" "on_read_ready (client_statbl ! READING_MAIL) = Some filesystem_read" "WRITING_MAIL < DONE"
    "if WRITING_MAIL = READING_MAIL then ?k1 = ?k1
      else call_hook (on_arrival (client_statbl ! WRITING_MAIL)) WRITING_MAIL ?k1 = Inr ?k1"
    by (simp_all add: client_statbl_def no_state_def call_hook_def)
  from turn [where callback = on_read_ready and h = filesystem_read, OF p(1,2) h(1,2) r(1) h(3,4)] r(2-7)
  show ?thesis by (auto simp: pop3_read_def stm_handler_read_def copied_piece_def)
qed

section \<open>A piece is sent\<close>

text \<open>
  The whole piece goes out and the mail is not over: the machine arrives in the state that reads the file,
  whose hook starts the automaton again and registers the descriptor, which is registered already.
\<close>

definition sent_piece :: "int \<Rightarrow> int \<Rightarrow> nat \<Rightarrow> pop3 \<Rightarrow> world \<Rightarrow> world \<Rightarrow> bool" where
  "sent_piece fd m a p w w' \<longleftrightarrow> (\<exists>s b t. w' = w\<lparr>w_sent := w_sent w @ [(fd, content (write_buffer p))], transfer_bytes := t,
       w_sel := s, w_conns := (w_conns w)(a \<mapsto> p\<lparr>write_buffer := b, mail_done := 0, byte_stuffing_st := 0,
         p_stm := Some READING_MAIL\<rparr>)\<rparr>
     \<and> drained b \<and> selector_inv s \<and> grows (w_sel w) s \<and> registered s = (registered (w_sel w))(m \<mapsto> mail_item m OP_READ a))"

lemma piece_write_turn:
  assumes "stands fd i a WRITING_MAIL w p" "client p = Mail_st m fd" "selected_mail_fd p = m"
    and "registered (w_sel w) m = Some (mail_item m OP_WRITE a)" "steady (write_buffer p)" "mail_done p = 0"
    and "io_send io = Some n" "length (content (write_buffer p)) \<le> n"
  shows "\<exists>w'. pop3_write io m (Some (Pop3_data a)) w = Inr w' \<and> sent_piece fd m a p w w'"
proof -
  let ?k = "\<lparr>k_fd = m, k_self = a, k_io = io, k_p3 = p, k_world = w\<rparr>" and ?c = "content (write_buffer p)"
  from assms(1) have p: "w_conns w a = Some p" "p_stm p = Some WRITING_MAIL" "selector_inv (w_sel w)" "client_fd p = fd"
    by (simp_all add: stands_def)
  have inv: "buffer_inv (write_buffer p)" using assms(5) by (simp add: steady_def)
  from send_all [of ?k "mail_item m OP_WRITE a" n fd] p(3) assms(4,5,8) obtain k1 b s t where
    snd: "send_buffer fd n ?k = Inr k1" "write_buffer (k_p3 k1) = b" "drained b" "\<not> buffer_can_read b"
      "key_set_interest OP_READ k1 = Inr (SELECTOR_SUCCESS, ?k\<lparr>k_p3 := p\<lparr>write_buffer := b\<rparr>,
        k_world := w\<lparr>w_sent := w_sent w @ [(fd, ?c)], transfer_bytes := t, w_sel := s\<rparr>\<rparr>)"
      "selector_inv s" "grows (w_sel w) s" "registered s = (registered (w_sel w))(m \<mapsto> mail_item m OP_READ a)"
    by (auto simp: mail_item_def)
  let ?w = "w\<lparr>w_sent := w_sent w @ [(fd, ?c)], transfer_bytes := t, w_sel := s\<rparr>"
  let ?k2 = "?k\<lparr>k_p3 := p\<lparr>write_buffer := b\<rparr>, k_world := ?w\<rparr>"
  have run: "mail_write WRITING_MAIL ?k = Inr (READING_MAIL, ?k2)"
    using assms(2,6,7) inv snd by (simp add: mail_write_def client_mail_def Let_def)
  let ?p3 = "p\<lparr>write_buffer := b, client := Mail_st m fd, mail_done := 0, byte_stuffing_st := 0\<rparr>"
  have "registered s m = Some (mail_item m OP_READ a)" using snd(8) by simp
  from selector_register_twice [OF snd(6) this]
  have arrive: "reading_init READING_MAIL ?k2 = Inr (?k2\<lparr>k_p3 := ?p3\<rparr>)"
    using assms(3) p(4) by (simp add: reading_init_def register_fd_def Let_def)
  have h: "WRITING_MAIL \<le> ERROR" "on_write_ready (client_statbl ! WRITING_MAIL) = Some mail_write" "READING_MAIL < DONE"
    "if READING_MAIL = WRITING_MAIL then ?k2\<lparr>k_p3 := ?p3\<rparr> = ?k2
      else call_hook (on_arrival (client_statbl ! READING_MAIL)) READING_MAIL ?k2 = Inr (?k2\<lparr>k_p3 := ?p3\<rparr>)"
    using arrive by (simp_all add: client_statbl_def no_state_def call_hook_def)
  have p3: "?p3 = p\<lparr>write_buffer := b, mail_done := 0, byte_stuffing_st := 0\<rparr>" using assms(2) by simp
  from turn [where callback = on_write_ready and h = mail_write, OF p(1,2) h(1,2) run h(3,4)] snd(3,6-8)
  show ?thesis unfolding sent_piece_def p3
    by (intro exI [of _ "?w\<lparr>w_conns := (w_conns w)(a \<mapsto> p\<lparr>write_buffer := b, mail_done := 0, byte_stuffing_st := 0,
          p_stm := Some READING_MAIL\<rparr>)\<rparr>"] conjI exI [of _ s] exI [of _ b] exI [of _ t])
      (simp_all add: pop3_write_def stm_handler_write_def)
qed

section \<open>Rounds\<close>

text \<open>
  The two rounds of a piece without a terminator: it goes to the client, and the session stands where it
  stood, with no mark that the mail is over.
\<close>

definition piece :: "int \<Rightarrow> byte list \<Rightarrow> answers \<Rightarrow> answers \<Rightarrow> bool" where
  "piece m bs an1 an2 \<longleftrightarrow> bs \<noteq> [] \<and> length bs \<le> BUFFER_SIZE \<and> io_read (a_read an1 m) = Some bs \<and> takes an2 m (length bs)"

lemma piece_rounds:
  assumes "reading fd m a w p" "mail_done p = 0" "m \<noteq> fd" "piece m bs an1 an2" "stuffer_run 0 bs = Inl st"
  shows "\<exists>w' q. leads w [(Ready {m} {}, an1), (Ready {} {m}, an2)] w' \<and> reading fd m a w' q \<and> mail_done q = 0
    \<and> w_sent w' = w_sent w @ [(fd, bs)] \<and> w_closed w' = w_closed w"
proof -
  from assms(1) have st: "stands fd OP_READ a READING_MAIL w p" "client p = Mail_st m fd"
    "registered (w_sel w) m = Some (mail_item m OP_READ a)" "drained (read_buffer p)" "drained (write_buffer p)"
    "byte_stuffing_st p = 0" "p_parser p = create_parser" "selected_mail_fd p = m" by (simp_all add: reading_def)
  then have p: "selector_inv (w_sel w)" "resolution_jobs (w_sel w) = []" "client_fd p = fd"
    "registered (w_sel w) fd = Some (client_item fd OP_READ a)" by (simp_all add: stands_def)
  from assms(4) have b: "io_read (a_read an1 m) = Some bs" "bs \<noteq> []" "length bs \<le> BUFFER_SIZE" by (simp_all add: piece_def)
  from piece_read_turn [OF st(1-6) b assms(5)] obtain w1 where
    w1: "pop3_read (a_read an1 m) m (Some (Pop3_data a)) w = Inr w1" "copied_piece fd m a bs p w w1" by blast
  from w1(2) obtain s1 rb wb z where
    r1: "w1 = w\<lparr>w_sel := s1, w_conns := (w_conns w)(a \<mapsto> p\<lparr>read_buffer := rb, write_buffer := wb,
        byte_stuffing_st := z, p_stm := Some WRITING_MAIL\<rparr>)\<rparr>"
      "drained rb" "steady wb" "content wb = bs" "selector_inv s1" "grows (w_sel w) s1"
      "registered s1 = (registered (w_sel w))(m \<mapsto> mail_item m OP_WRITE a)" unfolding copied_piece_def by blast
  let ?p1 = "p\<lparr>read_buffer := rb, write_buffer := wb, byte_stuffing_st := z, p_stm := Some WRITING_MAIL\<rparr>"
  have 1: "serve_round (Ready {m} {}) an1 w = Inr (SELECTOR_SUCCESS, w1)"
    by (rule read_round [OF p(1,2) st(3) _ w1(1)]) (use r1 in simp_all)
  have st1: "stands fd OP_READ a WRITING_MAIL w1 ?p1" "registered (w_sel w1) m = Some (mail_item m OP_WRITE a)"
    using r1 p assms(3) by (simp_all add: stands_def grows_def)
  from assms(4) obtain n where n: "io_send (a_write an2 m) = Some n" "length bs \<le> n" unfolding piece_def takes_def by blast
  have "length (content (write_buffer ?p1)) \<le> n" "steady (write_buffer ?p1)" "mail_done ?p1 = 0" "client ?p1 = Mail_st m fd"
    "selected_mail_fd ?p1 = m" using r1(3,4) n(2) assms(2) st(2,8) by simp_all
  from piece_write_turn [OF st1(1) this(4,5) st1(2) this(2,3) n(1) this(1)] obtain w2 where
    w2: "pop3_write (a_write an2 m) m (Some (Pop3_data a)) w1 = Inr w2" "sent_piece fd m a ?p1 w1 w2" by blast
  from w2(2) obtain s2 b2 t where
    r2: "w2 = w1\<lparr>w_sent := w_sent w1 @ [(fd, bs)], transfer_bytes := t, w_sel := s2, w_conns := (w_conns w1)(a \<mapsto>
        ?p1\<lparr>write_buffer := b2, mail_done := 0, byte_stuffing_st := 0, p_stm := Some READING_MAIL\<rparr>)\<rparr>"
      "drained b2" "selector_inv s2" "grows (w_sel w1) s2" "registered s2 = (registered (w_sel w1))(m \<mapsto> mail_item m OP_READ a)"
    using r1(4) unfolding sent_piece_def by auto
  let ?p2 = "?p1\<lparr>write_buffer := b2, mail_done := 0, byte_stuffing_st := 0, p_stm := Some READING_MAIL\<rparr>"
  have s1: "w_sel w1 = s1" using r1(1) by simp
  have 2: "serve_round (Ready {} {m}) an2 w1 = Inr (SELECTOR_SUCCESS, w2)"
    by (rule write_round [OF _ _ st1(2) _ w2(1)]) (use r1(5,6) r2 s1 p(2) in \<open>simp_all add: grows_def\<close>)
  have "reading fd m a w2 ?p2"
    using r2(1-5) r1(2,6,7) p(2-4) st(2,7,8) s1 assms(3) by (simp add: reading_def stands_def grows_def)
  moreover have "w_sent w2 = w_sent w @ [(fd, bs)]" "w_closed w2 = w_closed w" by (simp_all add: r2(1)) (simp_all add: r1(1))
  ultimately show ?thesis using 1 2 by (intro exI [of _ w2] exI [of _ ?p2]) simp
qed

text \<open>At the end of the file the session fails.\<close>

lemma end_of_file_turn:
  assumes "reading fd m a w p" "io_read io = Some []"
  shows "pop3_read io m (Some (Pop3_data a)) w = pop3_done a (w\<lparr>w_conns := (w_conns w)(a \<mapsto> p\<lparr>p_stm := Some ERROR\<rparr>)\<rparr>)"
proof -
  let ?k = "\<lparr>k_fd = m, k_self = a, k_io = io, k_p3 = p, k_world = w\<rparr>"
  from assms(1) have p: "w_conns w a = Some p" "p_stm p = Some READING_MAIL" "client p = Mail_st m fd" "buffer_inv (read_buffer p)"
    by (auto simp: reading_def stands_def dest: drainedD)
  have h: "READING_MAIL \<le> ERROR" "on_read_ready (client_statbl ! READING_MAIL) = Some filesystem_read" "ERROR \<le> ERROR"
    "if ERROR = READING_MAIL then ?k = ?k else call_hook (on_arrival (client_statbl ! ERROR)) ERROR ?k = Inr ?k"
    by (simp_all add: client_statbl_def no_state_def call_hook_def error_function_def)
  have "filesystem_read READING_MAIL ?k = Inr (ERROR, ?k)"
    using p(3,4) assms(2) by (simp add: filesystem_read_def client_mail_def received_def)
  from machine_turn [where callback = on_read_ready and h = filesystem_read, OF h(1,2) this h(3,4)] p(1,2)
  show ?thesis by (simp add: pop3_read_def pop3_event_def stm_handler_read_def Let_def) (simp add: pop3_stm_def)
qed

section \<open>Properties\<close>

text \<open>
  The answers of the client's visit when the file of its mail is read in two pieces, the second of which is
  less than the terminator, and is then at its end.
\<close>

definition split_visitor :: "int \<Rightarrow> int \<Rightarrow> int \<Rightarrow> cstring \<Rightarrow> cstring \<Rightarrow> cstring \<Rightarrow> byte list list \<Rightarrow> nat \<Rightarrow> (nat \<Rightarrow> answers) \<Rightarrow> bool" where
  "split_visitor s4 fd m u v x ls n an \<longleftrightarrow> enters s4 fd u v an \<and> asks fd x (an 4) (an 5)
     \<and> (\<forall>l \<in> set ls. CR \<notin> set l \<and> l \<noteq> [DOT]) \<and> n < length (mail_text ls) \<and> length (mail_text ls) < n + length terminator
     \<and> piece m (take n (mail_text ls)) (an 6) (an 7) \<and> piece m (drop n (mail_text ls)) (an 8) (an 9)
     \<and> io_read (a_read (an 10) m) = Some []"

definition split_schedule :: "int \<Rightarrow> int \<Rightarrow> int \<Rightarrow> (nat \<Rightarrow> answers) \<Rightarrow> (pselect_result \<times> answers) list" where
  "split_schedule s4 fd m an = entry_schedule s4 fd an @ [(Ready {fd} {}, an 4), (Ready {} {fd}, an 5)]
     @ [(Ready {m} {}, an 6), (Ready {} {m}, an 7)] @ [(Ready {m} {}, an 8), (Ready {} {m}, an 9)]"

text \<open>
  C38. When the file of a mail is read in two pieces and the second one begins inside the terminator, both
  pieces reach the client but the server does not notice that the mail is over: after the ten rounds of the visit
  the session is still reading the file, and the next read, at the end of the file, puts it into the
  state ERROR and ends the connection.
\<close>

theorem split_terminator_missed:
  assumes "selector_inv (w_sel (m_world M))" "resolution_jobs (w_sel (m_world M)) = []"
    and "\<forall>b \<in> set (head_connection (m_world M)). w_conns (m_world M) b \<noteq> None"
    and "registered (w_sel (m_world M)) s4 = Some (passive_item s4 Pop3_passive)"
    and "free_fd fd (w_sel (m_world M))" "free_fd m (w_sel (m_world M))" "m \<noteq> fd"
    and "users_are (w_users (m_world M)) xs" "(u, v) \<in> set xs" "split_visitor s4 fd m u v x ls n an"
    and "has_mails (io_os (a_read (an 4) fd)) (w_maildir (m_world M)) u ms" "i < length ms" "unat (atoi x) = Suc i"
    and "open_mail (io_os (a_read (an 4) fd)) (file_path (ms ! i)) = m"
  shows "\<exists>M' p. main_loop (split_schedule s4 fd m an) M = Inr (Inr M') \<and> ss M' = SELECTOR_SUCCESS
    \<and> w_sent (m_world M') = w_sent (m_world M) @ [(fd, WELCOME), (fd, POSITIVE_MSG @ LOGIN_MSG), (fd, POSITIVE_MSG),
        (fd, take n (mail_text ls)), (fd, drop n (mail_text ls))]
    \<and> w_conns (m_world M') (w_next (m_world M)) = Some p \<and> p_stm p = Some READING_MAIL \<and> mail_done p = 0
    \<and> pop3_read (a_read (an 10) m) m (Some (Pop3_data (w_next (m_world M)))) (m_world M')
        = pop3_done (w_next (m_world M))
            ((m_world M')\<lparr>w_conns := (w_conns (m_world M'))(w_next (m_world M) \<mapsto> p\<lparr>p_stm := Some ERROR\<rparr>)\<rparr>)"
proof -
  let ?w = "m_world M" and ?a = "w_next (m_world M)" and ?io = "a_read (an 4) fd" and ?t = "mail_text ls"
  from assms(10) have v: "enters s4 fd u v an" "asks fd x (an 4) (an 5)" "\<forall>l \<in> set ls. CR \<notin> set l \<and> l \<noteq> [DOT]" "n < length ?t"
    "length (drop n ?t) < length terminator" "piece m (take n ?t) (an 6) (an 7)" "piece m (drop n ?t) (an 8) (an 9)"
    "io_read (a_read (an 10) m) = Some []" by (auto simp: split_visitor_def)
  from first_piece [OF v(3,4)] obtain st1 where p1: "stuffer_run 0 (take n ?t) = Inl st1" by blast
  from short_piece [OF v(5)] obtain st2 where p2: "stuffer_run 0 (drop n ?t) = Inl st2" by blast
  from entry_rounds [OF assms(1-9) v(1) assms(11-13)] obtain w1 q1 where
    1: "leads ?w (entry_schedule s4 fd an) w1" "can_ask fd ?a m ?io x ms i w1 q1"
      "w_sent w1 = w_sent ?w @ [(fd, WELCOME), (fd, POSITIVE_MSG @ LOGIN_MSG)]" by blast
  from 1(2) have a: "at_prompt fd ?a TRANSACTION w1 q1" "loadable (env_of ?io w1) q1 ms"
    "msg_ref (dele_flags q1) (length ms) (Some x) = Message i" "free_fd m (w_sel w1)" by (simp_all add: can_ask_def)
  from open_rounds [OF a(1,2) v(2) a(3) assms(14) a(4)] obtain w2 q2 where
    2: "leads w1 [(Ready {fd} {}, an 4), (Ready {} {fd}, an 5)] w2" "reading fd m ?a w2 q2" "mail_done q2 = 0"
      "w_sent w2 = w_sent w1 @ [(fd, POSITIVE_MSG)]" by blast
  from piece_rounds [OF 2(2,3) assms(7) v(6) p1] obtain w3 q3 where
    3: "leads w2 [(Ready {m} {}, an 6), (Ready {} {m}, an 7)] w3" "reading fd m ?a w3 q3" "mail_done q3 = 0"
      "w_sent w3 = w_sent w2 @ [(fd, take n ?t)]" by blast
  from piece_rounds [OF 3(2,3) assms(7) v(7) p2] obtain w4 q4 where
    4: "leads w3 [(Ready {m} {}, an 8), (Ready {} {m}, an 9)] w4" "reading fd m ?a w4 q4" "mail_done q4 = 0"
      "w_sent w4 = w_sent w3 @ [(fd, drop n ?t)]" by blast
  have "leads ?w (split_schedule s4 fd m an) w4"
    using 1(1) 2(1) 3(1) 4(1) unfolding split_schedule_def leads_append by blast
  moreover have "split_schedule s4 fd m an \<noteq> []" by (simp add: split_schedule_def)
  ultimately have "main_loop (split_schedule s4 fd m an) M
      = Inr (Inr (M\<lparr>err_msg := None, ss := SELECTOR_SUCCESS, m_world := w4\<rparr>))" by (rule leads_main_loop)
  moreover have "w_conns w4 ?a = Some q4" "p_stm q4 = Some READING_MAIL" using 4(2) by (simp_all add: reading_def stands_def)
  ultimately show ?thesis using end_of_file_turn [OF 4(2) v(8)] 1(3) 2(4) 3(4) 4(3,4)
    by (intro exI [of _ "M\<lparr>err_msg := None, ss := SELECTOR_SUCCESS, m_world := w4\<rparr>"] exI [of _ q4]) simp
qed

definition example_split :: "nat \<Rightarrow> answers" where
  "example_split j = (example_visit j)\<lparr>a_read := (\<lambda>fd. (a_read (example_visit j) fd)\<lparr>io_read := Some
     (if j = 6 then take 4 (mail_text [str ''a'']) else if j = 8 then drop 4 (mail_text [str ''a'']) else [])\<rparr>)\<rparr>"

lemma example_split_visitor: "split_visitor 3 9 12 (str ''foo'') (str ''bar'') (str ''1'') [str ''a''] 4 example_split"
proof -
  from example_visitor have v: "enters 3 9 (str ''foo'') (str ''bar'') example_visit" "asks 9 (str ''1'') (example_visit 4) (example_visit 5)"
    by (simp_all add: visitor_def retrieves_def)
  have "enters 3 9 (str ''foo'') (str ''bar'') example_split" "asks 9 (str ''1'') (example_split 4) (example_split 5)"
    using v by (simp_all add: enters_def asks_def arrives_def says_def takes_def example_split_def)
  moreover have "mail_text [str ''a''] = [97, CR, LF, DOT, CR, LF]" by (simp add: mail_text_def crlf_def)
  then have "piece 12 (take 4 (mail_text [str ''a''])) (example_split 6) (example_split 7)"
    "piece 12 (drop 4 (mail_text [str ''a''])) (example_split 8) (example_split 9)"
    "4 < length (mail_text [str ''a''])" "length (mail_text [str ''a'']) < 4 + length terminator"
    by (simp_all add: piece_def takes_def example_split_def example_visit_def example_io_def BUFFER_SIZE_def terminator_def)
  ultimately show ?thesis by (simp add: split_visitor_def) (simp add: example_split_def)
qed

theorem split_terminator_missed_witness:
  "\<exists>M M' p. main_setup example_boot (main_start 1110 INITIAL_PATH) = Inr (Inr M)
    \<and> main_loop (split_schedule 3 9 12 example_split) M = Inr (Inr M')
    \<and> w_sent (m_world M') = w_sent (m_world M) @ [(9, WELCOME), (9, POSITIVE_MSG @ LOGIN_MSG), (9, POSITIVE_MSG),
        (9, take 4 (mail_text [str ''a''])), (9, drop 4 (mail_text [str ''a'']))]
    \<and> w_conns (m_world M') (w_next (m_world M)) = Some p \<and> p_stm p = Some READING_MAIL"
proof -
  from main_setup_run [OF example_boots, of 1110 INITIAL_PATH] obtain M where
    m: "main_setup example_boot (main_start 1110 INITIAL_PATH) = Inr (Inr M)" "listening (sockets 3 4 5 6) (w_sel (m_world M))"
      "users_are (w_users (m_world M)) [(str ''foo'', str ''bar'')]" "w_maildir (m_world M) = INITIAL_PATH"
      "head_connection (m_world M) = []" by blast
  let ?w = "m_world M" and ?ms = "inbox (example_os\<lparr>open_mail := \<lambda>path. 12\<rparr>) INITIAL_PATH (str ''foo'') [str ''.'', str ''a'', str ''..'', str ''b'']"
  from m(2) have w: "selector_inv (w_sel ?w)" "resolution_jobs (w_sel ?w) = []"
    "registered (w_sel ?w) 3 = Some (passive_item 3 Pop3_passive)" "free_fd 9 (w_sel ?w)" "free_fd 12 (w_sel ?w)"
    by (simp_all add: listening_def sockets_def free_fd_def INVALID_FD_def ITEMS_MAX_SIZE_def)
  have heads: "\<forall>b \<in> set (head_connection ?w). w_conns ?w b \<noteq> None" using m(5) by simp
  have os: "io_os (a_read (example_split 4) 9) = io_os (a_read (example_visit 4) 9)" by (simp add: example_split_def)
  have ms: "has_mails (io_os (a_read (example_split 4) 9)) (w_maildir ?w) (str ''foo'') ?ms"
    unfolding os m(4) by (rule example_has_mails)
  note i = has_mails_nonempty [OF ms]
  have n: "unat (atoi (str ''1'')) = Suc 0" unfolding example_numbers by simp
  have o: "open_mail (io_os (a_read (example_split 4) 9)) (file_path (?ms ! 0)) = 12" unfolding os by (simp add: example_visit_def)
  have u: "(str ''foo'', str ''bar'') \<in> set [(str ''foo'', str ''bar'')]" by simp
  from split_terminator_missed [OF w(1,2) heads w(3-5) _ m(3) u example_split_visitor ms i n o] m(1) show ?thesis by auto
qed

end
