(* ===== verification/Login.thy ===== *)
theory Login
  imports Dialogue
begin

text \<open>
  Who is logged in, over every state the server reaches. A session beyond the login either has a name and a
  password that the list of users accepted at some moment since the start, or it never gave a name, and
  then it has no mails. To speak of earlier moments the runs carry the lists of users there have been.
\<close>

section \<open>What a session has been granted\<close>

text \<open>The states beyond the login.\<close>

definition inside :: "nat set" where
  "inside = {TRANSACTION, READING_MAIL, WRITING_MAIL, UPDATE}"

definition accepted_by :: "user_db list \<Rightarrow> cstring \<Rightarrow> cstring \<Rightarrow> bool" where
  "accepted_by dbs u pw \<longleftrightarrow> (\<exists>db \<in> set dbs. \<exists>v. validate_user db u pw = Inr v \<and> v \<noteq> 0)"

definition admitted :: "user_db list \<Rightarrow> pop3 \<Rightarrow> bool" where
  "admitted dbs p \<longleftrightarrow> (\<exists>u pw. cred_user p = Some u \<and> cred_pass p = Some pw \<and> accepted_by dbs u pw)"

definition nameless :: "pop3 \<Rightarrow> bool" where
  "nameless p \<longleftrightarrow> cred_user p = None \<and> mails p = None \<and> selected_mail_fd p = 0"

definition vetted :: "user_db list \<Rightarrow> nat \<Rightarrow> pop3 \<Rightarrow> bool" where
  "vetted dbs st p \<longleftrightarrow> (cred_user p = None \<longrightarrow> nameless p) \<and> (st \<in> inside \<longrightarrow> admitted dbs p \<or> nameless p)"

definition vetted_session :: "user_db list \<Rightarrow> pop3 \<Rightarrow> bool" where
  "vetted_session dbs p \<longleftrightarrow> vetted dbs (case p_stm p of None \<Rightarrow> AUTH | Some st \<Rightarrow> st) p"

lemma inside_states [simp]:
  "TRANSACTION \<in> inside" "READING_MAIL \<in> inside" "WRITING_MAIL \<in> inside" "UPDATE \<in> inside"
  "AUTH \<notin> inside" "DONE \<notin> inside" "ERROR \<notin> inside"
  by (simp_all add: inside_def)

definition same_login :: "pop3 \<Rightarrow> pop3 \<Rightarrow> bool" where
  "same_login p p' \<longleftrightarrow> cred_user p' = cred_user p \<and> cred_pass p' = cred_pass p \<and> mails p' = mails p
     \<and> selected_mail_fd p' = selected_mail_fd p"

lemma same_login_refl [simp]: "same_login p p"
  by (simp add: same_login_def)

lemma same_login_trans: "same_login p p1 \<Longrightarrow> same_login p1 p2 \<Longrightarrow> same_login p p2"
  by (simp add: same_login_def)

lemma same_login_upd [simp]:
  "same_login p (q\<lparr>write_buffer := b\<rparr>) = same_login p q" "same_login p (q\<lparr>read_buffer := b\<rparr>) = same_login p q"
  "same_login p (q\<lparr>client := c\<rparr>) = same_login p q" "same_login p (q\<lparr>mail_done := d\<rparr>) = same_login p q"
  "same_login p (q\<lparr>byte_stuffing_st := s\<rparr>) = same_login p q" "same_login p (q\<lparr>p_parser := pa\<rparr>) = same_login p q"
  "same_login p (q\<lparr>p_stm := m\<rparr>) = same_login p q"
  by (simp_all add: same_login_def)

lemma vetted_same:
  assumes "vetted dbs st p" "same_login p p'" "st \<in> inside \<or> st' \<notin> inside"
  shows "vetted dbs st' p'"
  using assms by (auto simp: vetted_def admitted_def nameless_def same_login_def)

lemma vetted_more: "vetted_session dbs p \<Longrightarrow> set dbs \<subseteq> set dbs' \<Longrightarrow> vetted_session dbs' p"
  by (auto simp: vetted_session_def vetted_def admitted_def accepted_by_def)

section \<open>Commands\<close>

lemma reply_login: "reply s p = Inr p' \<Longrightarrow> same_login p p'"
  by (auto simp: reply_def rbind_eq_Inr same_login_def)

lemma auth_login:
  fixes p :: pop3
  assumes "command_handler h env cur a1 a2 p = Inr (st', p')" "h \<in> {Auth_capa, User, Pass, Auth_quit, Invalid}"
  shows "mails p' = mails p \<and> selected_mail_fd p' = selected_mail_fd p \<and> (cred_user p' = None \<longrightarrow> cred_user p = None)"
  using assms
  by (auto simp: auth_capa_handler_def user_handler_def pass_handler_def auth_quit_handler_def invalid_command_handler_def
      rbind_eq_Inr same_login_def dest!: reply_login split: option.splits if_splits)

lemma auth_vetted:
  assumes "command_handler h env AUTH a1 a2 p = Inr (st', p')" "h \<in> {Auth_capa, User, Pass, Auth_quit, Invalid}"
    and "vetted dbs AUTH p" "ce_users env \<in> set dbs"
  shows "vetted dbs st' p'"
proof -
  have n: "nameless p'" if "cred_user p' = None"
    using auth_login [OF assms(1,2)] assms(3) that by (auto simp: vetted_def nameless_def)
  from auth_next_state [OF assms(2,1)] show ?thesis
  proof (elim disjE conjE exE)
    fix u pw v
    assume "validate_user (ce_users env) u pw = Inr v" "v \<noteq> 0" "cred_user p' = Some u" "cred_pass p' = Some pw"
    with assms(4) have "admitted dbs p'" unfolding admitted_def accepted_by_def by blast
    with n show ?thesis by (auto simp: vetted_def)
  next
    assume "h = Pass" "cred_user p = None"
    with pass_without_user assms(1) have "cred_user p' = None" by simp
    with n show ?thesis by (auto simp: vetted_def)
  qed (use n in \<open>auto simp: vetted_def\<close>)
qed

text \<open>Without a name a command that loads the mails fails.\<close>

lemma nameless_load: "cred_user p = None \<Longrightarrow> load_mails os path p = Inl NullDeref"
  by (simp add: load_mails_def open_maildir_def)

lemma rset_login:
  assumes "rset_handler cur p = Inr (st, p')" "fit p"
  shows "same_login p p'"
proof -
  from assms(1) obtain p1 s where p1:
    "for_le (\<lambda>i p. rbind (store_at (unat i) 0 (dele_flags p)) (\<lambda>flags. Inr (p\<lparr>dele_flags := flags\<rparr>)))
       (max_index p) p = Inr p1"
    "reply s (p1\<lparr>mail_qty := max_index p1 + 1, total_octates := original_total_octates p1\<rparr>) = Inr p'"
    by (auto simp: rset_handler_def Let_def rbind_eq_Inr)
  have "same_login p p1"
    by (rule for_le_keeps [OF p1(1) _ fit_max [OF assms(2)], of "same_login p"]) (auto simp: rbind_eq_Inr same_login_def)
  with reply_login [OF p1(2)] show ?thesis by (simp add: same_login_def)
qed

lemma transaction_nameless:
  assumes "command_handler h env cur a1 a2 p = Inr (st', p')" "fit p" "nameless p"
    and "h \<in> {Noop, Stat, List, Retr, Dele, Rset, Trans_capa, Trans_quit, Invalid}"
  shows "nameless p'"
proof -
  have l: "load_mails (ce_os env) (ce_maildir env) p = Inl NullDeref" using assms(3) by (simp add: nameless_def nameless_load)
  have "same_login p p'"
    using assms(1,4) l assms(3) rset_login [of cur p st' p'] assms(2)
    by (auto simp: noop_def trans_capa_handler_def trans_quit_handler_def invalid_command_handler_def stat_handler_def
        list_handler_def retr_handler_def dele_handler_def nameless_def rbind_eq_Inr dest: reply_login)
  with assms(3) show ?thesis by (simp add: nameless_def same_login_def)
qed

lemma transaction_vetted:
  assumes "command_handler h env cur a1 a2 p = Inr (st', p')" "fit p" "vetted dbs TRANSACTION p"
    and "h \<in> {Noop, Stat, List, Retr, Dele, Rset, Trans_capa, Trans_quit, Invalid}"
  shows "vetted dbs st' p'"
proof -
  have u: "same_user p p'" using transaction_kept [OF assms(1,2,4)] by simp
  from assms(3) have "admitted dbs p \<or> nameless p" by (simp add: vetted_def)
  then show ?thesis
  proof
    assume "admitted dbs p"
    with u show ?thesis by (auto simp: vetted_def admitted_def same_user_def)
  next
    assume "nameless p"
    from transaction_nameless [OF assms(1,2) this assms(4)] show ?thesis by (simp add: vetted_def)
  qed
qed

section \<open>The callbacks of a session\<close>

text \<open>What a step of a callback leaves alone: the login, and the other sessions but for those it frees.\<close>

definition others_stay :: "key \<Rightarrow> key \<Rightarrow> bool" where
  "others_stay k k' \<longleftrightarrow> k_self k' = k_self k \<and> same_login (k_p3 k) (k_p3 k')
     \<and> (\<forall>b q. b \<noteq> k_self k \<longrightarrow> w_conns (k_world k') b = Some q \<longrightarrow> w_conns (k_world k) b = Some q)"

lemma others_stay_refl [simp]: "others_stay k k"
  by (simp add: others_stay_def)

lemma others_stay_trans: "others_stay k k1 \<Longrightarrow> others_stay k1 k2 \<Longrightarrow> others_stay k k2"
  unfolding others_stay_def using same_login_trans by metis

lemma same_rest_others: "same_rest k k' \<Longrightarrow> same_login (k_p3 k) (k_p3 k') \<Longrightarrow> others_stay k k'"
  by (simp add: others_stay_def same_rest_sel)

lemma set_interest_others: "key_set_interest i k = Inr (st, k') \<Longrightarrow> others_stay k k'"
  using key_set_interest_rest [of i k st k'] by (intro same_rest_others) auto

lemma send_others: "send_buffer fd n k = Inr k' \<Longrightarrow> others_stay k k'"
  by (auto simp: send_buffer_def rbind_eq_Inr Let_def others_stay_def)

lemma unregister_others:
  assumes "key_unregister fd k = Inr (st, k')"
  shows "others_stay k k'"
proof -
  let ?w = "(k_world k)\<lparr>w_conns := (w_conns (k_world k))(k_self k \<mapsto> k_p3 k)\<rparr>"
  from assms(1) obtain w p where w: "unregister_fd fd ?w = Inr (st, w)" "w_conns w (k_self k) = Some p"
    "k' = k\<lparr>k_p3 := p, k_world := w\<rparr>"
    by (auto simp: key_unregister_def rbind_eq_Inr split: option.splits)
  from unregister_shrinks [OF w(1)] have le: "w_conns w b = Some q \<Longrightarrow> w_conns ?w b = Some q" for b q
    by (auto simp: shrinks_def map_le_def dom_def split: if_splits)
  from le [OF w(2)] have "p = k_p3 k" by simp
  moreover have "w_conns (k_world k) b = Some q" if "b \<noteq> k_self k" "w_conns w b = Some q" for b q
    using le [OF that(2)] that(1) by simp
  ultimately show ?thesis using w(3) by (simp add: others_stay_def)
qed

lemma mail_byte_login: "mail_byte c p = Inr (p', stop) \<Longrightarrow> same_login p p'"
  by (cases "byte_stuffer c (byte_stuffing_st p)")
    (auto simp: mail_byte_def rbind_eq_Inr Let_def same_login_def simp del: put_all.simps split: if_splits)

text \<open>Sending and then, when all is sent, waiting for the next command or for more of the mail.\<close>

lemma send_then_others:
  assumes "(case io_send (k_io k) of
         None \<Rightarrow> Inr (x, k)
       | Some n \<Rightarrow>
           rbind (send_buffer fd n k) (\<lambda>k.
           if \<not> buffer_can_read (write_buffer (k_p3 k)) then
             rbind (key_set_interest OP_READ k) (\<lambda>(s, k). Inr (if s = SELECTOR_SUCCESS then y else ERROR, k))
           else Inr (z, k))) = Inr (r, k')"
  shows "others_stay k k'"
proof (cases "io_send (k_io k)")
  case None
  with assms show ?thesis by simp
next
  case (Some n)
  with assms obtain k1 where k1: "send_buffer fd n k = Inr k1" by (cases "send_buffer fd n k") simp_all
  have "others_stay k1 k'"
  proof (cases "buffer_can_read (write_buffer (k_p3 k1))")
    case True
    with assms Some k1 show ?thesis by simp
  next
    case False
    with assms Some k1 obtain s where "key_set_interest OP_READ k1 = Inr (s, k')" by (auto simp: rbind_eq_Inr)
    then show ?thesis by (rule set_interest_others)
  qed
  with send_others [OF k1] show ?thesis by (rule others_stay_trans)
qed

lemma client_write_others:
  assumes "client_write st k = Inr (st', k')"
  shows "others_stay k k'"
proof -
  let ?send = "case io_send (k_io k) of
         None \<Rightarrow> Inr (ERROR, k)
       | Some n \<Rightarrow>
           rbind (send_buffer (k_fd k) n k) (\<lambda>k.
           if \<not> buffer_can_read (write_buffer (k_p3 k)) then
             rbind (key_set_interest OP_READ k) (\<lambda>(s, k). Inr (if s = SELECTOR_SUCCESS then st else ERROR, k))
           else Inr (st, k))"
  from assms obtain r where "?send = Inr (r, k')" by (auto simp: client_write_def rbind_eq_Inr)
  then show ?thesis by (rule send_then_others)
qed

lemma mail_write_others:
  assumes "mail_write st k = Inr (st', k')"
  shows "others_stay k k'"
proof -
  from assms obtain mf sf where m: "client_mail (k_p3 k) = Inr (mf, sf)" by (auto simp: mail_write_def rbind_eq_Inr)
  let ?send = "case io_send (k_io k) of
         None \<Rightarrow> Inr (if io_reset (k_io k) then ERROR else st, k)
       | Some n \<Rightarrow>
           rbind (send_buffer sf n k) (\<lambda>k.
           if \<not> buffer_can_read (write_buffer (k_p3 k)) then
             rbind (key_set_interest OP_READ k) (\<lambda>(s, k).
             Inr (if s = SELECTOR_SUCCESS then READING_MAIL else ERROR, k))
           else Inr (st, k))"
  from assms m obtain r k1 where 1: "?send = Inr (r, k1)"
    and 2: "(if mail_done (k_p3 k1) \<noteq> 0 then
       rbind (key_unregister mf k1) (\<lambda>(_, k).
       let p = k_p3 k in
       Inr (TRANSACTION, k\<lparr>k_p3 := p\<lparr>mail_done := 0, read_buffer := buffer_reset (read_buffer p),
              write_buffer := buffer_reset (write_buffer p)\<rparr>\<rparr>))
     else Inr (r, k1)) = Inr (st', k')"
    by (auto simp: mail_write_def rbind_eq_Inr)
  from 1 have "others_stay k k1" by (rule send_then_others)
  moreover from 2 have "others_stay k1 k'"
    using unregister_others [of mf k1] by (fastforce simp: rbind_eq_Inr Let_def others_stay_def split: if_splits)
  ultimately show ?thesis by (rule others_stay_trans)
qed

lemma filesystem_read_others:
  assumes "filesystem_read st k = Inr (st', k')" "session_ok (k_p3 k)"
  shows "others_stay k k'"
proof -
  have inv: "buffer_inv (read_buffer (k_p3 k))" using assms(2) by (simp add: session_ok_def)
  let ?bs = "received (io_read (k_io k)) (room (read_buffer (k_p3 k)))"
  from assms(1) inv obtain mf sf where m: "client_mail (k_p3 k) = Inr (mf, sf)" by (auto simp: filesystem_read_def rbind_eq_Inr)
  show ?thesis
  proof (cases "?bs = []")
    case True
    with assms(1) m inv show ?thesis by (simp add: filesystem_read_def)
  next
    case False
    from buffer_fill_ok [OF inv received_length, of "io_read (k_io k)"] obtain b1 b2 where
      b: "buffer_fill (read_buffer (k_p3 k)) ?bs = Inr b1" "buffer_write_adv b1 (int (length ?bs)) = Inr b2"
        "buffer_inv b2" by blast
    let ?k = "k\<lparr>k_p3 := (k_p3 k)\<lparr>read_buffer := b2\<rparr>\<rparr>"
    from assms(1) m inv False b obtain s k1 where k1: "key_set_interest OP_WRITE ?k = Inr (s, k1)"
      and rest: "(if s = SELECTOR_SUCCESS then
         rbind (consume_buffer mail_byte (read_buffer (k_p3 k1)) (k_p3 k1)) (\<lambda>(p, b).
         Inr (WRITING_MAIL, k1\<lparr>k_p3 := p\<lparr>read_buffer := b\<rparr>\<rparr>))
       else Inr (WRITING_MAIL, k1)) = Inr (st', k')"
      by (auto simp: filesystem_read_def Let_def rbind_eq_Inr)
    have o1: "others_stay k k1" using set_interest_others [OF k1] by (simp add: others_stay_def same_login_def)
    show ?thesis
    proof (cases "s = SELECTOR_SUCCESS")
      case False
      with rest o1 show ?thesis by simp
    next
      case True
      with rest obtain p b4 where p: "consume_buffer mail_byte (read_buffer (k_p3 k1)) (k_p3 k1) = Inr (p, b4)"
        "k' = k1\<lparr>k_p3 := p\<lparr>read_buffer := b4\<rparr>\<rparr>" by (auto simp: rbind_eq_Inr)
      have "buffer_inv (read_buffer (k_p3 k1))" using key_set_interest_rest [OF k1] b(3) by simp
      from consume_buffer_Inr [OF p(1) this] obtain rest where
        f: "feed_until mail_byte (content (read_buffer (k_p3 k1))) (k_p3 k1) = Inr (p, rest)" by blast
      have "same_login (k_p3 k1) p"
        by (rule feed_until_keeps [OF f, of "same_login (k_p3 k1)"]) (auto dest: mail_byte_login same_login_trans)
      with o1 p(2) show ?thesis by (simp add: others_stay_def) (blast intro: same_login_trans)
    qed
  qed
qed

section \<open>Reading commands\<close>

definition reads_vetted :: "nat \<Rightarrow> user_db list \<Rightarrow> key \<Rightarrow> nat \<times> key \<Rightarrow> bool" where
  "reads_vetted cur dbs k0 x \<longleftrightarrow> same_rest k0 (snd x) \<and> fit (k_p3 (snd x)) \<and> vetted dbs (fst x) (k_p3 (snd x))
     \<and> (cur = TRANSACTION \<longrightarrow> fst x \<noteq> AUTH)"

lemma vetted_parser [simp]: "vetted dbs st (p\<lparr>p_parser := pa\<rparr>) = vetted dbs st p"
  by (simp add: vetted_def admitted_def nameless_def)

lemma read_byte_vetted:
  assumes "read_byte cur c x = Inr (x', stop)" "reads_vetted cur dbs k0 x" "cur \<in> {AUTH, TRANSACTION}"
    and "w_users (k_world k0) \<in> set dbs"
  shows "reads_vetted cur dbs k0 x'"
proof -
  obtain st k st' k' where x: "x = (st, k)" "x' = (st', k')" by (cases x; cases x')
  from read_byte_step [of cur c st k st' k' stop] assms(1) x obtain pa pb p where
    r: "same_rest k k'" "k_p3 k' = p\<lparr>p_parser := pb\<rparr>"
    and d: "st' \<in> {st, ERROR} \<and> p = (k_p3 k)\<lparr>p_parser := pa\<rparr>
      \<or> (\<exists>h a1 a2. comparator (get_last_event pa) st = Inr h
          \<and> command_handler h (key_env k) cur a1 a2 ((k_p3 k)\<lparr>p_parser := pa\<rparr>) = Inr (st', p))"
    by blast
  from assms(2) x have k: "same_rest k0 k" "fit (k_p3 k)" "vetted dbs st (k_p3 k)" "cur = TRANSACTION \<longrightarrow> st \<noteq> AUTH"
    by (simp_all add: reads_vetted_def)
  have users: "ce_users (key_env k) \<in> set dbs" using same_rest_sel(6) [OF k(1)] assms(4) by (simp add: key_env_def)
  have "fit p \<and> vetted dbs st' p \<and> (cur = TRANSACTION \<longrightarrow> st' \<noteq> AUTH)"
    using d
  proof (elim disjE exE conjE)
    assume "st' \<in> {st, ERROR}" "p = (k_p3 k)\<lparr>p_parser := pa\<rparr>"
    with k vetted_same [of dbs st "k_p3 k" p st'] show ?thesis by auto
  next
    fix h a1 a2
    let ?p = "(k_p3 k)\<lparr>p_parser := pa\<rparr>"
    assume c: "comparator (get_last_event pa) st = Inr h"
      and h: "command_handler h (key_env k) cur a1 a2 ?p = Inr (st', p)"
    have f: "fit ?p" using k(2) by simp
    from comparator_table [OF c] show ?thesis
    proof
      assume t: "st = AUTH \<and> h \<in> {Auth_capa, User, Pass, Auth_quit, Invalid}"
      with k(4) assms(3) have "cur = AUTH" by auto
      with auth_vetted [of h "key_env k" a1 a2 ?p st' p dbs] h t k(3) users handler_fit [OF h f] show ?thesis by simp
    next
      assume t: "st = TRANSACTION \<and> h \<in> {Noop, Stat, List, Retr, Dele, Rset, Trans_capa, Trans_quit, Invalid}"
      with transaction_vetted [OF h f, of dbs] k(3) transaction_kept [OF h f] show ?thesis by auto
    qed
  qed
  with r same_rest_trans [OF k(1) r(1)] x show ?thesis by (simp add: reads_vetted_def)
qed

lemma client_read_vetted:
  assumes "client_read st k = Inr (st', k')" "session_ok (k_p3 k)" "st \<in> {AUTH, TRANSACTION}"
    and "vetted dbs st (k_p3 k)" "w_users (k_world k) \<in> set dbs"
  shows "vetted dbs st' (k_p3 k') \<and> same_rest k k'"
proof -
  from assms(2) have "buffer_inv (read_buffer (k_p3 k))" by (simp add: session_ok_def)
  from client_read_Inr [OF assms(1) this] show ?thesis
  proof (elim conjE disjE exE)
    assume "st' = ERROR" "k' = k"
    with assms(4) show ?thesis by (simp add: vetted_def)
  next
    fix bs k1 rest b
    assume run: "feed_until (read_byte st) bs (st, k) = Inr ((st', k1), rest)"
      and b: "k' = k1\<lparr>k_p3 := (k_p3 k1)\<lparr>read_buffer := b\<rparr>\<rparr>"
    have "reads_vetted st dbs k (st, k)" using assms(2-4) by (simp add: reads_vetted_def session_ok_def)
    from feed_until_keeps [OF run, of "reads_vetted st dbs k", OF this] read_byte_vetted assms(3,5)
    have "reads_vetted st dbs k (st', k1)" by blast
    with b same_rest_p3 [of k k1] show ?thesis
      by (simp add: reads_vetted_def vetted_def admitted_def nameless_def)
  qed
qed

section \<open>The machine of a session\<close>

definition strangers :: "nat \<Rightarrow> user_db list \<Rightarrow> key \<Rightarrow> bool" where
  "strangers a dbs k \<longleftrightarrow> k_self k = a \<and> (\<forall>b q. b \<noteq> a \<longrightarrow> w_conns (k_world k) b = Some q \<longrightarrow> vetted_session dbs q)"

definition vetted_before :: "nat \<Rightarrow> user_db list \<Rightarrow> nat \<Rightarrow> key \<Rightarrow> bool" where
  "vetted_before a dbs st k \<longleftrightarrow> strangers a dbs k \<and> vetted dbs st (k_p3 k) \<and> w_users (k_world k) \<in> set dbs"

definition vetted_after :: "nat \<Rightarrow> user_db list \<Rightarrow> nat \<Rightarrow> key \<Rightarrow> bool" where
  "vetted_after a dbs st k \<longleftrightarrow> strangers a dbs k \<and> vetted dbs st (k_p3 k)"

lemma vetted_step:
  assumes "vetted_after a dbs st k" "others_stay k k'" "st \<in> inside \<or> st' \<notin> inside"
  shows "vetted_after a dbs st' k'"
  using assms vetted_same [of dbs st "k_p3 k" "k_p3 k'" st'] by (auto simp: vetted_after_def strangers_def others_stay_def)

lemma vetted_before_after: "vetted_before a dbs st k \<Longrightarrow> vetted_after a dbs st k"
  by (simp add: vetted_before_def vetted_after_def)

lemma arrival_others:
  assumes "st < length client_statbl" "call_hook (on_arrival (client_statbl ! st)) st k = Inr k'" "session_ok (k_p3 k)"
  shows "others_stay k k'"
  using table_cases [OF assms(1)]
proof (elim insertE emptyE)
  assume "st = UPDATE"
  with assms(2) have "delete_mails st k = Inr k'" by (simp add: client_statbl_def no_state_def call_hook_def)
  from delete_mails_place [OF this assms(3)] show ?thesis by (simp add: others_stay_def same_place_def untouched_def)
qed (use assms(2) in \<open>auto simp: client_statbl_def no_state_def call_hook_def auth_init_def trans_init_def reading_init_def
    close_connection_def error_function_def register_fd_def others_stay_def Let_def rbind_eq_Inr same_login_def\<close>)

lemma read_vetted:
  assumes "st < length client_statbl" "in_state a st k" "vetted_before a dbs st k"
    and "on_read_ready (client_statbl ! st) = Some h" "h st k = Inr (st', k')"
  shows "vetted_after a dbs st' k'"
proof -
  from assms(2) have ok: "session_ok (k_p3 k)" by (simp add: in_state_def at_home_def)
  from assms(3) have v: "vetted_after a dbs st k" "w_users (k_world k) \<in> set dbs" "vetted dbs st (k_p3 k)"
    by (simp_all add: vetted_before_def vetted_after_def)
  consider "st \<in> {AUTH, TRANSACTION}" "h = client_read" | "st \<in> inside" "h = filesystem_read" | "st \<in> inside" "h = go_to_done"
    using table_cases [OF assms(1)] assms(4) by (elim insertE emptyE) (auto simp: client_statbl_def no_state_def)
  then show ?thesis
  proof cases
    case 1
    with client_read_vetted [of st k st' k' dbs] assms(5) ok v have "vetted dbs st' (k_p3 k')" "same_rest k k'" by auto
    with v(1) show ?thesis by (simp add: vetted_after_def strangers_def same_rest_sel)
  next
    case 2
    with filesystem_read_others [OF _ ok] assms(5) vetted_step [OF v(1)] show ?thesis by blast
  next
    case 3
    with assms(5) vetted_step [OF v(1)] show ?thesis by (auto simp: go_to_done_def)
  qed
qed

lemma write_vetted:
  assumes "st < length client_statbl" "in_state a st k" "vetted_before a dbs st k"
    and "on_write_ready (client_statbl ! st) = Some h" "h st k = Inr (st', k')"
  shows "vetted_after a dbs st' k'"
proof -
  from assms(2) have ok: "session_ok (k_p3 k)" by (simp add: in_state_def at_home_def)
  from assms(3) have v: "vetted_after a dbs st k" by (rule vetted_before_after)
  consider "st \<in> {AUTH, TRANSACTION, UPDATE}" "h = client_write" | "st \<in> inside" "h = mail_write"
    using table_cases [OF assms(1)] assms(4) by (elim insertE emptyE) (auto simp: client_statbl_def no_state_def)
  then show ?thesis
  proof cases
    case 1
    with client_write_place [OF _ ok] assms(5) have "st' \<in> {st, DONE, ERROR}" by blast
    with 1 assms(5) client_write_others vetted_step [OF v] show ?thesis by auto
  next
    case 2
    with assms(5) mail_write_others vetted_step [OF v] show ?thesis by blast
  qed
qed

interpretation lg: event_machine client_statbl AUTH "\<lambda>k. at_home a k \<and> vetted_before a dbs AUTH k"
    "\<lambda>st k. in_state a st k \<and> vetted_before a dbs st k" "\<lambda>st st' k. leaving a st st' k \<and> vetted_after a dbs st' k"
    "\<lambda>st k. in_state a st k \<and> vetted_after a dbs st k" for a :: nat and dbs :: "user_db list"
proof unfold_locales
  fix k k'
  assume k: "at_home a k \<and> vetted_before a dbs AUTH k" "call_hook (on_arrival (client_statbl ! AUTH)) AUTH k = Inr k'"
  from k have "others_stay k k'" by (intro arrival_others [of AUTH]) (simp_all add: at_home_def)
  with k(1) vetted_step [of a dbs AUTH k k' AUTH] vetted_before_after have "vetted_after a dbs AUTH k'" by simp
  moreover have "w_users (k_world k') = w_users (k_world k)"
    using k(2) by (auto simp: client_statbl_def no_state_def call_hook_def auth_init_def Let_def rbind_eq_Inr)
  ultimately have "vetted_before a dbs AUTH k'" using k(1) by (simp add: vetted_before_def vetted_after_def)
  with sm.first_arrival k show "in_state a AUTH k' \<and> vetted_before a dbs AUTH k'" by blast
next
  fix st k h st' k'
  assume "st < length client_statbl" "in_state a st k \<and> vetted_before a dbs st k" "on_read_ready (client_statbl ! st) = Some h"
    "h st k = Inr (st', k')"
  with read_home read_vetted show "leaving a st st' k' \<and> vetted_after a dbs st' k'" by blast
next
  fix st k h st' k'
  assume "st < length client_statbl" "in_state a st k \<and> vetted_before a dbs st k" "on_write_ready (client_statbl ! st) = Some h"
    "h st k = Inr (st', k')"
  with write_home write_vetted show "leaving a st st' k' \<and> vetted_after a dbs st' k'" by blast
next
  fix st k h st' k'
  assume "st < length client_statbl" "on_block_ready (client_statbl ! st) = Some h"
  then show "leaving a st st' k' \<and> vetted_after a dbs st' k'" using table_hooks(2) [of st] by simp
next
  fix st k
  assume "leaving a st st k \<and> vetted_after a dbs st k"
  then show "in_state a st k \<and> vetted_after a dbs st k" by (simp add: leaving_def in_state_def)
next
  fix st st' k k'
  assume "st < length client_statbl" "leaving a st st' k \<and> vetted_after a dbs st' k"
    "call_hook (on_departure (client_statbl ! st)) st k = Inr k'"
  then show "leaving a st st' k' \<and> vetted_after a dbs st' k'" using table_hooks(1) [of st] by (simp add: call_hook_def)
next
  fix st st' k k'
  assume s: "st' < length client_statbl" "leaving a st st' k \<and> vetted_after a dbs st' k"
    "call_hook (on_arrival (client_statbl ! st')) st' k = Inr k'"
  then have "others_stay k k'" by (intro arrival_others [of st']) (simp_all add: leaving_def at_home_def)
  with s arrival_home vetted_step [of a dbs st' k k' st'] show "in_state a st' k' \<and> vetted_after a dbs st' k'" by blast
qed (fact sm.numbered, fact sm.init_lt)

section \<open>Events\<close>

definition all_vetted :: "user_db list \<Rightarrow> world \<Rightarrow> bool" where
  "all_vetted dbs w \<longleftrightarrow> world_ok w \<and> (\<forall>a p. w_conns w a = Some p \<longrightarrow> vetted_session dbs p)"

definition watched_over :: "user_db list \<Rightarrow> world \<Rightarrow> bool" where
  "watched_over dbs w \<longleftrightarrow> all_vetted dbs w \<and> w_users w \<in> set dbs"

lemma all_vetted_shrinks: "all_vetted dbs w \<Longrightarrow> shrinks w w' \<Longrightarrow> world_ok w' \<Longrightarrow> all_vetted dbs w'"
  unfolding all_vetted_def shrinks_def map_le_def by (metis domI)

lemma lg_sound:
  assumes "watched_over dbs w" "w_conns w a = Some p" "k = \<lparr>k_fd = fd, k_self = a, k_io = io, k_p3 = p, k_world = w\<rparr>"
  shows "lg.sound a dbs (pop3_stm (p_stm p)) k"
proof -
  from assms(1,2) have l: "live p" "vetted_session dbs p" "\<And>b q. w_conns w b = Some q \<Longrightarrow> live q"
    "\<And>b q. w_conns w b = Some q \<Longrightarrow> vetted_session dbs q" "selector_inv (w_sel w)" "w_users w \<in> set dbs"
    by (auto simp: watched_over_def all_vetted_def world_ok_def)
  then have h: "at_home a k" "strangers a dbs k" "vetted dbs (case p_stm p of None \<Rightarrow> AUTH | Some st \<Rightarrow> st) (k_p3 k)"
    using assms(3) by (auto simp: at_home_def live_def strangers_def vetted_session_def)
  have "lg.built (pop3_stm (p_stm p))" by (simp add: lg.built_def pop3_stm_def)
  with h l(1,6) assms(3) show ?thesis
    unfolding lg.sound_def
    by (auto simp: pop3_stm_def live_def in_state_def vetted_before_def split: option.splits)
qed

lemma pop3_event_vetted:
  assumes "pop3_event handler io fd data w = Inr w'" "watched_over dbs w"
    and after: "\<And>a stm k ret stm' k'. lg.sound a dbs stm k \<Longrightarrow> handler stm k = Inr (ret, stm', k') \<Longrightarrow>
      lg.built stm' \<and> stm_current stm' = Some ret \<and> ret < length client_statbl \<and> in_state a ret k' \<and> vetted_after a dbs ret k'"
  shows "all_vetted dbs w'"
proof -
  from assms(1) obtain a p where a: "data = Some (Pop3_data a)" "w_conns w a = Some p"
    by (auto simp: pop3_event_def split: option.splits attachment.splits)
  let ?k = "\<lparr>k_fd = fd, k_self = a, k_io = io, k_p3 = p, k_world = w\<rparr>"
  from assms(1) a obtain ret stm k where h: "handler (pop3_stm (p_stm p)) ?k = Inr (ret, stm, k)"
    and w': "(if ret = ERROR \<or> ret = DONE
        then pop3_done a ((k_world k)\<lparr>w_conns := (w_conns (k_world k))(a \<mapsto> (k_p3 k)\<lparr>p_stm := stm_current stm\<rparr>)\<rparr>)
        else Inr ((k_world k)\<lparr>w_conns := (w_conns (k_world k))(a \<mapsto> (k_p3 k)\<lparr>p_stm := stm_current stm\<rparr>)\<rparr>)) = Inr w'"
    by (auto simp: pop3_event_def rbind_eq_Inr Let_def)
  let ?w = "(k_world k)\<lparr>w_conns := (w_conns (k_world k))(a \<mapsto> (k_p3 k)\<lparr>p_stm := stm_current stm\<rparr>)\<rparr>"
  from after [OF lg_sound [OF assms(2) a(2) refl] h] have s: "stm_current stm = Some ret" "ret < length client_statbl"
    "in_state a ret k" "strangers a dbs k" "vetted dbs ret (k_p3 k)" by (simp_all add: vetted_after_def)
  then have "world_ok ?w" by (auto simp: world_ok_def live_def in_state_def at_home_def)
  moreover have "vetted_session dbs ((k_p3 k)\<lparr>p_stm := stm_current stm\<rparr>)"
    using s(1,5) vetted_same [of dbs ret "k_p3 k" "(k_p3 k)\<lparr>p_stm := stm_current stm\<rparr>" ret]
    by (simp add: vetted_session_def)
  ultimately have "all_vetted dbs ?w" using s(4) by (auto simp: all_vetted_def strangers_def)
  with w' show ?thesis
    using pop3_done_closes [of a ?w w'] closes_ok [of ?w w'] all_vetted_shrinks [of dbs ?w w']
    by (auto simp: closes_def all_vetted_def split: if_splits)
qed

lemma pop3_read_vetted: "pop3_read io fd data w = Inr w' \<Longrightarrow> watched_over dbs w \<Longrightarrow> all_vetted dbs w'"
  unfolding pop3_read_def by (erule pop3_event_vetted, assumption) (drule lg.read_after, assumption, blast)

lemma pop3_write_vetted: "pop3_write io fd data w = Inr w' \<Longrightarrow> watched_over dbs w \<Longrightarrow> all_vetted dbs w'"
  unfolding pop3_write_def by (erule pop3_event_vetted, assumption) (drule lg.write_after, assumption, blast)

lemma pop3_block_vetted: "pop3_block io fd data w = Inr w' \<Longrightarrow> watched_over dbs w \<Longrightarrow> all_vetted dbs w'"
  unfolding pop3_block_def by (erule pop3_event_vetted, assumption) (drule lg.block_after, assumption, blast)

lemma closes_vetted: "closes w w' \<Longrightarrow> all_vetted dbs w \<Longrightarrow> all_vetted dbs w'"
  using all_vetted_shrinks [of dbs w w'] closes_ok [of w w'] by (simp add: closes_def all_vetted_def)

lemma pop3_fail_vetted: "pop3_fail fd a w = Inr w' \<Longrightarrow> all_vetted dbs w \<Longrightarrow> all_vetted dbs w'"
  by (drule pop3_fail_closes) (rule closes_vetted)

lemma pop3_passive_accept_vetted:
  assumes "pop3_passive_accept io w = Inr w'" "all_vetted dbs w"
  shows "all_vetted dbs w'"
proof (cases "io_accept io = - 1 \<or> \<not> io_nio io")
  case True
  with assms pop3_fail_vetted show ?thesis by (simp add: pop3_passive_accept_def Let_def)
next
  case False
  with assms(1) obtain a w1 where new: "pop3_new (io_mem io) (io_accept io) w = Inr (a, w1)"
    and rest: "(case a of
          None \<Rightarrow> pop3_fail (io_accept io) None w1
        | Some i \<Rightarrow>
            rbind (register_fd (io_mem io) (io_accept io) Pop3_handler OP_WRITE (Some (Pop3_data i)) w1) (\<lambda>(st, w).
            if st \<noteq> SELECTOR_SUCCESS then pop3_fail (io_accept io) (Some i) w else Inr w)) = Inr w'"
    by (auto simp: pop3_passive_accept_def Let_def rbind_eq_Inr)
  have "all_vetted dbs w1"
  proof (cases "io_mem io")
    case False
    with new assms(2) show ?thesis by (simp add: pop3_new_def)
  next
    case True
    from sm.init_built [OF built_pop3, of None]
    have "stm_init (pop3_stm None) = Inr (pop3_stm None\<lparr>stm_current := None\<rparr>)" .
    with new True have "w_conns w1 = (w_conns w)(w_next w \<mapsto> (pop3_zero (io_accept io))\<lparr>p_stm := None\<rparr>)"
      by (auto simp: pop3_new_def Let_def split: if_splits)
    moreover have "vetted_session dbs ((pop3_zero fd)\<lparr>p_stm := None\<rparr>)" for fd
      by (simp add: vetted_session_def vetted_def nameless_def pop3_zero_def)
    ultimately show ?thesis using assms(2) pop3_new_ok [OF new] by (auto simp: all_vetted_def)
  qed
  show ?thesis
  proof (cases a)
    case None
    with rest show ?thesis by (simp add: pop3_fail_def Let_def)
  next
    case (Some i)
    with rest obtain st w2 where
      2: "register_fd (io_mem io) (io_accept io) Pop3_handler OP_WRITE (Some (Pop3_data i)) w1 = Inr (st, w2)"
        "(if st \<noteq> SELECTOR_SUCCESS then pop3_fail (io_accept io) (Some i) w2 else Inr w2) = Inr w'"
      by (auto simp: rbind_eq_Inr)
    from register_place [OF 2(1)] register_fd_ok [OF 2(1)] \<open>all_vetted dbs w1\<close> have "all_vetted dbs w2"
      by (simp add: all_vetted_def)
    with 2(2) pop3_fail_vetted show ?thesis by (auto split: if_splits)
  qed
qed

text \<open>The monitor frees no session and makes none.\<close>

lemma monitor_passive_accept_shrinks:
  assumes "monitor_passive_accept io w = Inr w'"
  shows "shrinks w w'"
proof -
  have f: "w_conns (monitor_fail fd a w) = w_conns w" for fd a w using monitor_fail_apart [of w fd a] by (simp add: apart_def)
  obtain a w1 where new: "new_admin_connection (io_mem io) (io_accept io) w = (a, w1)"
    by (cases "new_admin_connection (io_mem io) (io_accept io) w")
  then have "w_conns w1 = w_conns w" using new_admin_connection_apart by (simp add: apart_def)
  with assms new f show ?thesis
    by (auto simp: monitor_passive_accept_def Let_def rbind_eq_Inr dest!: register_place intro!: shrinks_same
        split: if_splits option.splits)
qed

lemma monitor_read_shrinks:
  assumes "monitor_read io fd data w = Inr w'"
  shows "shrinks w w'"
proof -
  from assms(1) obtain a d count where a: "admin_at data w = Inr (a, d)" "buffer_write_ptr (ac_rb d) = Inr count"
    by (auto simp: monitor_read_def rbind_eq_Inr)
  let ?bs = "received (io_recv io) count"
  show ?thesis
  proof (cases "?bs = []")
    case True
    with assms(1) a have "monitor_end d w = Inr w'" by (simp add: monitor_read_def)
    from monitor_end_closes [OF this] show ?thesis by (simp add: closes_def)
  next
    case False
    with assms(1) a obtain b state g p b1 where
      c: "monitor_consume (w_globals w) b (ac_parser d) = Inr (state, g, p, b1)"
      and rest: "(let d = d\<lparr>ac_rb := b1, ac_parser := p\<rparr>; w = w\<lparr>w_globals := g\<rparr> in
       if monitor_has_finish state then
         rbind
           (if state \<noteq> monitor_finish then
              rbind (monitor_error_handler p (ac_wb d)) (\<lambda>(r, wb).
              if r = - 1 then Inl Aborted else Inr (w, d\<lparr>ac_wb := wb\<rparr>))
            else monitor_action w d) (\<lambda>(w, d).
         rbind (set_interest_key fd OP_WRITE (put_admin a d w)) (\<lambda>(_, w). Inr w))
       else Inr (put_admin a d w)) = Inr w'"
      by (auto simp: monitor_read_def Let_def rbind_eq_Inr)
    let ?w = "w\<lparr>w_globals := g\<rparr>" and ?d = "d\<lparr>ac_rb := b1, ac_parser := p\<rparr>"
    show ?thesis
    proof (cases "monitor_has_finish state")
      case False
      with rest have "w' = put_admin a ?d ?w" by (simp add: Let_def)
      then show ?thesis by (simp add: shrinks_def put_admin_def)
    next
      case True
      with rest obtain w1 d1 st where
        1: "(if state \<noteq> monitor_finish then
              rbind (monitor_error_handler p (ac_wb ?d)) (\<lambda>(r, wb).
              if r = - 1 then Inl Aborted else Inr (?w, ?d\<lparr>ac_wb := wb\<rparr>))
            else monitor_action ?w ?d) = Inr (w1, d1)"
        and 2: "set_interest_key fd OP_WRITE (put_admin a d1 w1) = Inr (st, w')"
        by (auto simp: Let_def rbind_eq_Inr simp del: fun_upd_apply)
      from 1 have "w_conns w1 = w_conns w"
        using calm_apart [OF monitor_action_calm [THEN conjunct1]] by (auto simp: apart_def rbind_eq_Inr split: if_splits)
      moreover from 2 have "w_conns w' = w_conns w1" by (auto simp: set_interest_key_def put_admin_def rbind_eq_Inr)
      ultimately show ?thesis by (simp add: shrinks_same)
    qed
  qed
qed

lemma monitor_write_shrinks:
  assumes "monitor_write io fd data w = Inr w'"
  shows "shrinks w w'"
proof -
  from assms obtain a d bytes where a: "admin_at data w = Inr (a, d)" "buffer_read_ptr (ac_wb d) = Inr bytes"
    by (auto simp: monitor_write_def rbind_eq_Inr)
  have ends: "shrinks w w'" if "monitor_end d1 w1 = Inr w'" "w_conns w1 = w_conns w" for d1 w1
    using monitor_end_closes [OF that(1)] that(2) by (simp add: closes_def shrinks_def)
  show ?thesis
  proof (cases "io_send io")
    case None
    with assms a ends show ?thesis by (simp add: monitor_write_def)
  next
    case (Some k)
    let ?w = "w\<lparr>w_sent := w_sent w @ [(fd, take (min k (length bytes)) bytes)]\<rparr>"
    from assms a Some obtain wb where
      "(if \<not> buffer_can_read wb then monitor_end d (put_admin a (d\<lparr>ac_wb := wb\<rparr>) ?w)
        else Inr (put_admin a (d\<lparr>ac_wb := wb\<rparr>) ?w)) = Inr w'"
      by (auto simp: monitor_write_def Let_def rbind_eq_Inr)
    with ends show ?thesis by (auto simp: put_admin_def intro: shrinks_same split: if_splits)
  qed
qed

lemma reader_vetted:
  assumes "reader h io fd d w = Inr w'" "watched_over dbs w"
  shows "all_vetted dbs w'"
proof -
  have v: "all_vetted dbs w" using assms(2) by (simp add: watched_over_def)
  have m: "all_vetted dbs w'" if "shrinks w w'"
    using all_vetted_shrinks [OF v that] reader_ok [OF assms(1)] v by (simp add: all_vetted_def)
  show ?thesis
    using assms v m pop3_passive_accept_vetted pop3_read_vetted monitor_passive_accept_shrinks monitor_read_shrinks
    by (cases h) (simp_all add: reader_def)
qed

lemma writer_vetted:
  assumes "writer h = Some f" "f io fd d w = Inr w'" "watched_over dbs w"
  shows "all_vetted dbs w'"
proof -
  have v: "all_vetted dbs w" using assms(3) by (simp add: watched_over_def)
  have m: "all_vetted dbs w'" if "shrinks w w'"
    using all_vetted_shrinks [OF v that] writer_ok [OF assms(1,2)] v by (simp add: all_vetted_def)
  show ?thesis
    using assms v m pop3_write_vetted monitor_write_shrinks by (cases h) (auto simp: writer_def)
qed

lemma blocker_vetted:
  "blocker h = Some f \<Longrightarrow> f io fd d w = Inr w' \<Longrightarrow> watched_over dbs w \<Longrightarrow> all_vetted dbs w'"
  using pop3_block_vetted by (cases h) (auto simp: blocker_def)

section \<open>Runs that remember the lists of users\<close>

text \<open>The lists of users a round left behind, one for each of its callbacks.\<close>

definition user_lists :: "(fd_handler, attachment, world) call list \<Rightarrow> user_db list" where
  "user_lists l = List.map (\<lambda>c. w_users (c_left c)) l"

text \<open>The reachable states again, with the lists of users there have been since the start.\<close>

inductive recorded :: "boot \<Rightarrow> cstring \<Rightarrow> world \<Rightarrow> user_db list \<Rightarrow> bool" for b path where
  starts: "main_setup b (main_start port path) = Inr (Inr m) \<Longrightarrow> recorded b path (m_world m) [w_users (m_world m)]"
| goes_on: "recorded b path w dbs \<Longrightarrow>
    selector_select (logged (server_callbacks an)) r (w_sel w, w, []) = Inr (SELECTOR_SUCCESS, s, w', l) \<Longrightarrow>
    recorded b path (w'\<lparr>w_sel := s\<rparr>) (dbs @ user_lists l)"

lemma reachable_recorded: "reachable b path w \<Longrightarrow> \<exists>dbs. recorded b path w dbs"
proof (induction rule: reachable.induct)
  case (set_up port m)
  then show ?case using starts by blast
next
  case (round w r an w')
  then obtain s w1 where s: "selector_select (server_callbacks an) r (w_sel w, w) = Inr (SELECTOR_SUCCESS, s, w1)"
    "w' = w1\<lparr>w_sel := s\<rparr>" by (auto simp: serve_round_def rbind_eq_Inr)
  from select_forgets [OF s(1), of "[]"] round.IH s(2) goes_on show ?case by blast
qed

lemma logged_callback:
  assumes "note_call op f fd d s wl = Inr (s', wl')"
  shows "\<exists>w w' l c. wl = (w, l) \<and> wl' = (w', l @ [c]) \<and> c_left c = w' \<and> f fd d s w = Inr (s', w')"
  using assms by (cases wl) (auto simp: note_call_def rbind_eq_Inr)

definition remembered :: "user_db list \<Rightarrow> (fd_handler, attachment) fdselector
    \<Rightarrow> world \<times> (fd_handler, attachment, world) call list \<Rightarrow> bool" where
  "remembered dbs s wl \<longleftrightarrow> watched_over (dbs @ user_lists (snd wl)) ((fst wl)\<lparr>w_sel := s\<rparr>)"

lemma note_call_remembers:
  assumes "note_call op f fd d s wl = Inr (s', wl')" "remembered dbs s wl"
    and "\<And>w w' vs. f fd d s w = Inr (s', w') \<Longrightarrow> watched_over vs (w\<lparr>w_sel := s\<rparr>) \<Longrightarrow> all_vetted vs (w'\<lparr>w_sel := s'\<rparr>)"
  shows "remembered dbs s' wl'"
proof -
  from logged_callback [OF assms(1)] obtain w w' l c where
    wl: "wl = (w, l)" "wl' = (w', l @ [c])" "c_left c = w'" "f fd d s w = Inr (s', w')" by blast
  let ?vs = "dbs @ user_lists l"
  from assms(2) wl(1) have "watched_over ?vs (w\<lparr>w_sel := s\<rparr>)" by (simp add: remembered_def)
  from assms(3) [OF wl(4) this] have "all_vetted ?vs (w'\<lparr>w_sel := s'\<rparr>)" .
  then have "all_vetted (?vs @ [w_users w']) (w'\<lparr>w_sel := s'\<rparr>)"
    using vetted_more [of ?vs _ "?vs @ [w_users w']"] by (fastforce simp: all_vetted_def)
  then show ?thesis using wl(2,3) by (simp add: remembered_def watched_over_def user_lists_def)
qed

lemma on_world_vetted:
  assumes "on_world g s w = Inr (s', w')" "watched_over vs (w\<lparr>w_sel := s\<rparr>)"
    and "\<And>w1. g (w\<lparr>w_sel := s\<rparr>) = Inr w1 \<Longrightarrow> watched_over vs (w\<lparr>w_sel := s\<rparr>) \<Longrightarrow> all_vetted vs w1"
  shows "all_vetted vs (w'\<lparr>w_sel := s'\<rparr>)"
  using assms by (auto simp: on_world_def rbind_eq_Inr)

interpretation rm: event_loop "logged (server_callbacks an)" "remembered dbs" for an dbs
proof unfold_locales
  fix h fd d s s' and wl wl' :: "world \<times> (fd_handler, attachment, world) call list"
    and f :: "int \<Rightarrow> attachment option \<Rightarrow> (fd_handler, attachment) fdselector
      \<Rightarrow> world \<times> (fd_handler, attachment, world) call list
      \<Rightarrow> ((fd_handler, attachment) fdselector \<times> world \<times> (fd_handler, attachment, world) call list) res"
  assume run: "f fd d s wl = Inr (s', wl')" and ok: "remembered dbs s wl"
  show "remembered dbs s' wl'" if "handle_read (logged (server_callbacks an)) h = Some f"
  proof -
    from that have "f = note_call OP_READ (\<lambda>fd d. on_world (reader h (a_read an fd) fd d))"
      by (auto simp: logged_def server_callbacks_def)
    with run show ?thesis
      by (intro note_call_remembers [OF _ ok]) (auto elim!: on_world_vetted intro: reader_vetted)
  qed
  show "remembered dbs s' wl'" if w: "handle_write (logged (server_callbacks an)) h = Some f"
  proof -
    from w obtain g where "writer h = Some g" "f = note_call OP_WRITE (\<lambda>fd d. on_world (g (a_write an fd) fd d))"
      by (auto simp: logged_def server_callbacks_def)
    with run show ?thesis
      by (intro note_call_remembers [OF _ ok]) (auto elim!: on_world_vetted intro: writer_vetted)
  qed
  show "remembered dbs s' wl'" if b: "handle_block (logged (server_callbacks an)) h = Some f"
  proof -
    from b obtain g where "blocker h = Some g" "f = note_call OP_NOOP (\<lambda>fd d. on_world (g (a_block an fd) fd d))"
      by (auto simp: logged_def server_callbacks_def)
    with run show ?thesis
      by (intro note_call_remembers [OF _ ok]) (auto elim!: on_world_vetted intro: blocker_vetted)
  qed
next
  fix s :: "(fd_handler, attachment) fdselector" and wl
  assume "remembered dbs s wl"
  then show "remembered dbs (s\<lparr>resolution_jobs := []\<rparr>) wl"
    by (simp add: remembered_def watched_over_def all_vetted_def world_ok_def selector_inv_def table_ok_def items_ok_def interested_def
        registered_def)
qed

lemma main_setup_no_session:
  assumes "main_setup b (main_start port path) = Inr (Inr m)"
  shows "w_conns (m_world m) = Map.empty"
proof -
  let ?P = "\<lambda>m. w_conns (m_world m) = Map.empty"
  have "?P (main_start port path)" by (simp add: main_start_def start_world_def initial_world_def)
  with assms show ?thesis
    unfolding main_setup_def
  proof (rule in_order_keeps, intro ballI allI impI)
    fix f m and m' :: main_state
    assume f: "f \<in> set (main_sockets b @ main_selector b @ main_passives b @ [main_users])" "f m = Inr (Inr m')" "?P m"
    have sock: "?P m'" if "f \<in> set (main_sockets b)"
      using that f(2,3) by (auto simp: main_sockets_def Let_def dest!: stop_if_Inr split: prod.splits)
    have sel: "?P m'" if "f \<in> set (main_selector b)"
      using that f(2,3) by (auto simp: main_selector_def rbind_eq_Inr dest!: stop_if_Inr split: option.splits)
    have reg: "?P m'" if "main_register b fd h msg m = Inr (Inr m')" for fd h msg
      using that f(3) by (auto simp: main_register_def register_fd_def rbind_eq_Inr dest!: stop_if_Inr split: if_splits)
    have users: "?P m'" if u: "main_users m = Inr (Inr m')"
      using u f(3)
      by (auto simp: main_users_def rbind_eq_Inr Let_def simp del: str_Cons dest!: stop_if_Inr add_new_admin_changes)
    from f(1,2) sock sel reg users show "?P m'" by (auto simp: main_passives_def)
  qed
qed

lemma recorded_watched: "recorded b path w dbs \<Longrightarrow> watched_over dbs w"
proof (induction rule: recorded.induct)
  case (starts port m)
  then show ?case
    using main_setup_ok [OF starts] main_setup_no_session [OF starts] by (simp add: watched_over_def all_vetted_def)
next
  case (goes_on w dbs an r s w' l)
  then have "remembered dbs (w_sel w) (w, [])" by (simp add: remembered_def user_lists_def)
  with rm.select_good [OF goes_on.hyps(2)] have "remembered dbs s (w', l)" by blast
  then show ?case by (simp add: remembered_def)
qed

section \<open>Properties\<close>

text \<open>
  C8. Whatever the clients, the administrators and the system do, in every state the server reaches a session
  beyond the login (waiting for commands of a user, reading or sending a mail, or ending) has a name and a
  password that the list of users accepted, at the start or as some callback left it; or it has never given
  a name, and then it has loaded no mails and opened none. The second is the way a PASS without a USER
  goes when its refusal does not fit into the write buffer.
\<close>

theorem only_accepted_users_inside:
  assumes "reachable b path w"
  shows "\<exists>dbs. recorded b path w dbs \<and> (\<forall>a p st. w_conns w a = Some p \<longrightarrow> p_stm p = Some st \<longrightarrow>
      st \<in> {TRANSACTION, READING_MAIL, WRITING_MAIL, UPDATE} \<longrightarrow>
      (\<exists>u pw. cred_user p = Some u \<and> cred_pass p = Some pw \<and> (\<exists>db \<in> set dbs. \<exists>v. validate_user db u pw = Inr v \<and> v \<noteq> 0))
      \<or> cred_user p = None \<and> mails p = None \<and> selected_mail_fd p = 0)"
proof -
  from reachable_recorded [OF assms] obtain dbs where dbs: "recorded b path w dbs" by blast
  have "admitted dbs p \<or> nameless p" if "w_conns w a = Some p" "p_stm p = Some st" "st \<in> inside" for a p st
    using recorded_watched [OF dbs] that by (auto simp: watched_over_def all_vetted_def vetted_session_def vetted_def)
  with dbs show ?thesis unfolding admitted_def accepted_by_def nameless_def inside_def by blast
qed

lemma leads_reachable: "leads w rs w' \<Longrightarrow> reachable b path w \<Longrightarrow> reachable b path w'"
  by (induction w rs w' rule: leads.induct) (auto intro: reachable.round)

theorem only_accepted_users_inside_witness:
  "\<exists>w a p dbs. recorded example_boot INITIAL_PATH w dbs \<and> w_conns w a = Some p \<and> p_stm p = Some TRANSACTION
    \<and> cred_user p = Some (str ''foo'') \<and> (\<exists>pw. cred_pass p = Some pw
        \<and> (\<exists>db \<in> set dbs. \<exists>v. validate_user db (str ''foo'') pw = Inr v \<and> v \<noteq> 0))"
proof -
  from main_setup_run [OF example_boots, of 1110 INITIAL_PATH] obtain M where
    m: "main_setup example_boot (main_start 1110 INITIAL_PATH) = Inr (Inr M)" "listening (sockets 3 4 5 6) (w_sel (m_world M))"
      "users_are (w_users (m_world M)) [(str ''foo'', str ''bar'')]" "head_connection (m_world M) = []" by blast
  let ?w = "m_world M"
  from m(2) have w: "selector_inv (w_sel ?w)" "resolution_jobs (w_sel ?w) = []"
    "registered (w_sel ?w) 3 = Some (passive_item 3 Pop3_passive)" "free_fd 9 (w_sel ?w)"
    by (simp_all add: listening_def sockets_def free_fd_def INVALID_FD_def ITEMS_MAX_SIZE_def)
  have heads: "\<forall>b \<in> set (head_connection ?w). w_conns ?w b \<noteq> None" using m(4) by simp
  from example_visitor have v: "arrives (example_visit 0) 3 9" "takes (example_visit 1) 9 (length WELCOME)" "arg_word (str ''foo'')"
    "arg_word (str ''bar'')" "says (example_visit 2) 9 [command_line ''USER'' (str ''foo''), command_line ''PASS'' (str ''bar'')]"
    "takes (example_visit 3) 9 (length (POSITIVE_MSG @ LOGIN_MSG))" unfolding visitor_def enters_def by blast+
  from greet_prompt [OF w(1,2) heads w(3,4) v(1,2)] obtain rs w1 p1 where
    1: "leads ?w rs w1" "at_prompt 9 (w_next ?w) AUTH w1 p1" "w_users w1 = w_users ?w" by blast
  have "users_are (w_users w1) [(str ''foo'', str ''bar'')]" "(str ''foo'', str ''bar'') \<in> set [(str ''foo'', str ''bar'')]"
    using 1(3) m(3) by simp_all
  from login_rounds [OF 1(2) v(3,4) this v(5,6)] obtain qs w2 p2 where
    2: "leads w1 qs w2" "at_prompt 9 (w_next ?w) TRANSACTION w2 p2" "cred_user p2 = Some (str ''foo'')" by blast
  have "reachable example_boot INITIAL_PATH w2"
    using leads_reachable [OF 2(1) leads_reachable [OF 1(1) reachable.set_up [OF m(1)]]] .
  from only_accepted_users_inside [OF this] obtain dbs where
    d: "recorded example_boot INITIAL_PATH w2 dbs"
      "\<And>a p st. w_conns w2 a = Some p \<Longrightarrow> p_stm p = Some st \<Longrightarrow> st \<in> {TRANSACTION, READING_MAIL, WRITING_MAIL, UPDATE} \<Longrightarrow>
        (\<exists>u pw. cred_user p = Some u \<and> cred_pass p = Some pw \<and> (\<exists>db \<in> set dbs. \<exists>v. validate_user db u pw = Inr v \<and> v \<noteq> 0))
        \<or> cred_user p = None \<and> mails p = None \<and> selected_mail_fd p = 0" by blast
  from 2(2) have p: "w_conns w2 (w_next ?w) = Some p2" "p_stm p2 = Some TRANSACTION" by (simp_all add: at_prompt_def stands_def)
  from d(2) [OF p] 2(3) have "\<exists>pw. cred_pass p2 = Some pw \<and> (\<exists>db \<in> set dbs. \<exists>v. validate_user db (str ''foo'') pw = Inr v \<and> v \<noteq> 0)"
    by auto
  with d(1) p 2(3) show ?thesis by blast
qed

end
