(* ===== verification/Options.thy ===== *)
theory Options
  imports Commands
begin

text \<open>
  What the two programs use of the C library to read their command lines: \<open>strtol\<close> with its end
  pointer, and \<open>getopt\<close> as in the GNU library, which moves the operands behind the options as it
  goes. A program that ends early with \<open>exit(c)\<close> has the result \<open>exit_with c\<close>.
\<close>

section \<open>Programs that may exit\<close>

type_synonym 'a run = "(int + 'a) res"

definition exit_with :: "int \<Rightarrow> 'a run" where
  "exit_with c = Inr (Inl c)"

definition go_on :: "'a \<Rightarrow> 'a run" where
  "go_on x = Inr (Inr x)"

definition xbind :: "'a run \<Rightarrow> ('a \<Rightarrow> 'b run) \<Rightarrow> 'b run" where
  "xbind m f = rbind m (\<lambda>r. case r of Inl c \<Rightarrow> exit_with c | Inr x \<Rightarrow> f x)"

lemma xbind_simps [simp]:
  "xbind (exit_with c) f = exit_with c" "xbind (go_on x) f = f x" "xbind (Inl e) f = Inl e"
  by (simp_all add: xbind_def exit_with_def go_on_def)

lemma run_simps [simp]:
  "go_on x = go_on y \<longleftrightarrow> x = y" "exit_with c \<noteq> go_on x" "go_on x \<noteq> exit_with c" "go_on x \<noteq> Inl e"
  "exit_with c = (exit_with d :: 'a run) \<longleftrightarrow> c = d" "exit_with c \<noteq> Inl e"
  by (simp_all add: exit_with_def go_on_def)

lemma xbind_go_on: "xbind m f = go_on y \<longleftrightarrow> (\<exists>x. m = go_on x \<and> f x = go_on y)"
proof (cases m)
  case (Inr r)
  then show ?thesis by (cases r) (auto simp: xbind_def go_on_def exit_with_def)
qed (simp add: go_on_def)

section \<open>Numbers\<close>

text \<open>Where \<open>strtol\<close> stops: at its argument when there is no digit.\<close>

definition unsigned_part :: "cstring \<Rightarrow> cstring" where
  "unsigned_part s = (case dropWhile isspace s of [] \<Rightarrow> [] | c # cs \<Rightarrow> if c = 45 \<or> c = 43 then cs else c # cs)"

definition strtol_end :: "cstring \<Rightarrow> cstring" where
  "strtol_end s = (let t = unsigned_part s in if takeWhile isdigit t = [] then s else dropWhile isdigit t)"

text \<open>Both programs test the port the same way; the last two tests make that of \<open>errno\<close> superfluous.\<close>

definition port_ok :: "cstring \<Rightarrow> bool" where
  "port_ok s \<longleftrightarrow> unsigned_part s \<noteq> [] \<and> isdigit (hd (unsigned_part s)) \<and> strtol_end s = []
     \<and> \<not> strtol10 s < 0 \<and> \<not> strtol10 s > 65535"

section \<open>\<open>getopt\<close>\<close>

record getopt_state =
  g_argv :: "cstring list"
  optind :: nat
  optarg :: "cstring option"
  nextchar :: cstring
  first_nonopt :: nat
  last_nonopt :: nat

definition getopt_start :: "cstring list \<Rightarrow> getopt_state" where
  "getopt_start argv = \<lparr>g_argv = argv, optind = 1, optarg = None, nextchar = [], first_nonopt = 1, last_nonopt = 1\<rparr>"

definition nonoption :: "cstring \<Rightarrow> bool" where
  "nonoption a \<longleftrightarrow> length a < 2 \<or> hd a \<noteq> 45"

text \<open>\<open>None\<close> for an unknown option, else whether it takes an argument.\<close>

fun option_kind :: "cstring \<Rightarrow> byte \<Rightarrow> bool option" where
  "option_kind [] c = None"
| "option_kind (p # ps) c = (if p = c \<and> c \<noteq> 58 then Some (ps \<noteq> [] \<and> hd ps = 58) else option_kind ps c)"

text \<open>The operands between \<open>first_nonopt\<close> and \<open>last_nonopt\<close> change places with the options after them.\<close>

definition exchange :: "getopt_state \<Rightarrow> getopt_state" where
  "exchange g =
     (let f = first_nonopt g; l = last_nonopt g; n = optind g; argv = g_argv g
      in g\<lparr>g_argv := take f argv @ take (n - l) (drop l argv) @ take (l - f) (drop f argv) @ drop n argv,
           first_nonopt := f + (n - l), last_nonopt := n\<rparr>)"

definition settle :: "getopt_state \<Rightarrow> getopt_state" where
  "settle g =
     (if first_nonopt g \<noteq> last_nonopt g \<and> last_nonopt g \<noteq> optind g then exchange g
      else if last_nonopt g \<noteq> optind g then g\<lparr>first_nonopt := optind g\<rparr> else g)"

definition skip_operands :: "getopt_state \<Rightarrow> getopt_state" where
  "skip_operands g =
     (let n = optind g + length (takeWhile nonoption (drop (optind g) (g_argv g))) in g\<lparr>optind := n, last_nonopt := n\<rparr>)"

text \<open>After \<open>--\<close> everything is an operand.\<close>

definition end_of_options :: "getopt_state \<Rightarrow> getopt_state" where
  "end_of_options g =
     (if optind g < length (g_argv g) \<and> g_argv g ! optind g = [45, 45] then
        (let g = g\<lparr>optind := Suc (optind g)\<rparr>;
             g = (if first_nonopt g \<noteq> last_nonopt g \<and> last_nonopt g \<noteq> optind g then exchange g
                  else if first_nonopt g = last_nonopt g then g\<lparr>first_nonopt := optind g\<rparr> else g)
         in g\<lparr>last_nonopt := length (g_argv g), optind := length (g_argv g)\<rparr>)
      else g)"

definition take_option :: "cstring \<Rightarrow> getopt_state \<Rightarrow> int \<times> getopt_state" where
  "take_option opts g =
     (let c = hd (nextchar g); rest = tl (nextchar g);
          g = g\<lparr>nextchar := rest, optind := (if rest = [] then Suc (optind g) else optind g)\<rparr>
      in case option_kind opts c of
           None \<Rightarrow> (63, g)
         | Some False \<Rightarrow> (uint c, g)
         | Some True \<Rightarrow>
             if rest \<noteq> [] then (uint c, g\<lparr>optarg := Some rest, optind := Suc (optind g), nextchar := []\<rparr>)
             else if optind g \<ge> length (g_argv g) then (if opts \<noteq> [] \<and> hd opts = 58 then 58 else 63, g)
             else (uint c, g\<lparr>optarg := Some (g_argv g ! optind g), optind := Suc (optind g)\<rparr>))"

definition getopt :: "cstring \<Rightarrow> getopt_state \<Rightarrow> int \<times> getopt_state" where
  "getopt opts g =
     (let g = g\<lparr>optarg := None\<rparr>
      in if nextchar g \<noteq> [] then take_option opts g
         else
           let l = min (last_nonopt g) (optind g);
               g = g\<lparr>last_nonopt := l, first_nonopt := min (first_nonopt g) l\<rparr>;
               g = end_of_options (skip_operands (settle g))
           in if optind g \<ge> length (g_argv g) then
                (- 1, g\<lparr>optind := (if first_nonopt g \<noteq> last_nonopt g then first_nonopt g else optind g)\<rparr>)
              else take_option opts (g\<lparr>nextchar := tl (g_argv g ! optind g)\<rparr>))"

section \<open>It comes to an end\<close>

text \<open>What is left to read: the rest of the current argument and the arguments after it.\<close>

definition unread :: "getopt_state \<Rightarrow> nat" where
  "unread g = length (nextchar g)
     + (if nextchar g = [] then sum_list (List.map (Suc \<circ> length) (drop (optind g) (g_argv g)))
        else sum_list (List.map (Suc \<circ> length) (drop (Suc (optind g)) (g_argv g))))"

lemma unread_simps [simp]:
  "unread (g\<lparr>first_nonopt := f\<rparr>) = unread g" "unread (g\<lparr>last_nonopt := l\<rparr>) = unread g" "unread (g\<lparr>optarg := a\<rparr>) = unread g"
  by (simp_all add: unread_def)

lemma drop_sum: "i \<le> j \<Longrightarrow> sum_list (List.map (Suc \<circ> length) (drop j xs)) \<le> sum_list (List.map (Suc \<circ> length) (drop i xs))"
proof (induction xs arbitrary: i j)
  case (Cons x xs)
  from Cons.IH [of 0 "j - 1"] Cons.IH [of "i - 1" "j - 1"] Cons.prems show ?case by (cases i; cases j) auto
qed simp

lemma drop_sum_Suc:
  "i < length xs \<Longrightarrow> sum_list (List.map (Suc \<circ> length) (drop i xs))
    = Suc (length (xs ! i)) + sum_list (List.map (Suc \<circ> length) (drop (Suc i) xs))"
  by (simp add: Cons_nth_drop_Suc [symmetric])

lemma take_option_unread:
  assumes "take_option opts g = (c, g')" "nextchar g \<noteq> []"
  shows "unread g' < unread g"
proof -
  obtain x rest where n: "nextchar g = x # rest" using assms(2) by (cases "nextchar g") auto
  let ?S = "\<lambda>i. sum_list (List.map (Suc \<circ> length) (drop i (g_argv g)))"
  have "?S (Suc (Suc (optind g))) \<le> ?S (Suc (optind g))" by (rule drop_sum) simp
  with assms(1) n show ?thesis
    by (cases rest) (auto simp: take_option_def unread_def Let_def split: option.splits bool.splits if_splits)
qed

lemma exchange_drop:
  assumes "first_nonopt g \<le> last_nonopt g" "last_nonopt g \<le> optind g"
  shows "drop (optind g) (g_argv (exchange g)) = drop (optind g) (g_argv g)"
    and "length (g_argv (exchange g)) = length (g_argv g)"
proof -
  let ?f = "first_nonopt g" and ?l = "last_nonopt g" and ?n = "optind g" and ?argv = "g_argv g"
  let ?a = "take ?f ?argv @ take (?n - ?l) (drop ?l ?argv) @ take (?l - ?f) (drop ?f ?argv)"
  have e: "g_argv (exchange g) = ?a @ drop ?n ?argv" by (simp add: exchange_def Let_def)
  have l: "length ?a = min ?n (length ?argv)" using assms by simp
  show "length (g_argv (exchange g)) = length ?argv" using l unfolding e length_append length_drop by arith
  show "drop ?n (g_argv (exchange g)) = drop ?n ?argv"
  proof (cases "?n \<le> length ?argv")
    case True
    with l have "length ?a = ?n" by simp
    then show ?thesis unfolding e by (metis append_eq_conv_conj)
  next
    case False
    with l have "length (?a @ drop ?n ?argv) \<le> ?n" unfolding length_append by simp
    with False show ?thesis unfolding e by (metis drop_all nat_le_linear)
  qed
qed

lemma exchange_sel [simp]:
  "optind (exchange g) = optind g" "nextchar (exchange g) = nextchar g"
  "first_nonopt (exchange g) = first_nonopt g + (optind g - last_nonopt g)"
  by (simp_all add: exchange_def Let_def)

lemma settle_drop:
  assumes "first_nonopt g \<le> last_nonopt g" "last_nonopt g \<le> optind g"
  shows "drop (optind g) (g_argv (settle g)) = drop (optind g) (g_argv g)" "length (g_argv (settle g)) = length (g_argv g)"
    and "optind (settle g) = optind g" "nextchar (settle g) = nextchar g"
  using exchange_drop [OF assms] by (simp_all add: settle_def)

lemma skip_drop:
  "drop (optind (skip_operands g)) (g_argv (skip_operands g)) = dropWhile nonoption (drop (optind g) (g_argv g))"
  "nextchar (skip_operands g) = nextchar g" "g_argv (skip_operands g) = g_argv g" "optind g \<le> optind (skip_operands g)"
  by (simp_all add: skip_operands_def Let_def dropWhile_eq_drop add.commute)

lemma end_of_options_cases:
  "end_of_options g = g \<or> optind (end_of_options g) \<ge> length (g_argv (end_of_options g))"
  by (simp add: end_of_options_def Let_def)

lemma opened_unread:
  assumes "optind g < length (g_argv g)" "2 \<le> length (g_argv g ! optind g)"
  shows "unread (g\<lparr>nextchar := tl (g_argv g ! optind g)\<rparr>) \<le> sum_list (List.map (Suc \<circ> length) (drop (optind g) (g_argv g)))"
    and "tl (g_argv g ! optind g) \<noteq> []"
proof -
  show "tl (g_argv g ! optind g) \<noteq> []" using assms(2) by (cases "g_argv g ! optind g") auto
  then show "unread (g\<lparr>nextchar := tl (g_argv g ! optind g)\<rparr>)
      \<le> sum_list (List.map (Suc \<circ> length) (drop (optind g) (g_argv g)))"
    unfolding drop_sum_Suc [OF assms(1)] by (simp add: unread_def)
qed

lemma getopt_unread:
  assumes "getopt opts g = (c, g')" "c \<noteq> - 1"
  shows "unread g' < unread g"
proof (cases "nextchar g = []")
  case False
  with assms take_option_unread [of opts "g\<lparr>optarg := None\<rparr>" c g'] show ?thesis by (simp add: getopt_def Let_def)
next
  case True
  let ?l = "min (last_nonopt g) (optind g)"
  let ?g1 = "g\<lparr>optarg := None, last_nonopt := ?l, first_nonopt := min (first_nonopt g) ?l\<rparr>"
  let ?g2 = "settle ?g1"
  let ?g3 = "skip_operands ?g2"
  let ?g4 = "end_of_options ?g3"
  from True have "getopt opts g = (if optind ?g4 \<ge> length (g_argv ?g4) then
        (- 1, ?g4\<lparr>optind := (if first_nonopt ?g4 \<noteq> last_nonopt ?g4 then first_nonopt ?g4 else optind ?g4)\<rparr>)
      else take_option opts (?g4\<lparr>nextchar := tl (g_argv ?g4 ! optind ?g4)\<rparr>))"
    unfolding getopt_def Let_def by simp
  with assms have lt: "optind ?g4 < length (g_argv ?g4)"
    and t: "take_option opts (?g4\<lparr>nextchar := tl (g_argv ?g4 ! optind ?g4)\<rparr>) = (c, g')"
    by (simp_all split: if_splits)
  from end_of_options_cases [of ?g3] lt have g4: "?g4 = ?g3" by auto
  have "first_nonopt ?g1 \<le> last_nonopt ?g1" "last_nonopt ?g1 \<le> optind ?g1" by (auto simp: min_def)
  note s = settle_drop [OF this]
  let ?rest = "drop (optind ?g3) (g_argv ?g3)"
  have rest: "?rest = dropWhile nonoption (drop (optind g) (g_argv g))"
    unfolding skip_drop(1) s(3) s(1) by simp
  have ne: "?rest \<noteq> []" using lt g4 by simp
  have "\<not> nonoption (hd ?rest)" using ne hd_dropWhile unfolding rest by metis
  then have "\<not> nonoption (g_argv ?g3 ! optind ?g3)" using ne by (simp add: hd_drop_conv_nth)
  then have long: "2 \<le> length (g_argv ?g3 ! optind ?g3)" by (simp add: nonoption_def)
  let ?g5 = "?g3\<lparr>nextchar := tl (g_argv ?g3 ! optind ?g3)\<rparr>"
  have lt3: "optind ?g3 < length (g_argv ?g3)" using lt unfolding g4 .
  have ne5: "nextchar ?g5 \<noteq> []" using opened_unread(2) [OF lt3 long] by simp
  have "unread ?g5 \<le> sum_list (List.map (Suc \<circ> length) ?rest)" by (rule opened_unread(1) [OF lt3 long])
  also have "\<dots> \<le> sum_list (List.map (Suc \<circ> length) (drop (optind g) (g_argv g)))"
    unfolding rest dropWhile_eq_drop using drop_sum [of 0 _ "drop (optind g) (g_argv g)"] by simp
  also have "\<dots> = unread g" using True by (simp add: unread_def)
  finally show ?thesis using take_option_unread [OF t [unfolded g4] ne5] by simp
qed

section \<open>Command lines without surprises\<close>

text \<open>Between two arguments, with no operand passed over.\<close>

definition clean :: "getopt_state \<Rightarrow> bool" where
  "clean g \<longleftrightarrow> nextchar g = [] \<and> first_nonopt g = last_nonopt g \<and> last_nonopt g \<le> optind g"

lemma clean_start: "clean (getopt_start argv)" "optind (getopt_start argv) = 1" "g_argv (getopt_start argv) = argv"
  by (simp_all add: clean_def getopt_start_def)

lemma clean_moved: "clean g \<Longrightarrow> optind g \<le> n \<Longrightarrow> clean (g\<lparr>optind := n\<rparr>)"
  by (simp add: clean_def)

lemma option_kind_not_dash: "option_kind opts x = Some b \<Longrightarrow> 45 \<notin> set opts \<Longrightarrow> x \<noteq> 45"
  by (induction opts) (auto split: if_splits)

lemma getopt_word:
  assumes "clean g" "optind g < length (g_argv g)" "g_argv g ! optind g = [45, x]" "x \<noteq> 45"
  shows "\<exists>h. getopt opts g = take_option opts (h\<lparr>nextchar := [x]\<rparr>) \<and> clean h \<and> optind h = optind g \<and> g_argv h = g_argv g"
proof -
  from assms(2,3) have d: "drop (optind g) (g_argv g) = [45, x] # drop (Suc (optind g)) (g_argv g)"
    by (simp add: Cons_nth_drop_Suc [symmetric])
  let ?h = "g\<lparr>optarg := None, last_nonopt := optind g, first_nonopt := optind g\<rparr>"
  have c: "nextchar g = []" "first_nonopt g = last_nonopt g" "last_nonopt g \<le> optind g" using assms(1) by (simp_all add: clean_def)
  have "end_of_options (skip_operands (settle (g\<lparr>optarg := None, last_nonopt := last_nonopt g, first_nonopt := last_nonopt g\<rparr>))) = ?h"
    using assms(2-4) c d
    by (cases "last_nonopt g = optind g") (simp_all add: settle_def skip_operands_def end_of_options_def Let_def nonoption_def)
  then have "getopt opts g = take_option opts (?h\<lparr>nextchar := [x]\<rparr>)"
    using c assms(2,3) by (simp add: getopt_def Let_def min_absorb1)
  moreover have "clean ?h" using c by (simp add: clean_def)
  ultimately show ?thesis by (intro exI [of _ ?h]) simp
qed

lemma getopt_with_arg:
  assumes "clean g" "Suc (optind g) < length (g_argv g)" "g_argv g ! optind g = [45, x]" "x \<noteq> 45"
    and "option_kind opts x = Some True"
  shows "\<exists>g'. getopt opts g = (uint x, g') \<and> clean g' \<and> optind g' = optind g + 2 \<and> g_argv g' = g_argv g
    \<and> optarg g' = Some (g_argv g ! Suc (optind g))"
proof -
  from getopt_word [OF assms(1) _ assms(3,4), of opts] assms(2) obtain h where
    "getopt opts g = take_option opts (h\<lparr>nextchar := [x]\<rparr>)" "clean h" "optind h = optind g" "g_argv h = g_argv g" by auto
  with assms(2,5) show ?thesis by (simp add: take_option_def Let_def clean_def)
qed

lemma getopt_flag:
  assumes "clean g" "optind g < length (g_argv g)" "g_argv g ! optind g = [45, x]" "x \<noteq> 45" "option_kind opts x = Some False"
  shows "\<exists>g'. getopt opts g = (uint x, g') \<and> clean g' \<and> optind g' = Suc (optind g) \<and> g_argv g' = g_argv g"
proof -
  from getopt_word [OF assms(1-4), of opts] obtain h where
    "getopt opts g = take_option opts (h\<lparr>nextchar := [x]\<rparr>)" "clean h" "optind h = optind g" "g_argv h = g_argv g" by auto
  with assms(5) show ?thesis by (simp add: take_option_def Let_def clean_def)
qed

lemma getopt_at_end:
  assumes "clean g" "length (g_argv g) \<le> optind g"
  shows "\<exists>g'. getopt opts g = (- 1, g') \<and> optind g' = optind g \<and> g_argv g' = g_argv g"
proof -
  have c: "nextchar g = []" "first_nonopt g = last_nonopt g" "last_nonopt g \<le> optind g" using assms(1) by (simp_all add: clean_def)
  let ?h = "g\<lparr>optarg := None, last_nonopt := optind g, first_nonopt := optind g\<rparr>"
  have "end_of_options (skip_operands (settle (g\<lparr>optarg := None, last_nonopt := last_nonopt g, first_nonopt := last_nonopt g\<rparr>))) = ?h"
    using c assms(2)
    by (cases "last_nonopt g = optind g") (simp_all add: settle_def skip_operands_def end_of_options_def Let_def)
  then show ?thesis using c assms(2) by (simp add: getopt_def Let_def min_absorb1)
qed

end
