(* ===== verification/Arguments.thy ===== *)
theory Arguments
  imports Options
begin

text \<open>
  The command line of the server (\<^verbatim>\<open>src/server/args.c\<close>): the options for the port and the
  mail directory, parsed into the structure \<open>pop3args\<close>. The directory is an array of 255 bytes.
\<close>

record pop3args =
  addr :: "cstring option"
  port :: u16
  mng_addr :: cstring
  mng_port :: u16
  path :: "byte list"

definition PATH_SIZE :: nat where "PATH_SIZE = 255"

definition INITIAL_DIR :: cstring where "INITIAL_DIR = str ''./directories/''"

text \<open>\<open>port(s)\<close>: the number, or the end of the program.\<close>

definition port_arg :: "cstring \<Rightarrow> u16 run" where
  "port_arg s = (if port_ok s then go_on (word_of_int (strtol10 s)) else exit_with 1)"

definition usage :: "'a run" where
  "usage = exit_with 1"

definition set_path :: "cstring \<Rightarrow> pop3args \<Rightarrow> pop3args" where
  "set_path s args =
     (let len = (if length s > 254 then 254 else length s) in args\<lparr>path := strncpy (path args) s (len + 1)\<rparr>)"

definition default_args :: pop3args where
  "default_args =
     (let zero = \<lparr>addr = None, port = 0, mng_addr = [], mng_port = 0, path = replicate PATH_SIZE 0\<rparr>
      in zero\<lparr>mng_addr := str ''127.0.0.1'', port := 1100,
           path := strncpy (path zero) INITIAL_DIR (length INITIAL_DIR + 1)\<rparr>)"

definition SERVER_OPTIONS :: cstring where "SERVER_OPTIONS = str ''hp:m:''"

function parse_options :: "getopt_state \<Rightarrow> pop3args \<Rightarrow> (pop3args \<times> getopt_state) run" where
  "parse_options g args =
     (case getopt SERVER_OPTIONS g of (c, g') \<Rightarrow>
      if c = - 1 then go_on (args, g')
      else if c = of_char CHR ''h'' then usage
      else if c = of_char CHR ''p'' then
        (case optarg g' of None \<Rightarrow> Inl NullDeref
         | Some s \<Rightarrow> xbind (port_arg s) (\<lambda>p. parse_options g' (args\<lparr>port := p\<rparr>)))
      else if c = of_char CHR ''m'' then
        (case optarg g' of None \<Rightarrow> Inl NullDeref | Some s \<Rightarrow> parse_options g' (set_path s args))
      else exit_with 1)"
  by pat_completeness auto

termination
  by (relation "measure (unread \<circ> fst)") (auto intro: getopt_unread [OF sym])

declare parse_options.simps [simp del]

definition parse_args :: "cstring list \<Rightarrow> pop3args run" where
  "parse_args argv =
     xbind (parse_options (getopt_start argv) default_args) (\<lambda>(args, g).
     if optind g < length (g_argv g) then exit_with 1 else go_on args)"

section \<open>What the options give\<close>

lemma option_kinds:
  "option_kind SERVER_OPTIONS (of_char CHR ''p'') = Some True" "option_kind SERVER_OPTIONS (of_char CHR ''m'') = Some True"
  "option_kind SERVER_OPTIONS (of_char CHR ''h'') = Some False"
  by (simp_all add: SERVER_OPTIONS_def)

lemma parse_port:
  assumes "clean g" "Suc (optind g) < length (g_argv g)" "g_argv g ! optind g = str ''-p''"
  shows "\<exists>g'. parse_options g args
      = xbind (port_arg (g_argv g ! Suc (optind g))) (\<lambda>p. parse_options g' (args\<lparr>port := p\<rparr>))
    \<and> clean g' \<and> optind g' = optind g + 2 \<and> g_argv g' = g_argv g"
  using getopt_with_arg [OF assms(1,2), of 112 SERVER_OPTIONS] assms(3) option_kinds(1)
  by (subst parse_options.simps) auto

lemma parse_maildir:
  assumes "clean g" "Suc (optind g) < length (g_argv g)" "g_argv g ! optind g = str ''-m''"
  shows "\<exists>g'. parse_options g args = parse_options g' (set_path (g_argv g ! Suc (optind g)) args)
    \<and> clean g' \<and> optind g' = optind g + 2 \<and> g_argv g' = g_argv g"
  using getopt_with_arg [OF assms(1,2), of 109 SERVER_OPTIONS] assms(3) option_kinds(2)
  by (subst parse_options.simps) auto

lemma parse_end:
  assumes "clean g" "length (g_argv g) \<le> optind g"
  shows "\<exists>g'. parse_options g args = go_on (args, g') \<and> optind g' = optind g \<and> g_argv g' = g_argv g"
  using getopt_at_end [OF assms, of SERVER_OPTIONS] by (subst parse_options.simps) auto

text \<open>The path is a string in the array when it is shorter than it, and has no end there otherwise.\<close>

lemma length_strncpy: "n \<le> length dst \<Longrightarrow> length (strncpy dst src n) = length dst"
  by (simp add: strncpy_def)

lemma strncpy_string: "length s < n \<Longrightarrow> 0 \<notin> set s \<Longrightarrow> mem_string (strncpy dst s n) = Inr s"
proof -
  assume a: "length s < n" "0 \<notin> set s"
  then obtain r where "n - length s = Suc r" by (metis Suc_diff_Suc)
  with a have "strncpy dst s n = s @ 0 # (replicate r 0 @ drop n dst)" by (simp add: strncpy_def take_replicate)
  with mem_string_append_zero [OF a(2)] show ?thesis by simp
qed

lemma mem_string_none: "0 \<notin> set s \<Longrightarrow> mem_string s = Inl OutOfBounds"
  by (induction s) auto

lemma path_default: "length (path default_args) = 255"
  by (simp add: default_args_def length_strncpy PATH_SIZE_def INITIAL_DIR_def Let_def)

lemma path_set:
  assumes "0 \<notin> set s" "length (path args) = 255"
  shows "mem_string (path (set_path s args)) = (if length s \<le> 254 then Inr s else Inl OutOfBounds)"
proof (cases "length s \<le> 254")
  case True
  then show ?thesis using strncpy_string [of s "length s + 1"] assms(1) by (simp add: set_path_def Let_def)
next
  case False
  then have "path (set_path s args) = take 255 s" using assms(2) by (simp add: set_path_def Let_def strncpy_def)
  moreover have "0 \<notin> set (take 255 s)" using assms(1) by (meson in_set_takeD)
  ultimately show ?thesis using False mem_string_none by simp
qed

lemma port_ok_dec:
  assumes "n \<le> 65535"
  shows "port_ok (dec n) \<and> strtol10 (dec n) = int n"
proof -
  obtain c cs where d: "dec n = c # cs" by (cases "dec n") auto
  have all: "\<forall>x \<in> set (dec n). isdigit x" using dec_digits by blast
  then have "isdigit c" by (simp add: d)
  from isdigit_not [OF this] have u: "unsigned_part (dec n) = dec n" by (simp add: unsigned_part_def d)
  have "takeWhile isdigit (dec n) = dec n" "dropWhile isdigit (dec n) = []" using all by simp_all
  then have "strtol_end (dec n) = []" unfolding strtol_end_def u Let_def by (simp add: d)
  moreover have "strtol10 (dec n) = int n" using assms by (intro strtol10_dec) simp
  ultimately show ?thesis using assms u \<open>isdigit c\<close> by (simp add: port_ok_def d)
qed

section \<open>Both options\<close>

text \<open>
  The server reads its port and its mail directory back from the command line: with both options the
  port is the number given and the path is a string of its array exactly when it has at most 254 bytes; a
  longer path fills the array and leaves no terminator in it.
\<close>

lemma server_arguments:
  assumes "n \<le> 65535" "0 \<notin> set p"
  shows "\<exists>args. parse_args [prog, str ''-p'', dec n, str ''-m'', p] = go_on args \<and> port args = of_nat n
    \<and> mem_string (path args) = (if length p \<le> 254 then Inr p else Inl OutOfBounds)"
proof -
  let ?argv = "[prog, str ''-p'', dec n, str ''-m'', p]"
  let ?args = "default_args\<lparr>port := of_nat n\<rparr>"
  have pa: "port_arg (dec n) = go_on (of_nat n)" using port_ok_dec [OF assms(1)] by (simp add: port_arg_def)
  from parse_port [of "getopt_start ?argv" default_args] clean_start [of ?argv] pa obtain g where
    g: "parse_options (getopt_start ?argv) default_args = parse_options g ?args" "clean g" "optind g = 3" "g_argv g = ?argv"
    by (auto simp del: str_Cons)
  from parse_maildir [of g ?args] g(2-4) obtain g' where
    g': "parse_options g ?args = parse_options g' (set_path p ?args)" "clean g'" "optind g' = 5" "g_argv g' = ?argv"
    by (auto simp del: str_Cons)
  from parse_end [of g' "set_path p ?args"] g'(2-4) obtain g3 where
    "parse_options g' (set_path p ?args) = go_on (set_path p ?args, g3)" "optind g3 = 5" "g_argv g3 = ?argv"
    by (auto simp del: str_Cons)
  with g(1) g'(1) have "parse_args ?argv = go_on (set_path p ?args)" by (simp add: parse_args_def del: str_Cons)
  moreover have "port (set_path p ?args) = of_nat n" by (simp add: set_path_def Let_def)
  ultimately show ?thesis using path_set [OF assms(2), of ?args] path_default by simp
qed

end
