(* ===== verification/Client.thy ===== *)
theory Client
  imports Options Monitor
begin

text \<open>
  The monitor client (\<^verbatim>\<open>src/client.c\<close>, \<^verbatim>\<open>src/client/\<close>): from its command line to requests, from a
  request to the bytes it sends, and from the bytes received to what it prints. The union \<open>data\<close> of a
  request is its 255 bytes of memory: a name at 0, a separator at 5, a password or token at 6, or a
  path at 0. What the network answers to each request is a record \<open>net\<close>.
\<close>

section \<open>Requests\<close>

definition USERNAME_SIZE :: nat where "USERNAME_SIZE = 5"
definition PASSWORD_SIZE :: nat where "PASSWORD_SIZE = 16"
definition MAX_LEN :: nat where "MAX_LEN = 255"
definition MAX_CLIENT_REQUESTS :: nat where "MAX_CLIENT_REQUESTS = 20"

abbreviation (input) get_req :: u32 where "get_req \<equiv> 0"
abbreviation (input) config_req :: u32 where "config_req \<equiv> 1"

abbreviation (input) get_historic_connections :: u32 where "get_historic_connections \<equiv> 0"
abbreviation (input) get_concurrent_connections :: u32 where "get_concurrent_connections \<equiv> 1"
abbreviation (input) get_transferred_bytes :: u32 where "get_transferred_bytes \<equiv> 2"

abbreviation (input) config_maildir :: u32 where "config_maildir \<equiv> 0"
abbreviation (input) add_admin_user :: u32 where "add_admin_user \<equiv> 2"
abbreviation (input) del_admin_user :: u32 where "del_admin_user \<equiv> 3"
abbreviation (input) add_pop3_user :: u32 where "add_pop3_user \<equiv> 4"
abbreviation (input) del_pop3_user :: u32 where "del_pop3_user \<equiv> 5"

record client_request_args =
  req_method :: u32
  target :: u32
  dlen :: u16
  data :: "byte list"

definition no_request :: client_request_args where
  "no_request = \<lparr>req_method = 0, target = 0, dlen = 0, data = replicate MAX_LEN 0\<rparr>"

definition memcpy_at :: "nat \<Rightarrow> byte list \<Rightarrow> byte list \<Rightarrow> byte list res" where
  "memcpy_at i bs mem = (if i + length bs \<le> length mem then Inr (take i mem @ bs @ drop (i + length bs) mem) else Inl OutOfBounds)"

definition copying :: "nat \<Rightarrow> cstring \<Rightarrow> byte list \<Rightarrow> (nat \<times> byte list) run" where
  "copying i s mem = rbind (memcpy_at i s mem) (\<lambda>mem'. go_on (length s, mem'))"

definition token_check :: "cstring \<Rightarrow> nat \<Rightarrow> byte list \<Rightarrow> (nat \<times> byte list) run" where
  "token_check src i mem = (if length src \<noteq> TOKEN_SIZE then exit_with 1 else copying i src mem)"

definition string_check :: "cstring \<Rightarrow> nat \<Rightarrow> nat \<Rightarrow> byte list \<Rightarrow> (nat \<times> byte list) run" where
  "string_check src i max_len mem = (if length src > max_len then exit_with 1 else copying i src mem)"

text \<open>\<open>strtok(src, ":")\<close>, and the string after the first colon once \<open>strtok\<close> has cut its token off.\<close>

definition strtok :: "cstring \<Rightarrow> cstring option" where
  "strtok src = (case dropWhile (\<lambda>c. c = 58) src of [] \<Rightarrow> None | s \<Rightarrow> Some (takeWhile (\<lambda>c. c \<noteq> 58) s))"

definition after_colon :: "cstring \<Rightarrow> cstring" where
  "after_colon src =
     (if hd src = 58 then takeWhile (\<lambda>c. c = 58) (tl src) @ (case strtok src of None \<Rightarrow> [] | Some t \<Rightarrow> t)
      else tl (dropWhile (\<lambda>c. c \<noteq> 58) src))"

definition username_with_pass :: "cstring \<Rightarrow> byte list \<Rightarrow> (nat \<times> byte list) run" where
  "username_with_pass src mem =
     (if 58 \<notin> set src then exit_with 1
      else if hd src = 58 then exit_with 1
      else case strtok src of
        None \<Rightarrow> Inl NullDeref
      | Some username \<Rightarrow>
          xbind (string_check username 0 USERNAME_SIZE mem) (\<lambda>(str_len, mem).
          xbind (string_check (after_colon src) 6 PASSWORD_SIZE (mem[5 := 0])) (\<lambda>(n, mem).
          go_on (str_len + 1 + n, mem))))"

text \<open>A missing name is reported but does not end the program.\<close>

definition username_with_token :: "cstring \<Rightarrow> byte list \<Rightarrow> (nat \<times> byte list) run" where
  "username_with_token src mem =
     (if 58 \<notin> set src then exit_with 1
      else case strtok src of
        None \<Rightarrow> Inl NullDeref
      | Some username \<Rightarrow>
          xbind (string_check username 0 USERNAME_SIZE mem) (\<lambda>(str_len, mem).
          xbind (token_check (after_colon src) 6 (mem[5 := 0])) (\<lambda>(n, mem).
          go_on (str_len + 1 + n, mem))))"

section \<open>The command line\<close>

definition set_get_data :: "client_request_args \<Rightarrow> client_request_args" where
  "set_get_data r = r\<lparr>req_method := get_req, dlen := 1, data := (data r)[0 := 0]\<rparr>"

definition config_with :: "u32 \<Rightarrow> (nat \<times> byte list) run \<Rightarrow> client_request_args \<Rightarrow> client_request_args run" where
  "config_with t m r = xbind m (\<lambda>(n, mem). go_on (r\<lparr>req_method := config_req, target := t, dlen := of_nat n, data := mem\<rparr>))"

definition client_usage :: "'a run" where
  "client_usage = exit_with 1"

text \<open>The switch; an unknown option falls through its default and leaves the request as it was.\<close>

definition request_for :: "int \<Rightarrow> cstring option \<Rightarrow> client_request_args \<Rightarrow> client_request_args run" where
  "request_for c arg r =
     (let with_arg = (\<lambda>f. case arg of None \<Rightarrow> Inl NullDeref | Some s \<Rightarrow> f s)
      in if c = of_char CHR ''h'' then client_usage
         else if c = of_char CHR ''c'' then go_on ((set_get_data r)\<lparr>target := get_concurrent_connections\<rparr>)
         else if c = of_char CHR ''C'' then go_on ((set_get_data r)\<lparr>target := get_historic_connections\<rparr>)
         else if c = of_char CHR ''b'' then go_on ((set_get_data r)\<lparr>target := get_transferred_bytes\<rparr>)
         else if c = of_char CHR ''U'' then
           with_arg (\<lambda>s. config_with add_admin_user (username_with_token s (data r)) r)
         else if c = of_char CHR ''D'' then
           with_arg (\<lambda>s. config_with del_admin_user (string_check s 0 USERNAME_SIZE (data r)) r)
         else if c = of_char CHR ''m'' then
           with_arg (\<lambda>s. config_with config_maildir (string_check s 0 MAX_LEN (data r)) r)
         else if c = of_char CHR ''u'' then
           with_arg (\<lambda>s. config_with add_pop3_user (username_with_pass s (data r)) r)
         else if c = of_char CHR ''d'' then
           with_arg (\<lambda>s. config_with del_pop3_user (string_check s 0 USERNAME_SIZE (data r)) r)
         else go_on r)"

text \<open>\<open>argv[argc]\<close> is null, and there is nothing after it.\<close>

definition argument :: "getopt_state \<Rightarrow> nat \<Rightarrow> cstring run" where
  "argument g i =
     (if i < length (g_argv g) then go_on (g_argv g ! i)
      else if i = length (g_argv g) then Inl NullDeref else Inl OutOfBounds)"

text \<open>\<open>port\<close> and \<open>port_check\<close>; the address family is always that of IPv4.\<close>

definition port_check :: "cstring \<Rightarrow> u16 run" where
  "port_check src = (if port_ok src then go_on (word_of_int (strtol10 src)) else exit_with 1)"

record client_line =
  cl_requests :: "client_request_args list"
  cl_token :: "byte list"
  cl_port :: u16

text \<open>Up to three operands: the token, one that is skipped, the port. The result is where they end.\<close>

definition read_operands :: "getopt_state \<Rightarrow> client_line \<Rightarrow> (nat \<times> client_line) run" where
  "read_operands g l =
     xbind (argument g (optind g)) (\<lambda>a.
     xbind (token_check a 0 (cl_token l)) (\<lambda>(_, token).
     let i = optind g; argc = length (g_argv g); l = l\<lparr>cl_token := token\<rparr>
     in if \<not> i + 1 < argc then go_on (i + 1, l)
        else if \<not> i + 2 < argc then go_on (i + 2, l)
        else xbind (argument g (i + 2)) (\<lambda>p. xbind (port_check p) (\<lambda>port. go_on (i + 3, l\<lparr>cl_port := port\<rparr>)))))"

definition CLIENT_OPTIONS :: cstring where "CLIENT_OPTIONS = str '':hcCbm:u:U:d:D:h''"

fun request_loop :: "nat \<Rightarrow> getopt_state \<Rightarrow> client_line \<Rightarrow> client_line run" where
  "request_loop 0 g l = go_on l"
| "request_loop (Suc n) g l =
     (case getopt CLIENT_OPTIONS g of (c, g) \<Rightarrow>
      if c = - 1 then go_on l
      else
        xbind (request_for c (optarg g) no_request) (\<lambda>r.
        let l = l\<lparr>cl_requests := cl_requests l @ [r]\<rparr>
        in if optind g = length (g_argv g) then exit_with 1
           else
             xbind (read_operands g l) (\<lambda>(i, l).
             if i < length (g_argv g) then exit_with 1 else request_loop n (g\<lparr>optind := i\<rparr>) l)))"

definition client_parse_args :: "cstring list \<Rightarrow> client_line run" where
  "client_parse_args argv =
     request_loop MAX_CLIENT_REQUESTS (getopt_start argv) \<lparr>cl_requests = [], cl_token = replicate TOKEN_SIZE 0, cl_port = 1081\<rparr>"

section \<open>Sending\<close>

abbreviation (input) PROGRAM_VERSION :: byte where "PROGRAM_VERSION \<equiv> 1"
definition BASE_REQUEST_DATA :: nat where "BASE_REQUEST_DATA = 21"
definition FIELD_VERSION_INDEX :: nat where "FIELD_VERSION_INDEX = 0"
definition FIELD_TOKEN_INDEX :: nat where "FIELD_TOKEN_INDEX = 1"
definition FIELD_METHOD_INDEX :: nat where "FIELD_METHOD_INDEX = 17"
definition FIELD_TARGET_INDEX :: nat where "FIELD_TARGET_INDEX = 18"
definition FIELD_DLEN_INDEX :: nat where "FIELD_DLEN_INDEX = 19"
definition FIELD_DATA_INDEX :: nat where "FIELD_DATA_INDEX = 21"

lemmas field_defs = BASE_REQUEST_DATA_def FIELD_VERSION_INDEX_def FIELD_TOKEN_INDEX_def FIELD_METHOD_INDEX_def
  FIELD_TARGET_INDEX_def FIELD_DLEN_INDEX_def FIELD_DATA_INDEX_def

text \<open>A name, its separator and what follows; both of the last are read where the structure has them.\<close>

definition serialize_pair :: "byte list \<Rightarrow> byte list \<Rightarrow> byte list res" where
  "serialize_pair d buffer =
     rbind (mem_string d) (\<lambda>user.
     rbind (memcpy_at FIELD_DATA_INDEX user buffer) (\<lambda>buffer.
     rbind (store_at (FIELD_DATA_INDEX + length user) (d ! 5) buffer) (\<lambda>buffer.
     rbind (mem_string (drop 6 d)) (\<lambda>extra.
     memcpy_at (FIELD_DATA_INDEX + length user + 1) extra buffer))))"

definition serialize_config_data :: "client_request_args \<Rightarrow> byte list \<Rightarrow> byte list res" where
  "serialize_config_data r buffer =
     (if target r = add_admin_user then serialize_pair (data r) buffer
      else if target r = add_pop3_user then serialize_pair (data r) buffer
      else if target r = del_pop3_user \<or> target r = del_admin_user then
        memcpy_at FIELD_DATA_INDEX (take (unat (dlen r)) (data r)) buffer
      else if target r = config_maildir then rbind (mem_string (data r)) (\<lambda>path. memcpy_at FIELD_DATA_INDEX path buffer)
      else Inr buffer)"

definition serialize_request :: "client_request_args \<Rightarrow> byte list \<Rightarrow> byte list \<Rightarrow> byte list res" where
  "serialize_request r token buffer =
     rbind (store_at FIELD_VERSION_INDEX PROGRAM_VERSION buffer) (\<lambda>buffer.
     rbind (memcpy_at FIELD_TOKEN_INDEX (take TOKEN_SIZE token) buffer) (\<lambda>buffer.
     rbind (store_at FIELD_METHOD_INDEX (ucast (req_method r)) buffer) (\<lambda>buffer.
     rbind (memcpy_at FIELD_DLEN_INDEX (htons (dlen r)) buffer) (\<lambda>buffer.
     if req_method r = get_req then
       rbind (memcpy_at FIELD_TARGET_INDEX [ucast (target r)] buffer) (\<lambda>buffer.
       memcpy_at FIELD_DATA_INDEX [data r ! 0] buffer)
     else if req_method r = config_req then
       rbind (memcpy_at FIELD_TARGET_INDEX [ucast (target r)] buffer) (\<lambda>buffer. serialize_config_data r buffer)
     else Inr buffer))))"

section \<open>What the answer prints\<close>

definition ntohl :: "byte list \<Rightarrow> u32" where
  "ntohl bs = of_nat (((unat (bs ! 0) * 256 + unat (bs ! 1)) * 256 + unat (bs ! 2)) * 256 + unat (bs ! 3))"

text \<open>What has been received; a byte of the array that was not is unknown.\<close>

definition received_bytes :: "nat \<Rightarrow> nat \<Rightarrow> cell list \<Rightarrow> byte list res" where
  "received_bytes i n buf =
     (let cells = take n (drop i buf) in if None \<in> set cells then Inl UninitRead else Inr (List.map the cells))"

definition handle_get_ok_status :: "client_request_args \<Rightarrow> cell list \<Rightarrow> cstring list res" where
  "handle_get_ok_status r buf =
     (if target r = get_historic_connections \<or> target r = get_concurrent_connections \<or> target r = get_transferred_bytes then
        rbind (received_bytes 3 4 buf) (\<lambda>bs.
        let n = fmt_u (ntohl bs)
        in Inr [if target r = get_historic_connections then str ''The amount of historic connections is: '' @ n @ [LF]
                else str ''The amount of ''
                  @ str (if target r = get_concurrent_connections then ''concurrent connections'' else ''transferred bytes'')
                  @ str '' is: '' @ n @ [LF]])
      else Inr [])"

definition in_quotes :: "string \<Rightarrow> byte list \<Rightarrow> string \<Rightarrow> cstring list res" where
  "in_quotes a d b = rbind (mem_string d) (\<lambda>s. Inr [str a @ [39] @ s @ [39] @ str b @ [LF]])"

definition handle_config_ok_status :: "client_request_args \<Rightarrow> cstring list res" where
  "handle_config_ok_status r =
     (if target r = config_maildir then in_quotes ''The New Path is: '' (data r) []
      else if target r = add_admin_user then in_quotes ''The admin: '' (data r) '' is now added in the server''
      else if target r = del_admin_user then in_quotes ''The admin: '' (data r) '' is now deleted from the server''
      else if target r = add_pop3_user then in_quotes ''The new user: '' (data r) '' is now added in the server''
      else if target r = del_pop3_user then in_quotes ''The user: '' (data r) '' is now deleted from the server''
      else Inr [])"

definition invalid_data_message :: "u32 \<Rightarrow> string" where
  "invalid_data_message t =
     (if t = config_maildir then ''Error changing the maildir,remember the path has a max lenth!''
      else if t = add_admin_user then ''Error adding the admin, admin and token should be alphanumeric or admin already exist!''
      else if t = del_admin_user then
        ''Error deleting the admin, admin name should be alphanumeric, admin does not exist or is default admin!''
      else if t = add_pop3_user then
        ''Error adding the user, user and password should be alphanumeric or user already exist!''
      else if t = del_pop3_user then ''Error deleting the user, user name should be alphanumeric''
      else ''The data of the request you have sent is incorrect!'')"

definition handle_error_response :: "client_request_args \<Rightarrow> byte \<Rightarrow> cstring list" where
  "handle_error_response r status =
     (if status = 1 then [str ''The version of the request you have sent is incorrect!'' @ [LF]]
      else if status = 2 then [str ''The method of the request you have sent is incorrect!'' @ [LF]]
      else if status = 3 then [str ''The target of the request you have sent is incorrect!'' @ [LF]]
      else if status = 4 then [str (invalid_data_message (target r)) @ [LF]]
      else if status = 5 then [str ''The token of the request you have sent is incorrect!'' @ [LF]]
      else if status = 6 then [str ''The server could not resolve your request!'' @ [LF]]
      else [])"

definition process_response :: "byte \<Rightarrow> client_request_args \<Rightarrow> cell list \<Rightarrow> cstring list res" where
  "process_response c r buf =
     (if c = 0 then (if req_method r = get_req then handle_get_ok_status r buf else handle_config_ok_status r)
      else Inr (handle_error_response r c))"

section \<open>The program\<close>

definition MAX_BYTES_DATA :: nat where "MAX_BYTES_DATA = 65535"
definition BASE_RESPONSE_DATA :: nat where "BASE_RESPONSE_DATA = 3"

text \<open>What the network does for one request; the bytes come in chunks until the server closes.\<close>

record net =
  n_socket :: bool
  n_connect :: bool
  n_send :: bool
  n_recv :: "byte list option list"
  n_close :: bool

text \<open>Every chunk is received at the start of the array.\<close>

fun receive :: "byte list option list \<Rightarrow> cell list \<Rightarrow> cell list res" where
  "receive [] buf = Inr buf"
| "receive (None # chunks) buf = Inl Aborted"
| "receive (Some [] # chunks) buf = Inr buf"
| "receive (Some bs # chunks) buf = receive chunks (List.map Some (take (length buf) bs) @ drop (length bs) buf)"

text \<open>The bytes sent, the lines printed, the return value.\<close>

record client_run =
  c_sent :: "byte list list"
  c_printed :: "cstring list"
  c_return :: int

fun client_requests ::
  "client_request_args list \<Rightarrow> net list \<Rightarrow> byte list \<Rightarrow> byte list \<Rightarrow> cell list \<Rightarrow> client_run \<Rightarrow> client_run res" where
  "client_requests [] nets token write_buf buf out = Inr out"
| "client_requests rs [] token write_buf buf out = Inr (out\<lparr>c_return := 1\<rparr>)"
| "client_requests (r # rs) (n # nets) token write_buf buf out =
     (if \<not> n_socket n \<or> \<not> n_connect n then Inr (out\<lparr>c_return := 1\<rparr>)
      else
        rbind (serialize_request r token write_buf) (\<lambda>wb.
        if \<not> n_send n then Inr (out\<lparr>c_return := 1\<rparr>)
        else
          let out = out\<lparr>c_sent := c_sent out @ [take (BASE_REQUEST_DATA + unat (dlen r)) wb]\<rparr> in
          rbind (receive (n_recv n) buf) (\<lambda>buf.
          rbind (received_bytes 0 1 buf) (\<lambda>c.
          rbind (process_response (hd c) r buf) (\<lambda>lines.
          let out = out\<lparr>c_printed := c_printed out @ lines\<rparr>
          in if \<not> n_close n then Inr (out\<lparr>c_return := 1\<rparr>)
             else
               client_requests rs nets token (replicate (BASE_REQUEST_DATA + MAX_BYTES_DATA) 0)
                 (replicate (BASE_RESPONSE_DATA + MAX_BYTES_DATA) (Some 0)) out)))))"

definition client_main :: "cstring list \<Rightarrow> net list \<Rightarrow> byte list \<Rightarrow> client_run run" where
  "client_main argv nets stack =
     xbind (client_parse_args argv) (\<lambda>l.
     rbind (client_requests (cl_requests l) nets (cl_token l) (take (BASE_REQUEST_DATA + MAX_BYTES_DATA) stack)
       (replicate (BASE_RESPONSE_DATA + MAX_BYTES_DATA) None) \<lparr>c_sent = [], c_printed = [], c_return = 0\<rparr>) go_on)"

section \<open>One request for each run\<close>

lemma take_option_optind: "take_option opts g = (c, g') \<Longrightarrow> optind g \<le> optind g' \<and> g_argv g' = g_argv g \<and> c \<noteq> - 1"
  by (auto simp: take_option_def Let_def split: option.splits bool.splits if_splits)
    (metis uint_ge_0 neg_0_le_iff_le not_one_le_zero)+

lemma getopt_past_end:
  assumes "getopt opts g = (c, g')" "length (g_argv g) \<le> optind g"
  shows "c = - 1 \<or> length (g_argv g') \<le> optind g'"
proof (cases "nextchar g = []")
  case False
  with assms take_option_optind [of opts "g\<lparr>optarg := None\<rparr>" c g'] show ?thesis by (auto simp: getopt_def Let_def)
next
  case True
  let ?l = "min (last_nonopt g) (optind g)"
  let ?g1 = "g\<lparr>optarg := None, last_nonopt := ?l, first_nonopt := min (first_nonopt g) ?l\<rparr>"
  have "first_nonopt ?g1 \<le> last_nonopt ?g1" "last_nonopt ?g1 \<le> optind ?g1" by (auto simp: min_def)
  note s = settle_drop [OF this]
  have "length (g_argv (skip_operands (settle ?g1))) \<le> optind (skip_operands (settle ?g1))"
    using assms(2) s skip_drop(3,4) [of "settle ?g1"] by simp
  then have "optind (end_of_options (skip_operands (settle ?g1))) \<ge> length (g_argv (end_of_options (skip_operands (settle ?g1))))"
    by (simp add: end_of_options_def)
  then have "fst (getopt opts g) = - 1" using True unfolding getopt_def Let_def by simp
  with assms(1) show ?thesis by simp
qed

lemma read_operands_past_end: "length (g_argv g) \<le> optind g \<Longrightarrow> read_operands g l \<noteq> go_on x"
  by (auto simp: read_operands_def argument_def go_on_def)

lemma request_loop_past_end:
  assumes "request_loop n g l = go_on l'" "length (g_argv g) \<le> optind g"
  shows "l' = l"
proof (cases n)
  case (Suc m)
  obtain c g' where g: "getopt CLIENT_OPTIONS g = (c, g')" by (cases "getopt CLIENT_OPTIONS g")
  show ?thesis
  proof (cases "c = - 1")
    case False
    with getopt_past_end [OF g assms(2)] have "length (g_argv g') \<le> optind g'" by simp
    from read_operands_past_end [OF this] assms(1) Suc g False show ?thesis
      by (auto simp: xbind_go_on Let_def split: if_splits)
  qed (use assms Suc g in simp)
qed (use assms in simp)

lemma one_request:
  assumes "request_loop n g l = go_on l'"
  shows "length (cl_requests l') \<le> Suc (length (cl_requests l))"
proof (cases n)
  case (Suc m)
  obtain c g' where g: "getopt CLIENT_OPTIONS g = (c, g')" by (cases "getopt CLIENT_OPTIONS g")
  show ?thesis
  proof (cases "c = - 1")
    case False
    with assms Suc g obtain r i l1 where
      r: "read_operands g' (l\<lparr>cl_requests := cl_requests l @ [r]\<rparr>) = go_on (i, l1)" "\<not> i < length (g_argv g')"
        "request_loop m (g'\<lparr>optind := i\<rparr>) l1 = go_on l'"
      by (auto simp: xbind_go_on Let_def split: if_splits)
    from request_loop_past_end [OF r(3)] r(2) have "l' = l1" by simp
    moreover from r(1) have "cl_requests l1 = cl_requests l @ [r]"
      by (auto simp: read_operands_def xbind_go_on Let_def split: if_splits)
    ultimately show ?thesis by simp
  qed (use assms Suc g in simp)
qed (use assms in simp)

section \<open>From the command line to the server\<close>

lemma user_option: "option_kind CLIENT_OPTIONS (of_char CHR ''u'') = Some True"
  by (simp add: CLIENT_OPTIONS_def)

lemma request_for_user:
  "request_for 117 (Some s) r = config_with add_pop3_user (username_with_pass s (data r)) r"
  by (simp add: request_for_def)

text \<open>A line with one option that takes an argument, and the token.\<close>

lemma parse_one:
  assumes "option_kind CLIENT_OPTIONS x = Some True" "x \<noteq> 45" "request_for (uint x) (Some a) no_request = go_on r"
    and "length tk = 16"
  shows "client_parse_args [prog, [45, x], a, tk] = go_on \<lparr>cl_requests = [r], cl_token = tk, cl_port = 1081\<rparr>"
proof -
  let ?argv = "[prog, [45, x], a, tk]"
  from getopt_with_arg [of "getopt_start ?argv" x CLIENT_OPTIONS] clean_start [of ?argv] assms(1,2) obtain g where
    g: "getopt CLIENT_OPTIONS (getopt_start ?argv) = (uint x, g)" "clean g" "optind g = 3" "g_argv g = ?argv"
      "optarg g = Some a" by auto
  let ?l = "\<lparr>cl_requests = [r], cl_token = replicate TOKEN_SIZE 0, cl_port = 1081\<rparr>"
  have ops: "read_operands g ?l = go_on (4, ?l\<lparr>cl_token := tk\<rparr>)"
    using g assms(4) by (simp add: read_operands_def argument_def token_check_def copying_def memcpy_at_def TOKEN_SIZE_def)
  from clean_moved [OF g(2), of 4] g(3) have "clean (g\<lparr>optind := 4\<rparr>)" by simp
  from getopt_at_end [OF this, of CLIENT_OPTIONS] g(4) obtain g2 where
    g2: "getopt CLIENT_OPTIONS (g\<lparr>optind := 4\<rparr>) = (- 1, g2)" by auto
  have "uint x \<noteq> - 1" using uint_ge_0 [of x] by linarith
  have "request_loop 20 (getopt_start ?argv) (?l\<lparr>cl_requests := []\<rparr>) = go_on (?l\<lparr>cl_token := tk\<rparr>)"
    using g assms(3) ops g2 \<open>uint x \<noteq> - 1\<close> by (simp add: eval_nat_numeral)
  then show ?thesis by (simp add: client_parse_args_def MAX_CLIENT_REQUESTS_def)
qed

lemma split_colon:
  assumes "58 \<notin> set u" "u \<noteq> []"
  shows "hd (u @ 58 # v) \<noteq> 58" "strtok (u @ 58 # v) = Some u" "after_colon (u @ 58 # v) = v" "58 \<in> set (u @ 58 # v)"
proof -
  from assms obtain c cs where u: "u = c # cs" "c \<noteq> 58" by (cases u) auto
  have t: "takeWhile (\<lambda>c. c \<noteq> 58) (u @ 58 # v) = u" "dropWhile (\<lambda>c. c \<noteq> 58) (u @ 58 # v) = 58 # v"
    using assms(1) by (subst takeWhile_append2, auto) (subst dropWhile_append2, auto)
  show "hd (u @ 58 # v) \<noteq> 58" "58 \<in> set (u @ 58 # v)" using u by simp_all
  have "dropWhile (\<lambda>c. c = 58) (u @ 58 # v) = u @ 58 # v" using u by simp
  with t(1) u show "strtok (u @ 58 # v) = Some u" unfolding strtok_def by simp
  show "after_colon (u @ 58 # v) = v" using t(2) u by (simp add: after_colon_def)
qed

text \<open>The memory of a request to add a user.\<close>

definition pair_data :: "cstring \<Rightarrow> cstring \<Rightarrow> byte list" where
  "pair_data u v = u @ replicate (6 - length u) 0 @ v @ replicate (249 - length v) 0"

lemma user_argument:
  assumes "58 \<notin> set u" "u \<noteq> []" "length u \<le> 5" "length v \<le> 16"
  shows "username_with_pass (u @ 58 # v) (data no_request) = go_on (length u + 1 + length v, pair_data u v)"
proof -
  let ?m = "u @ replicate (255 - length u) 0"
  have 1: "memcpy_at 0 u (replicate 255 0) = Inr ?m" using assms(3) by (simp add: memcpy_at_def)
  have 2: "?m[5 := 0] = ?m"
    using assms(3) by (intro nth_equalityI) (auto simp: nth_list_update nth_append)
  have "take 6 ?m = u @ replicate (6 - length u) 0" using assms(3) by (simp add: take_replicate min_def)
  moreover have "drop (6 + length v) ?m = replicate (249 - length v) 0" using assms(3,4) by (simp add: drop_replicate)
  ultimately have 3: "memcpy_at 6 v ?m = Inr (pair_data u v)"
    using assms(3,4) by (simp add: memcpy_at_def pair_data_def)
  show ?thesis
    using split_colon [OF assms(1,2), of v] assms(3,4) 1 2 3
    by (simp add: username_with_pass_def string_check_def copying_def no_request_def MAX_LEN_def USERNAME_SIZE_def
        PASSWORD_SIZE_def)
qed

lemma pair_data_strings:
  assumes "0 \<notin> set u" "0 \<notin> set v" "length u \<le> 5" "length v \<le> 16"
  shows "mem_string (pair_data u v) = Inr u" "mem_string (drop 6 (pair_data u v)) = Inr v" "pair_data u v ! 5 = 0"
proof -
  obtain k where k: "6 - length u = Suc k" using assms(3) by (intro that [of "5 - length u"]) simp
  have "pair_data u v = u @ 0 # (replicate k 0 @ v @ replicate (249 - length v) 0)" by (simp add: pair_data_def k)
  with mem_string_append_zero [OF assms(1)] show "mem_string (pair_data u v) = Inr u" by simp
  obtain j where j: "249 - length v = Suc j" using assms(4) by (intro that [of "248 - length v"]) simp
  have "drop 6 (pair_data u v) = v @ 0 # replicate j 0" using assms(3) by (simp add: pair_data_def j)
  with mem_string_append_zero [OF assms(2)] show "mem_string (drop 6 (pair_data u v)) = Inr v" by simp
  show "pair_data u v ! 5 = 0" using assms(3) by (simp add: pair_data_def nth_append) arith
qed

lemma not_alnum: "\<not> IS_ALNUM 58" "\<not> IS_ALNUM 0"
  by (simp_all add: IS_ALNUM_def)

text \<open>The parts of the array are overwritten one by one.\<close>

lemma memcpy_mid:
  assumes "i = length a" "length b = length bs"
  shows "memcpy_at i bs (a @ b @ c) = Inr (a @ bs @ c)"
  using assms by (simp add: memcpy_at_def)

lemma store_mid: "i = length a \<Longrightarrow> store_at i x (a @ y # c) = Inr (a @ x # c)"
  by simp

lemma split_at: "n \<le> length xs \<Longrightarrow> \<exists>a b. xs = a @ b \<and> length a = n"
  by (metis append_take_drop_id length_take min_absorb2)

lemma length_htons [simp]: "length (htons w) = 2"
  by (simp add: htons_def)

lemma serialize_user:
  assumes "length tk = 16" "0 \<notin> set u" "0 \<notin> set v" "length u \<le> 5" "length v \<le> 16" "65556 \<le> length wb"
    and "n = Suc (length u + length v)" "t \<in> {add_admin_user, add_pop3_user}"
  shows "\<exists>wb'. serialize_request \<lparr>req_method = config_req, target = t, dlen = of_nat n, data = pair_data u v\<rparr> tk wb = Inr wb'
    \<and> take (21 + n) wb' = config_header tk (ucast t) (of_nat n) @ u @ 0 # v"
proof -
  from split_at [of 1 wb] assms(6) obtain x w1 where w1: "wb = x @ w1" "length x = 1" by auto
  from split_at [of 16 w1] assms(6) w1 obtain tk0 w2 where w2: "w1 = tk0 @ w2" "length tk0 = 16" by auto
  from split_at [of 1 w2] assms(6) w1 w2 obtain m w3 where w3: "w2 = m @ w3" "length m = 1" by auto
  from split_at [of 1 w3] assms(6) w1 w2 w3 obtain t0 w4 where w4: "w3 = t0 @ w4" "length t0 = 1" by auto
  from split_at [of 2 w4] assms(6) w1 w2 w3 w4 obtain d w5 where w5: "w4 = d @ w5" "length d = 2" by auto
  have "65535 \<le> length w5" using assms(6) w1 w2 w3 w4 w5 by simp
  with split_at [of "length u" w5] assms(4) obtain u0 w6 where w6: "w5 = u0 @ w6" "length u0 = length u" by auto
  have "65530 \<le> length w6" using \<open>65535 \<le> length w5\<close> w6 assms(4) by simp
  then obtain s w7 where w7: "w6 = s # w7" by (cases w6) auto
  with split_at [of "length v" w7] \<open>65530 \<le> length w6\<close> assms(5) obtain v0 w8 where
    w8: "w7 = v0 @ w8" "length v0 = length v" by auto
  obtain x1 m1 where xm: "x = [x1]" "m = [m1]" using w1(2) w3(2) by (metis One_nat_def length_0_conv length_Suc_conv)
  let ?r = "\<lparr>req_method = config_req, target = t, dlen = of_nat n, data = pair_data u v\<rparr>"
  note str = pair_data_strings [OF assms(2-5)]
  let ?h = "htons (of_nat n)" and ?t = "ucast t :: byte"
  have wb: "wb = [] @ x1 # (tk0 @ m1 # t0 @ d @ u0 @ s # v0 @ w8)" using w1 w2 w3 w4 w5 w6 w7 w8 xm by simp
  have s1: "store_at 0 1 wb = Inr ([1] @ tk0 @ (m1 # t0 @ d @ u0 @ s # v0 @ w8))" unfolding wb by simp
  have s2: "memcpy_at 1 tk ([1] @ tk0 @ (m1 # t0 @ d @ u0 @ s # v0 @ w8)) = Inr ((1 # tk) @ m1 # (t0 @ d @ u0 @ s # v0 @ w8))"
    using memcpy_mid [of 1 "[1]" tk0 tk] w2(2) assms(1) by simp
  have s3: "store_at 17 1 ((1 # tk) @ m1 # (t0 @ d @ u0 @ s # v0 @ w8)) = Inr ((1 # tk @ 1 # t0) @ d @ (u0 @ s # v0 @ w8))"
    using store_mid [of 17 "1 # tk" 1 m1] assms(1) by simp
  have s4: "memcpy_at 19 ?h ((1 # tk @ 1 # t0) @ d @ (u0 @ s # v0 @ w8)) = Inr ((1 # tk @ [1]) @ t0 @ (?h @ u0 @ s # v0 @ w8))"
    using memcpy_mid [of 19 "1 # tk @ 1 # t0" d ?h] assms(1) w4(2) w5(2) by simp
  have s5: "memcpy_at 18 [?t] ((1 # tk @ [1]) @ t0 @ (?h @ u0 @ s # v0 @ w8)) = Inr ((1 # tk @ [1, ?t] @ ?h) @ u0 @ (s # v0 @ w8))"
    using memcpy_mid [of 18 "1 # tk @ [1]" t0 "[?t]"] assms(1) w4(2) by simp
  have s6: "memcpy_at 21 u ((1 # tk @ [1, ?t] @ ?h) @ u0 @ (s # v0 @ w8)) = Inr ((1 # tk @ [1, ?t] @ ?h @ u) @ s # (v0 @ w8))"
    using memcpy_mid [of 21 "1 # tk @ [1, ?t] @ ?h" u0 u] assms(1) w6(2) by simp
  have s7: "store_at (21 + length u) 0 ((1 # tk @ [1, ?t] @ ?h @ u) @ s # (v0 @ w8))
      = Inr ((1 # tk @ [1, ?t] @ ?h @ u @ [0]) @ v0 @ w8)"
    using store_mid [of "21 + length u" "1 # tk @ [1, ?t] @ ?h @ u" 0 s] assms(1) by simp
  have s8: "memcpy_at (21 + length u + 1) v ((1 # tk @ [1, ?t] @ ?h @ u @ [0]) @ v0 @ w8)
      = Inr ((1 # tk @ [1, ?t] @ ?h @ u @ [0]) @ v @ w8)"
    using memcpy_mid [of "21 + length u + 1" "1 # tk @ [1, ?t] @ ?h @ u @ [0]" v0 v] assms(1) w8(2) by simp
  have tk: "take TOKEN_SIZE tk = tk" using assms(1) by (simp add: TOKEN_SIZE_def)
  have "serialize_pair (pair_data u v) ((1 # tk @ [1, ?t] @ ?h) @ u0 @ (s # v0 @ w8))
      = Inr ((1 # tk @ [1, ?t] @ ?h @ u @ [0]) @ v @ w8)"
    unfolding serialize_pair_def str field_defs s6 s7 s8 rbind_Inr by (rule refl)
  moreover have "serialize_config_data ?r X = serialize_pair (pair_data u v) X" for X
    using assms(8) by (auto simp: serialize_config_data_def)
  moreover have m: "ucast config_req = (1 :: byte)" "(config_req = get_req) = False" "(config_req = config_req) = True" by simp_all
  ultimately have "serialize_request ?r tk wb = Inr ((1 # tk @ [1, ?t] @ ?h @ u @ [0]) @ v @ w8)"
    by (simp only: serialize_request_def field_defs client_request_args.select_convs tk m s1 s2 s3 s4 s5 rbind_Inr
        if_False if_True)
  moreover have "(1 # tk @ [1, ?t] @ ?h @ u @ [0]) @ v @ w8 = (config_header tk ?t (of_nat n) @ u @ 0 # v) @ w8"
    "length (config_header tk ?t (of_nat n) @ u @ 0 # v) = 21 + n"
    using assms(1,7) by (simp_all add: config_header_def)
  ultimately show ?thesis by (metis append_eq_conv_conj)
qed

lemma ntohl_htonl: "ntohl (htonl n) = n"
proof -
  let ?n = "unat n"
  have n: "?n < 2 ^ 32" using unat_lt [of n] by simp
  have b: "unat (of_nat k :: byte) = k" if "k < 256" for k using that by (simp add: unat_of_nat take_bit_nat_eq_self)
  have hi: "?n div 2 ^ 24 < 256" using n by simp
  have "unat (of_nat (?n div 2 ^ 24) :: byte) = ?n div 2 ^ 24" "unat (of_nat (?n div 2 ^ 16 mod 256) :: byte) = ?n div 2 ^ 16 mod 256"
    "unat (of_nat (?n div 2 ^ 8 mod 256) :: byte) = ?n div 2 ^ 8 mod 256" "unat (of_nat (?n mod 256) :: byte) = ?n mod 256"
    using hi by (simp_all only: b)
  moreover have "((?n div 2 ^ 24 * 256 + ?n div 2 ^ 16 mod 256) * 256 + ?n div 2 ^ 8 mod 256) * 256 + ?n mod 256 = ?n"
  proof -
    have "?n div 2 ^ 8 = ?n div 2 ^ 16 * 256 + ?n div 2 ^ 8 mod 256" "?n div 2 ^ 16 = ?n div 2 ^ 24 * 256 + ?n div 2 ^ 16 mod 256"
      "?n = ?n div 2 ^ 8 * 256 + ?n mod 256"
      using div_mult_mod_eq [of "?n div 2 ^ 8" 256] div_mult_mod_eq [of "?n div 2 ^ 16" 256] div_mult_mod_eq [of ?n 256]
      by (simp_all add: div_mult2_eq [symmetric])
    then show ?thesis by simp
  qed
  ultimately show ?thesis by (simp add: ntohl_def htonl_def)
qed

text \<open>The answer to a query, received at once, and in two pieces.\<close>

lemma receive_one:
  assumes "bs \<noteq> []" "length bs \<le> length buf"
  shows "receive [Some bs] buf = Inr (List.map Some bs @ drop (length bs) buf)"
  using assms by (cases bs) simp_all

lemma known_bytes: "received_bytes 0 (length bs) (List.map Some bs @ rest) = Inr bs"
  by (simp add: received_bytes_def)

lemma number_in_answer:
  "received_bytes 3 4 (List.map Some ([a, b, c] @ htonl n) @ rest) = Inr (htonl n)"
  by (simp add: received_bytes_def htonl_def)

lemma split_response_misread:
  assumes "10 \<le> length buf"
  shows "\<exists>buf'. receive [Some [0, 0, 4], Some (htonl n)] buf = Inr buf'
    \<and> received_bytes 0 1 buf' = Inr [of_nat (unat n div 2 ^ 24)]"
proof -
  obtain b0 b1 b2 b3 rest where "buf = b0 # b1 # b2 # b3 # rest"
    using assms by (cases buf; cases "tl buf"; cases "tl (tl buf)"; cases "tl (tl (tl buf))") auto
  then show ?thesis by (simp add: htonl_def received_bytes_def)
qed

text \<open>Unknown contents of the two arrays of the program.\<close>

definition example_stack :: "byte list" where "example_stack = replicate 65556 7"
definition example_memory :: "cell list" where "example_memory = replicate 65538 None"

lemma example_lengths: "length example_stack = 65556" "length example_memory = 65538"
  unfolding example_stack_def example_memory_def by (rule length_replicate)+

section \<open>Whole runs\<close>

text \<open>What an administrator types to add a user becomes one request and these bytes.\<close>

lemma add_user_line:
  assumes "length tk = 16" "u \<noteq> []" "v \<noteq> []" "\<forall>c \<in> set (u @ v). IS_ALNUM c" "length u \<le> 5" "length v \<le> 16"
    and "65556 \<le> length wb" "n = Suc (length u + length v)"
    and "r = \<lparr>req_method = config_req, target = add_pop3_user, dlen = of_nat n, data = pair_data u v\<rparr>"
  shows "client_parse_args [prog, str ''-u'', u @ 58 # v, tk] = go_on \<lparr>cl_requests = [r], cl_token = tk, cl_port = 1081\<rparr>
    \<and> (\<exists>wb'. serialize_request r tk wb = Inr wb'
      \<and> take (BASE_REQUEST_DATA + unat (dlen r)) wb' = config_header tk monitor_config_add_pop3 (of_nat n) @ u @ 0 # v)"
proof -
  have u: "58 \<notin> set u" "0 \<notin> set u" "0 \<notin> set v" using assms(4) not_alnum by (metis Un_iff set_append)+
  note arg = user_argument [OF u(1) assms(2,5,6)]
  have "request_for 117 (Some (u @ 58 # v)) no_request = go_on r"
    unfolding request_for_user arg by (simp add: config_with_def no_request_def assms(8,9))
  then have "client_parse_args [prog, str ''-u'', u @ 58 # v, tk] = go_on \<lparr>cl_requests = [r], cl_token = tk, cl_port = 1081\<rparr>"
    using parse_one [of 117 "u @ 58 # v" r tk prog] user_option assms(1) by simp
  moreover have "n < 65536" using assms(5,6,8) by simp
  then have "unat (of_nat n :: u16) = n" by (simp add: unat_of_nat take_bit_nat_eq_self)
  ultimately show ?thesis
    using serialize_user [OF assms(1) u(2,3) assms(5-8), of add_pop3_user] by (auto simp: BASE_REQUEST_DATA_def assms(9))
qed

text \<open>The options without an argument ask for a counter.\<close>

lemma parse_flag:
  assumes "option_kind CLIENT_OPTIONS x = Some False" "x \<noteq> 45" "\<And>arg. request_for (uint x) arg no_request = go_on r"
    and "length tk = 16"
  shows "client_parse_args [prog, [45, x], tk] = go_on \<lparr>cl_requests = [r], cl_token = tk, cl_port = 1081\<rparr>"
proof -
  let ?argv = "[prog, [45, x], tk]"
  from getopt_flag [of "getopt_start ?argv" x CLIENT_OPTIONS] clean_start [of ?argv] assms(1,2) obtain g where
    g: "getopt CLIENT_OPTIONS (getopt_start ?argv) = (uint x, g)" "clean g" "optind g = 2" "g_argv g = ?argv" by auto
  let ?l = "\<lparr>cl_requests = [r], cl_token = replicate TOKEN_SIZE 0, cl_port = 1081\<rparr>"
  have ops: "read_operands g ?l = go_on (3, ?l\<lparr>cl_token := tk\<rparr>)"
    using g assms(4) by (simp add: read_operands_def argument_def token_check_def copying_def memcpy_at_def TOKEN_SIZE_def)
  from clean_moved [OF g(2), of 3] g(3) have "clean (g\<lparr>optind := 3\<rparr>)" by simp
  from getopt_at_end [OF this, of CLIENT_OPTIONS] g(4) obtain g2 where
    g2: "getopt CLIENT_OPTIONS (g\<lparr>optind := 3\<rparr>) = (- 1, g2)" by auto
  have "uint x \<noteq> - 1" using uint_ge_0 [of x] by linarith
  have "request_loop 20 (getopt_start ?argv) (?l\<lparr>cl_requests := []\<rparr>) = go_on (?l\<lparr>cl_token := tk\<rparr>)"
    using g assms(3) ops g2 \<open>uint x \<noteq> - 1\<close> by (simp add: eval_nat_numeral)
  then show ?thesis by (simp add: client_parse_args_def MAX_CLIENT_REQUESTS_def)
qed

definition counters :: "(byte \<times> u32 \<times> string) set" where
  "counters = {(of_char CHR ''C'', get_historic_connections, ''historic connections''),
     (of_char CHR ''c'', get_concurrent_connections, ''concurrent connections''),
     (of_char CHR ''b'', get_transferred_bytes, ''transferred bytes'')}"

definition query_request :: "u32 \<Rightarrow> client_request_args" where
  "query_request t = \<lparr>req_method = get_req, target = t, dlen = 1, data = replicate MAX_LEN 0\<rparr>"

lemma zero_data: "(replicate MAX_LEN (0 :: byte))[0 := 0] = replicate MAX_LEN 0" "replicate MAX_LEN (0 :: byte) ! 0 = 0"
  by (simp_all add: MAX_LEN_def list_update_same_conv)

lemma query_line:
  assumes "(x, t, name) \<in> counters" "length tk = 16"
  shows "client_parse_args [prog, [45, x], tk] = go_on \<lparr>cl_requests = [query_request t], cl_token = tk, cl_port = 1081\<rparr>"
proof -
  have k: "option_kind CLIENT_OPTIONS 67 = Some False" "option_kind CLIENT_OPTIONS 99 = Some False"
    "option_kind CLIENT_OPTIONS 98 = Some False" by (simp_all add: CLIENT_OPTIONS_def)
  have "request_for 67 arg no_request = go_on (query_request 0)" "request_for 99 arg no_request = go_on (query_request 1)"
    "request_for 98 arg no_request = go_on (query_request 2)" for arg
    by (simp_all add: request_for_def set_get_data_def no_request_def query_request_def zero_data)
  with k assms show ?thesis by (auto simp: counters_def intro!: parse_flag)
qed

lemma serialize_query:
  assumes "length tk = 16" "22 \<le> length wb"
  shows "\<exists>wb'. serialize_request (query_request t) tk wb = Inr wb'
    \<and> take (BASE_REQUEST_DATA + unat (dlen (query_request t))) wb' = 1 # tk @ [0, ucast t] @ [0, 1, 0]"
proof -
  from split_at [of 1 wb] assms(2) obtain x w1 where w1: "wb = x @ w1" "length x = 1" by auto
  from split_at [of 16 w1] assms(2) w1 obtain tk0 w2 where w2: "w1 = tk0 @ w2" "length tk0 = 16" by auto
  from w1 w2 assms(2) have "5 \<le> length w2" by simp
  then obtain m t0 h l z w3 where w3: "w2 = m # t0 # h # l # z # w3"
    by (cases w2; cases "tl w2"; cases "tl (tl w2)"; cases "tl (tl (tl w2))"; cases "tl (tl (tl (tl w2)))") auto
  obtain x1 where x: "x = [x1]" using w1(2) by (metis One_nat_def length_0_conv length_Suc_conv)
  have wb: "wb = [] @ x1 # (tk0 @ m # t0 # h # l # z # w3)" using w1 w2 w3 x by simp
  have ht: "htons 1 = [0, 1]" by (simp add: htons_def)
  have tk: "take TOKEN_SIZE tk = tk" using assms(1) by (simp add: TOKEN_SIZE_def)
  have s1: "store_at 0 1 wb = Inr ([1] @ tk0 @ (m # t0 # h # l # z # w3))" unfolding wb by simp
  have s2: "memcpy_at 1 tk ([1] @ tk0 @ (m # t0 # h # l # z # w3)) = Inr ((1 # tk) @ m # (t0 # h # l # z # w3))"
    using memcpy_mid [of 1 "[1]" tk0 tk] w2(2) assms(1) by simp
  have s3: "store_at 17 0 ((1 # tk) @ m # (t0 # h # l # z # w3)) = Inr ((1 # tk @ [0, t0]) @ [h, l] @ (z # w3))"
    using store_mid [of 17 "1 # tk" 0 m] assms(1) by simp
  have s4: "memcpy_at 19 [0, 1] ((1 # tk @ [0, t0]) @ [h, l] @ (z # w3)) = Inr ((1 # tk @ [0]) @ [t0] @ (0 # 1 # z # w3))"
    using memcpy_mid [of 19 "1 # tk @ [0, t0]" "[h, l]" "[0, 1]"] assms(1) by simp
  have s5: "memcpy_at 18 [ucast t] ((1 # tk @ [0]) @ [t0] @ (0 # 1 # z # w3)) = Inr ((1 # tk @ [0, ucast t, 0, 1]) @ [z] @ w3)"
    using memcpy_mid [of 18 "1 # tk @ [0]" "[t0]" "[ucast t]"] assms(1) by simp
  have s6: "memcpy_at 21 [0] ((1 # tk @ [0, ucast t, 0, 1]) @ [z] @ w3) = Inr ((1 # tk @ [0, ucast t] @ [0, 1, 0]) @ w3)"
    using memcpy_mid [of 21 "1 # tk @ [0, ucast t, 0, 1]" "[z]" "[0]"] assms(1) by simp
  have "serialize_request (query_request t) tk wb = Inr ((1 # tk @ [0, ucast t] @ [0, 1, 0]) @ w3)"
    unfolding serialize_request_def query_request_def field_defs
    by (simp only: client_request_args.select_convs tk ht zero_data s1 s2 s3 s4 s5 s6 rbind_Inr if_True simp_thms ucast_0)
  moreover have "length (1 # tk @ [0, ucast t] @ [0, 1, 0 :: byte]) = 22" using assms(1) by simp
  then have "take 22 ((1 # tk @ [0, ucast t] @ [0, 1, 0]) @ w3) = 1 # tk @ [0, ucast t] @ [0, 1, 0]"
    by (metis append_eq_conv_conj)
  ultimately show ?thesis by (simp add: BASE_REQUEST_DATA_def query_request_def)
qed

text \<open>The client prints, in decimal, the 32 bits the server put on the wire.\<close>

lemma counter_is_printed:
  assumes "(x, t, name) \<in> counters" "7 \<le> length buf"
  shows "\<exists>buf'. receive [Some ([0, 0, 4] @ htonl n)] buf = Inr buf' \<and> received_bytes 0 1 buf' = Inr [0]
    \<and> process_response 0 (query_request t) buf' = Inr [str ''The amount of '' @ str name @ str '' is: '' @ fmt_u n @ [LF]]"
proof -
  let ?bs = "[0, 0, 4] @ htonl n"
  let ?buf = "List.map Some ?bs @ drop (length ?bs) buf"
  have "length ?bs = 7" by (simp add: htonl_def)
  with assms(2) have "receive [Some ?bs] buf = Inr ?buf" by (intro receive_one) simp_all
  moreover have "received_bytes 0 1 ?buf = Inr [0]" by (simp add: received_bytes_def)
  moreover have "process_response 0 (query_request t) ?buf
      = Inr [str ''The amount of '' @ str name @ str '' is: '' @ fmt_u n @ [LF]]"
    using number_in_answer [of 0 0 4 n "drop (length ?bs) buf"] assms(1)
    by (auto simp: counters_def query_request_def process_response_def handle_get_ok_status_def Let_def ntohl_htonl)
  ultimately show ?thesis by blast
qed

text \<open>What it prints when the server has added the user, and when it has refused.\<close>

definition added_line :: "cstring \<Rightarrow> cstring" where
  "added_line u = str ''The new user: '' @ [39] @ u @ [39] @ str '' is now added in the server'' @ [LF]"

definition refused_line :: cstring where
  "refused_line = str ''Error adding the user, user and password should be alphanumeric or user already exist!'' @ [LF]"

lemma answer_is_printed:
  assumes "0 \<notin> set u" "0 \<notin> set v" "length u \<le> 5" "length v \<le> 16" "4 \<le> length buf"
    and "target r = add_pop3_user" "req_method r = config_req" "data r = pair_data u v" "st \<in> {0, 4}"
  shows "\<exists>buf'. receive [Some [st, 0, 1, 0]] buf = Inr buf' \<and> received_bytes 0 1 buf' = Inr [st]
    \<and> process_response st r buf' = Inr [if st = 0 then added_line u else refused_line]"
proof -
  have "receive [Some [st, 0, 1, 0]] buf = Inr (List.map Some [st, 0, 1, 0] @ drop 4 buf)"
    using receive_one [of "[st, 0, 1, 0]" buf] assms(5) by (simp add: eval_nat_numeral)
  moreover have "received_bytes 0 1 (List.map Some [st, 0, 1, 0] @ drop 4 buf) = Inr [st]" by (simp add: received_bytes_def)
  moreover have "process_response st r x = Inr [if st = 0 then added_line u else refused_line]" for x
    using pair_data_strings(1) [OF assms(1-4)] assms(6-9)
    by (auto simp: process_response_def handle_config_ok_status_def in_quotes_def added_line_def handle_error_response_def
        invalid_data_message_def refused_line_def simp del: str_Cons)
  ultimately show ?thesis by blast
qed

end
