(* ===== verification/MailLexer.thy ===== *)
theory MailLexer
  imports Parser
begin

text \<open>
  The lexer for mails of \<^verbatim>\<open>src/server/mail_tokenizer.c\<close>: a table for the engine of \<open>Parser\<close>, meant to
  find the line with a single dot. No transition has an action. The sixth state has no transitions of
  its own: its entry in the array of states is never written, so here the list of states ends before it.
\<close>

abbreviation (input) M_NEW_LINE :: nat where "M_NEW_LINE \<equiv> 0"
abbreviation (input) M_DOT :: nat where "M_DOT \<equiv> 1"
abbreviation (input) M_DOT_CR :: nat where "M_DOT_CR \<equiv> 2"
abbreviation (input) M_BYTE :: nat where "M_BYTE \<equiv> 3"
abbreviation (input) M_CR :: nat where "M_CR \<equiv> 4"
abbreviation (input) M_FIN :: nat where "M_FIN \<equiv> 5"

definition goes :: "nat \<Rightarrow> nat \<Rightarrow> transition" where
  "goes w d = \<lparr>t_when = w, t_dest = d, t_act1 = None\<rparr>"

definition create_mail_parser :: parser where
  "create_mail_parser = parser_init
   \<lparr>states_count = 6,
    d_states =
     [[goes 46 M_DOT, goes ANY M_BYTE],
      [goes 13 M_DOT_CR, goes ANY M_BYTE],
      [goes 10 M_FIN, goes ANY M_BYTE],
      [goes ANY M_BYTE, goes 13 M_CR],
      [goes ANY M_BYTE, goes 10 M_NEW_LINE]],
    start_state = M_NEW_LINE\<rparr>"

section \<open>What it recognises\<close>

text \<open>The state the lexer is in after some bytes: the catch-all transition of \<open>BYTE\<close> comes first.\<close>

definition mail_state :: "byte list \<Rightarrow> nat" where
  "mail_state bs =
     (if bs = [] then M_NEW_LINE else if bs = [DOT] then M_DOT else if bs = [DOT, CR] then M_DOT_CR
      else if bs = [DOT, CR, LF] then M_FIN else M_BYTE)"

definition in_state :: "nat \<Rightarrow> parser" where
  "in_state st = create_mail_parser\<lparr>p_state := st\<rparr>"

lemma matches_goes: "matches (goes w d) c \<longleftrightarrow> (if w \<le> 255 then unat c = w else w = ANY)"
  by (simp add: matches_def goes_def)

lemma unat_is: "unat (c :: byte) = 46 \<longleftrightarrow> c = DOT" "unat c = 13 \<longleftrightarrow> c = CR" "unat c = 10 \<longleftrightarrow> c = LF"
  by (simp_all add: word_unat_eq_iff)

lemma mail_feed:
  "parser_feed (in_state M_NEW_LINE) c = Inr (in_state (if c = DOT then M_DOT else M_BYTE))"
  "parser_feed (in_state M_DOT) c = Inr (in_state (if c = CR then M_DOT_CR else M_BYTE))"
  "parser_feed (in_state M_DOT_CR) c = Inr (in_state (if c = LF then M_FIN else M_BYTE))"
  "parser_feed (in_state M_BYTE) c = Inr (in_state M_BYTE)"
  "parser_feed (in_state M_FIN) c = Inl OutOfBounds"
  by (simp_all add: in_state_def create_mail_parser_def parser_init_def parser_feed_def matches_goes unat_is ANY_def)
    (simp_all add: goes_def)

lemma mail_byte_stays: "feed_all (in_state M_BYTE) bs = Inr (in_state M_BYTE)"
  by (induction bs) (simp_all add: mail_feed)

lemma mail_feed_fin: "bs \<noteq> [] \<Longrightarrow> feed_all (in_state M_FIN) bs = Inl OutOfBounds"
  by (cases bs) (simp_all add: mail_feed)

section \<open>Properties\<close>

text \<open>
  C40. The lexer is equivalent to one that looks at the first three bytes only: it finds the end of a mail
  when the mail is nothing but the terminator, reads beyond its table on any byte after that, and after
  any other first bytes never finds an end again, whatever follows.
\<close>

theorem mail_lexer_looks_at_three_bytes:
  "feed_all create_mail_parser bs =
     (if take 3 bs = [DOT, CR, LF] \<and> bs \<noteq> [DOT, CR, LF] then Inl OutOfBounds
      else Inr (create_mail_parser\<lparr>p_state := mail_state bs\<rparr>))"
proof -
  have start: "create_mail_parser = in_state M_NEW_LINE"
    by (simp add: in_state_def create_mail_parser_def parser_init_def)
  note feed = mail_feed mail_feed(2) [unfolded One_nat_def] mail_byte_stays mail_feed_fin mail_state_def in_state_def [symmetric]
  consider "bs = []" | a where "bs = [a]" | a b where "bs = [a, b]" | a b c rest where "bs = a # b # c # rest"
    by (metis neq_Nil_conv)
  then show ?thesis
  proof cases
    case (4 a b c rest)
    then show ?thesis unfolding in_state_def [symmetric] unfolding start by (cases rest) (simp_all add: feed)
  qed (unfold in_state_def [symmetric], unfold start, simp_all add: feed)
qed

end
