(* ===== verification/Hello.thy ===== *)
theory Hello
  imports Buffer
begin

text \<open>
  The parser of the greeting of SOCKS version 5 (\<^verbatim>\<open>src/server/hello.c\<close>) and the reply to it. The callback
  for each method is a function on the data its user keeps in the parser.
\<close>

section \<open>The parser\<close>

datatype hello_state = hello_version | hello_nmethods | hello_methods | hello_done | hello_error_unsupported_version

record 'd hello_parser =
  on_authentication_method :: "('d \<Rightarrow> byte \<Rightarrow> 'd) option"
  h_data :: 'd
  h_state :: hello_state
  h_remaining :: byte

definition hello_parser_init :: "'d hello_parser \<Rightarrow> 'd hello_parser" where
  "hello_parser_init p = p\<lparr>h_state := hello_version, h_remaining := 0\<rparr>"

definition hello_parser_feed :: "'d hello_parser \<Rightarrow> byte \<Rightarrow> 'd hello_parser" where
  "hello_parser_feed p b =
     (case h_state p of
       hello_version \<Rightarrow> p\<lparr>h_state := (if b = 5 then hello_nmethods else hello_error_unsupported_version)\<rparr>
     | hello_nmethods \<Rightarrow>
         let p = p\<lparr>h_remaining := b, h_state := hello_methods\<rparr>
         in if h_remaining p \<le> 0 then p\<lparr>h_state := hello_done\<rparr> else p
     | hello_methods \<Rightarrow>
         let p = (case on_authentication_method p of None \<Rightarrow> p | Some f \<Rightarrow> p\<lparr>h_data := f (h_data p) b\<rparr>);
             p = p\<lparr>h_remaining := h_remaining p - 1\<rparr>
         in if h_remaining p \<le> 0 then p\<lparr>h_state := hello_done\<rparr> else p
     | _ \<Rightarrow> p)"

text \<open>The second result is what is stored through \<open>errored\<close>.\<close>

definition hello_is_done :: "hello_state \<Rightarrow> bool \<Rightarrow> bool \<times> bool" where
  "hello_is_done st errored =
     (case st of hello_error_unsupported_version \<Rightarrow> (True, True) | hello_done \<Rightarrow> (True, errored) | _ \<Rightarrow> (False, errored))"

definition hello_error :: "'d hello_parser \<Rightarrow> string" where
  "hello_error p = (case h_state p of hello_error_unsupported_version \<Rightarrow> ''unsupported version'' | _ \<Rightarrow> '''')"

definition hello_parser_close :: "'d hello_parser \<Rightarrow> 'd hello_parser" where
  "hello_parser_close p = p"

definition hello_step :: "byte \<Rightarrow> 'd hello_parser \<times> bool \<Rightarrow> (('d hello_parser \<times> bool) \<times> bool) res" where
  "hello_step c = (\<lambda>(p, errored).
     let p = hello_parser_feed p c; (fin, errored) = hello_is_done (h_state p) errored in Inr ((p, errored), fin))"

definition hello_consume :: "buffer \<Rightarrow> 'd hello_parser \<Rightarrow> bool \<Rightarrow> (hello_state \<times> 'd hello_parser \<times> bool \<times> buffer) res" where
  "hello_consume b p errored =
     rbind (consume_buffer hello_step b (p, errored)) (\<lambda>((p, errored), b). Inr (h_state p, p, errored, b))"

definition hello_marshall :: "buffer \<Rightarrow> byte \<Rightarrow> (int \<times> buffer) res" where
  "hello_marshall b m =
     rbind (buffer_write_ptr b) (\<lambda>n.
     if n < 2 then Inr (- 1, b)
     else rbind (buffer_fill b [5, m]) (\<lambda>b. rbind (buffer_write_adv b 2) (\<lambda>b. Inr (2, b))))"

section \<open>What is read and written\<close>

definition heard :: "('d \<Rightarrow> byte \<Rightarrow> 'd) option \<Rightarrow> 'd \<Rightarrow> byte list \<Rightarrow> 'd" where
  "heard f d ms = (case f of None \<Rightarrow> d | Some f \<Rightarrow> foldl f d ms)"

lemma hello_methods_run:
  assumes "h_state p = hello_methods" "unat (h_remaining p) = length ms" "ms \<noteq> []"
  shows "feed_until hello_step (ms @ rest) (p, err)
    = Inr ((p\<lparr>h_data := heard (on_authentication_method p) (h_data p) ms, h_remaining := 0, h_state := hello_done\<rparr>, err), rest)"
  using assms
proof (induction ms arbitrary: p)
  case (Cons m ms)
  let ?p = "p\<lparr>h_data := heard (on_authentication_method p) (h_data p) [m], h_remaining := h_remaining p - 1\<rparr>"
  have "h_remaining p \<noteq> 0" using Cons.prems(2) by auto
  then have r: "unat (h_remaining p - 1) = length ms" using Cons.prems(2) by (simp add: unat_minus_one)
  have f: "hello_parser_feed p m = (if h_remaining p - 1 \<le> 0 then ?p\<lparr>h_state := hello_done\<rparr> else ?p)"
    using Cons.prems(1) by (cases "on_authentication_method p") (simp_all add: hello_parser_feed_def heard_def Let_def)
  show ?case
  proof (cases ms)
    case Nil
    with r have "h_remaining p - 1 = 0" by (simp add: unat_eq_0)
    with f Nil show ?thesis by (simp add: hello_step_def hello_is_done_def)
  next
    case (Cons m2 ms2)
    with r have "h_remaining p - 1 \<noteq> 0" by auto
    with f have f': "hello_parser_feed p m = ?p" by (simp add: word_le_0_iff)
    have "heard (on_authentication_method p) (h_data p) (m # ms)
        = heard (on_authentication_method p) (heard (on_authentication_method p) (h_data p) [m]) ms"
      by (simp add: heard_def split: option.split)
    with Cons.IH [of ?p] Cons.prems(1) r f' Cons show ?thesis by (simp add: hello_step_def hello_is_done_def)
  qed
qed simp

section \<open>Properties\<close>

text \<open>
  A well-formed greeting is read to its last byte and no further: the callback hears each of the
  methods in order, the parser is done without an error, and what follows stays in the buffer.
\<close>

lemma hello_reads_greeting:
  assumes "buffer_inv b" "content b = 5 # of_nat (length ms) # ms @ rest" "length ms < 256" "h_state p = hello_version"
  shows "\<exists>p' b'. hello_consume b p err = Inr (hello_done, p', err, b') \<and> buffer_inv b' \<and> content b' = rest
    \<and> h_data p' = heard (on_authentication_method p) (h_data p) ms"
proof -
  have n: "unat (of_nat (length ms) :: byte) = length ms" using assms(3) by (simp add: unat_of_nat take_bit_nat_eq_self)
  let ?p1 = "p\<lparr>h_state := hello_nmethods\<rparr>"
  let ?p2 = "?p1\<lparr>h_remaining := of_nat (length ms), h_state := hello_methods\<rparr>"
  have 1: "hello_parser_feed p 5 = ?p1" using assms(4) by (simp add: hello_parser_feed_def)
  have "\<exists>p'. feed_until hello_step (content b) (p, err) = Inr ((p', err), rest) \<and> h_state p' = hello_done
      \<and> h_data p' = heard (on_authentication_method p) (h_data p) ms"
  proof (cases "ms = []")
    case True
    then have "hello_parser_feed ?p1 0 = ?p2\<lparr>h_state := hello_done\<rparr>" by (simp add: hello_parser_feed_def)
    with 1 True assms(2) show ?thesis by (simp add: hello_step_def hello_is_done_def heard_def split: option.split)
  next
    case False
    then have "(of_nat (length ms) :: byte) \<noteq> 0" using n by (metis length_0_conv unat_0)
    then have "hello_parser_feed ?p1 (of_nat (length ms)) = ?p2" by (simp add: hello_parser_feed_def word_le_0_iff)
    with 1 assms(2) hello_methods_run [of ?p2 ms rest err] n False show ?thesis
      by (simp add: hello_step_def hello_is_done_def)
  qed
  with consume_buffer_feeds [OF assms(1), of hello_step "(p, err)"] show ?thesis by (auto simp: hello_consume_def)
qed

lemma hello_reads_greeting_example:
  "\<exists>p' b'. hello_consume ((buffer_init 8 [5, 2, 0, 2, 9, 0, 0, 0])\<lparr>b_write := 5\<rparr>)
      \<lparr>on_authentication_method = Some (\<lambda>d m. d @ [m]), h_data = [], h_state = hello_version, h_remaining = 0\<rparr> False
    = Inr (hello_done, p', False, b') \<and> buffer_inv b' \<and> content b' = [9] \<and> h_data p' = [0, 2]"
  using hello_reads_greeting [of "(buffer_init 8 [5, 2, 0, 2, 9, 0, 0, 0])\<lparr>b_write := 5\<rparr>" "[0, 2]" "[9]"
      "\<lparr>on_authentication_method = Some (\<lambda>d m. d @ [m]), h_data = [], h_state = hello_version, h_remaining = 0\<rparr>" False]
  by (simp add: content_def buffer_init_def buffer_inv_def heard_def)

text \<open>The reply is the version and the method chosen, or nothing when two bytes do not fit.\<close>

lemma hello_marshall_ok:
  assumes "buffer_inv b"
  shows "\<exists>b'. hello_marshall b m = Inr (if room b < 2 then - 1 else 2, b') \<and> buffer_inv b'
    \<and> content b' = content b @ (if room b < 2 then [] else [5, m])"
proof (cases "room b < 2")
  case True
  with assms show ?thesis by (simp add: hello_marshall_def)
next
  case False
  then have "length [5, m] \<le> room b" by simp
  from buffer_fill_ok [OF assms this] False assms show ?thesis by (auto simp: hello_marshall_def)
qed

end
