(* ===== verification/Netutils.thy ===== *)
theory Netutils
  imports Buffer Commands
begin

text \<open>
  The helpers of \<^verbatim>\<open>src/server/netutils.c\<close>: writing a buffer to a socket and copying one socket to another,
  both blocking, and the text of a socket address. What each call of the system returns is an argument:
  \<open>Sent n\<close> for a positive result, \<open>Failed e\<close> with the value of \<open>errno\<close> for any other.
\<close>

section \<open>Blocking writes\<close>

datatype sent = Sent nat | Failed int

text \<open>The loop ends when nothing is left or a call fails; with no more answers it is still blocked.\<close>

fun sock_blocking_write :: "sent list \<Rightarrow> buffer \<Rightarrow> (int \<times> byte list \<times> buffer) res" where
  "sock_blocking_write [] b = Inl Diverges"
| "sock_blocking_write (Failed e # answers) b = rbind (buffer_read_ptr b) (\<lambda>_. Inr (e, [], b))"
| "sock_blocking_write (Sent n # answers) b =
     rbind (buffer_read_ptr b) (\<lambda>bytes.
     let n = min n (length bytes) in
     rbind (buffer_read_adv b (int n)) (\<lambda>b.
     if buffer_can_read b then
       rbind (sock_blocking_write answers b) (\<lambda>(ret, out, b). Inr (ret, take n bytes @ out, b))
     else Inr (0, take n bytes, b)))"

text \<open>The inner loop of the copy, over the bytes of one \<open>recv\<close>.\<close>

fun send_chunk :: "sent list \<Rightarrow> byte list \<Rightarrow> (int \<times> byte list \<times> sent list) res" where
  "send_chunk [] bs = Inl Diverges"
| "send_chunk (Failed e # answers) bs = Inr (e, [], answers)"
| "send_chunk (Sent n # answers) bs =
     (let n = min n (length bs)
      in if drop n bs \<noteq> [] then
           rbind (send_chunk answers (drop n bs)) (\<lambda>(ret, out, answers). Inr (ret, take n bs @ out, answers))
         else Inr (0, take n bs, answers))"

fun sock_blocking_copy :: "byte list option list \<Rightarrow> sent list \<Rightarrow> (int \<times> byte list) res" where
  "sock_blocking_copy [] answers = Inl Diverges"
| "sock_blocking_copy (None # chunks) answers = Inr (0, [])"
| "sock_blocking_copy (Some [] # chunks) answers = Inr (0, [])"
| "sock_blocking_copy (Some bs # chunks) answers =
     rbind (send_chunk answers (take 4096 bs)) (\<lambda>(ret, out, answers).
     if ret \<noteq> 0 then Inr (ret, out)
     else rbind (sock_blocking_copy chunks answers) (\<lambda>(ret, out'). Inr (ret, out @ out')))"

section \<open>Printing an address\<close>

text \<open>An address of a known family with what \<open>inet_ntop\<close> makes of it, or of another family.\<close>

datatype sockaddr = Inet "cstring option" u16 | Other_family

text \<open>\<open>strncat\<close> appends at most \<open>n\<close> bytes and then a zero; \<open>snprintf\<close> cuts to the size given.\<close>

definition put_string :: "nat \<Rightarrow> cstring \<Rightarrow> byte list \<Rightarrow> byte list res" where
  "put_string i s mem = (if i + length s < length mem then Inr (take i mem @ s @ 0 # drop (Suc (i + length s)) mem) else Inl OutOfBounds)"

definition strncat :: "byte list \<Rightarrow> cstring \<Rightarrow> nat \<Rightarrow> byte list res" where
  "strncat mem src n = rbind (mem_string mem) (\<lambda>s. put_string (length s) (take n src) mem)"

definition snprintf_at :: "nat \<Rightarrow> nat \<Rightarrow> cstring \<Rightarrow> byte list \<Rightarrow> byte list res" where
  "snprintf_at i n s mem = (if n = 0 then Inr mem else put_string i (take (n - 1) s) mem)"

definition close_string :: "nat \<Rightarrow> byte list \<Rightarrow> byte list res" where
  "close_string n mem = store_at (n - 1) 0 mem"

definition sockaddr_to_human :: "byte list \<Rightarrow> nat \<Rightarrow> sockaddr option \<Rightarrow> byte list res" where
  "sockaddr_to_human buff buffsize addr =
     (case addr of
       None \<Rightarrow> Inr (strncpy buff (str ''null'') buffsize)
     | Some a \<Rightarrow>
         rbind (case a of
             Inet (Some ip) port \<Rightarrow> put_string 0 ip buff
           | Inet None port \<Rightarrow> close_string buffsize (strncpy buff (str ''unknown ip'') buffsize)
           | Other_family \<Rightarrow> Inr (strncpy buff (str ''unknown'') buffsize)) (\<lambda>mem.
         rbind (strncat mem (str '':'') buffsize) (\<lambda>mem.
         rbind (close_string buffsize mem) (\<lambda>mem.
         rbind (mem_string mem) (\<lambda>s.
         rbind (case a of
             Inet ip port \<Rightarrow> snprintf_at (length s) (buffsize - length s) (dec (unat port)) mem
           | Other_family \<Rightarrow> Inr mem) (\<lambda>mem.
         close_string buffsize mem))))))"

section \<open>Levels of the log (\<^verbatim>\<open>src/utils/logger.c\<close>)\<close>

text \<open>\<open>DEBUG\<close>, \<open>INFO\<close>, \<open>ERROR\<close> and \<open>FATAL\<close> are 0 to 3.\<close>

definition setLogLevel :: "int \<Rightarrow> int \<Rightarrow> int" where
  "setLogLevel current_level newLevel = (if 0 \<le> newLevel \<and> newLevel \<le> 3 then newLevel else current_level)"

definition levelDescription :: "int \<Rightarrow> string" where
  "levelDescription level =
     (if level < 0 \<or> level > 3 then [] else [''DEBUG'', ''INFO'', ''ERROR'', ''FATAL''] ! nat level)"

text \<open>The macro \<open>log\<close>: whether it prints, and whether it ends the program.\<close>

definition log_call :: "int \<Rightarrow> int \<Rightarrow> bool \<times> bool" where
  "log_call current_level level = (level \<ge> current_level, level = 3)"

section \<open>What is sent\<close>

text \<open>Whatever the sizes the socket takes, the bytes arrive in order, all of them when no call fails.\<close>

lemma blocking_write_prefix:
  assumes "buffer_inv b" "sock_blocking_write answers b = Inr (ret, out, b')"
  shows "buffer_inv b' \<and> content b = out @ content b' \<and> (content b' = [] \<or> (\<exists>e. Failed e \<in> set answers \<and> ret = e))"
  using assms
proof (induction answers b arbitrary: ret out b' rule: sock_blocking_write.induct)
  case (3 n answers b)
  let ?n = "min n (length (content b))"
  from buffer_read_adv_ok [OF 3(2), of ?n] obtain b1 where
    b1: "buffer_read_adv b (int ?n) = Inr b1" "buffer_inv b1" "content b1 = drop ?n (content b)" by auto
  have split: "take ?n (content b) @ content b1 = content b" using b1(3) by simp
  show ?case
  proof (cases "buffer_can_read b1")
    case True
    with 3(2,3) b1(1) obtain out' where o: "sock_blocking_write answers b1 = Inr (ret, out', b')" "out = take ?n (content b) @ out'"
      by (auto simp: Let_def rbind_eq_Inr)
    from 3(1) [OF refl True b1(2) o(1)] have r: "buffer_inv b'" "content b1 = out' @ content b'"
      "content b' = [] \<or> (\<exists>e. Failed e \<in> set answers \<and> ret = e)" by blast+
    from split r(2) have "content b = out @ content b'" unfolding o(2) by (metis append.assoc)
    with r(1,3) show ?thesis by auto
  next
    case False
    with 3(2,3) b1(1) have "ret = 0" "out = take ?n (content b)" "b' = b1" by (auto simp: Let_def)
    with b1 split False can_read_content [OF b1(2)] show ?thesis by auto
  qed
qed auto

lemma send_chunk_prefix:
  "send_chunk answers bs = Inr (ret, out, rest) \<Longrightarrow>
    (\<exists>tl. bs = out @ tl \<and> (tl = [] \<or> Failed ret \<in> set answers)) \<and> set rest \<subseteq> set answers"
proof (induction answers bs arbitrary: ret out rest rule: send_chunk.induct)
  case (3 n answers bs)
  let ?n = "min n (length bs)"
  show ?case
  proof (cases "drop ?n bs = []")
    case True
    with 3(2) have "ret = 0" "out = take ?n bs" "rest = answers" by (simp_all add: Let_def)
    with True show ?thesis by auto
  next
    case False
    with 3(2) obtain out' where o: "send_chunk answers (drop ?n bs) = Inr (ret, out', rest)" "out = take ?n bs @ out'"
      by (auto simp: Let_def rbind_eq_Inr)
    from 3(1) [OF refl False o(1)] obtain tl where "drop ?n bs = out' @ tl" "tl = [] \<or> Failed ret \<in> set answers"
      "set rest \<subseteq> set answers" by blast
    moreover from this(1) o(2) have "bs = out @ tl" by (metis append.assoc append_take_drop_id)
    ultimately show ?thesis by auto
  qed
qed auto

text \<open>A text that fills the buffer leaves no room for the colon: the bound given to \<open>strncat\<close> is not what is left.\<close>

lemma sockaddr_overflow:
  assumes "0 \<notin> set ip" "Suc (length ip) = length buff" "length buff = n"
  shows "sockaddr_to_human buff n (Some (Inet (Some ip) p)) = Inl OutOfBounds"
proof -
  from assms have 1: "put_string 0 ip buff = Inr (ip @ [0])" by (simp add: put_string_def)
  have 2: "mem_string (ip @ [0]) = Inr ip" using mem_string_append_zero [OF assms(1), of "[]"] by simp
  have "strncat (ip @ [0]) (str '':'') n = Inl OutOfBounds" using assms(2,3) by (simp add: strncat_def 2 put_string_def)
  with 1 show ?thesis by (simp add: sockaddr_to_human_def)
qed

end
