(* ===== verification/Spec2Isabelle.thy ===== *)
theory Spec2Isabelle
  imports Closing Farewell Pieces Login Arguments Client MailLexer Hello Netutils
begin

text \<open>
  A verification development for a POP3 server and the client of its monitor, written in C.

  The program. One thread waits in a selector (\<^verbatim>\<open>selector.c\<close>) for its sockets and calls back the handler of
  each ready one. A POP3 client gets a session (\<^verbatim>\<open>pop3nio.c\<close>): a machine of states (\<^verbatim>\<open>stm.c\<close>) that reads
  commands with a lexer (\<^verbatim>\<open>tokenizer.c\<close> on the engine of \<^verbatim>\<open>parser.c\<close>), runs them (\<^verbatim>\<open>comparator.c\<close>) on the
  mails of its user (\<^verbatim>\<open>email.c\<close>) and sends replies and mails through buffers (\<^verbatim>\<open>buffer.c\<close>). An administrator
  gets a monitor connection (\<^verbatim>\<open>monitornio.c\<close>) that reads one request with the parser of \<^verbatim>\<open>monitor.c\<close>, acts on
  the users, the administrators and the counters, and answers. \<^verbatim>\<open>server.c\<close> reads the command line
  (\<^verbatim>\<open>args.c\<close>), opens the sockets and runs the loop. \<^verbatim>\<open>client.c\<close> and \<^verbatim>\<open>client/\<close> are the administrator's program.

  How C is modelled. A call gives a value of \<open>res\<close>: its result, or the \<open>fault\<close> that C leaves undefined
  (an access outside an array, to freed or unwritten memory, through a null pointer), an \<open>abort()\<close>, or
  \<open>Diverges\<close> for a loop that does not end. A structure is a record, memory a list of cells, an object
  of the heap an entry of a map from addresses that \<open>free\<close> removes; integers are words of their
  width where they can wrap. What the operating system answers is an argument: the record \<open>os\<close> for
  the file system, \<open>io\<close> for the calls of one event, \<open>answers\<close> for those of one round, \<open>boot\<close> for the start. The calls on the passive sockets, the
  bytes sent, the descriptors closed and the files removed are kept as traces.

  The theories, each importing those it calls:
  \<^item> \<open>Prelude\<close>: the types above and lemmas on them.
  \<^item> \<open>Buffer\<close>, \<open>Parser\<close>, \<open>Tokenizer\<close>, \<open>Stm\<close>, \<open>Users\<close>, \<open>Selector\<close>, \<open>Maildir\<close>, \<open>Commands\<close>, \<open>Monitor\<close>: one file of
    the program each (the users are the first part of \<^verbatim>\<open>pop3nio.c\<close>), with its operations under the names
    they have there, its invariant, and what each operation does. \<open>Frames\<close> adds what every command keeps.
  \<^item> \<open>World\<close>: the state both services share and the closing of connections; \<open>Session\<close>: the callbacks of a
    session and its events; \<open>Admin\<close>: the monitor connections; \<open>Server\<close>: \<^verbatim>\<open>server.c\<close>.
  \<^item> \<open>Conversation\<close> (what a client's commands do), \<open>Delivery\<close> (how a mail reaches the client), \<open>Soundness\<close>
    (every event keeps every session well-formed), \<open>Service\<close> (what the server does from its start on).
  \<^item> \<open>Turns\<close>, \<open>Dialogue\<close>, \<open>Farewell\<close>: a client's visit. \<open>Turns\<close> gives the effect of one event of a session in exact
    terms, \<open>Dialogue\<close> puts the events together as rounds of the loop, from the connection to the mail, and
    \<open>Farewell\<close> from the marking of a mail to the end of the session. \<open>Pieces\<close> follows a mail whose file is read
    in more than one piece.
  \<^item> \<open>Login\<close>: who is beyond the login. The runs of the loop are followed together with the lists of users that the
    callbacks leave (\<open>recorded\<close>), since a session outlives the user it belongs to.
  \<^item> \<open>Ownership\<close>, \<open>Custody\<close>, \<open>Closing\<close>: who holds which descriptor. \<open>owned\<close> relates the data pointers of the
    selector's table to the live sessions, and \<open>Ownership\<close> shows that every event of a session keeps it;
    \<open>Custody\<close> adds the list of sessions and the administrators' connections with their pool and carries
    both through accepting, the rounds of the loop (\<open>served\<close>) and the closing of connections; \<open>Closing\<close> draws
    the consequences: no dangling data pointer, sessions that end, a server that shuts down.
  \<^item> \<open>Options\<close> (\<open>strtol\<close> and \<open>getopt\<close>), \<open>Arguments\<close> (\<^verbatim>\<open>args.c\<close>) and \<open>Client\<close> (the administrator's program).
  \<^item> \<open>MailLexer\<close>, \<open>Hello\<close>, \<open>Netutils\<close>: files that are compiled in but that nothing calls.
  \<^item> This theory: the server from its command line, and the administrator's program against the server.

  Interfaces. The locales state what one part relies on: queues (\<open>Buffer\<close>), lexers, the machine of states with
  an invariant of its hooks (\<open>Stm\<close>, interpreted on the table of the sessions in \<open>Soundness\<close> and, with the
  ownership of descriptors and with the credentials as the invariants, in \<open>Ownership\<close> and \<open>Login\<close>), the user list as a map from names to passwords
  (\<open>Users\<close>), a registry (\<open>Selector\<close>) and the event loop with an invariant of its callbacks (\<open>Selector\<close>,
  interpreted on the callbacks of the server in \<open>Server\<close>, on those of an honest system in \<open>Custody\<close> and on those
  that remember the lists of users in \<open>Login\<close>). \<open>sound_loop\<close> extends the loop by a log of its calls, which tells
  what a round serves.

  Bounds and fuel. The walks of the linked lists take the size of the store as fuel, which the lemmas on \<open>chain\<close>
  show to be enough; \<open>load_loop\<close> follows the directory and gives \<open>Diverges\<close> where the code does not return;
  the termination of \<open>getopt\<close> loops is by what is left to read. The loops over sockets in \<open>Netutils\<close> follow the
  list of answers. The server's loop follows the rounds it is given, those before the signal that stops it.

  Not modelled. The log lines and messages on the terminal; the address kept with a session, which is
  only printed; the classes of characters of \<^verbatim>\<open>parser.c\<close>, which nothing uses, and the freeing of its table.
  None of it has an effect on the rest. A signal is the end of the rounds that \<open>main\<close> is given.

  What the system is trusted with. \<open>Service\<close> assumes nothing of its answers. \<open>Custody\<close> and \<open>Closing\<close> assume of
  the rounds that \<open>accept\<close> and \<open>open\<close> hand out no descriptor that is still in use (\<open>honest\<close>); the
  standard input is left out, since a session keeps 0 for the descriptor of no mail.

  Open in the plan: an administrator's visit as rounds of the loop (its request is followed up to
  \<open>monitor_read\<close>), and the schedules in which several descriptors are ready in one round of a visit.
\<close>

section \<open>The server program\<close>

text \<open>
  The arguments first, then the server; a path without an end in its array is read beyond it.
\<close>

definition pop3_server :: "boot \<Rightarrow> cstring list \<Rightarrow> (pselect_result \<times> answers) list \<Rightarrow> (int \<times> world) run" where
  "pop3_server b argv rounds =
     xbind (parse_args argv) (\<lambda>args.
     rbind (mem_string (path args)) (\<lambda>p.
     rbind (main b (port args) p rounds) go_on))"

text \<open>
  C36. Started with a port and a mail directory the server runs \<open>main\<close> on them, as long as the directory has
  at most 254 bytes; a longer one is read beyond the array it was copied to. And whatever the system
  answers, a start that gets as far as the loop has asked for exactly four listening sockets: an IPv4 and an
  IPv6 one bound to every address and to that port, its high byte first, and an IPv4 and an IPv6 one bound
  to the port 1081 of the monitor; and it serves that directory.
\<close>

theorem server_obeys_command_line:
  assumes "n \<le> 65535" "0 \<notin> set dir"
  shows "pop3_server b [prog, str ''-p'', dec n, str ''-m'', dir] rounds
    = (if length dir \<le> 254 then rbind (main b (of_nat n) dir rounds) go_on else Inl OutOfBounds)
    \<and> (\<forall>m. main_setup b (main_start (of_nat n) dir) = Inr (Inr m) \<longrightarrow>
        m_calls m = listen_v4 (server_v4 m) n @ listen_v4 (monitor_v4 m) 1081
          @ listen_v6 (server_v6 m) n @ listen_v6 (monitor_v6 m) 1081
        \<and> w_maildir (m_world m) = dir)"
proof -
  have "unat (of_nat n :: u16) = n" using assms(1) by (simp add: unsigned_of_nat take_bit_nat_eq_self)
  then show ?thesis
    using server_arguments [OF assms, of prog] main_setup_calls [of b "of_nat n" dir]
    by (auto simp: pop3_server_def start_calls_def)
qed

theorem server_obeys_command_line_witness:
  "\<exists>m. pop3_server example_boot [str ''pop3'', str ''-p'', dec 1110, str ''-m'', str ''./mail/''] []
      = rbind (main example_boot 1110 (str ''./mail/'') []) go_on
    \<and> main_setup example_boot (main_start 1110 (str ''./mail/'')) = Inr (Inr m)
    \<and> Call_bind (server_v4 m) (Sockaddr_in [0, 0, 0, 0] [4, 86]) \<in> set (m_calls m)
    \<and> w_maildir (m_world m) = str ''./mail/''"
proof -
  have "0 \<notin> set (str ''./mail/'')" "length (str ''./mail/'') \<le> 254" by simp_all
  note c = server_obeys_command_line [of 1110, OF _ this(1), of example_boot "str ''pop3''" "[]"]
  from main_setup_run [OF example_boots, of 1110 "str ''./mail/''"] obtain m where
    m: "main_setup example_boot (main_start 1110 (str ''./mail/'')) = Inr (Inr m)" by blast
  with c have "m_calls m = listen_v4 (server_v4 m) 1110 @ listen_v4 (monitor_v4 m) 1081
      @ listen_v6 (server_v6 m) 1110 @ listen_v6 (monitor_v6 m) 1081 \<and> w_maildir (m_world m) = str ''./mail/''"
    by (simp del: str_Cons)
  with c m show ?thesis by (intro exI [of _ m]) (simp add: listen_v4_def network_port_def del: str_Cons)
qed

section \<open>The administrator's client and the server\<close>

text \<open>The client sends the bytes of its request in one piece, and the server reads them in one piece.\<close>

definition request_bytes :: "client_request_args \<Rightarrow> byte list \<Rightarrow> byte list" where
  "request_bytes r wb = take (BASE_REQUEST_DATA + unat (dlen r)) wb"

text \<open>
  C2. An account made at the administrator's command line can be used: with a valid token, \<open>-u name:password\<close>
  becomes a request whose bytes make the server add that user when the name is new, and leave its users as
  they are when it is taken; the client prints which; and a session that has given the new name
  is logged in by the new password.
\<close>

theorem account_from_command_line:
  assumes "length tk = 16" "u \<noteq> []" "v \<noteq> []" "\<forall>c \<in> set (u @ v). IS_ALNUM c" "length u \<le> 4" "length v \<le> 16"
    and "65556 \<le> length wb" "4 \<le> length buf"
    and "w_admins w a = Some (new_connection fd)" "selector_inv (w_sel w)" "registered (w_sel w) fd = Some it"
    and "users_are (w_users w) xs" "length (combinedlen (w_globals w)) = 2" "check_monitor_admin w tk"
    and "cred_user p = Some u" "buffer_inv (write_buffer p)"
  shows "\<exists>l r wb' w' d buf' st.
      client_parse_args [prog, str ''-u'', u @ 58 # v, tk] = go_on l \<and> cl_requests l = [r]
    \<and> serialize_request r (cl_token l) wb = Inr wb'
    \<and> monitor_read (io\<lparr>io_recv := Some (request_bytes r wb')\<rparr>) fd (Some (Admin_data a)) w = Inr w'
    \<and> users_are (w_users w') (if u \<in> fst ` set xs then xs else xs @ [(u, v)])
    \<and> w_admins w' a = Some d \<and> receive [Some (content (ac_wb d))] buf = Inr buf' \<and> received_bytes 0 1 buf' = Inr [st]
    \<and> process_response st r buf' = Inr [if u \<in> fst ` set xs then refused_line else added_line u]
    \<and> (u \<in> fst ` set xs \<or> (\<exists>b'. pass_handler (env\<lparr>ce_users := w_users w'\<rparr>) (Some v) p
        = Inr (TRANSACTION, p\<lparr>cred_pass := Some v, write_buffer := b'\<rparr>)))"
proof -
  define n where "n = Suc (length u + length v)"
  define r where "r = \<lparr>req_method = config_req, target = add_pop3_user, dlen = of_nat n, data = pair_data u v\<rparr>"
  let ?st = "if u \<in> fst ` set xs then monitor_status_invalid_data else monitor_status_success"
  have u: "length u \<le> 5" "0 \<notin> set u" "0 \<notin> set v" using assms(4,5) IS_ALNUM_0 by (auto simp: ball_Un)
  from add_user_line [OF assms(1-4) u(1) assms(6,7) n_def r_def] obtain wb' where
    line: "client_parse_args [prog, str ''-u'', u @ 58 # v, tk] = go_on \<lparr>cl_requests = [r], cl_token = tk, cl_port = 1081\<rparr>"
    and wb: "serialize_request r tk wb = Inr wb'"
      "request_bytes r wb' = config_header tk monitor_config_add_pop3 (of_nat n) @ u @ 0 # v"
    unfolding request_bytes_def by blast
  have "n < 240" using assms(5,6) by (simp add: n_def)
  from monitor_adds_user [OF assms(9-14,1-5) n_def this, of "io\<lparr>io_recv := Some (request_bytes r wb')\<rparr>"] wb(2)
  obtain w' d where srv: "monitor_read (io\<lparr>io_recv := Some (request_bytes r wb')\<rparr>) fd (Some (Admin_data a)) w = Inr w'"
      "users_are (w_users w') (if u \<in> fst ` set xs then xs else xs @ [(u, v)])" "w_admins w' a = Some d"
      "content (ac_wb d) = [?st, 0, 1, 0]" by auto
  from answer_is_printed [OF u(2,3,1) assms(6,8), of r ?st] obtain buf' where
    "receive [Some (content (ac_wb d))] buf = Inr buf'" "received_bytes 0 1 buf' = Inr [?st]"
    "process_response ?st r buf' = Inr [if u \<in> fst ` set xs then refused_line else added_line u]"
    unfolding srv(4) by (auto simp: r_def)
  moreover have "u \<in> fst ` set xs \<or> (\<exists>b'. pass_handler (env\<lparr>ce_users := w_users w'\<rparr>) (Some v) p
      = Inr (TRANSACTION, p\<lparr>cred_pass := Some v, write_buffer := b'\<rparr>))"
    using pass_logs_in [OF assms(15,16), of "env\<lparr>ce_users := w_users w'\<rparr>" "xs @ [(u, v)]" v] srv(2)
    by (cases "u \<in> fst ` set xs") simp_all
  ultimately show ?thesis using line wb(1) srv(1-3)
    by (intro exI [of _ "\<lparr>cl_requests = [r], cl_token = tk, cl_port = 1081\<rparr>"] exI [of _ r] exI [of _ wb'] exI [of _ w']
        exI [of _ d] exI [of _ buf'] exI [of _ ?st]) simp
qed

theorem account_from_command_line_witness:
  "\<exists>w l r wb' w' d buf' st. monitored w
    \<and> client_parse_args [str ''client'', str ''-u'', str ''ana'' @ 58 # str ''pwd'', root_token] = go_on l \<and> cl_requests l = [r]
    \<and> serialize_request r (cl_token l) example_stack = Inr wb'
    \<and> monitor_read (example_io [] \<lparr>io_recv := Some (request_bytes r wb')\<rparr>) 7 (Some (Admin_data 0)) w = Inr w'
    \<and> users_are (w_users w') [(str ''foo'', str ''bar''), (str ''ana'', str ''pwd'')]
    \<and> w_admins w' 0 = Some d \<and> receive [Some (content (ac_wb d))] example_memory = Inr buf'
    \<and> received_bytes 0 1 buf' = Inr [st] \<and> process_response st r buf' = Inr [added_line (str ''ana'')]
    \<and> (\<exists>b'. pass_handler (example_env\<lparr>ce_users := w_users w'\<rparr>) (Some (str ''pwd'')) (example_session\<lparr>cred_user := Some (str ''ana'')\<rparr>)
        = Inr (TRANSACTION, example_session\<lparr>cred_user := Some (str ''ana''), cred_pass := Some (str ''pwd''), write_buffer := b'\<rparr>))"
proof -
  obtain w where m: "monitored w" using monitored_exists by blast
  then have w: "users_are (w_users w) [(str ''foo'', str ''bar'')]" "admins_are w [(str ''root'', root_token)]"
    "w_admins w 0 = Some (new_connection 7)" "selector_inv (w_sel w)" "length (combinedlen (w_globals w)) = 2"
    unfolding monitored_def by blast+
  obtain it where it: "registered (w_sel w) 7 = Some it" using m unfolding monitored_def by blast
  have c: "check_monitor_admin w root_token" using check_entries [OF w(2), of root_token] by simp
  let ?u = "str ''ana''" and ?v = "str ''pwd''"
  let ?p = "example_session\<lparr>cred_user := Some ?u\<rparr>"
  have "length ?u \<le> 4" "length ?v \<le> 16" "?u \<noteq> []" "?v \<noteq> []" "\<forall>c \<in> set (?u @ ?v). IS_ALNUM c"
    "?u \<notin> fst ` set [(str ''foo'', str ''bar'')]" by (simp_all add: IS_ALNUM_def)
  with account_from_command_line [OF length_root_token _ _ _ _ _ _ _ w(3,4) it w(1,5) c, of ?u ?v example_stack
      example_memory ?p "str ''client''" "example_io []" example_env] m show ?thesis
    by (simp add: example_lengths example_fields del: str_Cons) blast
qed

text \<open>
  C3. The number an administrator reads is the number the server holds: \<open>-c\<close>, \<open>-C\<close> or \<open>-b\<close> with a valid
  token becomes a request that the server answers with the current sessions, the sessions so far or the
  bytes sent (the last cut to 32 bits), and the client prints that number in decimal.
\<close>

theorem counter_from_command_line:
  assumes "(x, t, name) \<in> counters" "length tk = 16" "22 \<le> length wb" "7 \<le> length buf"
    and "w_admins w a = Some (new_connection fd)" "selector_inv (w_sel w)" "registered (w_sel w) fd = Some it"
    and "check_monitor_admin w tk"
    and "(t, n) \<in> {(get_historic_connections, historic_connections w), (get_concurrent_connections, connections w),
      (get_transferred_bytes, ucast (transfer_bytes w))}"
  shows "\<exists>l r wb' w' d buf'. client_parse_args [prog, [45, x], tk] = go_on l \<and> cl_requests l = [r]
    \<and> serialize_request r (cl_token l) wb = Inr wb'
    \<and> monitor_read (io\<lparr>io_recv := Some (request_bytes r wb')\<rparr>) fd (Some (Admin_data a)) w = Inr w'
    \<and> w_admins w' a = Some d \<and> receive [Some (content (ac_wb d))] buf = Inr buf' \<and> received_bytes 0 1 buf' = Inr [0]
    \<and> process_response 0 r buf' = Inr [str ''The amount of '' @ str name @ str '' is: '' @ fmt_u n @ [LF]]"
proof -
  let ?r = "query_request t"
  from serialize_query [OF assms(2,3), of t] obtain wb' where
    wb: "serialize_request ?r tk wb = Inr wb'" "request_bytes ?r wb' = 1 # tk @ [0, ucast t] @ [0, 1, 0]"
    unfolding request_bytes_def by blast
  have "(ucast t, n) \<in> {(monitor_data_historic, historic_connections w), (monitor_data_current, connections w),
      (monitor_data_tranfer_bytes, ucast (transfer_bytes w))}" using assms(9) by auto
  from monitor_reads_query [OF assms(5-8,2) _ _ this, of "[0, 1, 0]" "io\<lparr>io_recv := Some (request_bytes ?r wb')\<rparr>"] wb(2)
  obtain w' d where srv: "monitor_read (io\<lparr>io_recv := Some (request_bytes ?r wb')\<rparr>) fd (Some (Admin_data a)) w = Inr w'"
      "w_admins w' a = Some d" "content (ac_wb d) = [0, 0, 4] @ htonl n" by auto
  from counter_is_printed [OF assms(1,4), of n] obtain buf' where
    "receive [Some (content (ac_wb d))] buf = Inr buf'" "received_bytes 0 1 buf' = Inr [0]"
    "process_response 0 ?r buf' = Inr [str ''The amount of '' @ str name @ str '' is: '' @ fmt_u n @ [LF]]"
    unfolding srv(3) by blast
  with query_line [OF assms(1,2), of prog] wb(1) srv(1,2) show ?thesis
    by (intro exI [of _ "\<lparr>cl_requests = [?r], cl_token = tk, cl_port = 1081\<rparr>"] exI [of _ ?r] exI [of _ wb'] exI [of _ w']
        exI [of _ d] exI [of _ buf']) simp
qed

theorem counter_from_command_line_witness:
  "\<exists>w l r wb' w' d buf'. monitored w \<and> client_parse_args [str ''client'', str ''-c'', root_token] = go_on l \<and> cl_requests l = [r]
    \<and> serialize_request r (cl_token l) example_stack = Inr wb'
    \<and> monitor_read (example_io [] \<lparr>io_recv := Some (request_bytes r wb')\<rparr>) 7 (Some (Admin_data 0)) (w\<lparr>connections := 3\<rparr>) = Inr w'
    \<and> w_admins w' 0 = Some d \<and> receive [Some (content (ac_wb d))] example_memory = Inr buf' \<and> received_bytes 0 1 buf' = Inr [0]
    \<and> process_response 0 r buf'
        = Inr [str ''The amount of '' @ str ''concurrent connections'' @ str '' is: '' @ fmt_u 3 @ [LF]]"
proof -
  obtain w where m: "monitored w" using monitored_exists by blast
  then have w: "admins_are w [(str ''root'', root_token)]" "w_admins w 0 = Some (new_connection 7)" "selector_inv (w_sel w)"
    unfolding monitored_def by blast+
  obtain it where it: "registered (w_sel w) 7 = Some it" using m unfolding monitored_def by blast
  let ?w = "w\<lparr>connections := 3\<rparr>"
  from check_entries [OF w(1), of root_token] have c: "check_monitor_admin ?w root_token" by (simp add: check_monitor_admin_def)
  have q: "(99, 1, ''concurrent connections'') \<in> counters" by (simp add: counters_def)
  have "w_admins ?w 0 = Some (new_connection 7)" "selector_inv (w_sel ?w)" "registered (w_sel ?w) 7 = Some it"
    using w(2,3) it by simp_all
  from counter_from_command_line [OF q length_root_token _ _ this c, of example_stack example_memory 3 "str ''client''" "example_io []"]
    m show ?thesis by (auto simp: example_lengths)
qed

end
